(* ===== verification/Wybra_Prelude.thy ===== *)
theory Wybra_Prelude
  imports Main "HOL-Library.AList" "HOL-Library.Char_ord" "HOL-Library.List_Lexorder"
    "HOL-Library.Product_Lexorder" "HOL-Library.Multiset"
begin

text \<open>
  What every component of the development shares.

  \<^item> The Python exceptions the modelled code raises, as the datatype \<open>exn\<close>. A fallible
    computation is a value of \<open>exn + 'a\<close> (\<open>Inl\<close> is a raise); an operation on mutable state
    is a function \<open>'s \<Rightarrow> (exn + 'a) \<times> 's\<close>, because what the code mutated before it raised
    stays mutated. Messages of exceptions are left out, their classes are kept.
  \<^item> Python dictionaries as association lists: \<open>AList.update\<close> overwrites in place or appends
    at the end, as insertion-ordered dictionaries do; \<open>AList.delete\<close> is \<open>dict.pop(k, None)\<close>.
  \<^item> The part of \<open>str\<close> the code uses (\<open>strip\<close>, \<open>startswith\<close>, membership) on strings over
    the code points U+0000 to U+00FF.
  \<^item> Generic facts on lists, association lists and runs of a step function.
\<close>

section \<open>Collections of facts\<close>

named_theorems py_simps \<open>unfolding rules of the exception and state combinators\<close>
named_theorems dict_simps \<open>rewrite rules for dictionaries as association lists\<close>
named_theorems op_defs \<open>definitions of the operations of a component\<close>

section \<open>Exceptions and stateful operations\<close>

datatype exn =
    ValueError
  | TypeError
  | OverflowError
  | CacheFeatureError
  | CacheConflictError
  | CacheWorkQueueRejectedError
  | CachePositionExpiredError
  | TimeoutError
  | QueueEmpty
  | TaskLifecycleError
  | TaskProgressError
  | ScopeDeclarationError
  | Http403
  | ContentTypeError
  | UnknownContentTypeError
  | SiteCapabilityError
  | ConfigurationError
  | ConfigSourceError
  | ConfigDefinitionError
  | ImportError
  | CacheNotFoundError
  | CacheFeatureUnavailableError
  | CancelledError
  | ExceptionGroup "exn list"
  | KeyError
  | AttributeError
  | TaskDeclarationError
  | TaskPayloadError
  | TaskRegistrationError
  | OtherError nat

type_synonym 'a result = "exn + 'a"
type_synonym ('s, 'a) pyop = "'s \<Rightarrow> 'a result \<times> 's"

text \<open>\<open>checked r s f\<close>: a pure computation \<open>r\<close> run while the state is \<open>s\<close>. A raise leaves the
  operation with the state as it is.\<close>

definition checked :: "'b result \<Rightarrow> 's \<Rightarrow> ('b \<Rightarrow> 'a result \<times> 's) \<Rightarrow> 'a result \<times> 's" where
  "checked r s f = (case r of Inl e \<Rightarrow> (Inl e, s) | Inr x \<Rightarrow> f x)"

text \<open>\<open>py_bind m f\<close>: a stateful step \<open>m\<close> whose result the rest of the operation uses.\<close>

definition py_bind :: "'b result \<times> 's \<Rightarrow> ('b \<Rightarrow> 's \<Rightarrow> 'a result \<times> 's) \<Rightarrow> 'a result \<times> 's" where
  "py_bind m f = (case m of (Inl e, s) \<Rightarrow> (Inl e, s) | (Inr x, s) \<Rightarrow> f x s)"

text \<open>\<open>res_bind\<close> sequences two pure fallible computations.\<close>

definition res_bind :: "'b result \<Rightarrow> ('b \<Rightarrow> 'a result) \<Rightarrow> 'a result" where
  "res_bind r f = (case r of Inl e \<Rightarrow> Inl e | Inr x \<Rightarrow> f x)"

lemma checked_simps [simp, py_simps]:
  "checked (Inl e) s f = (Inl e, s)"
  "checked (Inr x) s f = f x"
  by (simp_all add: checked_def)

text \<open>The results of a list of computations, or the first exception.\<close>

fun all_results :: "'a result list \<Rightarrow> 'a list result" where
  "all_results [] = Inr []"
| "all_results (r # rs) = res_bind r (\<lambda>x. res_bind (all_results rs) (\<lambda>xs. Inr (x # xs)))"

lemma py_bind_simps [simp, py_simps]:
  "py_bind (Inl e, s) g = (Inl e, s)"
  "py_bind (Inr x, s) g = g x s"
  by (simp_all add: py_bind_def)

lemma res_bind_simps [simp, py_simps]:
  "res_bind (Inl e) f = Inl e"
  "res_bind (Inr x) f = f x"
  by (simp_all add: res_bind_def)

lemma checked_split:
  "P (checked r s f) \<longleftrightarrow> (\<forall>e. r = Inl e \<longrightarrow> P (Inl e, s)) \<and> (\<forall>x. r = Inr x \<longrightarrow> P (f x))"
  by (cases r) simp_all

lemma checked_split_asm:
  "P (checked r s f) \<longleftrightarrow>
     \<not> ((\<exists>e. r = Inl e \<and> \<not> P (Inl e, s)) \<or> (\<exists>x. r = Inr x \<and> \<not> P (f x)))"
  by (cases r) simp_all

lemmas checked_splits = checked_split checked_split_asm

lemma checked_eq_Inr:
  "checked r s f = (Inr y, t) \<longleftrightarrow> (\<exists>x. r = Inr x \<and> f x = (Inr y, t))"
  by (cases r) auto

lemma res_bind_eq_Inr [simp]: "res_bind r f = Inr y \<longleftrightarrow> (\<exists>x. r = Inr x \<and> f x = Inr y)"
  by (cases r) auto

lemma all_results_Inr: "all_results rs = Inr xs \<longleftrightarrow> rs = map Inr xs"
proof (induction rs arbitrary: xs)
  case (Cons r rs)
  then show ?case by (cases r; cases xs; cases "all_results rs") auto
qed auto

lemma py_bind_eq_Inr: "py_bind m f = (Inr y, t) \<longleftrightarrow> (\<exists>x s. m = (Inr x, s) \<and> f x s = (Inr y, t))"
  by (cases m; cases "fst m") auto

text \<open>An operation keeps an invariant if each of its paths does.\<close>

lemma checked_keeps:
  assumes "P s" and "\<And>x. r = Inr x \<Longrightarrow> P (snd (f x))"
  shows "P (snd (checked r s f))"
  using assms by (cases r) simp_all

lemma py_bind_keeps:
  assumes "P (snd m)" and "\<And>x s. m = (Inr x, s) \<Longrightarrow> P (snd (f x s))"
  shows "P (snd (py_bind m f))"
  using assms by (cases m; cases "fst m") auto

section \<open>Dictionaries\<close>

type_synonym ('k, 'v) dict = "('k \<times> 'v) list"

abbreviation dict_get :: "('k, 'v) dict \<Rightarrow> 'k \<Rightarrow> 'v option" where
  "dict_get \<equiv> map_of"

abbreviation dict_set :: "'k \<Rightarrow> 'v \<Rightarrow> ('k, 'v) dict \<Rightarrow> ('k, 'v) dict" where
  "dict_set \<equiv> AList.update"

abbreviation dict_pop :: "'k \<Rightarrow> ('k, 'v) dict \<Rightarrow> ('k, 'v) dict" where
  "dict_pop \<equiv> AList.delete"

abbreviation dict_keys :: "('k, 'v) dict \<Rightarrow> 'k list" where
  "dict_keys d \<equiv> map fst d"

abbreviation dict_values :: "('k, 'v) dict \<Rightarrow> 'v list" where
  "dict_values d \<equiv> map snd d"

text \<open>A loop \<open>for k in ks: d.pop(k, None)\<close>.\<close>

definition dict_pop_all :: "'k list \<Rightarrow> ('k, 'v) dict \<Rightarrow> ('k, 'v) dict" where
  "dict_pop_all ks d = fold dict_pop ks d"

lemma dict_get_set [simp, dict_simps]:
  "dict_get (dict_set k v d) k' = (if k' = k then Some v else dict_get d k')"
  by (simp add: update_conv')

lemma dict_get_pop [simp, dict_simps]:
  "dict_get (dict_pop k d) k' = (if k' = k then None else dict_get d k')"
  by (simp add: delete_conv')

lemma dict_keys_distinct_set [simp, intro]:
  "distinct (dict_keys d) \<Longrightarrow> distinct (dict_keys (dict_set k v d))"
  by (rule distinct_update)

lemma dict_keys_distinct_pop [simp, intro]:
  "distinct (dict_keys d) \<Longrightarrow> distinct (dict_keys (dict_pop k d))"
  by (rule distinct_delete)

lemma length_dict_set:
  "length (dict_set k v d) = (if dict_get d k = None then Suc (length d) else length d)"
  by (induction d) auto

lemma length_dict_pop:
  assumes "distinct (dict_keys d)"
  shows "length (dict_pop k d) = (if dict_get d k = None then length d else length d - 1)"
proof -
  have "length (dict_pop k d) = length (removeAll k (dict_keys d))"
    by (metis delete_keys length_map)
  also have "\<dots> = length d - (if k \<in> set (dict_keys d) then 1 else 0)"
    using assms by (simp add: distinct_remove1_removeAll [symmetric] length_remove1)
  finally show ?thesis
    by (auto simp: map_of_eq_None_iff)
qed

lemma set_dict_pop [simp, dict_simps]: "set (dict_pop k d) = {p \<in> set d. fst p \<noteq> k}"
  by (induction d) auto

lemma set_dict_set:
  "distinct (dict_keys d) \<Longrightarrow> set (dict_set k v d) = insert (k, v) {p \<in> set d. fst p \<noteq> k}"
proof (induction d)
  case (Cons p d)
  then show ?case by (cases p) (auto simp: image_iff)
qed simp

lemma set_dict_set_subset: "set (dict_set k v d) \<subseteq> insert (k, v) (set d)"
  by (induction d) auto

lemma distinct_map_dict_set:
  assumes "distinct (map (\<lambda>p. g (snd p)) d)" and "g v \<notin> g ` snd ` set d"
  shows "distinct (map (\<lambda>p. g (snd p)) (dict_set k v d))"
  using assms
proof (induction d)
  case (Cons p d)
  show ?case
  proof (cases "fst p = k")
    case True
    then show ?thesis using Cons.prems by (cases p) (auto simp: image_image)
  next
    case False
    have "g (snd p) \<notin> set (map (\<lambda>p. g (snd p)) (dict_set k v d))"
      using Cons.prems set_dict_set_subset [of k v d] by (force simp: image_iff)
    moreover have "distinct (map (\<lambda>p. g (snd p)) (dict_set k v d))"
      using Cons.IH Cons.prems by simp
    ultimately show ?thesis using False by (cases p) simp
  qed
qed simp

lemma dict_set_new: "dict_get d k = None \<Longrightarrow> dict_set k v d = d @ [(k, v)]"
  by (induction d) (auto split: if_splits)

lemma dict_get_in_set: "dict_get d k = Some v \<Longrightarrow> (k, v) \<in> set d"
  by (rule map_of_SomeD)

lemma in_dict_iff: "dict_get d k \<noteq> None \<longleftrightarrow> k \<in> set (dict_keys d)"
  by (simp add: map_of_eq_None_iff)

text \<open>Popping all keys whose entry satisfies a predicate is filtering, on distinct keys.\<close>

lemma dict_pop_all_filter: "dict_pop_all ks d = filter (\<lambda>p. fst p \<notin> set ks) d"
proof (induction ks arbitrary: d)
  case Nil
  show ?case by (simp add: dict_pop_all_def)
next
  case (Cons k ks)
  have "dict_pop_all (k # ks) d = dict_pop_all ks (dict_pop k d)"
    by (simp add: dict_pop_all_def)
  also have "\<dots> = filter (\<lambda>p. fst p \<notin> set ks) (dict_pop k d)"
    by (rule Cons.IH)
  also have "\<dots> = filter (\<lambda>p. fst p \<notin> set (k # ks)) d"
    by (auto simp: AList.delete_eq intro!: filter_cong)
  finally show ?case .
qed

lemma dict_get_pop_all [simp, dict_simps]:
  "dict_get (dict_pop_all ks d) k = (if k \<in> set ks then None else dict_get d k)"
  by (induction ks arbitrary: d) (simp_all add: dict_pop_all_def)

lemma dict_pop_expired:
  assumes "distinct (dict_keys d)"
  shows "dict_pop_all [k. (k, v) \<leftarrow> d, P v] d = filter (\<lambda>p. \<not> P (snd p)) d"
proof -
  have "fst p \<notin> set [k. (k, v) \<leftarrow> d, P v] \<longleftrightarrow> \<not> P (snd p)" if "p \<in> set d" for p
  proof -
    have "v = snd p" if "(fst p, v) \<in> set d" for v
      using that \<open>p \<in> set d\<close> assms by (metis eq_key_imp_eq_value prod.collapse)
    moreover have "(fst p, snd p) \<in> set d" using that by simp
    ultimately show ?thesis by auto
  qed
  then have "filter (\<lambda>p. fst p \<notin> set [k. (k, v) \<leftarrow> d, P v]) d = filter (\<lambda>p. \<not> P (snd p)) d"
    by (rule filter_cong [OF refl])
  then show ?thesis
    by (simp only: dict_pop_all_filter)
qed

lemma distinct_dict_pop_all [simp, intro]:
  "distinct (dict_keys d) \<Longrightarrow> distinct (dict_keys (dict_pop_all ks d))"
  by (simp add: dict_pop_all_filter distinct_map_filter)

lemma dict_get_filter:
  assumes "distinct (dict_keys d)"
  shows "dict_get (filter (\<lambda>p. P (fst p) (snd p)) d) k =
    (case dict_get d k of None \<Rightarrow> None | Some v \<Rightarrow> if P k v then Some v else None)"
  using assms by (induction d) (auto simp: map_of_eq_None_iff rev_image_eqI split: option.splits)

lemma dict_get_filter_Some:
  "distinct (dict_keys d) \<Longrightarrow> dict_get (filter P d) k = Some v \<Longrightarrow> dict_get d k = Some v"
  by (metis (no_types, lifting) filter_is_subset map_of_SomeD map_of_is_SomeI subset_iff)

lemma dict_pop_absent: "dict_get d k = None \<Longrightarrow> dict_pop k d = d"
  by (force simp: AList.delete_eq filter_id_conv map_of_eq_None_iff)

section \<open>Bounded queues\<close>

text \<open>\<open>d.get(k, ())\<close> and \<open>d.setdefault(k, deque()).append(x)\<close>.\<close>

definition queue_of :: "('k, 'a list) dict \<Rightarrow> 'k \<Rightarrow> 'a list" where
  "queue_of d k = (case dict_get d k of None \<Rightarrow> [] | Some xs \<Rightarrow> xs)"

definition queue_append :: "'k \<Rightarrow> 'a \<Rightarrow> ('k, 'a list) dict \<Rightarrow> ('k, 'a list) dict" where
  "queue_append k x d = dict_set k (queue_of d k @ [x]) d"

lemma queue_of_set [simp]: "queue_of (dict_set k xs d) k' = (if k' = k then xs else queue_of d k')"
  by (simp add: queue_of_def)

lemma queue_of_append [simp]:
  "queue_of (queue_append k x d) k' = (if k' = k then queue_of d k @ [x] else queue_of d k')"
  by (simp add: queue_append_def)

lemma distinct_queue_append [simp]:
  "distinct (dict_keys d) \<Longrightarrow> distinct (dict_keys (queue_append k x d))"
  by (simp add: queue_append_def)

text \<open>\<open>while len(q) > n: q.popleft()\<close>.\<close>

fun trim_left :: "int \<Rightarrow> 'a list \<Rightarrow> 'a list" where
  "trim_left n [] = []"
| "trim_left n (x # xs) = (if n < int (length (x # xs)) then trim_left n xs else x # xs)"

text \<open>\<open>keep_last n xs\<close> is what a queue of capacity \<open>n\<close> retains of \<open>xs\<close>.\<close>

definition keep_last :: "int \<Rightarrow> 'a list \<Rightarrow> 'a list" where
  "keep_last n xs = drop (length xs - nat n) xs"

lemma keep_last_append [simp]:
  "0 \<le> n \<Longrightarrow> keep_last n (keep_last n xs @ ys) = keep_last n (xs @ ys)"
proof -
  have rev: "keep_last n zs = rev (take (nat n) (rev zs))" for zs :: "'a list"
    by (simp add: keep_last_def rev_take)
  show ?thesis by (simp add: rev min_def)
qed

lemma keep_last_short: "int (length xs) \<le> n \<Longrightarrow> keep_last n xs = xs"
  by (simp add: keep_last_def)

lemma length_keep_last: "0 \<le> n \<Longrightarrow> int (length (keep_last n xs)) \<le> n"
  by (simp add: keep_last_def)

lemma trim_left_keep_last: "0 \<le> n \<Longrightarrow> trim_left n xs = keep_last n xs"
proof (induction xs)
  case Nil
  show ?case by (simp add: keep_last_def)
next
  case (Cons x xs)
  show ?case
  proof (cases "n < int (length (x # xs))")
    case True
    then have "length (x # xs) - nat n = Suc (length xs - nat n)" using Cons.prems by auto
    then show ?thesis using True Cons by (simp add: keep_last_def)
  qed (simp add: keep_last_def)
qed

lemma set_keep_last: "set (keep_last n xs) \<subseteq> set xs"
  by (simp add: keep_last_def set_drop_subset)

text \<open>All elements of a dictionary of lists, with their keys.\<close>

definition dict_items :: "('k, 'a list) dict \<Rightarrow> ('k \<times> 'a) list" where
  "dict_items d = concat (map (\<lambda>(k, xs). map (Pair k) xs) d)"

lemma mset_dict_items_set:
  assumes "distinct (dict_keys d)"
  shows "mset (dict_items (dict_set k xs d)) + mset (map (Pair k) (queue_of d k))
    = mset (dict_items d) + mset (map (Pair k) xs)"
  using assms
proof (induction d)
  case Nil
  show ?case by (simp add: dict_items_def queue_of_def)
next
  case (Cons p d)
  then show ?case by (cases p) (auto simp: dict_items_def queue_of_def)
qed

lemma mset_dict_items_pop:
  assumes "distinct (dict_keys d)"
  shows "mset (dict_items (dict_pop k d)) + mset (map (Pair k) (queue_of d k)) = mset (dict_items d)"
  using assms
proof (induction d)
  case Nil
  show ?case by (simp add: dict_items_def queue_of_def)
next
  case (Cons p d)
  have "dict_pop k d = d" if "fst p = k"
    using that Cons.prems by (auto simp: AList.delete_eq filter_id_conv image_iff)
  then show ?case using Cons by (cases p) (auto simp: dict_items_def queue_of_def)
qed

lemma mset_dict_items_append [simp]:
  "distinct (dict_keys d) \<Longrightarrow>
     mset (dict_items (queue_append k x d)) = add_mset (k, x) (mset (dict_items d))"
  using mset_dict_items_set [of d k "queue_of d k @ [x]"] by (simp add: queue_append_def)

text \<open>A dictionary whose values are computed from those of another one.\<close>

definition dict_map :: "('k \<Rightarrow> 'v \<Rightarrow> 'w) \<Rightarrow> ('k, 'v) dict \<Rightarrow> ('k, 'w) dict" where
  "dict_map f d = map (\<lambda>(k, v). (k, f k v)) d"

lemma dict_get_map [simp]: "dict_get (dict_map f d) k = map_option (f k) (dict_get d k)"
  by (induction d) (auto simp: dict_map_def)

lemma length_dict_map [simp]: "length (dict_map f d) = length d"
  by (simp add: dict_map_def)

lemma dict_map_set: "dict_map f (dict_set k v d) = dict_set k (f k v) (dict_map f d)"
  by (induction d) (auto simp: dict_map_def)

lemma dict_set_set [simp]: "dict_set k v (dict_set k w d) = dict_set k v d"
  by (induction d) auto

section \<open>Strings\<close>

text \<open>\<open>str.isspace\<close> on the code points below U+0100.\<close>

definition py_isspace :: "char \<Rightarrow> bool" where
  "py_isspace c \<longleftrightarrow> (of_char c :: nat) \<in> {9, 10, 11, 12, 13, 28, 29, 30, 31, 32, 133, 160}"

definition py_lstrip :: "string \<Rightarrow> string" where
  "py_lstrip s = dropWhile py_isspace s"

definition py_strip :: "string \<Rightarrow> string" where
  "py_strip s = rev (py_lstrip (rev (py_lstrip s)))"

definition py_startswith :: "string \<Rightarrow> string \<Rightarrow> bool" where
  "py_startswith s p \<longleftrightarrow> take (length p) s = p"

lemma all_dropWhile_iff: "(\<forall>c \<in> set (dropWhile P s). P c) \<longleftrightarrow> (\<forall>c \<in> set s. P c)"
  by (induction s) auto

lemma py_strip_empty_iff: "py_strip s = [] \<longleftrightarrow> (\<forall>c \<in> set s. py_isspace c)"
  by (simp add: py_strip_def py_lstrip_def all_dropWhile_iff)

lemma py_startswith_iff: "py_startswith s p \<longleftrightarrow> (\<exists>t. s = p @ t)"
  by (auto simp: py_startswith_def) (metis append_take_drop_id)

text \<open>A separator that occurs in neither of two prefixes splits at the same place.\<close>

lemma append_sep_eq:
  assumes "sep \<notin> set xs" and "sep \<notin> set xs'" and "xs @ sep # ys = xs' @ sep # ys'"
  shows "xs = xs' \<and> ys = ys'"
  using assms
proof (induction xs arbitrary: xs')
  case Nil
  then show ?case by (cases xs') auto
next
  case (Cons x xs)
  then show ?case by (cases xs') auto
qed

section \<open>Runs\<close>

text \<open>A sequence of calls: each element is the transformer one call applies to the state.\<close>

definition run :: "('c \<Rightarrow> 's \<Rightarrow> 's) \<Rightarrow> 'c list \<Rightarrow> 's \<Rightarrow> 's" where
  "run step cs s = fold step cs s"

lemma run_simps [simp]:
  "run step [] s = s"
  "run step (c # cs) s = run step cs (step c s)"
  "run step (cs @ ds) s = run step ds (run step cs s)"
  by (simp_all add: run_def)

lemma run_invariant:
  assumes "I s" and "\<And>c s. I s \<Longrightarrow> I (step c s)"
  shows "I (run step cs s)"
  using assms(1) by (induction cs arbitrary: s) (simp_all add: assms(2))

lemma run_preorder:
  assumes refl: "\<And>s. R s s" and trans: "\<And>s t u. R s t \<Longrightarrow> R t u \<Longrightarrow> R s u"
    and step: "\<And>c s. I s \<Longrightarrow> R s (step c s)" and inv: "\<And>c s. I s \<Longrightarrow> I (step c s)"
    and "I s"
  shows "R s (run step cs s)"
  using \<open>I s\<close>
proof (induction cs arbitrary: s)
  case Nil
  show ?case by (simp add: refl)
next
  case (Cons c cs)
  have "R (step c s) (run step cs (step c s))"
    by (rule Cons.IH) (rule inv [OF Cons.prems])
  with step [OF Cons.prems] show ?case
    by (auto intro: trans)
qed

text \<open>The same for runs of some of the calls.\<close>

lemma run_invariant_on:
  assumes "I s" and "\<And>c s. c \<in> set cs \<Longrightarrow> I s \<Longrightarrow> I (step c s)"
  shows "I (run step cs s)"
  using assms by (induction cs arbitrary: s) simp_all

lemma run_preorder_on:
  assumes refl: "\<And>s. R s s" and trans: "\<And>s t u. R s t \<Longrightarrow> R t u \<Longrightarrow> R s u"
    and step: "\<And>c s. c \<in> set cs \<Longrightarrow> I s \<Longrightarrow> R s (step c s)"
    and inv: "\<And>c s. c \<in> set cs \<Longrightarrow> I s \<Longrightarrow> I (step c s)" and "I s"
  shows "R s (run step cs s)"
proof -
  have "I (run step cs s) \<and> R s (run step cs s)"
    using step inv \<open>I s\<close>
  proof (induction cs arbitrary: s)
    case (Cons c cs)
    have "I (step c s)" and "R s (step c s)" using Cons.prems by auto
    then show ?case using Cons.IH [of "step c s"] Cons.prems(1,2) by (auto intro: trans)
  qed (simp add: refl)
  then show ?thesis by simp
qed

text \<open>The results a sequence of calls returns, one after the other.\<close>

fun results :: "('c \<Rightarrow> 's \<Rightarrow> 'r \<times> 's) \<Rightarrow> 'c list \<Rightarrow> 's \<Rightarrow> 'r list" where
  "results exec [] s = []"
| "results exec (c # cs) s = fst (exec c s) # results exec cs (snd (exec c s))"

lemma sort_key_map_on:
  assumes "\<And>x. x \<in> set xs \<Longrightarrow> f (h x) = g x"
  shows "sort_key f (map h xs) = map h (sort_key g xs)"
  using assms
proof (induction xs)
  case (Cons x xs)
  have "insort_key f (h x) (map h ys) = map h (insort_key g x ys)" if "\<And>y. y \<in> set ys \<Longrightarrow> f (h y) = g y" for ys
    using that Cons.prems by (induction ys) simp_all
  from this [of "sort_key g xs"] show ?case using Cons by simp
qed simp

lemma sort_key_map: "(\<And>x. f (h x) = g x) \<Longrightarrow> sort_key f (map h xs) = map h (sort_key g xs)"
  by (rule sort_key_map_on)

end
