(* ===== verification/Py_Float.thy ===== *)
theory Py_Float
  imports Complex_Main Wybra_Prelude "HOL-Library.Log_Nat"
begin

text \<open>
  Python's \<open>float\<close>: IEEE 754 binary64. A value is a rational, an infinity or NaN; addition and
  subtraction compute exactly and round to the nearest double (ties to even), overflowing to an
  infinity, as CPython does on every supported platform. The signs of zeros are not told apart.
  Comparison is the IEEE one: nothing compares with NaN.
\<close>

datatype pyfloat = Fin rat | PInf | NInf | NaN

section \<open>Rounding to binary64\<close>

definition flog2 :: "rat \<Rightarrow> int" where
  "flog2 x = (let (p, q) = quotient_of x; k = bitlen p - bitlen q
              in if 2 powi k \<le> x then k else k - 1)"

definition ulp_exp :: "rat \<Rightarrow> int" where
  "ulp_exp x = (if x = 0 then -1074 else max (-1074) (flog2 \<bar>x\<bar> - 52))"

definition round_half_even :: "rat \<Rightarrow> int" where
  "round_half_even y =
     (let f = \<lfloor>y\<rfloor>; d = y - of_int f
      in if d < 1/2 then f else if d > 1/2 then f + 1 else if even f then f else f + 1)"

definition overflow_bound :: rat where
  "overflow_bound = 2 powi 1024"

definition fl :: "rat \<Rightarrow> pyfloat" where
  "fl x =
     (let e = ulp_exp x; r = of_int (round_half_even (x / 2 powi e)) * 2 powi e
      in if r \<ge> overflow_bound then PInf else if r \<le> - overflow_bound then NInf else Fin r)"

section \<open>Arithmetic and comparison\<close>

instantiation pyfloat :: "{plus, minus, ord, zero}"
begin

definition zero_pyfloat :: pyfloat where
  "zero_pyfloat = Fin 0"

fun plus_pyfloat :: "pyfloat \<Rightarrow> pyfloat \<Rightarrow> pyfloat" where
  "plus_pyfloat (Fin a) (Fin b) = fl (a + b)"
| "plus_pyfloat NaN _ = NaN"
| "plus_pyfloat _ NaN = NaN"
| "plus_pyfloat PInf NInf = NaN"
| "plus_pyfloat NInf PInf = NaN"
| "plus_pyfloat PInf _ = PInf"
| "plus_pyfloat _ PInf = PInf"
| "plus_pyfloat NInf _ = NInf"
| "plus_pyfloat _ NInf = NInf"

fun minus_pyfloat :: "pyfloat \<Rightarrow> pyfloat \<Rightarrow> pyfloat" where
  "minus_pyfloat (Fin a) (Fin b) = fl (a - b)"
| "minus_pyfloat NaN _ = NaN"
| "minus_pyfloat _ NaN = NaN"
| "minus_pyfloat PInf PInf = NaN"
| "minus_pyfloat NInf NInf = NaN"
| "minus_pyfloat PInf _ = PInf"
| "minus_pyfloat _ PInf = NInf"
| "minus_pyfloat NInf _ = NInf"
| "minus_pyfloat _ NInf = PInf"

fun less_eq_pyfloat :: "pyfloat \<Rightarrow> pyfloat \<Rightarrow> bool" where
  "less_eq_pyfloat (Fin a) (Fin b) = (a \<le> b)"
| "less_eq_pyfloat NaN _ = False"
| "less_eq_pyfloat _ NaN = False"
| "less_eq_pyfloat NInf _ = True"
| "less_eq_pyfloat _ PInf = True"
| "less_eq_pyfloat _ _ = False"

fun less_pyfloat :: "pyfloat \<Rightarrow> pyfloat \<Rightarrow> bool" where
  "less_pyfloat (Fin a) (Fin b) = (a < b)"
| "less_pyfloat NaN _ = False"
| "less_pyfloat _ NaN = False"
| "less_pyfloat PInf _ = False"
| "less_pyfloat _ NInf = False"
| "less_pyfloat _ _ = True"

instance ..

end

fun is_finite :: "pyfloat \<Rightarrow> bool" where
  "is_finite (Fin _) = True"
| "is_finite _ = False"

fun is_nan :: "pyfloat \<Rightarrow> bool" where
  "is_nan NaN = True"
| "is_nan _ = False"

text \<open>\<open>==\<close> of Python on floats.\<close>

definition py_eq :: "pyfloat \<Rightarrow> pyfloat \<Rightarrow> bool" where
  "py_eq a b \<longleftrightarrow> a = b \<and> \<not> is_nan a"

text \<open>\<open>min(a, b)\<close> and \<open>max(a, b)\<close>: the first argument unless the second one is smaller
  (greater).\<close>

definition py_min :: "pyfloat \<Rightarrow> pyfloat \<Rightarrow> pyfloat" where
  "py_min a b = (if b < a then b else a)"

definition py_max :: "pyfloat \<Rightarrow> pyfloat \<Rightarrow> pyfloat" where
  "py_max a b = (if a < b then b else a)"

text \<open>\<open>math.fmod\<close> on finite operands with a non-zero divisor: exact, with the sign of the
  dividend.\<close>

definition fmod_fin :: "rat \<Rightarrow> rat \<Rightarrow> rat" where
  "fmod_fin x y = x - y * of_int (if 0 \<le> x / y then \<lfloor>x / y\<rfloor> else \<lceil>x / y\<rceil>)"

text \<open>\<open>math.nextafter(x, math.inf)\<close>: the least double above \<open>x\<close>.\<close>

definition next_step :: "rat \<Rightarrow> rat" where
  "next_step x =
     (let e = ulp_exp x
      in if x < 0 \<and> \<bar>x\<bar> = 2 powi flog2 \<bar>x\<bar> \<and> -1074 < e then 2 powi (e - 1) else 2 powi e)"

fun next_up :: "pyfloat \<Rightarrow> pyfloat" where
  "next_up (Fin x) =
     (if overflow_bound \<le> x + next_step x then PInf else Fin (x + next_step x))"
| "next_up NInf = Fin (- ((2 - 2 powi (-52)) * 2 powi 1023))"
| "next_up PInf = PInf"
| "next_up NaN = NaN"

section \<open>Facts\<close>

lemma pyfloat_le_antisym: "(a :: pyfloat) \<le> b \<Longrightarrow> b \<le> a \<Longrightarrow> a = b"
  by (cases a; cases b) auto

lemma pyfloat_le_trans: "(a :: pyfloat) \<le> b \<Longrightarrow> b \<le> c \<Longrightarrow> a \<le> c"
  by (cases a; cases b; cases c) auto

lemma pyfloat_le_refl [simp]: "a \<le> a \<longleftrightarrow> \<not> is_nan a" for a :: pyfloat
  by (cases a) auto

lemma pyfloat_le_total: "\<not> is_nan a \<Longrightarrow> \<not> is_nan b \<Longrightarrow> (a :: pyfloat) \<le> b \<or> b \<le> a"
  by (cases a; cases b) auto

lemma pyfloat_less_le: "(a :: pyfloat) < b \<longleftrightarrow> a \<le> b \<and> a \<noteq> b"
  by (cases a; cases b) auto

lemma pyfloat_not_le: "\<not> is_nan a \<Longrightarrow> \<not> is_nan b \<Longrightarrow> \<not> a \<le> b \<longleftrightarrow> b < a" for a b :: pyfloat
  by (cases a; cases b) auto

lemma next_step_pos: "0 < next_step x"
  by (simp add: next_step_def Let_def)

lemma next_up_greater: "Fin x < next_up (Fin x)"
  by (simp add: next_step_pos)

lemma round_half_even_of_int [simp]: "round_half_even (of_int n) = n"
  by (simp add: round_half_even_def)

lemma flog2_bounds:
  assumes "0 < x"
  shows "2 powi flog2 x \<le> x" and "x < 2 powi (flog2 x + 1)"
proof -
  obtain p q where pq: "quotient_of x = (p, q)" by fastforce
  have q: "0 < q" using quotient_of_denom_pos [OF pq] .
  have x: "x = of_int p / of_int q" using quotient_of_div [OF pq] .
  with assms q have p: "0 < p" by (simp add: zero_less_divide_iff)
  have bl: "0 \<le> bitlen z - 1" if "0 < z" for z :: int
    using that bitlen_nonneg [of z] bitlen_eq_zero_iff [of z] by linarith
  have pw: "(2::rat) powi (bitlen z - 1) \<le> of_int z" "of_int z < (2::rat) powi (bitlen z)"
    if "0 < z" for z :: int
  proof -
    have "of_int (2 ^ nat (bitlen z - 1)) \<le> (of_int z :: rat)"
      and "of_int z < (of_int (2 ^ nat (bitlen z)) :: rat)"
      using bitlen_bounds [OF that] by (simp_all only: of_int_le_iff of_int_less_iff)
    then show "(2::rat) powi (bitlen z - 1) \<le> of_int z" "of_int z < (2::rat) powi (bitlen z)"
      using bl [OF that] by (simp_all add: power_int_def)
  qed
  define k where "k = bitlen p - bitlen q"
  have lo: "2 powi (k - 1) \<le> x"
  proof -
    have "(2::rat) powi (k - 1) * of_int q \<le> 2 powi (k - 1) * 2 powi (bitlen q)"
      using pw(2) [OF q] by (intro mult_left_mono) auto
    also have "\<dots> = 2 powi (bitlen p - 1)"
      by (simp add: power_int_add [symmetric] k_def)
    also have "\<dots> \<le> of_int p" by (rule pw(1) [OF p])
    finally show ?thesis using q by (simp add: x pos_le_divide_eq)
  qed
  have hi: "x < 2 powi (k + 1)"
  proof -
    have "of_int p < (2::rat) powi (bitlen p)" by (rule pw(2) [OF p])
    also have "\<dots> = 2 powi (k + 1) * 2 powi (bitlen q - 1)"
      by (simp add: power_int_add [symmetric] k_def)
    also have "\<dots> \<le> 2 powi (k + 1) * of_int q"
      using pw(1) [OF q] by (intro mult_left_mono) auto
    finally show ?thesis using q by (simp add: x pos_divide_less_eq)
  qed
  have eq: "flog2 x = (if 2 powi k \<le> x then k else k - 1)"
    by (simp add: flog2_def pq k_def)
  show "2 powi flog2 x \<le> x" and "x < 2 powi (flog2 x + 1)"
    using lo hi by (auto simp: eq)
qed

text \<open>Integers up to \<open>2 ^ 53\<close> in magnitude are doubles: rounding keeps them.\<close>

lemma fl_int:
  assumes "\<bar>n\<bar> \<le> 2 ^ 53"
  shows "fl (of_int n) = Fin (of_int n)"
proof (cases "n = 0")
  case True
  then show ?thesis
    by (simp add: fl_def Let_def overflow_bound_def round_half_even_def)
next
  case False
  define e where "e = ulp_exp (of_int n)"
  have log: "2 powi flog2 (of_int \<bar>n\<bar>) \<le> (of_int \<bar>n\<bar> :: rat)"
    using False by (intro flog2_bounds) simp
  also have "\<dots> \<le> of_int (2 ^ 53)" using assms by (simp only: of_int_le_iff)
  also have "\<dots> = (2::rat) powi 53" by simp
  finally have "flog2 (of_int \<bar>n\<bar>) \<le> 53"
    using power_int_strict_increasing [of 53 "flog2 (of_int \<bar>n\<bar>)" "2 :: rat"]
    by (meson linorder_not_le one_less_numeral_iff semiring_norm(76))
  then have e: "e \<le> 1"
    using False by (simp add: e_def ulp_exp_def)
  have int: "\<exists>m. of_int n / 2 powi e = (of_int m :: rat)"
  proof (cases "e \<le> 0")
    case True
    then have "of_int n / 2 powi e = (of_int (n * 2 ^ nat (- e)) :: rat)"
      by (simp add: power_int_def field_simps)
    then show ?thesis by blast
  next
    case False
    with e have e1: "e = 1" by simp
    then have "flog2 (of_int \<bar>n\<bar>) = 53"
      using \<open>n \<noteq> 0\<close> \<open>flog2 (of_int \<bar>n\<bar>) \<le> 53\<close> by (simp add: e_def ulp_exp_def)
    with log have "of_int (2 ^ 53) \<le> (of_int \<bar>n\<bar> :: rat)" by simp
    then have "2 ^ 53 \<le> \<bar>n\<bar>" by (simp only: of_int_le_iff)
    with assms have "\<bar>n\<bar> = 2 * 2 ^ 52" by simp
    then have "n = 2 * 2 ^ 52 \<or> n = 2 * - (2 ^ 52)" by linarith
    then obtain m where "n = 2 * m" by blast
    then show ?thesis by (intro exI [of _ m]) (simp add: e1)
  qed
  then obtain m where m: "of_int n / 2 powi e = (of_int m :: rat)" by blast
  then have r: "of_int (round_half_even (of_int n / 2 powi e)) * 2 powi e = (of_int n :: rat)"
    by (simp add: field_simps)
  have ob: "(2 ^ 53 :: rat) < overflow_bound"
  proof -
    have "(2::rat) ^ 53 < 2 ^ 1024" by (rule power_strict_increasing) simp_all
    then show ?thesis by (simp add: overflow_bound_def power_int_def)
  qed
  have "\<bar>of_int n\<bar> \<le> (2 ^ 53 :: rat)"
    using assms by (metis of_int_abs of_int_le_numeral_power_cancel_iff)
  then have "\<bar>of_int n\<bar> < overflow_bound" using ob by linarith
  then have "\<not> overflow_bound \<le> of_int n" and "\<not> of_int n \<le> - overflow_bound"
    by linarith+
  then show ?thesis
    by (simp add: fl_def Let_def e_def [symmetric] r)
qed

lemma fl_zero [simp]: "fl 0 = Fin 0"
  using fl_int [of 0] by simp

lemma fl_one [simp]: "fl 1 = Fin 1"
  using fl_int [of 1] by simp

lemma fl_numeral [simp]: "(numeral n :: int) \<le> 2 ^ 53 \<Longrightarrow> fl (numeral n) = Fin (numeral n)"
  using fl_int [of "numeral n"] by simp

lemma fl_neg_numeral [simp]:
  "(numeral n :: int) \<le> 2 ^ 53 \<Longrightarrow> fl (- numeral n) = Fin (- numeral n)"
  using fl_int [of "- numeral n"] by simp

text \<open>Evaluation takes the short way for integers.\<close>

definition fl_general :: "rat \<Rightarrow> pyfloat" where
  "fl_general x = fl x"

lemma fl_code [code]:
  "fl x = (let (p, q) = quotient_of x in if q = 1 \<and> \<bar>p\<bar> \<le> 9007199254740992 then Fin x else fl_general x)"
proof -
  obtain p q where pq: "quotient_of x = (p, q)" by fastforce
  have "fl x = Fin x" if "q = 1" "\<bar>p\<bar> \<le> 9007199254740992"
    using quotient_of_div [OF pq] fl_int [of p] that by simp
  then show ?thesis by (simp add: pq fl_general_def)
qed

lemma fl_general_code [code]:
  "fl_general x =
     (let e = ulp_exp x; r = of_int (round_half_even (x / 2 powi e)) * 2 powi e
      in if r \<ge> overflow_bound then PInf else if r \<le> - overflow_bound then NInf else Fin r)"
  by (simp add: fl_general_def fl_def)

section \<open>Doubles\<close>

text \<open>\<open>is_double\<close> holds of the values a Python float can have. Every sum and difference is one.\<close>

fun is_double :: "pyfloat \<Rightarrow> bool" where
  "is_double (Fin x) \<longleftrightarrow> fl x = Fin x"
| "is_double _ \<longleftrightarrow> True"

lemma ulp_exp_ge: "-1074 \<le> ulp_exp x"
  by (simp add: ulp_exp_def)

text \<open>Doubles are multiples of the least positive double.\<close>

definition least_double :: rat where
  "least_double = 2 powi (-1074)"

lemma least_double_pos: "0 < least_double"
  unfolding least_double_def by (rule zero_less_power_int) simp

lemma powi_least_double:
  assumes "-1074 \<le> e"
  shows "(2::rat) powi e = of_int (2 ^ nat (e + 1074)) * least_double"
proof -
  have "(2::rat) powi e = 2 powi (e + 1074) * least_double"
    using power_int_add [of "2::rat" "e + 1074" "-1074"] unfolding least_double_def by simp
  then show ?thesis using assms by (simp add: power_int_def)
qed

lemma double_grid:
  assumes "fl x = Fin x"
  shows "\<exists>n. x = of_int n * least_double"
proof -
  define e where "e = ulp_exp x"
  define m where "m = round_half_even (x / 2 powi e)"
  have "x = of_int m * 2 powi e"
    using assms by (simp add: fl_def Let_def e_def m_def split: if_splits)
  also have "\<dots> = of_int (m * 2 ^ nat (e + 1074)) * least_double"
    using powi_least_double [of e] ulp_exp_ge [of x] by (simp add: e_def)
  finally show ?thesis by blast
qed

lemma round_half_even_ge_one: "1 \<le> y \<Longrightarrow> 1 \<le> round_half_even y"
  by (auto simp: round_half_even_def Let_def)

lemma fl_positive:
  assumes "least_double \<le> x"
  shows "0 < fl x"
proof -
  let ?e = "ulp_exp x"
  have "0 < x" using assms least_double_pos by linarith
  have "2 powi ?e \<le> x"
  proof (cases "?e = -1074")
    case False
    then have "?e \<le> flog2 x" using \<open>0 < x\<close> by (auto simp: ulp_exp_def split: if_splits)
    then have "(2::rat) powi ?e \<le> 2 powi flog2 x" by (intro power_int_increasing) auto
    then show ?thesis using flog2_bounds(1) [OF \<open>0 < x\<close>] by linarith
  qed (use assms in \<open>simp only: least_double_def\<close>)
  then have "1 \<le> round_half_even (x / 2 powi ?e)" by (intro round_half_even_ge_one) simp
  then have "0 < (of_int (round_half_even (x / 2 powi ?e)) * 2 powi ?e :: rat)" by simp
  then have "\<not> of_int (round_half_even (x / 2 powi ?e)) * 2 powi ?e \<le> - overflow_bound"
    by (simp add: overflow_bound_def not_le)
  then show ?thesis
    using \<open>0 < of_int (round_half_even (x / 2 powi ?e)) * 2 powi ?e\<close>
    by (simp add: fl_def Let_def zero_pyfloat_def)
qed

lemma round_half_even_near:
  assumes "\<bar>y - of_int n\<bar> < 1/2"
  shows "round_half_even y = n"
proof (cases "of_int n \<le> y")
  case True
  then have "\<lfloor>y\<rfloor> = n" using assms unfolding abs_less_iff floor_eq_iff by linarith
  then show ?thesis using assms unfolding round_half_even_def Let_def abs_less_iff by simp
next
  case False
  then have "\<lfloor>y\<rfloor> = n - 1" using assms unfolding abs_less_iff floor_eq_iff by simp
  then show ?thesis using assms False unfolding round_half_even_def Let_def abs_less_iff by simp
qed

lemma powi_less: "(2::rat) powi a < 2 powi b \<Longrightarrow> a < b"
  by (rule ccontr) (use power_int_increasing [of b a "2::rat"] in simp)

lemma powi_multiple:
  assumes "e \<le> k"
  shows "\<exists>q. (2::rat) powi k = of_int q * 2 powi e"
proof -
  have "(2::rat) powi k = 2 powi (k - e) * 2 powi e"
    using power_int_add [of "2::rat" "k - e" e] by simp
  moreover have "(2::rat) powi (k - e) = of_int (2 ^ nat (k - e))"
    using assms by (simp add: power_int_def)
  ultimately show ?thesis by metis
qed

lemma grid_gap:
  assumes "(x::rat) = of_int m * u" "y = of_int n * u" "0 < u" "x < y"
  shows "x + u \<le> y"
proof -
  have "of_int m < (of_int n :: rat)" using assms by simp
  then have "of_int m + 1 \<le> (of_int n :: rat)" by (metis of_int_less_iff of_int_add of_int_1 of_int_le_iff zless_imp_add1_zle)
  then have "(of_int m + 1) * u \<le> of_int n * u" using assms(3) by (simp add: mult_right_mono)
  then show ?thesis by (simp add: assms(1,2) algebra_simps)
qed

lemma flog2_unique:
  assumes "2 powi k \<le> x" "x < 2 powi (k + 1)"
  shows "flog2 x = k"
proof -
  have "0 < x" using assms(1) zero_less_power_int [of "2::rat" k] by linarith
  note b = flog2_bounds [OF this]
  have "k < flog2 x + 1" using assms(1) b(2) powi_less [of k "flog2 x + 1"] by simp
  moreover have "flog2 x < k + 1" using assms(2) b(1) powi_less [of "flog2 x" "k + 1"] by simp
  ultimately show ?thesis by simp
qed

text \<open>A rational closer to a double than a quarter of the gap around it rounds to that double.\<close>

lemma fl_near:
  assumes "fl x = Fin x" and "0 < x" and "\<bar>y - x\<bar> < x / 2 ^ 54"
  shows "fl y = Fin x"
proof -
  define k where "k = flog2 x"
  define e where "e = ulp_exp x"
  define e' where "e' = ulp_exp y"
  define m where "m = round_half_even (x / 2 powi e)"
  have fx: "fl x = (if overflow_bound \<le> of_int m * 2 powi e then PInf
      else if of_int m * 2 powi e \<le> - overflow_bound then NInf else Fin (of_int m * 2 powi e))"
    by (simp add: fl_def Let_def e_def m_def)
  have x: "x = of_int m * 2 powi e" using assms(1) fx by (simp split: if_splits)
  have bounds: "x < overflow_bound" "- overflow_bound < x"
    using assms(1) unfolding fx x [symmetric] by (simp_all split: if_splits)
  have xk: "2 powi k \<le> x" "x < 2 powi (k + 1)" unfolding k_def by (rule flog2_bounds [OF assms(2)])+
  have e: "e = max (-1074) (k - 52)" using assms(2) by (simp add: e_def ulp_exp_def k_def)
  have "x / 2 ^ 54 < x" using assms(2) by (simp add: divide_less_eq)
  then have "0 < y" using assms(3) unfolding abs_less_iff by linarith
  have "2 powi e \<le> x"
    using grid_gap [of 0 0 "2 powi e" x m] x assms(2) by simp
  then have "2 powi e < (2::rat) powi (k + 1)" using xk(2) by linarith
  then have ek: "e \<le> k" using powi_less [of e "k + 1"] by simp
  have tiny: "x / 2 ^ 54 < 2 powi (e - 1)"
  proof -
    have "x / 2 ^ 54 < 2 powi (k + 1) / 2 ^ 54" using xk(2) by (simp add: divide_strict_right_mono)
    also have "\<dots> = 2 powi (k - 53)"
      using power_int_diff [of "2::rat" "k + 1" 54] by simp
    also have "\<dots> \<le> 2 powi (e - 1)" using e by (intro power_int_increasing) auto
    finally show ?thesis .
  qed
  have half: "(2::rat) powi (e - 1) < 2 powi e" by (rule power_int_strict_increasing) auto
  have up: "y < 2 powi (k + 1)"
  proof -
    obtain q where "(2::rat) powi (k + 1) = of_int q * 2 powi e" using powi_multiple [of e "k + 1"] ek by auto
    then have "x + 2 powi e \<le> 2 powi (k + 1)" using grid_gap [OF x] xk(2) by simp
    then show ?thesis using assms(3) tiny half unfolding abs_less_iff by linarith
  qed
  have close: "e' \<le> e \<and> \<bar>y - x\<bar> < 2 powi (e' - 1)"
  proof (cases "2 powi k \<le> y")
    case True
    then have "e' = e" using flog2_unique [OF _ up] \<open>0 < y\<close> e by (simp add: e'_def ulp_exp_def)
    then show ?thesis using less_trans [OF assms(3) tiny] by simp
  next
    case False
    obtain q where q: "(2::rat) powi k = of_int q * 2 powi e" using powi_multiple [OF ek] by auto
    have "x = 2 powi k"
    proof (rule ccontr)
      assume "x \<noteq> 2 powi k"
      then have "2 powi k + 2 powi e \<le> x" using grid_gap [OF q x] xk(1) by simp
      then show False using assms(3) False tiny half unfolding abs_less_iff by linarith
    qed
    have "2 powi (k - 1) = (2 powi k :: rat) / 2" using power_int_diff [of "2::rat" k 1] by simp
    moreover have "x / 2 ^ 54 \<le> x / 2" using assms(2) by (intro divide_left_mono) auto
    ultimately have "2 powi (k - 1) \<le> y" using assms(3) \<open>x = 2 powi k\<close> unfolding abs_less_iff by linarith
    then have "flog2 y = k - 1" using flog2_unique [of "k - 1" y] False by simp
    then have e': "e' = max (-1074) (k - 53)" using \<open>0 < y\<close> by (simp add: e'_def ulp_exp_def)
    have "x / 2 ^ 54 = 2 powi (k - 54)"
      using power_int_diff [of "2::rat" k 54] \<open>x = 2 powi k\<close> by simp
    also have "\<dots> \<le> 2 powi (e' - 1)" using e' by (intro power_int_increasing) auto
    finally show ?thesis using assms(3) e e' by auto
  qed
  obtain q where q: "(2::rat) powi e = of_int q * 2 powi e'" using powi_multiple close by blast
  have p: "(0::rat) < 2 powi e'" by simp
  have "2 powi (e' - 1) = (2 powi e' :: rat) / 2" using power_int_diff [of "2::rat" e' 1] by simp
  then have "\<bar>y - x\<bar> / 2 powi e' < 1 / 2" using close by (simp add: divide_less_eq)
  moreover have "x / 2 powi e' = of_int (m * q)" using x q by simp
  then have "\<bar>y - x\<bar> / 2 powi e' = \<bar>y / 2 powi e' - of_int (m * q)\<bar>"
    by (metis abs_divide abs_of_pos diff_divide_distrib p)
  ultimately have "round_half_even (y / 2 powi e') = m * q" by (intro round_half_even_near) simp
  then have "of_int (round_half_even (y / 2 powi e')) * 2 powi e' = x" using x q by simp
  then show ?thesis using bounds by (simp add: fl_def Let_def e'_def)
qed

lemma round_half_even_minus: "round_half_even (- y) = - round_half_even y"
proof (cases "y \<in> \<int>")
  case True
  then obtain n where "y = of_int n" by (auto elim: Ints_cases)
  then show ?thesis by (simp flip: of_int_minus)
next
  case False
  then have "\<lfloor>- y\<rfloor> = - \<lfloor>y\<rfloor> - 1" by (simp add: floor_minus ceiling_altdef frac_unique_iff) (metis Ints_of_int)
  then show ?thesis by (auto simp: round_half_even_def Let_def)
qed

lemma fl_minus: "fl y = Fin x \<Longrightarrow> fl (- y) = Fin (- x)"
  by (auto simp: fl_def Let_def ulp_exp_def round_half_even_minus split: if_splits)

text \<open>Subtraction does not hide an order: gradual underflow makes a difference of doubles zero
  only if they are equal.\<close>

lemma le_if_minus_not_positive:
  assumes "is_double a" and "is_double b" and "\<not> is_nan a" and "\<not> is_nan b" and "\<not> 0 < a - b"
  shows "a \<le> b"
proof (cases a; cases b)
  fix x y
  assume ab: "a = Fin x" "b = Fin y"
  obtain m n where mn: "x = of_int m * least_double" "y = of_int n * least_double"
    using double_grid assms(1,2) ab by (metis is_double.simps(1))
  have "\<not> n < m"
  proof
    assume "n < m"
    then have "(1::rat) \<le> of_int (m - n)" by simp
    then have "1 * least_double \<le> of_int (m - n) * least_double"
      by (rule mult_right_mono) (simp add: less_imp_le least_double_pos)
    then have "least_double \<le> x - y" by (simp add: mn left_diff_distrib)
    then show False using fl_positive assms(5) ab by simp
  qed
  then show "a \<le> b" by (simp add: ab mn least_double_pos)
qed (use assms in \<open>auto simp: zero_pyfloat_def\<close>)

end
