(* ===== verification/Feature_Models.thy ===== *)
theory Feature_Models
  imports Py_Float "HOL-Library.Word"
begin

text \<open>
  The value types and validators of \<^verbatim>\<open>src/src/wybra/cache/feature_models.py\<close>.

  Arguments that the code inspects with \<open>isinstance\<close> before using them are values of \<open>pyobj\<close>, so
  that every raise of a validator is a branch of the model. A validator returns the value at the
  type it has established: a string, bytes, a finite float (a rational) or an int. The
  \<open>make_\<dots>\<close> functions are the dataclass constructors with their \<open>__post_init__\<close> checks.
\<close>

section \<open>Dynamic values\<close>

type_synonym bytes = "8 word list"

datatype pyobj =
    PyNone
  | PyBool bool
  | PyInt int
  | PyFloat pyfloat
  | PyStr string
  | PyBytes bytes

section \<open>Limits\<close>

definition MAX_CACHE_FEATURE_PAYLOAD_BYTES :: nat where
  "MAX_CACHE_FEATURE_PAYLOAD_BYTES = 65536"

definition MAX_CACHE_VALUE_BYTES :: nat where
  "MAX_CACHE_VALUE_BYTES = 65536"

definition MAX_CACHE_FEATURE_LIMIT :: int where
  "MAX_CACHE_FEATURE_LIMIT = 10000"

definition MAX_CACHE_RESOURCE_LENGTH :: nat where
  "MAX_CACHE_RESOURCE_LENGTH = 4096"

definition MINIMUM_CACHE_TTL_SECONDS :: rat where
  "MINIMUM_CACHE_TTL_SECONDS = 1"

definition MAX_STREAM_POSITION :: int where
  "MAX_STREAM_POSITION = 2 ^ 63 - 1"

lemmas feature_limits =
  MAX_CACHE_FEATURE_PAYLOAD_BYTES_def MAX_CACHE_VALUE_BYTES_def MAX_CACHE_FEATURE_LIMIT_def
  MAX_CACHE_RESOURCE_LENGTH_def MINIMUM_CACHE_TTL_SECONDS_def MAX_STREAM_POSITION_def

section \<open>Validators\<close>

definition is_lower :: "char \<Rightarrow> bool" where
  "is_lower c \<longleftrightarrow> CHR ''a'' \<le> c \<and> c \<le> CHR ''z''"

definition is_digit :: "char \<Rightarrow> bool" where
  "is_digit c \<longleftrightarrow> CHR ''0'' \<le> c \<and> c \<le> CHR ''9''"

text \<open>Full match of \<^verbatim>\<open>[a-z][a-z0-9-]*\<close>.\<close>

fun feature_name_match :: "string \<Rightarrow> bool" where
  "feature_name_match [] = False"
| "feature_name_match (c # cs) =
     (is_lower c \<and> list_all (\<lambda>d. is_lower d \<or> is_digit d \<or> d = CHR ''-'') cs)"

fun validate_feature_name :: "pyobj \<Rightarrow> string result" where
  "validate_feature_name (PyStr s) = (if feature_name_match s then Inr s else Inl ValueError)"
| "validate_feature_name _ = Inl ValueError"

fun validate_resource :: "pyobj \<Rightarrow> string result" where
  "validate_resource (PyStr s) =
     (if py_strip s = [] then Inl ValueError
      else if MAX_CACHE_RESOURCE_LENGTH < length s then Inl ValueError
      else Inr s)"
| "validate_resource _ = Inl ValueError"

fun validate_payload :: "pyobj \<Rightarrow> bytes result" where
  "validate_payload (PyBytes b) =
     (if MAX_CACHE_FEATURE_PAYLOAD_BYTES < length b then Inl ValueError else Inr b)"
| "validate_payload _ = Inl TypeError"

fun validate_cache_value :: "pyobj \<Rightarrow> bytes result" where
  "validate_cache_value (PyBytes b) =
     (if MAX_CACHE_VALUE_BYTES < length b then Inl ValueError else Inr b)"
| "validate_cache_value _ = Inl TypeError"

text \<open>\<open>float(value)\<close> on an int or a float; an int beyond the range of doubles overflows.\<close>

fun to_float :: "pyobj \<Rightarrow> pyfloat result" where
  "to_float (PyInt n) = (if is_finite (fl (of_int n)) then Inr (fl (of_int n)) else Inl OverflowError)"
| "to_float (PyFloat x) = Inr x"
| "to_float _ = Inl TypeError"

fun is_number :: "pyobj \<Rightarrow> bool" where
  "is_number (PyInt _) = True"
| "is_number (PyFloat _) = True"
| "is_number _ = False"

definition validate_finite :: "pyobj \<Rightarrow> rat result" where
  "validate_finite v =
     (if \<not> is_number v then Inl TypeError
      else case to_float v of
          Inl e \<Rightarrow> Inl ValueError
        | Inr (Fin x) \<Rightarrow> Inr x
        | Inr _ \<Rightarrow> Inl ValueError)"

definition validate_cache_ttl :: "pyobj \<Rightarrow> rat result" where
  "validate_cache_ttl v =
     (if \<not> is_number v then Inl ValueError
      else case to_float v of
          Inl e \<Rightarrow> Inl ValueError
        | Inr (Fin x) \<Rightarrow> if x < MINIMUM_CACHE_TTL_SECONDS then Inl ValueError else Inr x
        | Inr _ \<Rightarrow> Inl ValueError)"

definition validate_positive_finite :: "pyobj \<Rightarrow> rat result" where
  "validate_positive_finite v =
     res_bind (validate_finite v) (\<lambda>x. if x \<le> 0 then Inl ValueError else Inr x)"

definition validate_non_negative_finite :: "pyobj \<Rightarrow> rat result" where
  "validate_non_negative_finite v =
     res_bind (validate_finite v) (\<lambda>x. if x < 0 then Inl ValueError else Inr x)"

fun validate_positive_integer :: "pyobj \<Rightarrow> int result" where
  "validate_positive_integer (PyInt n) = (if n \<le> 0 then Inl ValueError else Inr n)"
| "validate_positive_integer _ = Inl ValueError"

definition validate_limit :: "pyobj \<Rightarrow> int result" where
  "validate_limit v =
     res_bind (validate_positive_integer v)
       (\<lambda>n. if MAX_CACHE_FEATURE_LIMIT < n then Inl ValueError else Inr n)"

definition validate_schedule_values ::
    "pyobj \<Rightarrow> pyobj \<Rightarrow> pyobj \<Rightarrow> (bytes \<times> rat \<times> rat option) result" where
  "validate_schedule_values payload next_due_at interval_seconds =
     res_bind (validate_payload payload) (\<lambda>p.
     res_bind (validate_finite next_due_at) (\<lambda>d.
       if interval_seconds = PyNone then Inr (p, d, None)
       else res_bind (validate_positive_finite interval_seconds) (\<lambda>i. Inr (p, d, Some i))))"

section \<open>Value types\<close>

datatype CacheRevision = CacheRevision (revision_value: int)
datatype FencingToken = FencingToken (fencing_value: int)
datatype StreamPosition = StreamPosition (position_value: int)
datatype WorkIdentity = WorkIdentity (identity_value: string)

definition make_CacheRevision :: "pyobj \<Rightarrow> CacheRevision result" where
  "make_CacheRevision v = res_bind (validate_positive_integer v) (\<lambda>n. Inr (CacheRevision n))"

definition make_FencingToken :: "pyobj \<Rightarrow> FencingToken result" where
  "make_FencingToken v = res_bind (validate_positive_integer v) (\<lambda>n. Inr (FencingToken n))"

definition make_StreamPosition :: "pyobj \<Rightarrow> StreamPosition result" where
  "make_StreamPosition v =
     res_bind (validate_positive_integer v)
       (\<lambda>n. if MAX_STREAM_POSITION < n then Inl ValueError else Inr (StreamPosition n))"

definition make_WorkIdentity :: "pyobj \<Rightarrow> WorkIdentity result" where
  "make_WorkIdentity v = res_bind (validate_resource v) (\<lambda>s. Inr (WorkIdentity s))"

text \<open>\<open>dataclass(order=True)\<close> compares the values.\<close>

instantiation StreamPosition :: linorder
begin

definition less_eq_StreamPosition :: "StreamPosition \<Rightarrow> StreamPosition \<Rightarrow> bool" where
  "less_eq_StreamPosition a b \<longleftrightarrow> position_value a \<le> position_value b"

definition less_StreamPosition :: "StreamPosition \<Rightarrow> StreamPosition \<Rightarrow> bool" where
  "less_StreamPosition a b \<longleftrightarrow> position_value a < position_value b"

instance
  by standard
    (auto simp: less_eq_StreamPosition_def less_StreamPosition_def intro: StreamPosition.expand)

end

instantiation FencingToken :: linorder
begin

definition less_eq_FencingToken :: "FencingToken \<Rightarrow> FencingToken \<Rightarrow> bool" where
  "less_eq_FencingToken a b \<longleftrightarrow> fencing_value a \<le> fencing_value b"

definition less_FencingToken :: "FencingToken \<Rightarrow> FencingToken \<Rightarrow> bool" where
  "less_FencingToken a b \<longleftrightarrow> fencing_value a < fencing_value b"

instance
  by standard
    (auto simp: less_eq_FencingToken_def less_FencingToken_def intro: FencingToken.expand)

end

instantiation CacheRevision :: linorder
begin

definition less_eq_CacheRevision :: "CacheRevision \<Rightarrow> CacheRevision \<Rightarrow> bool" where
  "less_eq_CacheRevision a b \<longleftrightarrow> revision_value a \<le> revision_value b"

definition less_CacheRevision :: "CacheRevision \<Rightarrow> CacheRevision \<Rightarrow> bool" where
  "less_CacheRevision a b \<longleftrightarrow> revision_value a < revision_value b"

instance
  by standard
    (auto simp: less_eq_CacheRevision_def less_CacheRevision_def intro: CacheRevision.expand)

end

record AtomicCacheValue =
  av_value :: bytes
  av_revision :: CacheRevision

definition make_AtomicCacheValue :: "bytes \<Rightarrow> CacheRevision \<Rightarrow> AtomicCacheValue result" where
  "make_AtomicCacheValue value revision =
     res_bind (validate_payload (PyBytes value)) (\<lambda>v. Inr \<lparr>av_value = v, av_revision = revision\<rparr>)"

record CounterCacheValue =
  cv_value :: int
  cv_revision :: CacheRevision

record LeaseToken =
  lt_owner :: string
  lt_resource :: string
  lt_holder :: string
  lt_fencing_token :: FencingToken
  lt_expires_at :: rat
  lt_token :: string

definition make_LeaseToken ::
    "string \<Rightarrow> string \<Rightarrow> string \<Rightarrow> FencingToken \<Rightarrow> pyfloat \<Rightarrow> string \<Rightarrow> LeaseToken result" where
  "make_LeaseToken owner resource holder fencing_token expires_at token =
     res_bind (validate_resource (PyStr owner)) (\<lambda>ow.
     res_bind (validate_resource (PyStr resource)) (\<lambda>re.
     res_bind (validate_resource (PyStr holder)) (\<lambda>ho.
     res_bind (validate_finite (PyFloat expires_at)) (\<lambda>ex.
     res_bind (validate_resource (PyStr token)) (\<lambda>tk.
       Inr \<lparr>lt_owner = ow, lt_resource = re, lt_holder = ho, lt_fencing_token = fencing_token,
            lt_expires_at = ex, lt_token = tk\<rparr>)))))"

record WorkDelivery =
  wd_queue :: string
  wd_identity :: WorkIdentity
  wd_payload :: bytes
  wd_attempt :: int
  wd_visible_until :: rat
  wd_receipt :: string

definition make_WorkDelivery ::
    "string \<Rightarrow> WorkIdentity \<Rightarrow> bytes \<Rightarrow> int \<Rightarrow> pyfloat \<Rightarrow> string \<Rightarrow> WorkDelivery result" where
  "make_WorkDelivery queue identity payload attempt visible_until receipt =
     res_bind (validate_resource (PyStr queue)) (\<lambda>qu.
     res_bind (validate_payload (PyBytes payload)) (\<lambda>pl.
     res_bind (validate_positive_integer (PyInt attempt)) (\<lambda>att.
     res_bind (validate_finite (PyFloat visible_until)) (\<lambda>vu.
     res_bind (validate_resource (PyStr receipt)) (\<lambda>rc.
       Inr \<lparr>wd_queue = qu, wd_identity = identity, wd_payload = pl, wd_attempt = att,
            wd_visible_until = vu, wd_receipt = rc\<rparr>)))))"

record StreamRecord =
  sr_stream :: string
  sr_position :: StreamPosition
  sr_payload :: bytes

definition make_StreamRecord :: "string \<Rightarrow> StreamPosition \<Rightarrow> bytes \<Rightarrow> StreamRecord result" where
  "make_StreamRecord stream position payload =
     res_bind (validate_resource (PyStr stream)) (\<lambda>st.
     res_bind (validate_payload (PyBytes payload)) (\<lambda>pl.
       Inr \<lparr>sr_stream = st, sr_position = position, sr_payload = pl\<rparr>))"

record ScheduleRecord =
  sc_identity :: string
  sc_revision :: CacheRevision
  sc_payload :: bytes
  sc_next_due_at :: rat
  sc_interval_seconds :: "rat option"

definition make_ScheduleRecord ::
    "string \<Rightarrow> CacheRevision \<Rightarrow> bytes \<Rightarrow> pyfloat \<Rightarrow> rat option \<Rightarrow> ScheduleRecord result" where
  "make_ScheduleRecord identity revision payload next_due_at interval_seconds =
     res_bind (validate_resource (PyStr identity)) (\<lambda>idn.
     res_bind (validate_payload (PyBytes payload)) (\<lambda>pl.
     res_bind (validate_finite (PyFloat next_due_at)) (\<lambda>due.
     res_bind (case interval_seconds of None \<Rightarrow> Inr None
               | Some i \<Rightarrow> res_bind (validate_positive_finite (PyFloat (Fin i))) (\<lambda>j. Inr (Some j)))
       (\<lambda>iv. Inr \<lparr>sc_identity = idn, sc_revision = revision, sc_payload = pl,
                  sc_next_due_at = due, sc_interval_seconds = iv\<rparr>))))"

record ScheduleCursor =
  cu_next_due_at :: rat
  cu_identity :: string

definition make_ScheduleCursor :: "pyobj \<Rightarrow> pyobj \<Rightarrow> ScheduleCursor result" where
  "make_ScheduleCursor next_due_at identity =
     res_bind (validate_finite next_due_at) (\<lambda>due.
     res_bind (validate_resource identity) (\<lambda>idn.
       Inr \<lparr>cu_next_due_at = due, cu_identity = idn\<rparr>))"

record ScheduleClaim =
  cl_owner :: string
  cl_record :: ScheduleRecord
  cl_claimant :: string
  cl_fencing_token :: FencingToken
  cl_expires_at :: rat
  cl_token :: string

definition make_ScheduleClaim ::
    "string \<Rightarrow> ScheduleRecord \<Rightarrow> string \<Rightarrow> FencingToken \<Rightarrow> pyfloat \<Rightarrow> string \<Rightarrow> ScheduleClaim result"
where
  "make_ScheduleClaim owner record claimant fencing_token expires_at token =
     res_bind (validate_resource (PyStr owner)) (\<lambda>ow.
     res_bind (validate_resource (PyStr claimant)) (\<lambda>ct.
     res_bind (validate_finite (PyFloat expires_at)) (\<lambda>ex.
     res_bind (validate_resource (PyStr token)) (\<lambda>tk.
       Inr \<lparr>cl_owner = ow, cl_record = record, cl_claimant = ct, cl_fencing_token = fencing_token,
            cl_expires_at = ex, cl_token = tk\<rparr>))))"

section \<open>Feature metadata\<close>

record CacheFeatureGuarantees =
  fg_scope :: string
  fg_durable :: bool
  fg_restart_recovery :: bool
  fg_horizontal_consumers :: bool
  fg_ordering_scope :: "string option"
  fg_replay :: bool
  fg_retention :: bool
  fg_acknowledgement :: bool
  fg_redelivery :: bool
  fg_scheduling :: bool

definition make_CacheFeatureGuarantees :: "CacheFeatureGuarantees \<Rightarrow> CacheFeatureGuarantees result" where
  "make_CacheFeatureGuarantees g =
     (if fg_scope g \<notin> {''process'', ''shared''} then Inl ValueError
      else case fg_ordering_scope g of
          None \<Rightarrow> Inr g
        | Some scope \<Rightarrow> res_bind (validate_feature_name (PyStr scope)) (\<lambda>_. Inr g))"

record CacheFeatureMetadata =
  fm_name :: string
  fm_guarantees :: CacheFeatureGuarantees

definition make_CacheFeatureMetadata ::
    "pyobj \<Rightarrow> CacheFeatureGuarantees \<Rightarrow> CacheFeatureMetadata result" where
  "make_CacheFeatureMetadata name guarantees =
     res_bind (validate_feature_name name)
       (\<lambda>n. Inr \<lparr>fm_name = n, fm_guarantees = guarantees\<rparr>)"

section \<open>What the validators establish\<close>

lemma validate_resource_Inr_iff [simp]:
  "validate_resource v = Inr s \<longleftrightarrow>
     v = PyStr s \<and> py_strip s \<noteq> [] \<and> length s \<le> MAX_CACHE_RESOURCE_LENGTH"
  by (cases v) auto

lemma validate_payload_Inr_iff [simp]:
  "validate_payload v = Inr b \<longleftrightarrow> v = PyBytes b \<and> length b \<le> MAX_CACHE_FEATURE_PAYLOAD_BYTES"
  by (cases v) auto

lemma validate_cache_value_Inr_iff [simp]:
  "validate_cache_value v = Inr b \<longleftrightarrow> v = PyBytes b \<and> length b \<le> MAX_CACHE_VALUE_BYTES"
  by (cases v) auto

lemma validate_positive_integer_Inr_iff [simp]:
  "validate_positive_integer v = Inr n \<longleftrightarrow> v = PyInt n \<and> 0 < n"
  by (cases v) auto

lemmas validator_eqs =
  validate_feature_name.simps validate_resource.simps validate_payload.simps
  validate_cache_value.simps validate_positive_integer.simps

declare validator_eqs [simp del]

text \<open>Code equations that compare lengths as integers, for evaluation in the kernel.\<close>

lemma validate_resource_code [code]:
  "validate_resource v = (case v of
     PyStr s \<Rightarrow> if py_strip s = [] then Inl ValueError
       else if 4096 < int (length s) then Inl ValueError else Inr s
   | _ \<Rightarrow> Inl ValueError)"
  by (cases v) (auto simp: validator_eqs feature_limits)

lemma validate_payload_code [code]:
  "validate_payload v = (case v of
     PyBytes b \<Rightarrow> if 65536 < int (length b) then Inl ValueError else Inr b
   | _ \<Rightarrow> Inl TypeError)"
  by (cases v) (auto simp: validator_eqs feature_limits)

lemma validate_cache_value_code [code]:
  "validate_cache_value v = (case v of
     PyBytes b \<Rightarrow> if 65536 < int (length b) then Inl ValueError else Inr b
   | _ \<Rightarrow> Inl TypeError)"
  by (cases v) (auto simp: validator_eqs feature_limits)

lemma validate_finite_Inr_iff:
  "validate_finite v = Inr x \<longleftrightarrow> v = PyFloat (Fin x) \<or> (\<exists>n. v = PyInt n \<and> fl (of_int n) = Fin x)"
  by (cases v) (auto simp: validate_finite_def split: pyfloat.splits)

lemma validate_finite_PyFloat [simp]:
  "validate_finite (PyFloat f) = (case f of Fin x \<Rightarrow> Inr x | _ \<Rightarrow> Inl ValueError)"
  by (cases f) (auto simp: validate_finite_def)

lemma validate_positive_finite_pos: "validate_positive_finite v = Inr x \<Longrightarrow> 0 < x"
  by (auto simp: validate_positive_finite_def split: if_splits)

lemma validate_non_negative_finite_nonneg: "validate_non_negative_finite v = Inr x \<Longrightarrow> 0 \<le> x"
  by (auto simp: validate_non_negative_finite_def split: if_splits)

lemma validate_limit_Inr_iff [simp]:
  "validate_limit v = Inr n \<longleftrightarrow> v = PyInt n \<and> 0 < n \<and> n \<le> MAX_CACHE_FEATURE_LIMIT"
  by (cases v) (auto simp: validate_limit_def validator_eqs)

text \<open>The same facts as rewrite rules for arguments known to be valid.\<close>

lemma validators_valid [simp]:
  "py_strip s \<noteq> [] \<Longrightarrow> length s \<le> MAX_CACHE_RESOURCE_LENGTH \<Longrightarrow> validate_resource (PyStr s) = Inr s"
  "length b \<le> MAX_CACHE_FEATURE_PAYLOAD_BYTES \<Longrightarrow> validate_payload (PyBytes b) = Inr b"
  "length b \<le> MAX_CACHE_VALUE_BYTES \<Longrightarrow> validate_cache_value (PyBytes b) = Inr b"
  "0 < n \<Longrightarrow> validate_positive_integer (PyInt n) = Inr n"
  "0 < n \<Longrightarrow> n \<le> MAX_CACHE_FEATURE_LIMIT \<Longrightarrow> validate_limit (PyInt n) = Inr n"
  by simp_all

lemma make_revision_Suc [simp]:
  "make_CacheRevision (PyInt (int (Suc n))) = Inr (CacheRevision (int (Suc n)))"
  "make_FencingToken (PyInt (int (Suc n))) = Inr (FencingToken (int (Suc n)))"
  by (simp_all add: make_CacheRevision_def make_FencingToken_def validator_eqs)

lemma make_AtomicCacheValue_Inr_iff [simp]:
  "make_AtomicCacheValue b r = Inr v \<longleftrightarrow>
     v = \<lparr>av_value = b, av_revision = r\<rparr> \<and> length b \<le> MAX_CACHE_FEATURE_PAYLOAD_BYTES"
  by (auto simp: make_AtomicCacheValue_def)

lemma make_LeaseToken_Inr:
  "make_LeaseToken ow re ho ft ex tk = Inr l \<Longrightarrow>
     l = \<lparr>lt_owner = ow, lt_resource = re, lt_holder = ho, lt_fencing_token = ft,
          lt_expires_at = lt_expires_at l, lt_token = tk\<rparr> \<and> ex = Fin (lt_expires_at l)"
  by (auto simp: make_LeaseToken_def split: pyfloat.splits)

lemma make_WorkDelivery_Inr:
  "make_WorkDelivery qu idn pl att vu rc = Inr d \<Longrightarrow>
     d = \<lparr>wd_queue = qu, wd_identity = idn, wd_payload = pl, wd_attempt = att,
          wd_visible_until = wd_visible_until d, wd_receipt = rc\<rparr> \<and> vu = Fin (wd_visible_until d)"
  by (auto simp: make_WorkDelivery_def split: pyfloat.splits)

end
