(* ===== verification/Contracts.thy ===== *)
theory Contracts
  imports Feature_Models
begin

text \<open>
  The interfaces the components promise to each other and to their clients, as locales. Each is
  interpreted on the model of the component that provides it, in that component's theory.

  \<^item> \<open>guarded_machine\<close>: a component whose calls keep an invariant.
  \<^item> \<open>bag_machine\<close>: a component that holds things and never makes any up (work items).
  \<^item> \<open>refinement\<close>: an implementation that behaves as an abstract specification.
  \<^item> \<open>ticketed_store\<close>: a store that stamps each write with a number from one growing counter
    (cache revisions, fencing tokens). Its clients rely on this: a stamp is never reused, stamps
    of a key only grow, and an unchanged stamp means unchanged content.
  \<^item> \<open>lease_fence\<close>: what a component that accepts lease-fenced writes relies on.
\<close>

text \<open>Keys of the stores are pairs; quantifiers over them are kept whole.\<close>

declare split_paired_All [simp del] split_paired_Ex [simp del]

section \<open>Machines with an invariant\<close>

locale guarded_machine =
  fixes step :: "'c \<Rightarrow> 's \<Rightarrow> 's"
    and inv :: "'s \<Rightarrow> bool"
  assumes step_inv: "inv s \<Longrightarrow> inv (step c s)"
begin

lemma run_inv: "inv s \<Longrightarrow> inv (run step cs s)"
  by (rule run_invariant) (auto intro: step_inv)

end

section \<open>Machines that hold a bag of things\<close>

text \<open>What a call can add to the contents is bounded by \<open>inflow\<close>; nothing else appears.\<close>

locale bag_machine = guarded_machine step inv
  for step :: "'c \<Rightarrow> 's \<Rightarrow> 's" and inv :: "'s \<Rightarrow> bool" +
  fixes contents :: "'s \<Rightarrow> 'w multiset"
    and inflow :: "'c \<Rightarrow> 'w multiset"
  assumes contents_step: "inv s \<Longrightarrow> contents (step c s) \<subseteq># contents s + inflow c"
begin

lemma run_contents: "inv s \<Longrightarrow> contents (run step cs s) \<subseteq># contents s + (\<Sum>c\<leftarrow>cs. inflow c)"
proof (induction cs arbitrary: s)
  case (Cons c cs)
  have "contents (run step cs (step c s)) \<subseteq># contents (step c s) + (\<Sum>c\<leftarrow>cs. inflow c)"
    by (rule Cons.IH) (rule step_inv [OF Cons.prems])
  also have "\<dots> \<subseteq># contents s + inflow c + (\<Sum>c\<leftarrow>cs. inflow c)"
    by (rule subset_mset.add_right_mono) (rule contents_step [OF Cons.prems])
  finally show ?case by (simp add: ac_simps)
qed simp

text \<open>If the supplies of a run carry pairwise different labels, so do the contents.\<close>

lemma run_labels_distinct:
  assumes "inv s" and "contents s = {#}"
    and "\<And>x. count (image_mset label (\<Sum>c\<leftarrow>cs. inflow c)) x \<le> 1"
  shows "count (image_mset label (contents (run step cs s))) x \<le> 1"
proof -
  have "image_mset label (contents (run step cs s)) \<subseteq># image_mset label (\<Sum>c\<leftarrow>cs. inflow c)"
    using run_contents [OF assms(1), of cs] assms(2) by (simp add: image_mset_subseteq_mono)
  then show ?thesis using assms(3) by (meson mset_subset_eq_count order_trans)
qed

end

section \<open>Refinement\<close>

text \<open>Every call of the implementation has the result the specification gives, and the states stay
  related.\<close>

locale refinement =
  fixes exec :: "'c \<Rightarrow> 's \<Rightarrow> 'r \<times> 's"
    and spec :: "'c \<Rightarrow> 'a \<Rightarrow> 'r \<times> 'a"
    and rel :: "'s \<Rightarrow> 'a \<Rightarrow> bool"
  assumes simulates: "rel s a \<Longrightarrow> fst (exec c s) = fst (spec c a) \<and> rel (snd (exec c s)) (snd (spec c a))"
begin

lemma same_results: "rel s a \<Longrightarrow> results exec cs s = results spec cs a"
  by (induction cs arbitrary: s a) (simp_all add: simulates)

lemma run_related:
  "rel s a \<Longrightarrow> rel (run (\<lambda>c s. snd (exec c s)) cs s) (run (\<lambda>c a. snd (spec c a)) cs a)"
  by (induction cs arbitrary: s a) (simp_all add: simulates)

end

section \<open>Stores that stamp their writes\<close>

locale ticketed_store = guarded_machine step inv
  for step :: "'c \<Rightarrow> 's \<Rightarrow> 's" and inv :: "'s \<Rightarrow> bool" +
  fixes counter :: "'s \<Rightarrow> nat"
    and entry :: "'s \<Rightarrow> 'k \<Rightarrow> (int \<times> 'v) option"
  assumes counter_mono: "inv s \<Longrightarrow> counter s \<le> counter (step c s)"
    and stamp_bound: "inv s \<Longrightarrow> entry s k = Some (n, v) \<Longrightarrow> n \<le> int (counter s)"
    and stamp_fresh: "inv s \<Longrightarrow> entry (step c s) k = Some (n, v) \<Longrightarrow>
      entry s k = Some (n, v) \<or> int (counter s) < n"
begin

lemma run_counter_mono: "inv s \<Longrightarrow> counter s \<le> counter (run step cs s)"
  by (rule run_preorder [where R = "\<lambda>s t. counter s \<le> counter t" and I = inv])
     (auto intro: step_inv counter_mono)

text \<open>After any number of calls, an entry is the old one or carries a stamp issued since.\<close>

lemma run_stamp_fresh:
  assumes "inv s" and "entry (run step cs s) k = Some (n, v)"
  shows "entry s k = Some (n, v) \<or> int (counter s) < n"
  using assms
proof (induction cs arbitrary: s)
  case Nil
  then show ?case by simp
next
  case (Cons c cs)
  have "entry (step c s) k = Some (n, v) \<or> int (counter (step c s)) < n"
    by (rule Cons.IH) (use Cons.prems in \<open>auto intro: step_inv\<close>)
  then show ?case
    using stamp_fresh [OF Cons.prems(1)] counter_mono [OF Cons.prems(1), of c] by fastforce
qed

text \<open>Optimistic concurrency is sound: an unchanged stamp means unchanged content.\<close>

lemma same_stamp_same_content:
  assumes "inv s" and "entry s k = Some (n, v)" and "entry (run step cs s) k = Some (n, w)"
  shows "w = v"
  using run_stamp_fresh [OF assms(1,3)] stamp_bound [OF assms(1,2)] assms(2) by auto

lemma stamps_grow:
  assumes "inv s" and "entry s k = Some (n, v)" and "entry (run step cs s) k = Some (m, w)"
  shows "n \<le> m"
  using run_stamp_fresh [OF assms(1,3)] stamp_bound [OF assms(1,2)] assms(2) by auto

text \<open>A stamp that has been replaced or removed never comes back.\<close>

lemma stamp_never_reused:
  assumes "inv s" and "n \<le> int (counter s)" and "\<And>v. entry s k \<noteq> Some (n, v)"
  shows "entry (run step cs s) k \<noteq> Some (n, w)"
  using run_stamp_fresh [OF assms(1), of cs k n w] assms(2,3) by auto

end

text \<open>
  The invariant behind the stamps of a dictionary: keys are distinct, stamps are positive, at most
  the counter, and pairwise different.
\<close>

definition stamped :: "('v \<Rightarrow> int) \<Rightarrow> nat \<Rightarrow> ('k, 'v) dict \<Rightarrow> bool" where
  "stamped stamp n d \<longleftrightarrow> distinct (dict_keys d)
     \<and> (\<forall>p \<in> set d. 0 < stamp (snd p) \<and> stamp (snd p) \<le> int n)
     \<and> distinct (map (\<lambda>p. stamp (snd p)) d)"

lemma stamped_empty [simp]: "stamped stamp n []"
  by (simp add: stamped_def)

lemma stamped_distinct: "stamped stamp n d \<Longrightarrow> distinct (dict_keys d)"
  by (simp add: stamped_def)

lemma stamped_bound: "stamped stamp n d \<Longrightarrow> dict_get d k = Some v \<Longrightarrow> 0 < stamp v \<and> stamp v \<le> int n"
  by (auto simp: stamped_def dest!: map_of_SomeD)

lemma stamped_filter: "stamped stamp n d \<Longrightarrow> stamped stamp n (filter P d)"
  by (auto simp: stamped_def distinct_map_filter)

lemma stamped_pop: "stamped stamp n d \<Longrightarrow> stamped stamp n (dict_pop k d)"
  unfolding AList.delete_eq by (rule stamped_filter)

lemma stamped_set:
  assumes "stamped stamp n d" and "stamp v = int (Suc n)"
  shows "stamped stamp (Suc n) (dict_set k v d)"
proof -
  have "stamp v \<notin> stamp ` snd ` set d"
    using assms by (fastforce simp: stamped_def)
  then have "distinct (map (\<lambda>p. stamp (snd p)) (dict_set k v d))"
    using assms(1) by (intro distinct_map_dict_set) (simp_all add: stamped_def)
  moreover have "0 < stamp (snd p) \<and> stamp (snd p) \<le> int (Suc n)" if "p \<in> set (dict_set k v d)" for p
  proof -
    have "p = (k, v) \<or> p \<in> set d" using that set_dict_set_subset [of k v d] by blast
    then show ?thesis using assms by (auto simp: stamped_def)
  qed
  ultimately show ?thesis using assms(1) by (simp add: stamped_def)
qed

text \<open>A dictionary whose new entries carry stamps above \<open>n\<close>.\<close>

definition only_fresh :: "('v \<Rightarrow> int) \<Rightarrow> nat \<Rightarrow> ('k, 'v) dict \<Rightarrow> ('k, 'v) dict \<Rightarrow> bool" where
  "only_fresh stamp n d d' \<longleftrightarrow>
     (\<forall>k v. dict_get d' k = Some v \<longrightarrow> dict_get d k = Some v \<or> int n < stamp v)"

lemma only_fresh_refl [simp]: "only_fresh stamp n d d"
  by (simp add: only_fresh_def)

lemma only_fresh_filter:
  assumes "distinct (dict_keys d)"
  shows "only_fresh stamp n d (filter P d)"
proof -
  have "dict_get d k = Some v" if "dict_get (filter P d) k = Some v" for k v
    using map_of_SomeD [OF that] assms by simp
  then show ?thesis by (simp add: only_fresh_def)
qed

lemma only_fresh_set:
  "only_fresh stamp n d d' \<Longrightarrow> int n < stamp v \<Longrightarrow> only_fresh stamp n d (dict_set k v d')"
  by (simp add: only_fresh_def)

lemma only_fresh_trans:
  assumes "only_fresh stamp n d d'" and "only_fresh stamp n' d' d''" and "n \<le> n'"
  shows "only_fresh stamp n d d''"
  using assms unfolding only_fresh_def by (metis of_nat_le_iff order_le_less_trans)

lemma only_fresh_pop: "only_fresh stamp n d d' \<Longrightarrow> only_fresh stamp n d (dict_pop k d')"
  by (simp add: only_fresh_def)

section \<open>Lease fencing\<close>

text \<open>
  \<open>validate t l s\<close> is what \<open>hold_fence\<close> hands to the fenced component. The law: it accepts a
  lease exactly when that lease is current, and a superseded lease is not current.
\<close>

locale lease_fence =
  fixes validate :: "pyfloat \<Rightarrow> LeaseToken \<Rightarrow> 'l \<Rightarrow> 'r result \<times> 'l"
    and current :: "pyfloat \<Rightarrow> LeaseToken \<Rightarrow> 'l \<Rightarrow> bool"
  assumes accepts_current: "(\<exists>r. fst (validate t l s) = Inr r) \<longleftrightarrow> current t l s"
    and keeps_current: "current t l (snd (validate t' l' s)) \<Longrightarrow> current t l s"
begin

lemma rejected_twice: "\<not> current t l s \<Longrightarrow> fst (validate t l (snd (validate t' l' s))) \<noteq> Inr r"
  using accepts_current keeps_current by metis

end

end
