(* ===== verification/Lease_Cache.thy ===== *)
theory Lease_Cache
  imports Contracts
begin

text \<open>
  \<^verbatim>\<open>src/src/wybra/cache/memory_leases.py\<close>: leases on named resources with fencing tokens.

  Clock readings are arguments, one per call of \<open>self.clock()\<close> in the order the code makes them,
  and \<open>uuid4().hex\<close> is an argument. \<open>_ResourceLock\<close> objects are shared between the dictionary
  and the tasks that use them, so they live in a store indexed by address. Every section under
  \<open>self._lock\<close> has no suspension point and is one step; the operations below are the uncontended
  runs, and the step relation \<open>lease_task_step\<close> interleaves their sections.
\<close>

section \<open>State\<close>

type_synonym LeaseKey = "string \<times> string"

record LeaseState =
  ls_holder :: string
  ls_fencing_token :: FencingToken
  ls_expires_at :: pyfloat
  ls_token :: string

record ResourceLock =
  rl_locked :: bool
  rl_users :: int

record InMemoryLeaseCache =
  max_leases :: int
  leases :: "(LeaseKey, LeaseState) dict"
  resource_locks :: "(LeaseKey, nat) dict"
  lock_store :: "nat \<Rightarrow> ResourceLock"
  next_lock_address :: nat
  next_fencing_token :: nat

definition new_lease_cache :: "pyobj \<Rightarrow> InMemoryLeaseCache result" where
  "new_lease_cache maximum =
     res_bind (validate_positive_integer maximum) (\<lambda>m. Inr
       \<lparr>max_leases = m, leases = [], resource_locks = [],
        lock_store = (\<lambda>_. \<lparr>rl_locked = False, rl_users = 0\<rparr>), next_lock_address = 0,
        next_fencing_token = 0\<rparr>)"

section \<open>Helpers\<close>

definition lease_state_value :: "LeaseState \<Rightarrow> string \<Rightarrow> string \<Rightarrow> LeaseToken result" where
  "lease_state_value st owner resource =
     make_LeaseToken owner resource (ls_holder st) (ls_fencing_token st) (ls_expires_at st)
       (ls_token st)"

definition lease_key :: "pyobj \<Rightarrow> pyobj \<Rightarrow> LeaseKey result" where
  "lease_key owner resource =
     res_bind (validate_resource owner) (\<lambda>ow.
     res_bind (validate_resource resource) (\<lambda>re. Inr (ow, re)))"

definition lease_key_from_token :: "LeaseToken \<Rightarrow> LeaseKey result" where
  "lease_key_from_token l = lease_key (PyStr (lt_owner l)) (PyStr (lt_resource l))"

definition live_lease ::
    "pyfloat \<Rightarrow> LeaseKey \<Rightarrow> InMemoryLeaseCache \<Rightarrow> LeaseState option \<times> InMemoryLeaseCache" where
  "live_lease now k s =
     (case dict_get (leases s) k of
        None \<Rightarrow> (None, s)
      | Some st \<Rightarrow>
          if ls_expires_at st \<le> now then (None, s\<lparr>leases := dict_pop k (leases s)\<rparr>)
          else (Some st, s))"

definition required_lease ::
    "pyfloat \<Rightarrow> LeaseToken \<Rightarrow> (InMemoryLeaseCache, LeaseKey \<times> LeaseState) pyop" where
  "required_lease now l s =
     checked (lease_key_from_token l) s (\<lambda>k.
       case live_lease now k s of
         (None, s1) \<Rightarrow> (Inl CacheConflictError, s1)
       | (Some c, s1) \<Rightarrow>
           if ls_token c \<noteq> lt_token l \<or> ls_fencing_token c \<noteq> lt_fencing_token l
              \<or> ls_holder c \<noteq> lt_holder l
           then (Inl CacheConflictError, s1)
           else (Inr (k, c), s1))"

definition discard_idle_resource_lock :: "LeaseKey \<Rightarrow> InMemoryLeaseCache \<Rightarrow> InMemoryLeaseCache" where
  "discard_idle_resource_lock k s =
     (case dict_get (resource_locks s) k of
        None \<Rightarrow> s
      | Some a \<Rightarrow>
          if rl_users (lock_store s a) = 0 \<and> \<not> rl_locked (lock_store s a)
             \<and> dict_get (leases s) k = None
          then s\<lparr>resource_locks := dict_pop k (resource_locks s)\<rparr>
          else s)"

definition drop_expired_lease :: "LeaseKey \<Rightarrow> InMemoryLeaseCache \<Rightarrow> InMemoryLeaseCache" where
  "drop_expired_lease k s =
     discard_idle_resource_lock k (s\<lparr>leases := dict_pop k (leases s)\<rparr>)"

definition ensure_lease_capacity :: "pyfloat \<Rightarrow> (InMemoryLeaseCache, unit) pyop" where
  "ensure_lease_capacity now s =
     (let expired = [k. (k, st) \<leftarrow> leases s, ls_expires_at st \<le> now];
          s1 = fold drop_expired_lease expired s
      in if max_leases s1 \<le> int (length (leases s1)) then (Inl CacheFeatureError, s1)
         else (Inr (), s1))"

section \<open>The per-resource lock\<close>

text \<open>Entering \<open>_resource_lock\<close>: \<open>setdefault\<close> allocates a lock object if the key has none.\<close>

definition resource_lock_enter :: "LeaseKey \<Rightarrow> InMemoryLeaseCache \<Rightarrow> nat \<times> InMemoryLeaseCache" where
  "resource_lock_enter k s =
     (case dict_get (resource_locks s) k of
        Some a \<Rightarrow>
          (a, s\<lparr>lock_store := (lock_store s)
                  (a := (lock_store s a)\<lparr>rl_users := rl_users (lock_store s a) + 1\<rparr>)\<rparr>)
      | None \<Rightarrow>
          (let a = next_lock_address s
           in (a, s\<lparr>resource_locks := dict_set k a (resource_locks s),
                    lock_store := (lock_store s)(a := \<lparr>rl_locked = False, rl_users = 1\<rparr>),
                    next_lock_address := Suc a\<rparr>)))"

definition resource_lock_set :: "nat \<Rightarrow> bool \<Rightarrow> InMemoryLeaseCache \<Rightarrow> InMemoryLeaseCache" where
  "resource_lock_set a b s =
     s\<lparr>lock_store := (lock_store s)(a := (lock_store s a)\<lparr>rl_locked := b\<rparr>)\<rparr>"

definition resource_lock_leave :: "LeaseKey \<Rightarrow> nat \<Rightarrow> InMemoryLeaseCache \<Rightarrow> InMemoryLeaseCache" where
  "resource_lock_leave k a s =
     discard_idle_resource_lock k
       (s\<lparr>lock_store := (lock_store s)
            (a := (lock_store s a)\<lparr>rl_users := rl_users (lock_store s a) - 1\<rparr>)\<rparr>)"

definition with_resource_lock ::
    "LeaseKey \<Rightarrow> (InMemoryLeaseCache, 'a) pyop \<Rightarrow> (InMemoryLeaseCache, 'a) pyop" where
  "with_resource_lock k body s =
     (let (a, s1) = resource_lock_enter k s;
          (r, s2) = body (resource_lock_set a True s1)
      in (r, resource_lock_leave k a (resource_lock_set a False s2)))"

section \<open>Operations\<close>

definition acquire_section ::
    "pyfloat \<Rightarrow> pyfloat \<Rightarrow> pyfloat \<Rightarrow> string \<Rightarrow> LeaseKey \<Rightarrow> string \<Rightarrow> rat
      \<Rightarrow> (InMemoryLeaseCache, LeaseToken option) pyop" where
  "acquire_section t1 t2 t3 uid k holder ttl s =
     (case live_lease t1 k s of
        (Some _, s1) \<Rightarrow> (Inr None, s1)
      | (None, s1) \<Rightarrow>
          py_bind (ensure_lease_capacity t2 s1) (\<lambda>_ s2.
            let n = Suc (next_fencing_token s2); s3 = s2\<lparr>next_fencing_token := n\<rparr>
            in checked (make_FencingToken (PyInt (int n))) s3 (\<lambda>ft.
                 let st = \<lparr>ls_holder = holder, ls_fencing_token = ft,
                           ls_expires_at = t3 + Fin ttl, ls_token = uid\<rparr>;
                     s4 = s3\<lparr>leases := dict_set k st (leases s3)\<rparr>
                 in checked (lease_state_value st (fst k) (snd k)) s4 (\<lambda>l. (Inr (Some l), s4)))))"

definition acquire ::
    "pyfloat \<Rightarrow> pyfloat \<Rightarrow> pyfloat \<Rightarrow> string \<Rightarrow> pyobj \<Rightarrow> pyobj \<Rightarrow> pyobj \<Rightarrow> pyobj
      \<Rightarrow> (InMemoryLeaseCache, LeaseToken option) pyop" where
  "acquire t1 t2 t3 uid owner resource holder ttl s =
     checked (lease_key owner resource) s (\<lambda>k.
     checked (validate_resource holder) s (\<lambda>h.
     checked (validate_positive_finite ttl) s (\<lambda>d.
       with_resource_lock k (acquire_section t1 t2 t3 uid k h d) s)))"

definition renew_section ::
    "pyfloat \<Rightarrow> pyfloat \<Rightarrow> LeaseToken \<Rightarrow> rat \<Rightarrow> (InMemoryLeaseCache, LeaseToken) pyop" where
  "renew_section t1 t2 l ttl s =
     py_bind (required_lease t1 l s) (\<lambda>(k, c) s1.
       let st = c\<lparr>ls_expires_at := t2 + Fin ttl\<rparr>;
           s2 = s1\<lparr>leases := dict_set k st (leases s1)\<rparr>
       in checked (lease_state_value st (lt_owner l) (lt_resource l)) s2 (\<lambda>v. (Inr v, s2)))"

definition renew ::
    "pyfloat \<Rightarrow> pyfloat \<Rightarrow> LeaseToken \<Rightarrow> pyobj \<Rightarrow> (InMemoryLeaseCache, LeaseToken) pyop" where
  "renew t1 t2 l ttl s =
     checked (validate_positive_finite ttl) s (\<lambda>d.
     checked (lease_key_from_token l) s (\<lambda>k.
       with_resource_lock k (renew_section t1 t2 l d) s))"

definition release_section :: "pyfloat \<Rightarrow> LeaseToken \<Rightarrow> (InMemoryLeaseCache, unit) pyop" where
  "release_section t1 l s =
     py_bind (required_lease t1 l s) (\<lambda>(k, c) s1.
       (Inr (), s1\<lparr>leases := dict_pop k (leases s1)\<rparr>))"

definition release :: "pyfloat \<Rightarrow> LeaseToken \<Rightarrow> (InMemoryLeaseCache, unit) pyop" where
  "release t1 l s =
     checked (lease_key_from_token l) s (\<lambda>k. with_resource_lock k (release_section t1 l) s)"

text \<open>\<open>hold_fence\<close>: the lease is checked under \<open>self._lock\<close>, then the client's body runs with the
  resource lock held. The body gets \<open>required_lease\<close> as its \<open>validate\<close> and changes the client's
  own state \<open>'c\<close>.\<close>

definition hold_fence ::
    "pyfloat \<Rightarrow> LeaseToken \<Rightarrow> (InMemoryLeaseCache \<Rightarrow> 'c \<Rightarrow> 'a result \<times> InMemoryLeaseCache \<times> 'c)
      \<Rightarrow> InMemoryLeaseCache \<Rightarrow> 'c \<Rightarrow> 'a result \<times> InMemoryLeaseCache \<times> 'c" where
  "hold_fence t1 l body s c =
     (case lease_key_from_token l of
        Inl e \<Rightarrow> (Inl e, s, c)
      | Inr k \<Rightarrow>
          (let (a, s1) = resource_lock_enter k s;
               (r, s2, c2) =
                 (case required_lease t1 l (resource_lock_set a True s1) of
                    (Inl e, s') \<Rightarrow> (Inl e, s', c)
                  | (Inr _, s') \<Rightarrow> body s' c)
           in (r, resource_lock_leave k a (resource_lock_set a False s2), c2)))"

text \<open>A write that may be fenced: the lease is validated again right before the write, with no
  suspension in between. \<open>bound\<close> tells whether the client has a lease cache to ask.\<close>

definition fenced_section ::
    "bool \<Rightarrow> pyfloat \<Rightarrow> pyfloat \<Rightarrow> LeaseToken option \<Rightarrow> ('c, 'a) pyop
      \<Rightarrow> InMemoryLeaseCache \<Rightarrow> 'c \<Rightarrow> 'a result \<times> InMemoryLeaseCache \<times> 'c" where
  "fenced_section bound f1 f2 lease body s c =
     (case lease of
        None \<Rightarrow> (let (r, c') = body c in (r, s, c'))
      | Some l \<Rightarrow>
          if \<not> bound then (Inl CacheFeatureError, s, c)
          else hold_fence f1 l (\<lambda>s1 c1.
                 case required_lease f2 l s1 of
                   (Inl e, s2) \<Rightarrow> (Inl e, s2, c1)
                 | (Inr _, s2) \<Rightarrow> (let (r, c') = body c1 in (r, s2, c'))) s c)"

lemmas lease_op_defs [op_defs] =
  acquire_def renew_def release_def acquire_section_def renew_section_def release_section_def
  with_resource_lock_def

section \<open>Calls\<close>

datatype lease_call =
    Acquire pyfloat pyfloat pyfloat string pyobj pyobj pyobj pyobj
  | Renew pyfloat pyfloat LeaseToken pyobj
  | Release pyfloat LeaseToken
  | RequiredLease pyfloat LeaseToken

fun lease_step :: "lease_call \<Rightarrow> InMemoryLeaseCache \<Rightarrow> InMemoryLeaseCache" where
  "lease_step (Acquire t1 t2 t3 uid ow re ho ttl) s = snd (acquire t1 t2 t3 uid ow re ho ttl s)"
| "lease_step (Renew t1 t2 l ttl) s = snd (renew t1 t2 l ttl s)"
| "lease_step (Release t1 l) s = snd (release t1 l s)"
| "lease_step (RequiredLease t1 l) s = snd (required_lease t1 l s)"

section \<open>What the helpers change\<close>

lemma lock_helpers_frame [simp]:
  "leases (snd (resource_lock_enter k s)) = leases s"
  "next_fencing_token (snd (resource_lock_enter k s)) = next_fencing_token s"
  "max_leases (snd (resource_lock_enter k s)) = max_leases s"
  "leases (resource_lock_set a b s) = leases s"
  "next_fencing_token (resource_lock_set a b s) = next_fencing_token s"
  "max_leases (resource_lock_set a b s) = max_leases s"
  "leases (resource_lock_leave k a s) = leases s"
  "next_fencing_token (resource_lock_leave k a s) = next_fencing_token s"
  "max_leases (resource_lock_leave k a s) = max_leases s"
  "leases (drop_expired_lease k s) = dict_pop k (leases s)"
  "next_fencing_token (drop_expired_lease k s) = next_fencing_token s"
  "max_leases (drop_expired_lease k s) = max_leases s"
  by (simp_all add: resource_lock_enter_def resource_lock_set_def resource_lock_leave_def
      drop_expired_lease_def discard_idle_resource_lock_def Let_def split: option.splits)

lemma fold_drop_expired [simp]:
  "leases (fold drop_expired_lease ks s) = dict_pop_all ks (leases s)"
  "next_fencing_token (fold drop_expired_lease ks s) = next_fencing_token s"
  "max_leases (fold drop_expired_lease ks s) = max_leases s"
  by (induction ks arbitrary: s) (simp_all add: dict_pop_all_def)

text \<open>Many helpers only drop leases. \<open>lease_shrink\<close> is what they have in common.\<close>

definition lease_shrink :: "InMemoryLeaseCache \<Rightarrow> InMemoryLeaseCache \<Rightarrow> bool" where
  "lease_shrink s s' \<longleftrightarrow> (\<exists>P. leases s' = filter P (leases s))
     \<and> next_fencing_token s' = next_fencing_token s \<and> max_leases s' = max_leases s"

lemma lease_shrink_refl [simp, intro]: "lease_shrink s s"
  by (auto simp: lease_shrink_def intro: exI [of _ "\<lambda>_. True"])

lemma lease_shrink_trans [trans]: "lease_shrink s t \<Longrightarrow> lease_shrink t u \<Longrightarrow> lease_shrink s u"
  by (auto simp: lease_shrink_def)

lemma live_lease_shrinks: "lease_shrink s (snd (live_lease now k s))"
  by (auto simp: lease_shrink_def live_lease_def AList.delete_eq split: option.splits
      intro: exI [of _ "\<lambda>_. True"])

lemma required_lease_shrinks: "lease_shrink s (snd (required_lease now l s))"
  using live_lease_shrinks [of s now]
  by (auto simp: required_lease_def split: checked_splits prod.splits option.splits)
     (metis snd_conv)+

lemma ensure_lease_capacity_shrinks: "lease_shrink s (snd (ensure_lease_capacity now s))"
  by (auto simp: lease_shrink_def ensure_lease_capacity_def Let_def dict_pop_all_filter)

lemma lease_shrink_lookup:
  assumes "distinct (dict_keys (leases s))" and "lease_shrink s s'"
    and "dict_get (leases s') k = Some st"
  shows "dict_get (leases s) k = Some st"
proof -
  obtain P where "leases s' = filter P (leases s)" using assms(2) by (auto simp: lease_shrink_def)
  then have "(k, st) \<in> set (leases s)" using assms(3) by (auto dest: map_of_SomeD)
  then show ?thesis using assms(1) by simp
qed

section \<open>Invariant\<close>

definition lease_inv :: "InMemoryLeaseCache \<Rightarrow> bool" where
  "lease_inv s \<longleftrightarrow> distinct (dict_keys (leases s))
     \<and> int (length (leases s)) \<le> max_leases s
     \<and> (\<forall>(k, st) \<in> set (leases s). 0 < fencing_value (ls_fencing_token st)
          \<and> fencing_value (ls_fencing_token st) \<le> int (next_fencing_token s))
     \<and> distinct (map (\<lambda>p. ls_fencing_token (snd p)) (leases s))"

lemma new_lease_cache_inv: "new_lease_cache m = Inr s \<Longrightarrow> lease_inv s"
  by (auto simp: new_lease_cache_def lease_inv_def)

lemma lease_inv_distinct [dest]: "lease_inv s \<Longrightarrow> distinct (dict_keys (leases s))"
  by (simp add: lease_inv_def)

lemma lease_inv_token_bound:
  "lease_inv s \<Longrightarrow> dict_get (leases s) k = Some st \<Longrightarrow>
     0 < fencing_value (ls_fencing_token st) \<and>
     fencing_value (ls_fencing_token st) \<le> int (next_fencing_token s)"
  by (auto simp: lease_inv_def dest!: map_of_SomeD)

lemma lease_shrink_inv:
  assumes "lease_inv s" and "lease_shrink s s'"
  shows "lease_inv s'"
proof -
  obtain P where P: "leases s' = filter P (leases s)"
    and eq: "next_fencing_token s' = next_fencing_token s" "max_leases s' = max_leases s"
    using assms(2) by (auto simp: lease_shrink_def)
  have "int (length (leases s')) \<le> max_leases s'"
    using assms(1) length_filter_le [of P "leases s"]
    by (auto simp only: P eq lease_inv_def intro: order_trans [of _ "int (length (leases s))"])
  then show ?thesis
    using assms(1) by (auto simp: lease_inv_def P eq distinct_map_filter)
qed

text \<open>The lock bookkeeping does not matter for the leases.\<close>

definition same_leases :: "InMemoryLeaseCache \<Rightarrow> InMemoryLeaseCache \<Rightarrow> bool" where
  "same_leases s t \<longleftrightarrow> leases s = leases t \<and> next_fencing_token s = next_fencing_token t
     \<and> max_leases s = max_leases t"

lemma same_leases_inv: "same_leases s t \<Longrightarrow> lease_inv s \<longleftrightarrow> lease_inv t"
  by (simp add: same_leases_def lease_inv_def)

lemma same_leases_sym: "same_leases s t \<Longrightarrow> same_leases t s"
  by (simp add: same_leases_def)

lemma with_resource_lock_core:
  obtains s0 where "same_leases s0 s"
    and "fst (with_resource_lock k body s) = fst (body s0)"
    and "same_leases (snd (with_resource_lock k body s)) (snd (body s0))"
proof -
  let ?s0 = "resource_lock_set (fst (resource_lock_enter k s)) True (snd (resource_lock_enter k s))"
  show thesis
    by (rule that [of ?s0])
       (simp_all add: with_resource_lock_def same_leases_def case_prod_beta Let_def)
qed

text \<open>A lease that is set under a token above the counter keeps the invariant.\<close>

lemma lease_inv_insert:
  assumes "lease_inv s" and "int (length (leases s)) < max_leases s"
    and "fencing_value (ls_fencing_token st) = int (Suc (next_fencing_token s))"
  shows "lease_inv (s\<lparr>next_fencing_token := Suc (next_fencing_token s),
                       leases := dict_set k st (leases s)\<rparr>)"
proof -
  let ?d = "dict_set k st (leases s)"
  have d: "distinct (dict_keys (leases s))" using assms(1) by auto
  have old: "fencing_value (ls_fencing_token st') \<le> int (next_fencing_token s)"
    and pos: "0 < fencing_value (ls_fencing_token st')" if "(k', st') \<in> set (leases s)" for k' st'
    using assms(1) that by (auto simp: lease_inv_def)
  have "ls_fencing_token st \<notin> ls_fencing_token ` snd ` set (leases s)"
    using old assms(3) by fastforce
  then have "distinct (map (\<lambda>p. ls_fencing_token (snd p)) ?d)"
    using assms(1) by (intro distinct_map_dict_set) (simp_all add: lease_inv_def)
  moreover have "int (length ?d) \<le> max_leases s"
    using assms(2) by (simp add: length_dict_set)
  moreover have "0 < fencing_value (ls_fencing_token st') \<and>
      fencing_value (ls_fencing_token st') \<le> int (Suc (next_fencing_token s))"
    if "(k', st') \<in> set ?d" for k' st'
  proof -
    have "st' = st \<or> (k', st') \<in> set (leases s)"
      using set_dict_set_subset [of k st "leases s"] that by auto
    then show ?thesis using assms(3) old [of k' st'] pos [of k' st'] by auto
  qed
  ultimately show ?thesis
    using d by (auto simp: lease_inv_def)
qed

section \<open>Functional behaviour of the sections\<close>

text \<open>A lease token is current if it is the live lease of its resource.\<close>

definition lease_current :: "pyfloat \<Rightarrow> LeaseToken \<Rightarrow> InMemoryLeaseCache \<Rightarrow> bool" where
  "lease_current now l s \<longleftrightarrow>
     (case lease_key_from_token l of
        Inl _ \<Rightarrow> False
      | Inr k \<Rightarrow>
         (case dict_get (leases s) k of
            None \<Rightarrow> False
          | Some c \<Rightarrow> \<not> ls_expires_at c \<le> now \<and> ls_token c = lt_token l
              \<and> ls_fencing_token c = lt_fencing_token l \<and> ls_holder c = lt_holder l))"

lemma live_lease_cases:
  obtains (none) "dict_get (leases s) k = None" "live_lease now k s = (None, s)"
  | (expired) st where "dict_get (leases s) k = Some st" "ls_expires_at st \<le> now"
      "live_lease now k s = (None, s\<lparr>leases := dict_pop k (leases s)\<rparr>)"
  | (live) st where "dict_get (leases s) k = Some st" "\<not> ls_expires_at st \<le> now"
      "live_lease now k s = (Some st, s)"
  by (cases "dict_get (leases s) k") (auto simp: live_lease_def split: if_splits)

lemma required_lease_Inr:
  assumes "required_lease now l s = (Inr (k, c), s')"
  shows "s' = s \<and> lease_key_from_token l = Inr k \<and> dict_get (leases s) k = Some c
    \<and> \<not> ls_expires_at c \<le> now \<and> ls_token c = lt_token l
    \<and> ls_fencing_token c = lt_fencing_token l \<and> ls_holder c = lt_holder l"
  using assms
  by (cases "lease_key_from_token l"; cases rule: live_lease_cases [of s "projr (lease_key_from_token l)" now])
     (auto simp: required_lease_def split: if_splits)

lemma required_lease_iff_current: "(\<exists>r. fst (required_lease now l s) = Inr r) \<longleftrightarrow> lease_current now l s"
  by (auto simp: required_lease_def lease_current_def live_lease_def
      split: sum.splits option.splits)

lemma required_lease_stale:
  "\<not> lease_current now l s \<Longrightarrow> lease_key_from_token l = Inr k \<Longrightarrow>
     fst (required_lease now l s) = Inl CacheConflictError"
  by (auto simp: required_lease_def lease_current_def live_lease_def split: option.splits)

lemma ensure_lease_capacity_Inr:
  "ensure_lease_capacity now s = (Inr u, s') \<Longrightarrow> int (length (leases s')) < max_leases s'"
  by (auto simp: ensure_lease_capacity_def Let_def split: if_splits)

lemma ensure_lease_capacity_state:
  "ensure_lease_capacity now s = (r, s') \<Longrightarrow> lease_shrink s s'"
  using ensure_lease_capacity_shrinks [of s now] by simp

text \<open>\<open>acquire\<close> either drops leases only, or grants: then no live lease was in the way.\<close>

lemma acquire_section_cases:
  assumes "acquire_section t1 t2 t3 uid k h d s = (r, s')"
  obtains (refused) "lease_shrink s s'" "\<And>l. r \<noteq> Inr (Some l)"
  | (granted) s1 st where "lease_shrink s s1" "int (length (leases s1)) < max_leases s1"
      "\<And>c. dict_get (leases s) k = Some c \<Longrightarrow> ls_expires_at c \<le> t1"
      "st = \<lparr>ls_holder = h, ls_fencing_token = FencingToken (int (Suc (next_fencing_token s))),
             ls_expires_at = t3 + Fin d, ls_token = uid\<rparr>"
      "s' = s1\<lparr>next_fencing_token := Suc (next_fencing_token s1),
               leases := dict_set k st (leases s1)\<rparr>"
      "r = (case lease_state_value st (fst k) (snd k) of Inl e \<Rightarrow> Inl e | Inr l \<Rightarrow> Inr (Some l))"
proof (cases "fst (live_lease t1 k s)")
  case (Some st)
  then have "r = Inr None" "s' = snd (live_lease t1 k s)"
    using assms by (auto simp: acquire_section_def split: prod.splits)
  then show thesis using refused live_lease_shrinks by simp
next
  case None
  define s1 where "s1 = snd (live_lease t1 k s)"
  have l: "live_lease t1 k s = (None, s1)" using None by (simp add: s1_def prod_eq_iff)
  have sh1: "lease_shrink s s1" by (simp add: s1_def live_lease_shrinks)
  have dead: "ls_expires_at c \<le> t1" if "dict_get (leases s) k = Some c" for c
    using that None by (auto simp: live_lease_def split: if_splits)
  obtain r2 s2 where e: "ensure_lease_capacity t2 s1 = (r2, s2)" by fastforce
  have sh2: "lease_shrink s s2"
    using sh1 ensure_lease_capacity_state [OF e] by (rule lease_shrink_trans)
  show thesis
  proof (cases r2)
    case (Inl x)
    then have "r = Inl x" "s' = s2" using assms l e by (auto simp: acquire_section_def)
    then show thesis using refused sh2 by simp
  next
    case (Inr u)
    have nx: "next_fencing_token s2 = next_fencing_token s"
      using sh2 by (simp add: lease_shrink_def)
    show thesis
      using assms l e Inr ensure_lease_capacity_Inr [of t2 s1 u s2] sh2 dead
      by (intro granted [of s2])
         (auto simp: acquire_section_def Let_def nx checked_def simp del: of_nat_Suc
           split: sum.splits)
  qed
qed

text \<open>\<open>renew\<close> changes the expiry of the lease it is given and nothing else.\<close>

lemma renew_section_cases:
  assumes "renew_section t1 t2 l d s = (r, s')"
  obtains (refused) "lease_shrink s s'" "\<And>v. r \<noteq> Inr v"
  | (renewed) k c where "lease_current t1 l s" "dict_get (leases s) k = Some c"
      "s' = s\<lparr>leases := dict_set k (c\<lparr>ls_expires_at := t2 + Fin d\<rparr>) (leases s)\<rparr>"
      "r = lease_state_value (c\<lparr>ls_expires_at := t2 + Fin d\<rparr>) (lt_owner l) (lt_resource l)"
proof (cases "fst (required_lease t1 l s)")
  case (Inl e)
  then have "r = Inl e" "s' = snd (required_lease t1 l s)"
    using assms by (auto simp: renew_section_def py_bind_def split: prod.splits)
  then show thesis using refused required_lease_shrinks by simp
next
  case (Inr kc)
  obtain k c where kc: "kc = (k, c)" by fastforce
  have req: "required_lease t1 l s = (Inr (k, c), snd (required_lease t1 l s))"
    using Inr kc by (simp add: prod_eq_iff)
  note facts = required_lease_Inr [OF this]
  have "lease_current t1 l s" using required_lease_iff_current Inr by blast
  then show thesis
    using assms req facts
    by (intro renewed [of k c])
       (auto simp: renew_section_def Let_def checked_def split: sum.splits)
qed

section \<open>The lease cache as a stamped store\<close>

definition lease_entry :: "InMemoryLeaseCache \<Rightarrow> LeaseKey \<Rightarrow> (int \<times> string \<times> string) option" where
  "lease_entry s k =
     map_option (\<lambda>st. (fencing_value (ls_fencing_token st), ls_holder st, ls_token st))
       (dict_get (leases s) k)"

definition lease_evolves :: "InMemoryLeaseCache \<Rightarrow> InMemoryLeaseCache \<Rightarrow> bool" where
  "lease_evolves s s' \<longleftrightarrow> next_fencing_token s \<le> next_fencing_token s'
     \<and> (\<forall>k e. lease_entry s' k = Some e \<longrightarrow>
          lease_entry s k = Some e \<or> int (next_fencing_token s) < fst e)"

lemma lease_shrink_evolves: "lease_inv s \<Longrightarrow> lease_shrink s s' \<Longrightarrow> lease_evolves s s'"
  using lease_shrink_lookup [OF lease_inv_distinct, of s s']
  by (fastforce simp: lease_evolves_def lease_entry_def lease_shrink_def)

lemma same_leases_evolves:
  "same_leases s s1 \<Longrightarrow> same_leases t t1 \<Longrightarrow> lease_evolves s1 t1 \<Longrightarrow> lease_evolves s t"
  by (simp add: same_leases_def lease_evolves_def lease_entry_def)

text \<open>Every section keeps the invariant and only adds entries with fresh tokens.\<close>

lemma acquire_section_ok:
  assumes "lease_inv s" and "acquire_section t1 t2 t3 uid k h d s = (r, s')"
  shows "lease_inv s' \<and> lease_evolves s s'"
  using assms(2)
proof (cases rule: acquire_section_cases)
  case refused
  then show ?thesis using assms(1) lease_shrink_inv lease_shrink_evolves by blast
next
  case (granted s1 st)
  have nx: "next_fencing_token s1 = next_fencing_token s"
    using granted(1) by (simp add: lease_shrink_def)
  have "lease_inv s'"
    unfolding granted(5)
    by (rule lease_inv_insert) (use granted nx assms(1) in \<open>auto intro: lease_shrink_inv\<close>)
  moreover have "lease_evolves s s1"
    using assms(1) granted(1) by (rule lease_shrink_evolves)
  then have "lease_evolves s s'"
    by (auto simp: lease_evolves_def lease_entry_def granted(4,5) nx)
  ultimately show ?thesis by simp
qed

lemma lease_inv_update:
  assumes "lease_inv s" and "dict_get (leases s) k = Some c"
    and "ls_fencing_token st = ls_fencing_token c"
  shows "lease_inv (s\<lparr>leases := dict_set k st (leases s)\<rparr>)"
proof -
  have "map (\<lambda>p. ls_fencing_token (snd p)) (dict_set k st ds) = map (\<lambda>p. ls_fencing_token (snd p)) ds"
    if "dict_get ds k = Some c" for ds
    using that assms(3) by (induction ds) auto
  moreover have "0 < fencing_value (ls_fencing_token st') \<and>
      fencing_value (ls_fencing_token st') \<le> int (next_fencing_token s)"
    if "(k', st') \<in> set (dict_set k st (leases s))" for k' st'
    using that assms set_dict_set_subset [of k st "leases s"] lease_inv_token_bound [OF assms(1,2)]
    by (auto simp: lease_inv_def)
  ultimately show ?thesis
    using assms(1,2) by (auto simp: lease_inv_def length_dict_set)
qed

lemma renew_section_ok:
  assumes "lease_inv s" and "renew_section t1 t2 l d s = (r, s')"
  shows "lease_inv s' \<and> lease_evolves s s'"
  using assms(2)
proof (cases rule: renew_section_cases)
  case refused
  then show ?thesis using assms(1) lease_shrink_inv lease_shrink_evolves by blast
next
  case (renewed k c)
  have "lease_inv s'"
    unfolding renewed(3) by (rule lease_inv_update [OF assms(1) renewed(2)]) simp
  then show ?thesis
    using renewed(2) by (auto simp: lease_evolves_def lease_entry_def renewed(3))
qed

lemma release_section_shrinks: "lease_shrink s (snd (release_section t1 l s))"
proof (cases "required_lease t1 l s")
  case (Pair r s1)
  have "lease_shrink s s1" using required_lease_shrinks [of s t1 l] Pair by simp
  moreover have "lease_shrink s1 (s1\<lparr>leases := dict_pop k (leases s1)\<rparr>)" for k
    by (auto simp: lease_shrink_def AList.delete_eq)
  ultimately show ?thesis
    using Pair by (auto simp: release_section_def py_bind_def split: sum.splits
        intro: lease_shrink_trans)
qed

lemma with_resource_lock_ok:
  assumes "lease_inv s"
    and "\<And>s r s'. lease_inv s \<Longrightarrow> body s = (r, s') \<Longrightarrow> lease_inv s' \<and> lease_evolves s s'"
  shows "lease_inv (snd (with_resource_lock k body s)) \<and> lease_evolves s (snd (with_resource_lock k body s))"
proof -
  obtain s0 where s0: "same_leases s0 s"
    and post: "same_leases (snd (with_resource_lock k body s)) (snd (body s0))"
    by (rule with_resource_lock_core [where k = k and body = body and s = s]) blast
  have "lease_inv (snd (body s0)) \<and> lease_evolves s0 (snd (body s0))"
    using assms(2) [of s0 "fst (body s0)" "snd (body s0)"] assms(1) same_leases_inv [OF s0] by simp
  then show ?thesis
    using same_leases_inv [OF post] same_leases_evolves [OF same_leases_sym [OF s0] post] by blast
qed

lemma lease_evolves_refl [simp]: "lease_evolves s s"
  by (simp add: lease_evolves_def)

lemma lease_step_ok:
  assumes "lease_inv s"
  shows "lease_inv (lease_step c s) \<and> lease_evolves s (lease_step c s)"
proof (cases c)
  case (Acquire t1 t2 t3 uid ow re ho ttl)
  have "lease_inv (snd (with_resource_lock k (acquire_section t1 t2 t3 uid k h d) s)) \<and>
      lease_evolves s (snd (with_resource_lock k (acquire_section t1 t2 t3 uid k h d) s))" for k h d
    by (rule with_resource_lock_ok [OF assms]) (rule acquire_section_ok)
  then show ?thesis
    using assms by (simp add: Acquire acquire_def split: checked_split)
next
  case (Renew t1 t2 l ttl)
  have "lease_inv (snd (with_resource_lock k (renew_section t1 t2 l d) s)) \<and>
      lease_evolves s (snd (with_resource_lock k (renew_section t1 t2 l d) s))" for k d
    by (rule with_resource_lock_ok [OF assms]) (rule renew_section_ok)
  then show ?thesis
    using assms by (simp add: Renew renew_def split: checked_split)
next
  case (Release t1 l)
  have "lease_inv s' \<and> lease_evolves s s'"
    if "lease_inv s" "release_section t1 l s = (r, s')" for s r s'
    using release_section_shrinks [of s t1 l] that
    by (auto intro: lease_shrink_inv lease_shrink_evolves)
  then have "lease_inv (snd (with_resource_lock k (release_section t1 l) s)) \<and>
      lease_evolves s (snd (with_resource_lock k (release_section t1 l) s))" for k
    by (rule with_resource_lock_ok [OF assms])
  then show ?thesis
    using assms by (simp add: Release release_def split: checked_split)
next
  case (RequiredLease t1 l)
  then show ?thesis
    using assms required_lease_shrinks [of s t1 l]
    by (auto intro: lease_shrink_inv lease_shrink_evolves)
qed

interpretation lease_tickets:
  ticketed_store lease_step lease_inv next_fencing_token lease_entry
proof unfold_locales
  fix s c k n v
  assume inv: "lease_inv s"
  show "lease_inv (lease_step c s)"
    and "next_fencing_token s \<le> next_fencing_token (lease_step c s)"
    using lease_step_ok [OF inv] by (simp_all add: lease_evolves_def)
  show "n \<le> int (next_fencing_token s)" if "lease_entry s k = Some (n, v)"
    using that lease_inv_token_bound [OF inv, of k] by (auto simp: lease_entry_def)
  show "lease_entry s k = Some (n, v) \<or> int (next_fencing_token s) < n"
    if "lease_entry (lease_step c s) k = Some (n, v)"
    using that lease_step_ok [OF inv, of c] unfolding lease_evolves_def by fastforce
qed

interpretation memory_lease_fence: lease_fence required_lease lease_current
proof unfold_locales
  fix t l s
  show "(\<exists>r. fst (required_lease t l s) = Inr r) \<longleftrightarrow> lease_current t l s"
    by (rule required_lease_iff_current)
next
  fix t l t' l' s
  assume "lease_current t l (snd (required_lease t' l' s))"
  then show "lease_current t l s"
    by (auto simp: required_lease_def lease_current_def live_lease_def checked_def
        split: sum.splits option.splits if_splits)
qed

section \<open>Fenced writes\<close>

lemma same_leases_current: "same_leases s t \<Longrightarrow> lease_current now l s \<longleftrightarrow> lease_current now l t"
  unfolding same_leases_def lease_current_def by metis

lemma required_lease_current_state:
  "lease_current now l s \<Longrightarrow> \<exists>r. required_lease now l s = (Inr r, s)"
  by (auto simp: required_lease_def lease_current_def live_lease_def split: sum.splits option.splits)

text \<open>A fenced section either leaves the client alone or runs its body, and it runs the body only
  for a lease that is current at both validations.\<close>

lemma fenced_section_cases:
  assumes "fenced_section bound f1 f2 lease body s c = (r, s', c')"
  obtains (refused) e where "r = Inl e" "c' = c" "lease \<noteq> None"
  | (ran) "body c = (r, c')" "\<And>l. lease = Some l \<Longrightarrow> lease_current f1 l s \<and> lease_current f2 l s"
proof (cases lease)
  case None
  then show thesis using assms ran by (auto simp: fenced_section_def split: prod.splits)
next
  case (Some l)
  show thesis
  proof (cases "\<not> bound \<or> (\<exists>e. lease_key_from_token l = Inl e)")
    case True
    then show thesis using assms Some refused
      by (auto simp: fenced_section_def hold_fence_def split: if_splits)
  next
    case False
    then obtain k where k: "lease_key_from_token l = Inr k" and b: bound
      by (cases "lease_key_from_token l") auto
    define s1 where "s1 = resource_lock_set (fst (resource_lock_enter k s)) True
        (snd (resource_lock_enter k s))"
    have same: "same_leases s1 s" by (simp add: s1_def same_leases_def)
    show thesis
    proof (cases "lease_current f1 l s \<and> lease_current f2 l s")
      case True
      then obtain r1 r2 where "required_lease f1 l s1 = (Inr r1, s1)"
        "required_lease f2 l s1 = (Inr r2, s1)"
        using required_lease_current_state same_leases_current [OF same] by metis
      then have "body c = (r, c')"
        using assms Some b k
        by (auto simp: fenced_section_def hold_fence_def s1_def Let_def case_prod_beta prod_eq_iff)
      then show thesis using ran True Some by simp
    next
      case False
      then have no: "\<not> (lease_current f1 l s1 \<and> lease_current f2 l s1)"
        using same_leases_current [OF same] by simp
      have "\<exists>e. r = Inl e" "c' = c"
        using assms Some b k no required_lease_iff_current [of f1 l s1]
          memory_lease_fence.rejected_twice [of f2 l s1 f1 l]
          required_lease_current_state [of f1 l s1] required_lease_iff_current [of f2 l s1]
        by (auto simp: fenced_section_def hold_fence_def s1_def [symmetric] Let_def case_prod_beta
            split: prod.splits sum.splits)
      then show thesis using refused Some by blast
    qed
  qed
qed

text \<open>On the lease side a fenced section only drops expired leases.\<close>

lemma lease_shrink_cong:
  assumes "same_leases s s1" and "same_leases t t1"
  shows "lease_shrink s t \<longleftrightarrow> lease_shrink s1 t1"
  using assms by (simp add: lease_shrink_def same_leases_def)

lemma fenced_section_shrinks: "lease_shrink s (fst (snd (fenced_section bound f1 f2 lease body s c)))"
proof (cases lease)
  case None
  then show ?thesis by (simp add: fenced_section_def case_prod_beta Let_def)
next
  case (Some l)
  show ?thesis
  proof (cases "lease_key_from_token l")
    case (Inl e)
    then show ?thesis by (simp add: Some fenced_section_def hold_fence_def)
  next
    case (Inr k)
    define a s1 where "a = fst (resource_lock_enter k s)"
      and "s1 = resource_lock_set a True (snd (resource_lock_enter k s))"
    have same: "same_leases s1 s" by (simp add: s1_def same_leases_def)
    define s2 where "s2 = snd (required_lease f1 l s1)"
    define s3 where "s3 = snd (required_lease f2 l s2)"
    have 2: "lease_shrink s1 s2" by (simp add: s2_def required_lease_shrinks)
    have 3: "lease_shrink s1 s3"
      by (rule lease_shrink_trans [OF 2]) (simp add: s3_def required_lease_shrinks)
    have out: "lease_shrink s (resource_lock_leave k a (resource_lock_set a False u))"
      if "lease_shrink s1 u" for u
      using that same lease_shrink_cong [OF same, of u u]
      by (simp add: lease_shrink_def same_leases_def)
    show ?thesis
      using out [OF 2] out [OF 3]
      by (auto simp: Some Inr fenced_section_def hold_fence_def Let_def case_prod_beta
          a_def [symmetric] s1_def [symmetric] s2_def s3_def split: prod.splits sum.splits)
  qed
qed

section \<open>Interleaved tasks and the resource locks\<close>

text \<open>
  A task outside, waiting for the lock object at an address, holding it, or leaving. One step is a
  piece of \<open>_resource_lock\<close> or of an operation's body between two suspension points; a waiting
  task may be cancelled, which runs the \<open>finally\<close> block.
\<close>

datatype lock_pc = Outside | Waiting LeaseKey nat | Holding LeaseKey nat | Leaving LeaseKey nat

record lease_system =
  sys_cache :: InMemoryLeaseCache
  sys_tasks :: "nat \<Rightarrow> lock_pc"

abbreviation move_task :: "lease_system \<Rightarrow> nat \<Rightarrow> lock_pc \<Rightarrow> InMemoryLeaseCache \<Rightarrow> lease_system" where
  "move_task S t p c \<equiv> S\<lparr>sys_cache := c, sys_tasks := (sys_tasks S)(t := p)\<rparr>"

inductive lease_task_step :: "lease_system \<Rightarrow> lease_system \<Rightarrow> bool" where
  enter: "sys_tasks S t = Outside \<Longrightarrow> resource_lock_enter k (sys_cache S) = (a, c) \<Longrightarrow>
    lease_task_step S (move_task S t (Waiting k a) c)"
| lock: "sys_tasks S t = Waiting k a \<Longrightarrow> \<not> rl_locked (lock_store (sys_cache S) a) \<Longrightarrow>
    lease_task_step S (move_task S t (Holding k a) (resource_lock_set a True (sys_cache S)))"
| cancel: "sys_tasks S t = Waiting k a \<Longrightarrow>
    lease_task_step S (move_task S t (Leaving k a) (sys_cache S))"
| do_acquire: "sys_tasks S t = Holding k a \<Longrightarrow>
    lease_task_step S (S\<lparr>sys_cache := snd (acquire_section t1 t2 t3 uid k h d (sys_cache S))\<rparr>)"
| do_renew: "sys_tasks S t = Holding k a \<Longrightarrow> lease_key_from_token l = Inr k \<Longrightarrow>
    lease_task_step S (S\<lparr>sys_cache := snd (renew_section t1 t2 l d (sys_cache S))\<rparr>)"
| do_release: "sys_tasks S t = Holding k a \<Longrightarrow> lease_key_from_token l = Inr k \<Longrightarrow>
    lease_task_step S (S\<lparr>sys_cache := snd (release_section t1 l (sys_cache S))\<rparr>)"
| do_validate: "sys_tasks S t = Holding k a \<Longrightarrow> lease_key_from_token l = Inr k \<Longrightarrow>
    lease_task_step S (S\<lparr>sys_cache := snd (required_lease t1 l (sys_cache S))\<rparr>)"
| unlock: "sys_tasks S t = Holding k a \<Longrightarrow>
    lease_task_step S (move_task S t (Leaving k a) (resource_lock_set a False (sys_cache S)))"
| leave: "sys_tasks S t = Leaving k a \<Longrightarrow>
    lease_task_step S (move_task S t Outside (resource_lock_leave k a (sys_cache S)))"

inductive lease_reachable :: "lease_system \<Rightarrow> bool" where
  start: "new_lease_cache m = Inr c \<Longrightarrow>
    lease_reachable \<lparr>sys_cache = c, sys_tasks = (\<lambda>_. Outside)\<rparr>"
| step: "lease_reachable S \<Longrightarrow> lease_task_step S S' \<Longrightarrow> lease_reachable S'"

fun lock_ref :: "lock_pc \<Rightarrow> (LeaseKey \<times> nat) option" where
  "lock_ref Outside = None"
| "lock_ref (Waiting k a) = Some (k, a)"
| "lock_ref (Holding k a) = Some (k, a)"
| "lock_ref (Leaving k a) = Some (k, a)"

definition lock_users :: "lease_system \<Rightarrow> nat \<Rightarrow> nat set" where
  "lock_users S a = {t. \<exists>k. lock_ref (sys_tasks S t) = Some (k, a)}"

text \<open>
  The invariant: every task that entered still finds its lock object under its key (idle objects
  only are discarded), \<open>users\<close> counts the tasks that entered, and an object is locked exactly
  when one task holds it.
\<close>

definition lock_inv :: "lease_system \<Rightarrow> bool" where
  "lock_inv S \<longleftrightarrow>
     (\<forall>t k a. lock_ref (sys_tasks S t) = Some (k, a) \<longrightarrow>
        dict_get (resource_locks (sys_cache S)) k = Some a)
   \<and> (\<forall>a. finite (lock_users S a))
   \<and> (\<forall>a < next_lock_address (sys_cache S).
        rl_users (lock_store (sys_cache S) a) = int (card (lock_users S a))
      \<and> (rl_locked (lock_store (sys_cache S) a) \<longleftrightarrow> (\<exists>t k. sys_tasks S t = Holding k a)))
   \<and> (\<forall>t t' k k' a. sys_tasks S t = Holding k a \<longrightarrow> sys_tasks S t' = Holding k' a \<longrightarrow> t = t')
   \<and> (\<forall>k a. dict_get (resource_locks (sys_cache S)) k = Some a \<longrightarrow>
        a < next_lock_address (sys_cache S))
   \<and> (\<forall>k k' a. dict_get (resource_locks (sys_cache S)) k = Some a \<longrightarrow>
        dict_get (resource_locks (sys_cache S)) k' = Some a \<longrightarrow> k = k')"

text \<open>What the sections do to the locks: they discard some that nobody uses.\<close>

definition lock_prune :: "InMemoryLeaseCache \<Rightarrow> InMemoryLeaseCache \<Rightarrow> bool" where
  "lock_prune c c' \<longleftrightarrow> lock_store c' = lock_store c
     \<and> next_lock_address c' = next_lock_address c
     \<and> (\<forall>k a. dict_get (resource_locks c') k = Some a \<longrightarrow> dict_get (resource_locks c) k = Some a)
     \<and> (\<forall>k a. dict_get (resource_locks c) k = Some a \<longrightarrow> rl_users (lock_store c a) \<noteq> 0 \<longrightarrow>
          dict_get (resource_locks c') k = Some a)"

lemma lock_prune_refl [simp]: "lock_prune c c"
  by (simp add: lock_prune_def)

lemma lock_prune_trans: "lock_prune a b \<Longrightarrow> lock_prune b c \<Longrightarrow> lock_prune a c"
  unfolding lock_prune_def by metis

lemma lock_prune_leases [simp]:
  "lock_prune c (c'\<lparr>leases := d\<rparr>) \<longleftrightarrow> lock_prune c c'"
  "lock_prune c (c'\<lparr>next_fencing_token := n\<rparr>) \<longleftrightarrow> lock_prune c c'"
  by (simp_all add: lock_prune_def)

lemma discard_prunes: "lock_prune c (discard_idle_resource_lock k c)"
  by (auto simp: discard_idle_resource_lock_def lock_prune_def split: option.splits)

lemma drop_expired_prunes: "lock_prune c (drop_expired_lease k c)"
proof -
  have "lock_prune c (c\<lparr>leases := dict_pop k (leases c)\<rparr>)" by simp
  then show ?thesis
    unfolding drop_expired_lease_def using discard_prunes by (rule lock_prune_trans)
qed

lemma fold_drop_prunes: "lock_prune c (fold drop_expired_lease ks c)"
proof (induction ks arbitrary: c)
  case (Cons k ks)
  show ?case using lock_prune_trans [OF drop_expired_prunes Cons.IH] by simp
qed simp

lemma live_lease_prunes: "lock_prune c (snd (live_lease now k c))"
  by (auto simp: live_lease_def split: option.splits)

lemma required_lease_prunes: "lock_prune c (snd (required_lease now l c))"
proof (cases "lease_key_from_token l")
  case (Inr k)
  then show ?thesis using live_lease_prunes [of c now k]
    by (auto simp: required_lease_def split: prod.splits option.splits)
qed (simp add: required_lease_def)

lemma acquire_section_prunes: "lock_prune c (snd (acquire_section t1 t2 t3 uid k h d c))"
proof -
  have "lock_prune c (snd (ensure_lease_capacity t2 (snd (live_lease t1 k c))))"
    by (rule lock_prune_trans [OF live_lease_prunes [of c t1 k]])
       (simp add: ensure_lease_capacity_def Let_def fold_drop_prunes)
  then show ?thesis
    using live_lease_prunes [of c t1 k]
    by (auto simp: acquire_section_def py_bind_def checked_def Let_def
        split: prod.splits sum.splits option.splits)
qed

lemma renew_section_prunes: "lock_prune c (snd (renew_section t1 t2 l d c))"
  and release_section_prunes: "lock_prune c (snd (release_section t1 l c))"
  using required_lease_prunes [of c t1 l]
  by (auto simp: renew_section_def release_section_def py_bind_def checked_def Let_def
      split: prod.splits sum.splits)

lemma lock_invD:
  assumes "lock_inv S"
  shows lock_inv_ref: "\<And>t k a. lock_ref (sys_tasks S t) = Some (k, a) \<Longrightarrow>
      dict_get (resource_locks (sys_cache S)) k = Some a"
    and lock_inv_finite: "\<And>a. finite (lock_users S a)"
    and lock_inv_users: "\<And>a. a < next_lock_address (sys_cache S) \<Longrightarrow>
      rl_users (lock_store (sys_cache S) a) = int (card (lock_users S a))"
    and lock_inv_locked: "\<And>a. a < next_lock_address (sys_cache S) \<Longrightarrow>
      rl_locked (lock_store (sys_cache S) a) \<longleftrightarrow> (\<exists>t k. sys_tasks S t = Holding k a)"
    and lock_inv_single: "\<And>t t' k k' a. sys_tasks S t = Holding k a \<Longrightarrow>
      sys_tasks S t' = Holding k' a \<Longrightarrow> t = t'"
    and lock_inv_addr: "\<And>k a. dict_get (resource_locks (sys_cache S)) k = Some a \<Longrightarrow>
      a < next_lock_address (sys_cache S)"
    and lock_inv_inj: "\<And>k k' a. dict_get (resource_locks (sys_cache S)) k = Some a \<Longrightarrow>
      dict_get (resource_locks (sys_cache S)) k' = Some a \<Longrightarrow> k = k'"
  using assms unfolding lock_inv_def by blast+

lemma lock_invI:
  assumes "\<And>t k a. lock_ref (sys_tasks S t) = Some (k, a) \<Longrightarrow>
      dict_get (resource_locks (sys_cache S)) k = Some a"
    and "\<And>a. finite (lock_users S a)"
    and "\<And>a. a < next_lock_address (sys_cache S) \<Longrightarrow>
      rl_users (lock_store (sys_cache S) a) = int (card (lock_users S a))"
    and "\<And>a. a < next_lock_address (sys_cache S) \<Longrightarrow>
      rl_locked (lock_store (sys_cache S) a) \<longleftrightarrow> (\<exists>t k. sys_tasks S t = Holding k a)"
    and "\<And>t t' k k' a. sys_tasks S t = Holding k a \<Longrightarrow> sys_tasks S t' = Holding k' a \<Longrightarrow> t = t'"
    and "\<And>k a. dict_get (resource_locks (sys_cache S)) k = Some a \<Longrightarrow>
      a < next_lock_address (sys_cache S)"
    and "\<And>k k' a. dict_get (resource_locks (sys_cache S)) k = Some a \<Longrightarrow>
      dict_get (resource_locks (sys_cache S)) k' = Some a \<Longrightarrow> k = k'"
  shows "lock_inv S"
  unfolding lock_inv_def using assms by blast

lemma lock_users_nonzero:
  assumes "lock_inv S" and "lock_ref (sys_tasks S t) = Some (k, a)"
  shows "rl_users (lock_store (sys_cache S) a) \<noteq> 0"
proof -
  have "a < next_lock_address (sys_cache S)"
    using assms lock_inv_ref lock_inv_addr by blast
  moreover have "t \<in> lock_users S a" using assms(2) by (auto simp: lock_users_def)
  then have "card (lock_users S a) \<noteq> 0" using lock_inv_finite [OF assms(1)] by auto
  ultimately show ?thesis by (simp add: lock_inv_users [OF assms(1)])
qed

lemma lock_inv_prune:
  assumes inv: "lock_inv S" and pr: "lock_prune (sys_cache S) c"
  shows "lock_inv (S\<lparr>sys_cache := c\<rparr>)"
proof -
  have st: "lock_store c = lock_store (sys_cache S)"
    "next_lock_address c = next_lock_address (sys_cache S)"
    using pr by (simp_all add: lock_prune_def)
  have us: "lock_users (S\<lparr>sys_cache := c\<rparr>) = lock_users S" by (simp add: lock_users_def fun_eq_iff)
  have keep: "dict_get (resource_locks c) k = Some a" if "lock_ref (sys_tasks S t) = Some (k, a)" for t k a
    using lock_inv_ref [OF inv that] lock_users_nonzero [OF inv that] pr
    unfolding lock_prune_def by blast
  have old: "dict_get (resource_locks (sys_cache S)) k = Some a"
    if "dict_get (resource_locks c) k = Some a" for k a
    using pr that unfolding lock_prune_def by blast
  show ?thesis
    by (rule lock_invI; simp add: us st)
       (blast intro: keep lock_invD [OF inv] dest: old lock_inv_locked [OF inv])+
qed

lemma lock_users_move:
  "lock_ref p = lock_ref (sys_tasks S t) \<Longrightarrow> lock_users (move_task S t p c) = lock_users S"
  by (auto simp: lock_users_def fun_eq_iff)

text \<open>A task that keeps its reference while the lock bits follow the holders.\<close>

lemma lock_inv_move:
  assumes inv: "lock_inv S" and ref: "lock_ref p = lock_ref (sys_tasks S t)"
    and c: "resource_locks c = resource_locks (sys_cache S)"
      "next_lock_address c = next_lock_address (sys_cache S)"
      "\<And>x. rl_users (lock_store c x) = rl_users (lock_store (sys_cache S) x)"
    and locked: "\<And>x. x < next_lock_address (sys_cache S) \<Longrightarrow>
      rl_locked (lock_store c x) \<longleftrightarrow> (\<exists>t' k. ((sys_tasks S)(t := p)) t' = Holding k x)"
    and single: "\<And>t1 t2 k1 k2 x. ((sys_tasks S)(t := p)) t1 = Holding k1 x \<Longrightarrow>
      ((sys_tasks S)(t := p)) t2 = Holding k2 x \<Longrightarrow> t1 = t2"
  shows "lock_inv (move_task S t p c)"
proof (rule lock_invI)
  have us: "lock_users (move_task S t p c) = lock_users S" by (rule lock_users_move [OF ref])
  show "finite (lock_users (move_task S t p c) a)" for a
    using us lock_inv_finite [OF inv] by simp
  show "rl_users (lock_store (sys_cache (move_task S t p c)) a)
      = int (card (lock_users (move_task S t p c) a))"
    if "a < next_lock_address (sys_cache (move_task S t p c))" for a
    using us lock_inv_users [OF inv] that c by simp
  show "dict_get (resource_locks (sys_cache (move_task S t p c))) k = Some a"
    if "lock_ref (sys_tasks (move_task S t p c) t') = Some (k, a)" for t' k a
  proof -
    have "lock_ref (sys_tasks S t') = Some (k, a)"
      using that ref by (cases "t' = t") auto
    then show ?thesis using lock_inv_ref [OF inv] c(1) by simp
  qed
  show "rl_locked (lock_store (sys_cache (move_task S t p c)) a)
      \<longleftrightarrow> (\<exists>t' k. sys_tasks (move_task S t p c) t' = Holding k a)"
    if "a < next_lock_address (sys_cache (move_task S t p c))" for a
    using locked [of a] that c(2) by simp
  show "t1 = t2" if "sys_tasks (move_task S t p c) t1 = Holding k1 x"
    "sys_tasks (move_task S t p c) t2 = Holding k2 x" for t1 t2 k1 k2 x
    using single [of t1 k1 x t2 k2] that by simp
  show "a < next_lock_address (sys_cache (move_task S t p c))"
    if "dict_get (resource_locks (sys_cache (move_task S t p c))) k = Some a" for k a
    using lock_inv_addr [OF inv] that c by simp
  show "k = k'" if "dict_get (resource_locks (sys_cache (move_task S t p c))) k = Some a"
    "dict_get (resource_locks (sys_cache (move_task S t p c))) k' = Some a" for k k' a
    using lock_inv_inj [OF inv, of k a k'] that c(1) by simp
qed

lemma lock_addr_of_task:
  "lock_inv S \<Longrightarrow> lock_ref (sys_tasks S t) = Some (k, a) \<Longrightarrow> a < next_lock_address (sys_cache S)"
  using lock_inv_ref lock_inv_addr by blast

lemma lock_inv_lock:
  assumes inv: "lock_inv S" and w: "sys_tasks S t = Waiting k a"
    and free: "\<not> rl_locked (lock_store (sys_cache S) a)"
  shows "lock_inv (move_task S t (Holding k a) (resource_lock_set a True (sys_cache S)))"
proof (rule lock_inv_move [OF inv])
  have none: "sys_tasks S t' \<noteq> Holding k' a" for t' k'
    using lock_inv_locked [OF inv] lock_addr_of_task [OF inv, of t k a] w free by auto
  show "rl_locked (lock_store (resource_lock_set a True (sys_cache S)) x)
      \<longleftrightarrow> (\<exists>t' k'. ((sys_tasks S)(t := Holding k a)) t' = Holding k' x)"
    if "x < next_lock_address (sys_cache S)" for x
  proof (cases "x = a")
    case True
    then show ?thesis by (auto simp: resource_lock_set_def)
  next
    case False
    then show ?thesis using lock_inv_locked [OF inv that] w
      by (simp add: resource_lock_set_def) (metis lock_pc.distinct(7))
  qed
  show "t1 = t2" if "((sys_tasks S)(t := Holding k a)) t1 = Holding k1 x"
    "((sys_tasks S)(t := Holding k a)) t2 = Holding k2 x" for t1 t2 k1 k2 x
    using that none lock_inv_single [OF inv, of t1 k1 x t2 k2] by (auto split: if_splits)
qed (auto simp: w resource_lock_set_def)

lemma lock_inv_cancel:
  assumes inv: "lock_inv S" and w: "sys_tasks S t = Waiting k a"
  shows "lock_inv (move_task S t (Leaving k a) (sys_cache S))"
proof (rule lock_inv_move [OF inv])
  show "rl_locked (lock_store (sys_cache S) x)
      \<longleftrightarrow> (\<exists>t' k'. ((sys_tasks S)(t := Leaving k a)) t' = Holding k' x)"
    if "x < next_lock_address (sys_cache S)" for x
    using lock_inv_locked [OF inv that] w
    by (metis fun_upd_apply lock_pc.distinct(7,11))
  show "t1 = t2" if "((sys_tasks S)(t := Leaving k a)) t1 = Holding k1 x"
    "((sys_tasks S)(t := Leaving k a)) t2 = Holding k2 x" for t1 t2 k1 k2 x
    using that lock_inv_single [OF inv, of t1 k1 x t2 k2] by (auto split: if_splits)
qed (simp_all add: w)

lemma lock_inv_unlock:
  assumes inv: "lock_inv S" and h: "sys_tasks S t = Holding k a"
  shows "lock_inv (move_task S t (Leaving k a) (resource_lock_set a False (sys_cache S)))"
proof (rule lock_inv_move [OF inv])
  have only: "t' = t" if "sys_tasks S t' = Holding k' a" for t' k'
    using lock_inv_single [OF inv that h] .
  show "rl_locked (lock_store (resource_lock_set a False (sys_cache S)) x)
      \<longleftrightarrow> (\<exists>t' k'. ((sys_tasks S)(t := Leaving k a)) t' = Holding k' x)"
    if "x < next_lock_address (sys_cache S)" for x
  proof (cases "x = a")
    case True
    then show ?thesis using only by (auto simp: resource_lock_set_def split: if_splits)
  next
    case False
    then show ?thesis using lock_inv_locked [OF inv that] h
      by (simp add: resource_lock_set_def) (metis lock_pc.inject(2))
  qed
  show "t1 = t2" if "((sys_tasks S)(t := Leaving k a)) t1 = Holding k1 x"
    "((sys_tasks S)(t := Leaving k a)) t2 = Holding k2 x" for t1 t2 k1 k2 x
    using that lock_inv_single [OF inv, of t1 k1 x t2 k2] by (auto split: if_splits)
qed (auto simp: h resource_lock_set_def)

lemma lock_users_enter:
  assumes "sys_tasks S t = Outside"
  shows "lock_users (move_task S t (Waiting k a) c) b =
    (if b = a then insert t (lock_users S b) else lock_users S b)"
    and "t \<notin> lock_users S b"
  using assms by (auto simp: lock_users_def)

lemma lock_users_fresh:
  assumes "lock_inv S" and "\<not> a < next_lock_address (sys_cache S)"
  shows "lock_users S a = {}"
  using lock_addr_of_task [OF assms(1)] assms(2) by (auto simp: lock_users_def)

lemma lock_inv_enter:
  assumes inv: "lock_inv S" and out: "sys_tasks S t = Outside"
    and en: "resource_lock_enter k (sys_cache S) = (a, c)"
  shows "lock_inv (move_task S t (Waiting k a) c)"
proof (rule lock_invI)
  let ?S' = "move_task S t (Waiting k a) c" and ?c = "sys_cache S"
  have dict: "dict_get (resource_locks c) k' = (if k' = k then Some a else dict_get (resource_locks ?c) k')"
    for k'
    using en by (auto simp: resource_lock_enter_def Let_def split: option.splits)
  have new: "(dict_get (resource_locks ?c) k = Some a \<and> next_lock_address c = next_lock_address ?c) \<or>
      (dict_get (resource_locks ?c) k = None \<and> a = next_lock_address ?c \<and> next_lock_address c = Suc a)"
    using en by (auto simp: resource_lock_enter_def Let_def split: option.splits)
  have other: "lock_store c x = lock_store ?c x" if "x \<noteq> a" for x
    using en that by (auto simp: resource_lock_enter_def Let_def split: option.splits)
  have at_a: "rl_users (lock_store c a) = int (card (insert t (lock_users S a)))
      \<and> (rl_locked (lock_store c a) \<longleftrightarrow> (\<exists>t' k'. sys_tasks S t' = Holding k' a))"
  proof (cases "dict_get (resource_locks ?c) k")
    case None
    then have "a = next_lock_address ?c" and c: "lock_store c a = \<lparr>rl_locked = False, rl_users = 1\<rparr>"
      using en by (auto simp: resource_lock_enter_def Let_def)
    then have em: "lock_users S a = {}" using lock_users_fresh [OF inv] by simp
    have "sys_tasks S t' \<noteq> Holding k' a" for t' k'
    proof
      assume "sys_tasks S t' = Holding k' a"
      then have "t' \<in> lock_users S a" by (simp add: lock_users_def)
      then show False using em by simp
    qed
    then show ?thesis using c em by simp
  next
    case (Some b)
    then have ab: "a = b" and c: "lock_store c a = (lock_store ?c a)\<lparr>rl_users := rl_users (lock_store ?c a) + 1\<rparr>"
      using en by (auto simp: resource_lock_enter_def)
    have "a < next_lock_address ?c" using lock_inv_addr [OF inv Some] ab by simp
    then show ?thesis
      using c lock_inv_users [OF inv] lock_inv_locked [OF inv] lock_inv_finite [OF inv]
        lock_users_enter(2) [OF out] by simp
  qed
  have hold: "sys_tasks ?S' t' = Holding k' x \<longleftrightarrow> sys_tasks S t' = Holding k' x" for t' k' x
    using out by auto
  show "finite (lock_users ?S' b)" for b
    using lock_inv_finite [OF inv] by (simp add: lock_users_enter [OF out])
  show "rl_users (lock_store (sys_cache ?S') b) = int (card (lock_users ?S' b))"
    if "b < next_lock_address (sys_cache ?S')" for b
    using at_a other [of b] lock_inv_users [OF inv, of b] new that
    by (cases "b = a") (auto simp: lock_users_enter(1) [OF out])
  show "rl_locked (lock_store (sys_cache ?S') b) \<longleftrightarrow> (\<exists>t' k'. sys_tasks ?S' t' = Holding k' b)"
    if "b < next_lock_address (sys_cache ?S')" for b
    unfolding hold using at_a other [of b] lock_inv_locked [OF inv, of b] new that
    by (cases "b = a") auto
  show "t1 = t2" if "sys_tasks ?S' t1 = Holding k1 x" "sys_tasks ?S' t2 = Holding k2 x"
    for t1 t2 k1 k2 x
    using that unfolding hold by (rule lock_inv_single [OF inv])
  show "b < next_lock_address (sys_cache ?S')"
    if "dict_get (resource_locks (sys_cache ?S')) k' = Some b" for k' b
    using that new lock_inv_addr [OF inv, of k' b] lock_inv_addr [OF inv, of k b]
    by (auto simp: dict split: if_splits)
  show "k1 = k2" if "dict_get (resource_locks (sys_cache ?S')) k1 = Some b"
    "dict_get (resource_locks (sys_cache ?S')) k2 = Some b" for k1 k2 b
    using that new lock_inv_inj [OF inv, of k1 b k2] lock_inv_addr [OF inv, of k1 b]
      lock_inv_addr [OF inv, of k2 b]
    by (auto simp: dict split: if_splits)
  show "dict_get (resource_locks (sys_cache ?S')) k' = Some b"
    if "lock_ref (sys_tasks ?S' t') = Some (k', b)" for t' k' b
    using that new lock_inv_ref [OF inv, of t' k' b] lock_addr_of_task [OF inv, of t' k' b]
    by (auto simp: dict split: if_splits)
qed

lemma lock_users_leave:
  assumes "sys_tasks S t = Leaving k a"
  shows "lock_users (move_task S t Outside c) b = lock_users S b - (if b = a then {t} else {})"
    and "t \<in> lock_users S a"
  using assms by (auto simp: lock_users_def)

lemma lock_inv_leave:
  assumes inv: "lock_inv S" and lv: "sys_tasks S t = Leaving k a"
  shows "lock_inv (move_task S t Outside (resource_lock_leave k a (sys_cache S)))"
proof -
  let ?c = "sys_cache S"
  let ?c1 = "?c\<lparr>lock_store := (lock_store ?c)(a := (lock_store ?c a)\<lparr>rl_users := rl_users (lock_store ?c a) - 1\<rparr>)\<rparr>"
  let ?S1 = "move_task S t Outside ?c1"
  have addr: "a < next_lock_address ?c" using lock_addr_of_task [OF inv, of t k a] lv by simp
  have hold: "sys_tasks ?S1 t' = Holding k' x \<longleftrightarrow> sys_tasks S t' = Holding k' x" for t' k' x
    using lv by auto
  have "lock_inv ?S1"
  proof (rule lock_invI)
    show "finite (lock_users ?S1 b)" for b
      using lock_inv_finite [OF inv] by (simp add: lock_users_leave(1) [OF lv])
    have "card (lock_users S a) \<noteq> 0"
      using lock_users_leave(2) [OF lv] lock_inv_finite [OF inv, of a] by auto
    then show "rl_users (lock_store (sys_cache ?S1) b) = int (card (lock_users ?S1 b))"
      if "b < next_lock_address (sys_cache ?S1)" for b
      using lock_inv_users [OF inv, of b] lock_users_leave(2) [OF lv] that
      by (auto simp: lock_users_leave(1) [OF lv] of_nat_diff)
    show "rl_locked (lock_store (sys_cache ?S1) b) \<longleftrightarrow> (\<exists>t' k'. sys_tasks ?S1 t' = Holding k' b)"
      if "b < next_lock_address (sys_cache ?S1)" for b
      unfolding hold using lock_inv_locked [OF inv, of b] that by auto
    show "t1 = t2" if "sys_tasks ?S1 t1 = Holding k1 x" "sys_tasks ?S1 t2 = Holding k2 x"
      for t1 t2 k1 k2 x
      using that unfolding hold by (rule lock_inv_single [OF inv])
    show "dict_get (resource_locks (sys_cache ?S1)) k' = Some b"
      if "lock_ref (sys_tasks ?S1 t') = Some (k', b)" for t' k' b
      using that lock_inv_ref [OF inv, of t' k' b] by (auto split: if_splits)
  qed (use lock_inv_addr [OF inv] lock_inv_inj [OF inv] in auto)
  then have "lock_inv (?S1\<lparr>sys_cache := discard_idle_resource_lock k ?c1\<rparr>)"
    by (rule lock_inv_prune) (simp add: discard_prunes)
  moreover have "?S1\<lparr>sys_cache := discard_idle_resource_lock k ?c1\<rparr> =
      move_task S t Outside (resource_lock_leave k a ?c)"
    by (rule lease_system.equality) (simp_all add: resource_lock_leave_def)
  ultimately show ?thesis by simp
qed

text \<open>Every interleaving keeps the invariant.\<close>

lemma lease_task_step_inv: "lease_task_step S S' \<Longrightarrow> lock_inv S \<Longrightarrow> lock_inv S'"
proof (induction rule: lease_task_step.induct)
  case (enter S t k a c)
  then show ?case using lock_inv_enter by blast
next
  case (lock S t k a)
  then show ?case using lock_inv_lock by blast
next
  case (cancel S t k a)
  then show ?case using lock_inv_cancel by blast
next
  case (do_acquire S t k a t1 t2 t3 uid h d)
  then show ?case using lock_inv_prune acquire_section_prunes by blast
next
  case (do_renew S t k a l t1 t2 d)
  then show ?case using lock_inv_prune renew_section_prunes by blast
next
  case (do_release S t k a l t1)
  then show ?case using lock_inv_prune release_section_prunes by blast
next
  case (do_validate S t k a l t1)
  then show ?case using lock_inv_prune required_lease_prunes by blast
next
  case (unlock S t k a)
  then show ?case using lock_inv_unlock by blast
next
  case (leave S t k a)
  then show ?case using lock_inv_leave by blast
qed

lemma lease_reachable_inv: "lease_reachable S \<Longrightarrow> lock_inv S"
proof (induction rule: lease_reachable.induct)
  case (start m c)
  then have "resource_locks c = []" "next_lock_address c = 0"
    by (auto simp: new_lease_cache_def)
  then show ?case by (intro lock_invI) (simp_all add: lock_users_def)
next
  case (step S S')
  then show ?case using lease_task_step_inv by blast
qed

section \<open>Granted leases\<close>

text \<open>What a successful \<open>acquire\<close> leaves behind.\<close>

lemma acquire_granted:
  assumes "fst (acquire t1 t2 t3 uid ow re ho ttl s) = Inr (Some l)"
  obtains k h d where "lease_key ow re = Inr k" "validate_resource ho = Inr h"
    "validate_positive_finite ttl = Inr d" "lease_key_from_token l = Inr k"
    "lt_fencing_token l = FencingToken (int (Suc (next_fencing_token s)))" "lt_holder l = h"
    "lt_token l = uid" "t3 + Fin d = Fin (lt_expires_at l)"
    "next_fencing_token (snd (acquire t1 t2 t3 uid ow re ho ttl s)) = Suc (next_fencing_token s)"
    "dict_get (leases (snd (acquire t1 t2 t3 uid ow re ho ttl s))) k =
       Some \<lparr>ls_holder = h, ls_fencing_token = lt_fencing_token l,
             ls_expires_at = t3 + Fin d, ls_token = uid\<rparr>"
    "\<And>c. dict_get (leases s) k = Some c \<Longrightarrow> ls_expires_at c \<le> t1"
proof -
  obtain k h d where val: "lease_key ow re = Inr k" "validate_resource ho = Inr h"
    "validate_positive_finite ttl = Inr d"
    using assms by (auto simp: acquire_def split: checked_splits)
  let ?body = "acquire_section t1 t2 t3 uid k h d"
  have eq: "acquire t1 t2 t3 uid ow re ho ttl s = with_resource_lock k ?body s"
    using val by (simp add: acquire_def)
  obtain s0 where s0: "same_leases s0 s"
    and res: "fst (with_resource_lock k ?body s) = fst (?body s0)"
    and post: "same_leases (snd (with_resource_lock k ?body s)) (snd (?body s0))"
    by (rule with_resource_lock_core [where k = k and body = ?body and s = s]) blast
  have "?body s0 = (Inr (Some l), snd (?body s0))"
    using assms eq res by (simp add: prod_eq_iff)
  then show thesis
  proof (cases rule: acquire_section_cases)
    case refused
    then show thesis by blast
  next
    case (granted s1 st)
    have nx: "next_fencing_token s1 = next_fencing_token s"
      using granted(1) s0 by (simp add: lease_shrink_def same_leases_def)
    have "lease_state_value st (fst k) (snd k) = Inr l"
      using granted(6) by (auto split: sum.splits)
    then have l: "lt_owner l = fst k" "lt_resource l = snd k" "lt_holder l = h"
        "lt_fencing_token l = ls_fencing_token st" "lt_token l = uid"
      and ex: "t3 + Fin d = Fin (lt_expires_at l)"
      by (auto simp: lease_state_value_def make_LeaseToken_def granted(4) split: pyfloat.splits)
    have key: "lease_key_from_token l = Inr k"
      using val(1) l(1,2) by (auto simp: lease_key_from_token_def lease_key_def)
    have ft: "ls_fencing_token st = FencingToken (int (Suc (next_fencing_token s)))"
      using granted(4) s0 by (simp add: same_leases_def)
    have nx': "next_fencing_token (snd (with_resource_lock k ?body s)) = Suc (next_fencing_token s)"
      and get: "dict_get (leases (snd (with_resource_lock k ?body s))) k = Some st"
      using post granted(5) nx by (simp_all add: same_leases_def)
    show thesis
    proof (rule that [OF val key])
      show "lt_fencing_token l = FencingToken (int (Suc (next_fencing_token s)))"
        using l(4) ft by simp
      show "ls_expires_at c \<le> t1" if "dict_get (leases s) k = Some c" for c
        using granted(3) s0 that by (simp add: same_leases_def)
      show "dict_get (leases (snd (acquire t1 t2 t3 uid ow re ho ttl s))) k =
          Some \<lparr>ls_holder = h, ls_fencing_token = lt_fencing_token l,
                ls_expires_at = t3 + Fin d, ls_token = uid\<rparr>"
        using get l(4) granted(4) eq by simp
    qed (use l ex nx' eq in simp_all)
  qed
qed

section \<open>Properties\<close>

definition demo_leases :: InMemoryLeaseCache where
  "demo_leases = projr (new_lease_cache (PyInt 2))"

definition demo_start :: lease_system where
  "demo_start = \<lparr>sys_cache = demo_leases, sys_tasks = (\<lambda>_. Outside)\<rparr>"

definition demo_one_waiting :: lease_system where
  "demo_one_waiting =
     move_task demo_start 0 (Waiting (''o'', ''r'') 0)
       (snd (resource_lock_enter (''o'', ''r'') (sys_cache demo_start)))"

definition demo_two_waiting :: lease_system where
  "demo_two_waiting =
     move_task demo_one_waiting 1 (Waiting (''o'', ''r'') 0)
       (snd (resource_lock_enter (''o'', ''r'') (sys_cache demo_one_waiting)))"

definition demo_one_holding :: lease_system where
  "demo_one_holding =
     move_task demo_two_waiting 0 (Holding (''o'', ''r'') 0)
       (resource_lock_set 0 True (sys_cache demo_two_waiting))"

lemmas demo_lease_defs =
  demo_start_def demo_one_waiting_def demo_two_waiting_def demo_one_holding_def demo_leases_def
  new_lease_cache_def resource_lock_enter_def resource_lock_set_def

text \<open>A live lease excludes every other holder. While a lease is current at the time an
  \<open>acquire\<close> of its resource looks at it, that \<open>acquire\<close> returns no lease and changes no lease.\<close>

theorem lease_excludes_acquire:
  assumes "lease_current t1 l s" and "lease_key ow re = lease_key_from_token l"
    and "validate_resource ho = Inr h" and "validate_positive_finite ttl = Inr d"
  shows "fst (acquire t1 t2 t3 uid ow re ho ttl s) = Inr None
    \<and> leases (snd (acquire t1 t2 t3 uid ow re ho ttl s)) = leases s"
  using assms
  by (auto simp: lease_current_def acquire_def with_resource_lock_def acquire_section_def
      live_lease_def Let_def case_prod_beta split: sum.splits option.splits)

theorem lease_excludes_acquire_witness:
  "fst (acquire (Fin 5) (Fin 5) (Fin 5) ''u2'' (PyStr ''o'') (PyStr ''r'') (PyStr ''h2'') (PyInt 10)
     (snd (acquire (Fin 0) (Fin 0) (Fin 0) ''u1'' (PyStr ''o'') (PyStr ''r'') (PyStr ''h'') (PyInt 10)
        demo_leases))) = Inr None"
  by (rule conjunct1 [OF lease_excludes_acquire [where h = "''h2''" and d = 10 and
        l = "\<lparr>lt_owner = ''o'', lt_resource = ''r'', lt_holder = ''h'',
              lt_fencing_token = FencingToken 1, lt_expires_at = 10, lt_token = ''u1''\<rparr>"]])
     code_simp+

text \<open>C2: Fencing tokens only grow. Whatever calls are made between two successful acquisitions (of
  any resources), the later lease has the greater fencing token, so a resource that remembers the
  greatest token it has seen can refuse every older holder.\<close>

theorem fencing_tokens_increase:
  assumes "lease_inv s"
    and "fst (acquire t1 t2 t3 uid ow re ho ttl s) = Inr (Some l)"
    and "fst (acquire u1 u2 u3 uid' ow' re' ho' ttl'
           (run lease_step cs (snd (acquire t1 t2 t3 uid ow re ho ttl s)))) = Inr (Some l')"
  shows "lt_fencing_token l < lt_fencing_token l'"
proof -
  let ?s1 = "snd (acquire t1 t2 t3 uid ow re ho ttl s)"
  have "lease_inv ?s1"
    using lease_tickets.step_inv [OF assms(1), of "Acquire t1 t2 t3 uid ow re ho ttl"] by simp
  then have "next_fencing_token ?s1 \<le> next_fencing_token (run lease_step cs ?s1)"
    by (rule lease_tickets.run_counter_mono)
  moreover have "lt_fencing_token l = FencingToken (int (Suc (next_fencing_token s)))"
    and "next_fencing_token ?s1 = Suc (next_fencing_token s)"
    using assms(2) by (blast elim: acquire_granted)+
  moreover have "lt_fencing_token l' = FencingToken (int (Suc (next_fencing_token (run lease_step cs ?s1))))"
    using assms(3) by (blast elim: acquire_granted)
  ultimately show ?thesis by (simp add: less_FencingToken_def)
qed

theorem fencing_tokens_increase_witness:
  "lt_fencing_token
     \<lparr>lt_owner = ''o'', lt_resource = ''r'', lt_holder = ''h'', lt_fencing_token = FencingToken 1,
      lt_expires_at = 10, lt_token = ''u1''\<rparr>
   < lt_fencing_token
     \<lparr>lt_owner = ''o'', lt_resource = ''r'', lt_holder = ''h2'', lt_fencing_token = FencingToken 2,
      lt_expires_at = 30, lt_token = ''u2''\<rparr>"
proof -
  have inv: "lease_inv demo_leases" by code_simp
  have first: "fst (acquire (Fin 0) (Fin 0) (Fin 0) ''u1'' (PyStr ''o'') (PyStr ''r'') (PyStr ''h'')
      (PyInt 10) demo_leases) =
    Inr (Some \<lparr>lt_owner = ''o'', lt_resource = ''r'', lt_holder = ''h'',
               lt_fencing_token = FencingToken 1, lt_expires_at = 10, lt_token = ''u1''\<rparr>)"
    by code_simp
  have second: "fst (acquire (Fin 20) (Fin 20) (Fin 20) ''u2'' (PyStr ''o'') (PyStr ''r'')
      (PyStr ''h2'') (PyInt 10)
      (run lease_step [] (snd (acquire (Fin 0) (Fin 0) (Fin 0) ''u1'' (PyStr ''o'') (PyStr ''r'')
         (PyStr ''h'') (PyInt 10) demo_leases)))) =
    Inr (Some \<lparr>lt_owner = ''o'', lt_resource = ''r'', lt_holder = ''h2'',
               lt_fencing_token = FencingToken 2, lt_expires_at = 30, lt_token = ''u2''\<rparr>)"
    by code_simp
  show ?thesis by (rule fencing_tokens_increase [OF inv first second])
qed

lemma superseded_not_current:
  assumes "lease_inv s" and "fst (acquire t1 t2 t3 uid ow re ho ttl s) = Inr (Some l)"
    and "lease_key_from_token old = lease_key_from_token l"
    and "lt_fencing_token old < lt_fencing_token l"
  shows "\<not> lease_current t old (run lease_step cs (snd (acquire t1 t2 t3 uid ow re ho ttl s)))"
proof
  let ?s1 = "snd (acquire t1 t2 t3 uid ow re ho ttl s)"
  assume cur: "lease_current t old (run lease_step cs ?s1)"
  have inv: "lease_inv ?s1"
    using lease_tickets.step_inv [OF assms(1), of "Acquire t1 t2 t3 uid ow re ho ttl"] by simp
  obtain k st where l: "lease_key_from_token l = Inr k"
    and st: "dict_get (leases ?s1) k = Some st" "ls_fencing_token st = lt_fencing_token l"
    using assms(2) by (rule acquire_granted) force
  let ?n = "fencing_value (lt_fencing_token old)"
  have lt: "?n < fencing_value (lt_fencing_token l)"
    using assms(4) by (simp add: less_FencingToken_def)
  have "?n \<le> int (next_fencing_token ?s1)"
    using lease_inv_token_bound [OF inv st(1)] st(2) lt by simp
  moreover have "lease_entry ?s1 k \<noteq> Some (?n, v)" for v
    using st lt by (auto simp: lease_entry_def)
  ultimately have "lease_entry (run lease_step cs ?s1) k \<noteq> Some (?n, v)" for v
    by (rule lease_tickets.stamp_never_reused [OF inv])
  moreover have "\<exists>v. lease_entry (run lease_step cs ?s1) k = Some (?n, v)"
    using cur assms(3) l by (auto simp: lease_current_def lease_entry_def split: option.splits)
  ultimately show False by blast
qed

text \<open>What is refused to a token that is not current.\<close>

lemma stale_lease_refused:
  assumes stale: "\<And>now. \<not> lease_current now l s" and key: "lease_key_from_token l = Inr k"
  shows "fst (required_lease t l s) = Inl CacheConflictError" and "\<exists>e. fst (renew t t' l ttl s) = Inl e"
    and "fst (release t l s) = Inl CacheConflictError"
    and "(\<exists>e. fst (fenced_section bound f1 f2 (Some l) body s c) = Inl e) \<and> snd (snd (fenced_section bound f1 f2 (Some l) body s c)) = c"
proof -
  show "fst (required_lease t l s) = Inl CacheConflictError" by (rule required_lease_stale [OF stale key])
  have locked: "fst (with_resource_lock k body' s) = Inl CacheConflictError"
    if body': "\<And>s0. fst (required_lease t l s0) = Inl CacheConflictError \<Longrightarrow> fst (body' s0) = Inl CacheConflictError"
    for body' :: "(InMemoryLeaseCache, 'd) pyop"
  proof -
    obtain s0 where "same_leases s0 s" "fst (with_resource_lock k body' s) = fst (body' s0)"
      by (rule with_resource_lock_core)
    then show ?thesis using body' required_lease_stale [OF _ key] stale same_leases_current by simp
  qed
  have renew: "fst (renew_section t t' l d s0) = Inl CacheConflictError"
    and release: "fst (release_section t l s0) = Inl CacheConflictError"
    if "fst (required_lease t l s0) = Inl CacheConflictError" for s0 d
    using that by (cases "required_lease t l s0"; simp add: renew_section_def release_section_def)+
  show "fst (release t l s) = Inl CacheConflictError"
    using locked [OF release] by (simp add: release_def key)
  show "\<exists>e. fst (renew t t' l ttl s) = Inl e"
    using locked [OF renew] by (cases "validate_positive_finite ttl") (simp_all add: renew_def key)
  obtain r s' c' where f: "fenced_section bound f1 f2 (Some l) body s c = (r, s', c')" by (metis prod_cases3)
  then have "(\<exists>e. r = Inl e) \<and> c' = c" by (cases rule: fenced_section_cases) (use stale in auto)
  then show "(\<exists>e. fst (fenced_section bound f1 f2 (Some l) body s c) = Inl e) \<and> snd (snd (fenced_section bound f1 f2 (Some l) body s c)) = c"
    using f by simp
qed

text \<open>C3: A superseded lease stays fenced off. Once a resource has been granted to a new holder, an
  older token for it (one with another, already issued fencing token) is refused at any later time and
  after any further calls, including renewals attempted with it: the check of the lease, a renewal and a
  release raise, and so does a write that is fenced by it, which leaves the written store as it was.\<close>

theorem superseded_lease_refused:
  assumes "lease_inv s" and "fst (acquire t1 t2 t3 uid ow re ho ttl s) = Inr (Some l)"
    and "lease_key_from_token old = lease_key_from_token l"
    and "lt_fencing_token old < lt_fencing_token l"
    and "s' = run lease_step cs (snd (acquire t1 t2 t3 uid ow re ho ttl s))"
  shows "fst (required_lease t old s') = Inl CacheConflictError \<and> (\<exists>e. fst (renew t t' old ttl' s') = Inl e)
    \<and> fst (release t old s') = Inl CacheConflictError
    \<and> (\<exists>e. fst (fenced_section bound f1 f2 (Some old) body s' c) = Inl e)
    \<and> snd (snd (fenced_section bound f1 f2 (Some old) body s' c)) = c"
proof -
  have stale: "\<not> lease_current now old s'" for now
    unfolding assms(5) by (rule superseded_not_current [OF assms(1-4)])
  obtain k where k: "lease_key_from_token old = Inr k"
    using assms(2) by (rule acquire_granted) (use assms(3) in force)
  note refused = stale_lease_refused [OF stale k]
  show ?thesis
    by (intro conjI refused(1-3) conjunct1 [OF refused(4)] conjunct2 [OF refused(4)])
qed

theorem superseded_lease_refused_witness:
  "fst (required_lease (Fin 21)
      \<lparr>lt_owner = ''o'', lt_resource = ''r'', lt_holder = ''h'', lt_fencing_token = FencingToken 1,
       lt_expires_at = 10, lt_token = ''u1''\<rparr>
      (run lease_step []
        (snd (acquire (Fin 20) (Fin 20) (Fin 20) ''u2'' (PyStr ''o'') (PyStr ''r'') (PyStr ''h2'')
           (PyInt 10)
           (snd (acquire (Fin 0) (Fin 0) (Fin 0) ''u1'' (PyStr ''o'') (PyStr ''r'') (PyStr ''h'')
              (PyInt 10) demo_leases)))))) = Inl CacheConflictError"
proof -
  let ?s = "snd (acquire (Fin 0) (Fin 0) (Fin 0) ''u1'' (PyStr ''o'') (PyStr ''r'') (PyStr ''h'') (PyInt 10) demo_leases)"
  let ?l = "\<lparr>lt_owner = ''o'', lt_resource = ''r'', lt_holder = ''h2'',
     lt_fencing_token = FencingToken 2, lt_expires_at = 30, lt_token = ''u2''\<rparr>"
  let ?old = "\<lparr>lt_owner = ''o'', lt_resource = ''r'', lt_holder = ''h'', lt_fencing_token = FencingToken 1,
     lt_expires_at = 10, lt_token = ''u1''\<rparr>"
  have inv: "lease_inv ?s" by code_simp
  have second: "fst (acquire (Fin 20) (Fin 20) (Fin 20) ''u2'' (PyStr ''o'') (PyStr ''r'') (PyStr ''h2'') (PyInt 10) ?s) = Inr (Some ?l)"
    by code_simp
  have key: "lease_key_from_token ?old = lease_key_from_token ?l" by code_simp
  have older: "lt_fencing_token ?old < lt_fencing_token ?l" by code_simp
  show ?thesis by (rule conjunct1 [OF superseded_lease_refused [OF inv second key older refl]])
qed

text \<open>From a new lease cache, any sequence of calls keeps at most one lease per resource, at most
  \<open>max_leases\<close> leases in all, and fencing tokens that are positive, issued and pairwise different.\<close>

theorem lease_cache_invariant:
  assumes "new_lease_cache m = Inr s"
  shows "lease_inv (run lease_step cs s)"
  using lease_tickets.run_inv [OF new_lease_cache_inv [OF assms]] .

theorem lease_cache_invariant_witness: "lease_inv (run lease_step [] demo_leases)"
  by (rule lease_cache_invariant [of "PyInt 2"]) (simp add: demo_leases_def new_lease_cache_def)

text \<open>An acquired lease is current exactly until its expiry: at a clock reading \<open>t\<close> the token
  that \<open>acquire\<close> returned is accepted if and only if \<open>t\<close> has not reached the expiry written in it.\<close>

theorem acquired_lease_current_until_expiry:
  assumes "fst (acquire t1 t2 t3 uid ow re ho ttl s) = Inr (Some l)"
  shows "lease_current t l (snd (acquire t1 t2 t3 uid ow re ho ttl s))
    \<longleftrightarrow> \<not> Fin (lt_expires_at l) \<le> t"
  using assms by (rule acquire_granted) (simp add: lease_current_def)

theorem acquired_lease_current_until_expiry_witness:
  "lease_current (Fin 5)
     \<lparr>lt_owner = ''o'', lt_resource = ''r'', lt_holder = ''h'', lt_fencing_token = FencingToken 1,
      lt_expires_at = 10, lt_token = ''u1''\<rparr>
     (snd (acquire (Fin 0) (Fin 0) (Fin 0) ''u1'' (PyStr ''o'') (PyStr ''r'') (PyStr ''h'')
        (PyInt 10) demo_leases))
   \<longleftrightarrow> \<not> Fin 10 \<le> Fin 5"
proof -
  let ?l = "\<lparr>lt_owner = ''o'', lt_resource = ''r'', lt_holder = ''h'',
      lt_fencing_token = FencingToken 1, lt_expires_at = 10, lt_token = ''u1''\<rparr>"
  have "fst (acquire (Fin 0) (Fin 0) (Fin 0) ''u1'' (PyStr ''o'') (PyStr ''r'') (PyStr ''h'')
      (PyInt 10) demo_leases) = Inr (Some ?l)"
    by code_simp
  from acquired_lease_current_until_expiry [OF this, of "Fin 5"] show ?thesis by simp
qed

text \<open>C4: The resource lock is a mutual exclusion. In every interleaving of tasks that enter, wait
  for, hold, release, cancel and leave \<open>_resource_lock\<close>, with lease operations running in between
  and idle lock objects discarded, at most one task is inside the critical section of a resource.\<close>

theorem resource_lock_mutual_exclusion:
  assumes "lease_reachable S"
    and "sys_tasks S t = Holding k a" and "sys_tasks S t' = Holding k b"
  shows "t = t'"
proof -
  have inv: "lock_inv S" using assms(1) by (rule lease_reachable_inv)
  have "a = b"
    using lock_inv_ref [OF inv, of t k a] lock_inv_ref [OF inv, of t' k b] assms(2,3) by simp
  then show ?thesis using lock_inv_single [OF inv assms(2)] assms(3) by simp
qed

theorem resource_lock_mutual_exclusion_witness:
  "lease_reachable demo_one_holding \<and> sys_tasks demo_one_holding 0 = Holding (''o'', ''r'') 0
   \<and> sys_tasks demo_one_holding 1 \<noteq> Holding (''o'', ''r'') 0"
proof -
  have "lease_reachable demo_start"
    unfolding demo_start_def
    by (rule lease_reachable.start [of "PyInt 2"]) (simp add: demo_leases_def new_lease_cache_def)
  then have "lease_reachable demo_one_waiting"
    by (rule lease_reachable.step)
       (unfold demo_one_waiting_def, rule lease_task_step.enter, auto simp: demo_lease_defs)
  then have "lease_reachable demo_two_waiting"
    by (rule lease_reachable.step)
       (unfold demo_two_waiting_def, rule lease_task_step.enter, auto simp: demo_lease_defs)
  then have reach: "lease_reachable demo_one_holding"
    by (rule lease_reachable.step)
       (unfold demo_one_holding_def, rule lease_task_step.lock, auto simp: demo_lease_defs)
  have hold: "sys_tasks demo_one_holding 0 = Holding (''o'', ''r'') 0"
    by (simp add: demo_one_holding_def)
  have "sys_tasks demo_one_holding 1 \<noteq> Holding (''o'', ''r'') 0"
    using resource_lock_mutual_exclusion [OF reach hold, of 1 0] by auto
  then show ?thesis using reach hold by simp
qed

end
