(* ===== verification/Atomic_Cache.thy ===== *)
theory Atomic_Cache
  imports Lease_Cache
begin

text \<open>
  \<^verbatim>\<open>src/src/wybra/cache/memory_atomic.py\<close>: revisioned byte values with compare-and-swap, and
  counters, in one key space. Writes may be fenced by a lease; then the lease cache is part of the
  state. As in \<open>Lease_Cache\<close>, each call of \<open>self.clock()\<close> is an argument: \<open>f1\<close> and \<open>f2\<close> are the
  readings of the two lease validations, \<open>t1\<close>, \<open>t2\<close>, \<open>t3\<close> those of the operation's own body.
\<close>

section \<open>State\<close>

type_synonym StorageKey = "string \<times> string"

datatype atomic_content = AtomicBytes bytes | AtomicCounter int

record AtomicEntry =
  ae_value :: atomic_content
  ae_revision :: CacheRevision
  ae_expires_at :: pyfloat

record InMemoryAtomicCache =
  max_entries :: int
  atomic_lease_cache :: "nat option"
  atomic_entries :: "(StorageKey, AtomicEntry) dict"
  atomic_next_revision :: nat

definition new_atomic_cache :: "pyobj \<Rightarrow> InMemoryAtomicCache result" where
  "new_atomic_cache maximum =
     res_bind (validate_positive_integer maximum) (\<lambda>m. Inr
       \<lparr>max_entries = m, atomic_lease_cache = None, atomic_entries = [], atomic_next_revision = 0\<rparr>)"

section \<open>Helpers\<close>

definition storage_key :: "pyobj \<Rightarrow> pyobj \<Rightarrow> StorageKey result" where
  "storage_key owner key =
     res_bind (validate_resource owner) (\<lambda>ow.
     res_bind (validate_resource key) (\<lambda>ke. Inr (ow, ke)))"

definition live_entry ::
    "pyfloat \<Rightarrow> StorageKey \<Rightarrow> InMemoryAtomicCache \<Rightarrow> AtomicEntry option \<times> InMemoryAtomicCache" where
  "live_entry now k a =
     (case dict_get (atomic_entries a) k of
        None \<Rightarrow> (None, a)
      | Some e \<Rightarrow>
          if ae_expires_at e \<le> now
          then (None, a\<lparr>atomic_entries := dict_pop k (atomic_entries a)\<rparr>)
          else (Some e, a))"

definition ensure_entry_capacity :: "pyfloat \<Rightarrow> StorageKey \<Rightarrow> (InMemoryAtomicCache, unit) pyop" where
  "ensure_entry_capacity now k a =
     (if dict_get (atomic_entries a) k \<noteq> None then (Inr (), a)
      else
        let expired = [k'. (k', e) \<leftarrow> atomic_entries a, ae_expires_at e \<le> now];
            a1 = a\<lparr>atomic_entries := dict_pop_all expired (atomic_entries a)\<rparr>
        in if max_entries a1 \<le> int (length (atomic_entries a1)) then (Inl CacheFeatureError, a1)
           else (Inr (), a1))"

definition next_atomic_revision :: "(InMemoryAtomicCache, CacheRevision) pyop" where
  "next_atomic_revision a =
     (let n = Suc (atomic_next_revision a)
      in (make_CacheRevision (PyInt (int n)), a\<lparr>atomic_next_revision := n\<rparr>))"

definition bind_atomic_lease_fence :: "nat \<Rightarrow> (InMemoryAtomicCache, unit) pyop" where
  "bind_atomic_lease_fence ref a =
     (if atomic_lease_cache a \<noteq> None \<and> atomic_lease_cache a \<noteq> Some ref
      then (Inl CacheFeatureError, a)
      else (Inr (), a\<lparr>atomic_lease_cache := Some ref\<rparr>))"

definition atomic_fence ::
    "pyfloat \<Rightarrow> pyfloat \<Rightarrow> LeaseToken option \<Rightarrow> (InMemoryAtomicCache, 'a) pyop
      \<Rightarrow> InMemoryLeaseCache \<Rightarrow> InMemoryAtomicCache
      \<Rightarrow> 'a result \<times> InMemoryLeaseCache \<times> InMemoryAtomicCache" where
  "atomic_fence f1 f2 lease body s a =
     fenced_section (atomic_lease_cache a \<noteq> None) f1 f2 lease body s a"

text \<open>\<open>store_entry\<close> is the common end of the writes: a new revision, then the entry.\<close>

definition store_entry ::
    "pyfloat \<Rightarrow> StorageKey \<Rightarrow> atomic_content \<Rightarrow> rat \<Rightarrow> (InMemoryAtomicCache, CacheRevision) pyop" where
  "store_entry t3 k content ttl a =
     py_bind (next_atomic_revision a) (\<lambda>rev a1.
       (Inr rev, a1\<lparr>atomic_entries :=
          dict_set k \<lparr>ae_value = content, ae_revision = rev, ae_expires_at = t3 + Fin ttl\<rparr>
            (atomic_entries a1)\<rparr>))"

section \<open>Operations\<close>

definition atomic_get ::
    "pyfloat \<Rightarrow> pyobj \<Rightarrow> pyobj \<Rightarrow> (InMemoryAtomicCache, AtomicCacheValue option) pyop" where
  "atomic_get t1 owner key a =
     checked (storage_key owner key) a (\<lambda>k.
       case live_entry t1 k a of
         (None, a1) \<Rightarrow> (Inr None, a1)
       | (Some e, a1) \<Rightarrow>
           (case ae_value e of
              AtomicCounter _ \<Rightarrow> (Inl CacheConflictError, a1)
            | AtomicBytes b \<Rightarrow>
                checked (make_AtomicCacheValue b (ae_revision e)) a1 (\<lambda>v. (Inr (Some v), a1))))"

definition create_section ::
    "pyfloat \<Rightarrow> pyfloat \<Rightarrow> pyfloat \<Rightarrow> StorageKey \<Rightarrow> bytes \<Rightarrow> rat
      \<Rightarrow> (InMemoryAtomicCache, AtomicCacheValue option) pyop" where
  "create_section t1 t2 t3 k b d a =
     (case live_entry t1 k a of
        (Some _, a1) \<Rightarrow> (Inr None, a1)
      | (None, a1) \<Rightarrow>
          py_bind (ensure_entry_capacity t2 k a1) (\<lambda>_ a2.
          py_bind (store_entry t3 k (AtomicBytes b) d a2) (\<lambda>rev a3.
          checked (make_AtomicCacheValue b rev) a3 (\<lambda>v. (Inr (Some v), a3)))))"

definition atomic_create where
  "atomic_create f1 f2 t1 t2 t3 owner key value ttl lease s a =
     (case storage_key owner key of Inl e \<Rightarrow> (Inl e, s, a) | Inr k \<Rightarrow>
     (case validate_payload value of Inl e \<Rightarrow> (Inl e, s, a) | Inr b \<Rightarrow>
     (case validate_positive_finite ttl of Inl e \<Rightarrow> (Inl e, s, a) | Inr d \<Rightarrow>
       atomic_fence f1 f2 lease (create_section t1 t2 t3 k b d) s a)))"

definition swap_section ::
    "pyfloat \<Rightarrow> pyfloat \<Rightarrow> StorageKey \<Rightarrow> CacheRevision \<Rightarrow> bytes \<Rightarrow> rat
      \<Rightarrow> (InMemoryAtomicCache, AtomicCacheValue option) pyop" where
  "swap_section t1 t3 k expected b d a =
     (case live_entry t1 k a of
        (None, a1) \<Rightarrow> (Inr None, a1)
      | (Some e, a1) \<Rightarrow>
          if ae_revision e \<noteq> expected then (Inr None, a1)
          else (case ae_value e of
                  AtomicCounter _ \<Rightarrow> (Inl CacheConflictError, a1)
                | AtomicBytes _ \<Rightarrow>
                    py_bind (store_entry t3 k (AtomicBytes b) d a1) (\<lambda>rev a2.
                    checked (make_AtomicCacheValue b rev) a2 (\<lambda>v. (Inr (Some v), a2)))))"

definition compare_and_swap where
  "compare_and_swap f1 f2 t1 t3 owner key expected value ttl lease s a =
     (case storage_key owner key of Inl e \<Rightarrow> (Inl e, s, a) | Inr k \<Rightarrow>
     (case validate_payload value of Inl e \<Rightarrow> (Inl e, s, a) | Inr b \<Rightarrow>
     (case validate_positive_finite ttl of Inl e \<Rightarrow> (Inl e, s, a) | Inr d \<Rightarrow>
       atomic_fence f1 f2 lease (swap_section t1 t3 k expected b d) s a)))"

definition delete_section ::
    "pyfloat \<Rightarrow> StorageKey \<Rightarrow> CacheRevision \<Rightarrow> (InMemoryAtomicCache, bool) pyop" where
  "delete_section t1 k expected a =
     (case live_entry t1 k a of
        (None, a1) \<Rightarrow> (Inr False, a1)
      | (Some e, a1) \<Rightarrow>
          if ae_revision e \<noteq> expected then (Inr False, a1)
          else (case ae_value e of
                  AtomicCounter _ \<Rightarrow> (Inl CacheConflictError, a1)
                | AtomicBytes _ \<Rightarrow>
                    (Inr True, a1\<lparr>atomic_entries := dict_pop k (atomic_entries a1)\<rparr>)))"

definition compare_and_delete where
  "compare_and_delete f1 f2 t1 owner key expected lease s a =
     (case storage_key owner key of Inl e \<Rightarrow> (Inl e, s, a) | Inr k \<Rightarrow>
       atomic_fence f1 f2 lease (delete_section t1 k expected) s a)"

definition increment_section ::
    "pyfloat \<Rightarrow> pyfloat \<Rightarrow> pyfloat \<Rightarrow> StorageKey \<Rightarrow> int \<Rightarrow> rat
      \<Rightarrow> (InMemoryAtomicCache, CounterCacheValue) pyop" where
  "increment_section t1 t2 t3 k amount d a =
     (case live_entry t1 k a of
        (None, a1) \<Rightarrow>
          py_bind (ensure_entry_capacity t2 k a1) (\<lambda>_ a2.
          py_bind (store_entry t3 k (AtomicCounter amount) d a2) (\<lambda>rev a3.
            (Inr \<lparr>cv_value = amount, cv_revision = rev\<rparr>, a3)))
      | (Some e, a1) \<Rightarrow>
          (case ae_value e of
             AtomicBytes _ \<Rightarrow> (Inl CacheConflictError, a1)
           | AtomicCounter n \<Rightarrow>
               py_bind (store_entry t3 k (AtomicCounter (n + amount)) d a1) (\<lambda>rev a2.
                 (Inr \<lparr>cv_value = n + amount, cv_revision = rev\<rparr>, a2))))"

fun increment ::
    "pyfloat \<Rightarrow> pyfloat \<Rightarrow> pyfloat \<Rightarrow> pyobj \<Rightarrow> pyobj \<Rightarrow> pyobj \<Rightarrow> pyobj
      \<Rightarrow> (InMemoryAtomicCache, CounterCacheValue) pyop" where
  "increment t1 t2 t3 owner key (PyInt amount) ttl a =
     checked (storage_key owner key) a (\<lambda>k.
     checked (validate_positive_finite ttl) a (\<lambda>d. increment_section t1 t2 t3 k amount d a))"
| "increment t1 t2 t3 owner key _ ttl a = (Inl TypeError, a)"

section \<open>Calls\<close>

datatype atomic_call =
    AGet pyfloat pyobj pyobj
  | ACreate pyfloat pyfloat pyfloat pyfloat pyfloat pyobj pyobj pyobj pyobj "LeaseToken option"
  | ASwap pyfloat pyfloat pyfloat pyfloat pyobj pyobj CacheRevision pyobj pyobj "LeaseToken option"
  | ADelete pyfloat pyfloat pyfloat pyobj pyobj CacheRevision "LeaseToken option"
  | AIncrement pyfloat pyfloat pyfloat pyobj pyobj pyobj pyobj
  | ALease lease_call

type_synonym atomic_system = "InMemoryLeaseCache \<times> InMemoryAtomicCache"

fun atomic_step :: "atomic_call \<Rightarrow> atomic_system \<Rightarrow> atomic_system" where
  "atomic_step (AGet t1 ow ke) (s, a) = (s, snd (atomic_get t1 ow ke a))"
| "atomic_step (ACreate f1 f2 t1 t2 t3 ow ke v ttl lease) (s, a) =
     snd (atomic_create f1 f2 t1 t2 t3 ow ke v ttl lease s a)"
| "atomic_step (ASwap f1 f2 t1 t3 ow ke expd v ttl lease) (s, a) =
     snd (compare_and_swap f1 f2 t1 t3 ow ke expd v ttl lease s a)"
| "atomic_step (ADelete f1 f2 t1 ow ke expd lease) (s, a) =
     snd (compare_and_delete f1 f2 t1 ow ke expd lease s a)"
| "atomic_step (AIncrement t1 t2 t3 ow ke am ttl) (s, a) =
     (s, snd (increment t1 t2 t3 ow ke am ttl a))"
| "atomic_step (ALease c) (s, a) = (lease_step c s, a)"

section \<open>Invariant\<close>

abbreviation entry_stamp :: "AtomicEntry \<Rightarrow> int" where
  "entry_stamp e \<equiv> revision_value (ae_revision e)"

fun content_ok :: "atomic_content \<Rightarrow> bool" where
  "content_ok (AtomicBytes b) = (length b \<le> MAX_CACHE_FEATURE_PAYLOAD_BYTES)"
| "content_ok (AtomicCounter _) = True"

lemma content_ok_code [code]:
  "content_ok c = (case c of AtomicBytes b \<Rightarrow> int (length b) \<le> 65536 | AtomicCounter _ \<Rightarrow> True)"
  by (cases c) (auto simp: feature_limits)

definition atomic_inv :: "InMemoryAtomicCache \<Rightarrow> bool" where
  "atomic_inv a \<longleftrightarrow> stamped entry_stamp (atomic_next_revision a) (atomic_entries a)
     \<and> int (length (atomic_entries a)) \<le> max_entries a
     \<and> (\<forall>p \<in> set (atomic_entries a). content_ok (ae_value (snd p)))"

definition atomic_evolves :: "InMemoryAtomicCache \<Rightarrow> InMemoryAtomicCache \<Rightarrow> bool" where
  "atomic_evolves a a' \<longleftrightarrow> atomic_next_revision a \<le> atomic_next_revision a'
     \<and> max_entries a' = max_entries a
     \<and> only_fresh entry_stamp (atomic_next_revision a) (atomic_entries a) (atomic_entries a')"

text \<open>\<open>atomic_ok a a'\<close>: what every section establishes from a good state.\<close>

definition atomic_ok :: "InMemoryAtomicCache \<Rightarrow> InMemoryAtomicCache \<Rightarrow> bool" where
  "atomic_ok a a' \<longleftrightarrow> atomic_inv a' \<and> atomic_evolves a a'"

lemma new_atomic_cache_inv: "new_atomic_cache m = Inr a \<Longrightarrow> atomic_inv a"
  by (auto simp: new_atomic_cache_def atomic_inv_def)

lemma atomic_ok_refl [simp]: "atomic_inv a \<Longrightarrow> atomic_ok a a"
  by (simp add: atomic_ok_def atomic_evolves_def)

lemma atomic_ok_filter:
  assumes "atomic_inv a"
  shows "atomic_ok a (a\<lparr>atomic_entries := filter P (atomic_entries a)\<rparr>)"
proof -
  have "int (length (filter P (atomic_entries a))) \<le> max_entries a"
    using assms length_filter_le [of P "atomic_entries a"]
    by (auto simp: atomic_inv_def simp del: length_filter_le
        intro: order_trans [of _ "int (length (atomic_entries a))"])
  then show ?thesis
    using assms
    by (auto simp: atomic_ok_def atomic_inv_def atomic_evolves_def stamped_filter
        intro: only_fresh_filter stamped_distinct)
qed

lemma live_entry_ok: "atomic_inv a \<Longrightarrow> atomic_ok a (snd (live_entry t k a))"
  using atomic_ok_filter by (auto simp: live_entry_def AList.delete_eq split: option.splits)

lemma ensure_entry_capacity_ok: "atomic_inv a \<Longrightarrow> atomic_ok a (snd (ensure_entry_capacity t k a))"
  using atomic_ok_filter by (auto simp: ensure_entry_capacity_def Let_def dict_pop_all_filter)

lemma ensure_entry_capacity_room:
  "ensure_entry_capacity t k a = (Inr u, a') \<Longrightarrow> dict_get (atomic_entries a) k = None \<Longrightarrow>
     int (length (atomic_entries a')) < max_entries a'"
  by (auto simp: ensure_entry_capacity_def Let_def split: if_splits)

lemma store_entry_eq:
  "store_entry t3 k content d a =
     (Inr (CacheRevision (int (Suc (atomic_next_revision a)))),
      a\<lparr>atomic_next_revision := Suc (atomic_next_revision a),
        atomic_entries := dict_set k \<lparr>ae_value = content,
          ae_revision = CacheRevision (int (Suc (atomic_next_revision a))),
          ae_expires_at = t3 + Fin d\<rparr> (atomic_entries a)\<rparr>)"
  by (simp add: store_entry_def next_atomic_revision_def Let_def del: of_nat_Suc)

lemma store_entry_ok:
  assumes "atomic_inv a" and "content_ok content"
    and "dict_get (atomic_entries a) k = None \<Longrightarrow> int (length (atomic_entries a)) < max_entries a"
  shows "atomic_ok a (snd (store_entry t3 k content d a))"
proof -
  let ?e = "\<lparr>ae_value = content, ae_revision = CacheRevision (int (Suc (atomic_next_revision a))),
     ae_expires_at = t3 + Fin d\<rparr>"
  have "stamped entry_stamp (Suc (atomic_next_revision a)) (dict_set k ?e (atomic_entries a))"
    using assms(1) by (intro stamped_set) (simp_all add: atomic_inv_def)
  moreover have "content_ok (ae_value (snd p))" if "p \<in> set (dict_set k ?e (atomic_entries a))" for p
  proof -
    have "p = (k, ?e) \<or> p \<in> set (atomic_entries a)"
      using that set_dict_set_subset [of k ?e "atomic_entries a"] by blast
    then show ?thesis using assms(1,2) by (auto simp: atomic_inv_def)
  qed
  moreover have "int (length (dict_set k ?e (atomic_entries a))) \<le> max_entries a"
    using assms(1,3) by (auto simp: length_dict_set atomic_inv_def)
  moreover have "only_fresh entry_stamp (atomic_next_revision a) (atomic_entries a)
      (dict_set k ?e (atomic_entries a))"
    by (rule only_fresh_set) simp_all
  ultimately show ?thesis
    unfolding store_entry_eq by (simp add: atomic_ok_def atomic_inv_def atomic_evolves_def)
qed

lemma atomic_ok_trans:
  assumes "atomic_ok a b" and "atomic_ok b c"
  shows "atomic_ok a c"
  using assms unfolding atomic_ok_def atomic_evolves_def only_fresh_def
  by (metis (no_types, lifting) order_le_less_trans of_nat_le_iff order_trans)

lemma live_entry_cases:
  obtains (none) a1 where "live_entry t k a = (None, a1)" "dict_get (atomic_entries a1) k = None"
      "\<And>e. dict_get (atomic_entries a) k = Some e \<Longrightarrow> ae_expires_at e \<le> t"
  | (live) e where "live_entry t k a = (Some e, a)" "dict_get (atomic_entries a) k = Some e"
      "\<not> ae_expires_at e \<le> t"
  by (cases "dict_get (atomic_entries a) k")
     (auto simp: live_entry_def split: if_splits)

text \<open>Creating under a key with no live entry, for values and counters alike.\<close>

lemma create_entry_ok:
  assumes "atomic_inv a" and "live_entry t1 k a = (None, a1)" and "content_ok content"
    and "ensure_entry_capacity t2 k a1 = (Inr u, a2)"
  shows "atomic_ok a (snd (store_entry t3 k content d a2))"
proof -
  have 1: "atomic_ok a a1" using live_entry_ok [OF assms(1), of t1 k] assms(2) by simp
  then have inv1: "atomic_inv a1" by (simp add: atomic_ok_def)
  have 2: "atomic_ok a1 a2" using ensure_entry_capacity_ok [OF inv1, of t2 k] assms(4) by simp
  then have inv2: "atomic_inv a2" by (simp add: atomic_ok_def)
  have "dict_get (atomic_entries a1) k = None"
    using assms(2) by (cases rule: live_entry_cases [of t1 k a]) auto
  then have "int (length (atomic_entries a2)) < max_entries a2"
    using ensure_entry_capacity_room assms(4) by blast
  then have "atomic_ok a2 (snd (store_entry t3 k content d a2))"
    by (intro store_entry_ok [OF inv2 assms(3)])
  then show ?thesis using 1 2 atomic_ok_trans by blast
qed

lemma capacity_refused_ok:
  assumes "atomic_inv a" and "live_entry t1 k a = (None, a1)"
  shows "atomic_ok a (snd (ensure_entry_capacity t2 k a1))"
proof -
  have 1: "atomic_ok a a1" using live_entry_ok [OF assms(1), of t1 k] assms(2) by simp
  then have "atomic_inv a1" by (simp add: atomic_ok_def)
  then show ?thesis using 1 ensure_entry_capacity_ok atomic_ok_trans by blast
qed

lemma live_none_ok: "atomic_inv a \<Longrightarrow> live_entry t1 k a = (None, a1) \<Longrightarrow> atomic_ok a a1"
  using live_entry_ok [of a t1 k] by simp

lemma create_section_ok:
  assumes "atomic_inv a" and "length b \<le> MAX_CACHE_FEATURE_PAYLOAD_BYTES"
  shows "atomic_ok a (snd (create_section t1 t2 t3 k b d a))"
proof (cases rule: live_entry_cases [of t1 k a])
  case (none a1)
  obtain r2 a2 where e: "ensure_entry_capacity t2 k a1 = (r2, a2)" by fastforce
  show ?thesis
  proof (cases r2)
    case (Inl x)
    then show ?thesis using none e capacity_refused_ok [OF assms(1) none(1), of t2]
      by (simp add: create_section_def)
  next
    case (Inr u)
    have "atomic_ok a (snd (store_entry t3 k (AtomicBytes b) d a2))"
      using create_entry_ok [OF assms(1) none(1)] e Inr assms(2) by simp
    then show ?thesis using none e Inr
      by (simp add: create_section_def store_entry_eq checked_def split: sum.splits)
  qed
qed (simp add: create_section_def assms)

lemma swap_section_ok:
  assumes "atomic_inv a" and "length b \<le> MAX_CACHE_FEATURE_PAYLOAD_BYTES"
  shows "atomic_ok a (snd (swap_section t1 t3 k expd b d a))"
proof (cases rule: live_entry_cases [of t1 k a])
  case (none a1)
  then show ?thesis using live_none_ok [OF assms(1)] by (simp add: swap_section_def)
next
  case (live e)
  have "atomic_ok a (snd (store_entry t3 k (AtomicBytes b) d a))"
    using assms live by (intro store_entry_ok) simp_all
  then show ?thesis using live assms(1)
    by (simp add: swap_section_def store_entry_eq checked_def split: sum.splits atomic_content.splits)
qed

lemma delete_section_ok:
  assumes "atomic_inv a"
  shows "atomic_ok a (snd (delete_section t1 k expd a))"
proof (cases rule: live_entry_cases [of t1 k a])
  case (none a1)
  then show ?thesis using live_none_ok [OF assms] by (simp add: delete_section_def)
next
  case (live e)
  then show ?thesis using assms atomic_ok_filter [OF assms]
    by (simp add: delete_section_def AList.delete_eq split: atomic_content.splits)
qed

lemma increment_section_ok:
  assumes "atomic_inv a"
  shows "atomic_ok a (snd (increment_section t1 t2 t3 k n d a))"
proof (cases rule: live_entry_cases [of t1 k a])
  case (none a1)
  obtain r2 a2 where e: "ensure_entry_capacity t2 k a1 = (r2, a2)" by fastforce
  show ?thesis
  proof (cases r2)
    case (Inl x)
    then show ?thesis using none e capacity_refused_ok [OF assms none(1), of t2]
      by (simp add: increment_section_def)
  next
    case (Inr u)
    have "atomic_ok a (snd (store_entry t3 k (AtomicCounter n) d a2))"
      using create_entry_ok [OF assms none(1)] e Inr by simp
    then show ?thesis using none e Inr by (simp add: increment_section_def store_entry_eq)
  qed
next
  case (live e)
  have "atomic_ok a (snd (store_entry t3 k (AtomicCounter m) d a))" for m
    using assms live by (intro store_entry_ok) simp_all
  then show ?thesis using live assms
    by (simp add: increment_section_def store_entry_eq split: atomic_content.splits)
qed

lemma atomic_fence_ok:
  assumes "atomic_inv a" and "\<And>a. atomic_inv a \<Longrightarrow> atomic_ok a (snd (body a))"
  shows "atomic_ok a (snd (snd (atomic_fence f1 f2 lease body s a)))"
proof -
  obtain r s' a' where "atomic_fence f1 f2 lease body s a = (r, s', a')" by (metis prod_cases3)
  moreover from this [unfolded atomic_fence_def] have "atomic_ok a a'"
    by (cases rule: fenced_section_cases) (use assms in \<open>auto dest!: assms(2)\<close>)
  ultimately show ?thesis by simp
qed

definition atomic_system_inv :: "atomic_system \<Rightarrow> bool" where
  "atomic_system_inv S \<longleftrightarrow> lease_inv (fst S) \<and> atomic_inv (snd S)"

lemma atomic_step_ok:
  assumes "atomic_inv a"
  shows "atomic_ok a (snd (atomic_step c (s, a)))"
proof (cases c)
  case (AGet t1 ow ke)
  then show ?thesis using assms live_entry_ok [OF assms, of t1]
    by (auto simp: atomic_get_def checked_def split: sum.splits prod.splits option.splits
        atomic_content.splits) (metis snd_conv)+
next
  case (ACreate f1 f2 t1 t2 t3 ow ke v ttl lease)
  then show ?thesis
    using assms by (auto simp: atomic_create_def split: sum.splits
        intro!: atomic_fence_ok create_section_ok)
next
  case (ASwap f1 f2 t1 t3 ow ke expd v ttl lease)
  then show ?thesis
    using assms by (auto simp: compare_and_swap_def split: sum.splits
        intro!: atomic_fence_ok swap_section_ok)
next
  case (ADelete f1 f2 t1 ow ke expd lease)
  then show ?thesis
    using assms by (auto simp: compare_and_delete_def split: sum.splits
        intro!: atomic_fence_ok delete_section_ok)
next
  case (AIncrement t1 t2 t3 ow ke am ttl)
  then show ?thesis
    using assms by (cases am) (auto simp: checked_def split: sum.splits intro: increment_section_ok)
next
  case (ALease c)
  then show ?thesis using assms by simp
qed

lemma atomic_step_leases:
  assumes "lease_inv s"
  shows "lease_inv (fst (atomic_step c (s, a)))"
  using assms
  by (cases c; auto simp: atomic_create_def compare_and_swap_def compare_and_delete_def
      atomic_fence_def split: sum.splits intro: lease_shrink_inv [OF _ fenced_section_shrinks]
      lease_tickets.step_inv)

definition atomic_entry ::
    "atomic_system \<Rightarrow> StorageKey \<Rightarrow> (int \<times> atomic_content \<times> pyfloat) option" where
  "atomic_entry S k =
     map_option (\<lambda>e. (revision_value (ae_revision e), ae_value e, ae_expires_at e))
       (dict_get (atomic_entries (snd S)) k)"

interpretation atomic_tickets:
  ticketed_store atomic_step atomic_system_inv "\<lambda>S. atomic_next_revision (snd S)" atomic_entry
proof unfold_locales
  fix S :: atomic_system and c k n v
  assume inv: "atomic_system_inv S"
  obtain s a where S: "S = (s, a)" by fastforce
  have l: "lease_inv s" and a: "atomic_inv a" using inv S by (simp_all add: atomic_system_inv_def)
  note ok = atomic_step_ok [OF a, of c s]
  show "atomic_system_inv (atomic_step c S)"
    using ok atomic_step_leases [OF l] by (simp add: atomic_system_inv_def atomic_ok_def S)
  show "atomic_next_revision (snd S) \<le> atomic_next_revision (snd (atomic_step c S))"
    using ok by (simp add: atomic_ok_def atomic_evolves_def S)
  show "n \<le> int (atomic_next_revision (snd S))" if "atomic_entry S k = Some (n, v)"
    using that a stamped_bound [of entry_stamp] by (fastforce simp: atomic_entry_def atomic_inv_def S)
  show "atomic_entry S k = Some (n, v) \<or> int (atomic_next_revision (snd S)) < n"
    if "atomic_entry (atomic_step c S) k = Some (n, v)"
    using that ok unfolding atomic_ok_def atomic_evolves_def only_fresh_def atomic_entry_def S
    by fastforce
qed

section \<open>Successful writes\<close>

lemma compare_and_swap_success:
  assumes "fst (compare_and_swap f1 f2 t1 t3 ow ke expd v ttl lease s a) = Inr (Some x)"
  obtains k b d e where "storage_key ow ke = Inr k" "validate_payload v = Inr b"
    "validate_positive_finite ttl = Inr d" "dict_get (atomic_entries a) k = Some e"
    "ae_revision e = expd" "\<not> ae_expires_at e \<le> t1"
    "x = \<lparr>av_value = b, av_revision = CacheRevision (int (Suc (atomic_next_revision a)))\<rparr>"
    "snd (snd (compare_and_swap f1 f2 t1 t3 ow ke expd v ttl lease s a))
       = snd (store_entry t3 k (AtomicBytes b) d a)"
proof -
  obtain k b d where val: "storage_key ow ke = Inr k" "validate_payload v = Inr b"
    "validate_positive_finite ttl = Inr d"
    using assms by (auto simp: compare_and_swap_def split: sum.splits)
  let ?body = "swap_section t1 t3 k expd b d"
  have cas: "compare_and_swap f1 f2 t1 t3 ow ke expd v ttl lease s a
      = atomic_fence f1 f2 lease ?body s a"
    using val by (simp add: compare_and_swap_def del: validate_payload_Inr_iff)
  obtain s' a' where "atomic_fence f1 f2 lease ?body s a = (Inr (Some x), s', a')"
    using assms cas by (metis prod.collapse)
  note fence = this [unfolded atomic_fence_def]
  from fence have "?body a = (Inr (Some x), a')"
    by (cases rule: fenced_section_cases) auto
  then show thesis
  proof (cases rule: live_entry_cases [of t1 k a])
    case (none a1)
    then show thesis using \<open>?body a = (Inr (Some x), a')\<close> by (simp add: swap_section_def)
  next
    case (live e)
    then show thesis
      using \<open>?body a = (Inr (Some x), a')\<close> val fence cas
      by (intro that [of k b d e])
         (auto simp: swap_section_def store_entry_eq checked_eq_Inr atomic_fence_def
           simp del: of_nat_Suc split: if_splits atomic_content.splits)
  qed
qed

lemma atomic_fence_stale:
  assumes "\<not> (lease_current f1 l s \<and> lease_current f2 l s)"
  shows "(\<exists>e. fst (atomic_fence f1 f2 (Some l) body s a) = Inl e)
    \<and> snd (snd (atomic_fence f1 f2 (Some l) body s a)) = a"
proof -
  obtain r s' a' where f: "atomic_fence f1 f2 (Some l) body s a = (r, s', a')"
    by (metis prod_cases3)
  from f [unfolded atomic_fence_def] have "(\<exists>e. r = Inl e) \<and> a' = a"
    by (cases rule: fenced_section_cases) (use assms in auto)
  then show ?thesis using f by simp
qed

section \<open>Properties\<close>

definition demo_atomic :: InMemoryAtomicCache where
  "demo_atomic = projr (new_atomic_cache (PyInt 3))"

definition demo_created :: InMemoryAtomicCache where
  "demo_created = snd (snd (atomic_create (Fin 0) (Fin 0) (Fin 0) (Fin 0) (Fin 0) (PyStr ''o'')
     (PyStr ''k'') (PyBytes [1]) (PyInt 10) None demo_leases demo_atomic))"

definition demo_swapped :: "AtomicCacheValue option result \<times> atomic_system" where
  "demo_swapped = compare_and_swap (Fin 1) (Fin 1) (Fin 1) (Fin 1) (PyStr ''o'') (PyStr ''k'')
     (CacheRevision 1) (PyBytes [2]) (PyInt 10) None demo_leases demo_created"

text \<open>C1: Compare-and-swap has one winner. After a swap for an expected revision has succeeded, no
  later swap of the same key with the same expected revision succeeds, whatever calls (writes,
  deletes, expiries, lease operations) come in between.\<close>

theorem compare_and_swap_single_winner:
  assumes "atomic_system_inv (s, a)"
    and "fst (compare_and_swap f1 f2 t1 t3 ow ke expd v ttl lease s a) = Inr (Some x)"
    and "run atomic_step cs (snd (compare_and_swap f1 f2 t1 t3 ow ke expd v ttl lease s a)) = (s2, a2)"
  shows "fst (compare_and_swap g1 g2 u1 u3 ow ke expd w ttl' lease' s2 a2) \<noteq> Inr (Some y)"
proof
  assume again: "fst (compare_and_swap g1 g2 u1 u3 ow ke expd w ttl' lease' s2 a2) = Inr (Some y)"
  let ?S1 = "snd (compare_and_swap f1 f2 t1 t3 ow ke expd v ttl lease s a)"
  have inv1: "atomic_system_inv ?S1"
    using atomic_tickets.step_inv [OF assms(1), of "ASwap f1 f2 t1 t3 ow ke expd v ttl lease"] by simp
  obtain k b d e where k: "storage_key ow ke = Inr k" and e: "dict_get (atomic_entries a) k = Some e"
    "ae_revision e = expd"
    and a1: "snd ?S1 = snd (store_entry t3 k (AtomicBytes b) d a)"
    using assms(2) by (rule compare_and_swap_success)
  let ?n = "revision_value expd"
  have n: "?n \<le> int (atomic_next_revision a)"
    using assms(1) stamped_bound [of entry_stamp] e by (fastforce simp: atomic_system_inv_def atomic_inv_def)
  have gone: "atomic_entry ?S1 k \<noteq> Some (?n, z)" for z
    using n by (simp add: atomic_entry_def a1 store_entry_eq)
  have "?n \<le> int (atomic_next_revision (snd ?S1))" using n by (simp add: a1 store_entry_eq)
  then have "atomic_entry (s2, a2) k \<noteq> Some (?n, z)" for z
    using atomic_tickets.stamp_never_reused [OF inv1 _ gone, of cs] assms(3) by simp
  moreover have "\<exists>z. atomic_entry (s2, a2) k = Some (?n, z)"
    using again by (rule compare_and_swap_success) (use k in \<open>auto simp: atomic_entry_def\<close>)
  ultimately show False by blast
qed

theorem compare_and_swap_single_winner_witness:
  "fst demo_swapped = Inr (Some \<lparr>av_value = [2], av_revision = CacheRevision 2\<rparr>)
   \<and> fst (compare_and_swap (Fin 2) (Fin 2) (Fin 2) (Fin 2) (PyStr ''o'') (PyStr ''k'')
        (CacheRevision 1) (PyBytes [3]) (PyInt 10) None (fst (snd demo_swapped))
        (snd (snd demo_swapped))) \<notin> range (\<lambda>y. Inr (Some y))"
proof -
  have inv: "atomic_system_inv (demo_leases, demo_created)" by code_simp
  have won: "fst demo_swapped = Inr (Some \<lparr>av_value = [2], av_revision = CacheRevision 2\<rparr>)"
    by code_simp
  have "run atomic_step [] (snd demo_swapped) = (fst (snd demo_swapped), snd (snd demo_swapped))"
    by simp
  from compare_and_swap_single_winner [OF inv won [unfolded demo_swapped_def]
      this [unfolded demo_swapped_def]] won
  show ?thesis unfolding demo_swapped_def by blast
qed

text \<open>No update is lost. If a value was stored under a revision, and after any number of calls a
  swap with that revision as the expected one succeeds, then the entry the swap replaced still held
  exactly that value and expiry: nobody wrote in between.\<close>

theorem compare_and_swap_no_lost_update:
  assumes "atomic_system_inv S" and "storage_key ow ke = Inr k"
    and "dict_get (atomic_entries (snd S)) k = Some e"
    and "run atomic_step cs S = (s2, a2)"
    and "fst (compare_and_swap f1 f2 t1 t3 ow ke (ae_revision e) v ttl lease s2 a2) = Inr (Some x)"
  shows "dict_get (atomic_entries a2) k = Some e"
proof -
  obtain e2 where e2: "dict_get (atomic_entries a2) k = Some e2" "ae_revision e2 = ae_revision e"
    using assms(5) by (rule compare_and_swap_success) (use assms(2) in auto)
  have "(ae_value e2, ae_expires_at e2) = (ae_value e, ae_expires_at e)"
    by (rule atomic_tickets.same_stamp_same_content [OF assms(1), of k "entry_stamp e" _ cs])
       (use assms e2 in \<open>simp_all add: atomic_entry_def\<close>)
  then show ?thesis using e2 by (cases e; cases e2) simp
qed

theorem compare_and_swap_no_lost_update_witness:
  "dict_get (atomic_entries demo_created) (''o'', ''k'')
     = Some \<lparr>ae_value = AtomicBytes [1], ae_revision = CacheRevision 1, ae_expires_at = Fin 10\<rparr>"
proof -
  let ?e = "\<lparr>ae_value = AtomicBytes [1], ae_revision = CacheRevision 1, ae_expires_at = Fin 10\<rparr>"
  have inv: "atomic_system_inv (demo_leases, demo_created)" by code_simp
  have key: "storage_key (PyStr ''o'') (PyStr ''k'') = Inr (''o'', ''k'')" by code_simp
  have old: "dict_get (atomic_entries (snd (demo_leases, demo_created))) (''o'', ''k'') = Some ?e"
    by code_simp
  have idle: "run atomic_step [] (demo_leases, demo_created) = (demo_leases, demo_created)" by simp
  have won: "fst (compare_and_swap (Fin 1) (Fin 1) (Fin 1) (Fin 1) (PyStr ''o'') (PyStr ''k'')
      (ae_revision ?e) (PyBytes [2]) (PyInt 10) None demo_leases demo_created)
    = Inr (Some \<lparr>av_value = [2], av_revision = CacheRevision 2\<rparr>)"
    by code_simp
  show ?thesis by (rule compare_and_swap_no_lost_update [OF inv key old idle won])
qed

text \<open>C5: A stale lease cannot write. A fenced create, swap or delete whose lease is not current when
  it is validated raises, and the atomic cache is left exactly as it was.\<close>

theorem stale_lease_cannot_write:
  assumes "\<not> lease_current f2 l s"
  shows "((\<exists>e. fst (atomic_create f1 f2 t1 t2 t3 ow ke v ttl (Some l) s a) = Inl e)
      \<and> snd (snd (atomic_create f1 f2 t1 t2 t3 ow ke v ttl (Some l) s a)) = a)
    \<and> ((\<exists>e. fst (compare_and_swap f1 f2 t1 t3 ow ke expd v ttl (Some l) s a) = Inl e)
      \<and> snd (snd (compare_and_swap f1 f2 t1 t3 ow ke expd v ttl (Some l) s a)) = a)
    \<and> ((\<exists>e. fst (compare_and_delete f1 f2 t1 ow ke expd (Some l) s a) = Inl e)
      \<and> snd (snd (compare_and_delete f1 f2 t1 ow ke expd (Some l) s a)) = a)"
proof -
  have stale: "\<not> (lease_current f1 l s \<and> lease_current f2 l s)" using assms by simp
  show ?thesis
    by (intro conjI)
       (simp_all add: atomic_create_def compare_and_swap_def compare_and_delete_def
         atomic_fence_stale [OF stale] split: sum.splits)
qed

theorem stale_lease_cannot_write_witness:
  "snd (snd (compare_and_delete (Fin 0) (Fin 0) (Fin 1) (PyStr ''o'') (PyStr ''k'') (CacheRevision 1)
     (Some \<lparr>lt_owner = ''o'', lt_resource = ''r'', lt_holder = ''h'',
        lt_fencing_token = FencingToken 1, lt_expires_at = 10, lt_token = ''u''\<rparr>)
     demo_leases demo_created)) = demo_created"
proof -
  let ?l = "\<lparr>lt_owner = ''o'', lt_resource = ''r'', lt_holder = ''h'',
     lt_fencing_token = FencingToken 1, lt_expires_at = 10, lt_token = ''u''\<rparr>"
  have "\<not> lease_current (Fin 0) ?l demo_leases" by code_simp
  from stale_lease_cannot_write [OF this] show ?thesis by blast
qed

text \<open>Round trip. What \<open>create\<close> stored is what \<open>get\<close> returns, with the revision \<open>create\<close>
  reported, at every clock reading before the expiry; at or after the expiry \<open>get\<close> returns nothing.\<close>

theorem create_get_roundtrip:
  assumes "fst (atomic_create f1 f2 t1 t2 t3 ow ke v ttl lease s a) = Inr (Some x)"
    and "validate_positive_finite ttl = Inr d"
  shows "fst (atomic_get t ow ke (snd (snd (atomic_create f1 f2 t1 t2 t3 ow ke v ttl lease s a))))
    = Inr (if t3 + Fin d \<le> t then None else Some x)"
proof -
  obtain k b where val: "storage_key ow ke = Inr k" "validate_payload v = Inr b"
    using assms by (auto simp: atomic_create_def split: sum.splits)
  let ?body = "create_section t1 t2 t3 k b d"
  have cr: "atomic_create f1 f2 t1 t2 t3 ow ke v ttl lease s a = atomic_fence f1 f2 lease ?body s a"
    using val assms(2) by (simp add: atomic_create_def del: validate_payload_Inr_iff)
  obtain s' a' where f: "fenced_section (atomic_lease_cache a \<noteq> None) f1 f2 lease ?body s a
      = (Inr (Some x), s', a')"
    using assms(1) cr by (metis prod.collapse atomic_fence_def)
  then have "?body a = (Inr (Some x), a')" by (cases rule: fenced_section_cases) auto
  then obtain a2 where a': "a' = snd (store_entry t3 k (AtomicBytes b) d a2)"
    and x: "x = \<lparr>av_value = b, av_revision = CacheRevision (int (Suc (atomic_next_revision a2)))\<rparr>"
    by (auto simp: create_section_def py_bind_eq_Inr store_entry_eq checked_eq_Inr
        simp del: of_nat_Suc split: prod.splits option.splits)
  have "snd (snd (atomic_create f1 f2 t1 t2 t3 ow ke v ttl lease s a)) = a'"
    using cr f by (simp add: atomic_fence_def)
  moreover have "length b \<le> MAX_CACHE_FEATURE_PAYLOAD_BYTES" using val(2) by simp
  then have mk: "make_AtomicCacheValue b r = Inr \<lparr>av_value = b, av_revision = r\<rparr>" for r
    by simp
  ultimately show ?thesis
    using val(1) by (simp add: atomic_get_def live_entry_def a' store_entry_eq x mk del: of_nat_Suc)
qed

theorem create_get_roundtrip_witness:
  "fst (atomic_get (Fin 5) (PyStr ''o'') (PyStr ''k'') demo_created)
     = Inr (if Fin 0 + Fin 10 \<le> Fin 5 then None
            else Some \<lparr>av_value = [1], av_revision = CacheRevision 1\<rparr>)"
  unfolding demo_created_def
  by (rule create_get_roundtrip) code_simp+

text \<open>From a new atomic cache beside a new lease cache, any sequence of calls, fenced or not,
  keeps at most one entry per key, at most \<open>max_entries\<close> entries, stored values within the payload
  limit, and revisions that are positive, issued and pairwise different.\<close>

theorem atomic_cache_invariant:
  assumes "new_lease_cache m = Inr s" and "new_atomic_cache m' = Inr a"
  shows "atomic_system_inv (run atomic_step cs (s, a))"
proof (rule atomic_tickets.run_inv)
  show "atomic_system_inv (s, a)"
    using new_lease_cache_inv [OF assms(1)] new_atomic_cache_inv [OF assms(2)]
    by (simp add: atomic_system_inv_def)
qed

theorem atomic_cache_invariant_witness: "atomic_system_inv (run atomic_step [] (demo_leases, demo_atomic))"
  by (rule atomic_cache_invariant [of "PyInt 2" _ "PyInt 3"])
     (simp_all add: demo_leases_def demo_atomic_def new_lease_cache_def new_atomic_cache_def)

end
