(* ===== verification/Work_Queue.thy ===== *)
theory Work_Queue
  imports Contracts
begin

text \<open>
  \<^verbatim>\<open>src/src/wybra/cache/memory_queues.py\<close>: work queues with delayed publication, reservations that
  expire, bounded attempts and dead letters.

  Every operation runs under the condition's lock and does not suspend, except \<open>reserve\<close>, which
  gives the lock up while it waits. So one iteration of its loop is one step here
  (\<open>reserve_iteration\<close>); a call of \<open>reserve\<close> is a sequence of iterations, with the steps of other
  tasks between them. Clock readings and \<open>uuid4().hex\<close> are arguments in the order the code reads
  them; \<open>l\<close> is \<open>loop.time()\<close>. \<open>notify_all\<close> changes no state and is left out.

  \<open>heapq\<close> keeps \<open>_delayed\<close> so that the smallest tuple comes out first; the code never looks at the
  order of the rest, so the model keeps the list sorted. The tuples are ordered by time and then by
  their sequence numbers, which are all different.
\<close>

section \<open>State\<close>

type_synonym QueueKey = "string \<times> string"

record WorkItem =
  wi_identity :: WorkIdentity
  wi_payload :: bytes
  wi_max_attempts :: int
  wi_attempt :: int

record Reservation =
  rv_queue_key :: QueueKey
  rv_item :: WorkItem
  rv_visible_until :: pyfloat
  rv_receipt :: string

type_synonym delayed_item = "pyfloat \<times> nat \<times> QueueKey \<times> WorkItem"

record InMemoryWorkQueue =
  wq_max_items :: int
  wq_max_dead_letters :: int
  wq_max_queues :: int
  wq_ready :: "(QueueKey, WorkItem list) dict"
  wq_delayed :: "delayed_item list"
  wq_inflight :: "(string, Reservation) dict"
  wq_dead :: "(QueueKey, WorkItem list) dict"
  wq_sequence :: nat
  wq_closed :: bool

definition new_work_queue :: "pyobj \<Rightarrow> pyobj \<Rightarrow> pyobj \<Rightarrow> InMemoryWorkQueue result" where
  "new_work_queue items dead queues =
     res_bind (validate_positive_integer items) (\<lambda>mi.
     res_bind (validate_positive_integer dead) (\<lambda>md.
     res_bind (validate_positive_integer queues) (\<lambda>mq. Inr
       \<lparr>wq_max_items = mi, wq_max_dead_letters = md, wq_max_queues = mq, wq_ready = [],
        wq_delayed = [], wq_inflight = [], wq_dead = [], wq_sequence = 0, wq_closed = False\<rparr>)))"

definition reservation_delivery :: "Reservation \<Rightarrow> WorkDelivery result" where
  "reservation_delivery r =
     make_WorkDelivery (snd (rv_queue_key r)) (wi_identity (rv_item r)) (wi_payload (rv_item r))
       (wi_attempt (rv_item r)) (rv_visible_until r) (rv_receipt r)"

definition queue_key :: "pyobj \<Rightarrow> pyobj \<Rightarrow> QueueKey result" where
  "queue_key owner queue =
     res_bind (validate_resource owner) (\<lambda>ow.
     res_bind (validate_resource queue) (\<lambda>qu. Inr (ow, qu)))"

section \<open>Helpers\<close>

fun delayed_less :: "delayed_item \<Rightarrow> delayed_item \<Rightarrow> bool" where
  "delayed_less (t, n, _) (t', n', _) \<longleftrightarrow> t < t' \<or> (t = t' \<and> n < n')"

fun heappush :: "delayed_item \<Rightarrow> delayed_item list \<Rightarrow> delayed_item list" where
  "heappush x [] = [x]"
| "heappush x (y # ys) = (if delayed_less x y then x # y # ys else y # heappush x ys)"

definition require_open :: "InMemoryWorkQueue \<Rightarrow> unit result" where
  "require_open s = (if wq_closed s then Inl CacheFeatureError else Inr ())"

definition enqueue ::
    "pyfloat \<Rightarrow> QueueKey \<Rightarrow> WorkItem \<Rightarrow> rat \<Rightarrow> InMemoryWorkQueue \<Rightarrow> InMemoryWorkQueue" where
  "enqueue t k it delay s =
     (if delay = 0 then s\<lparr>wq_ready := queue_append k it (wq_ready s)\<rparr>
      else s\<lparr>wq_sequence := Suc (wq_sequence s),
             wq_delayed := heappush (t + Fin delay, Suc (wq_sequence s), k, it) (wq_delayed s)\<rparr>)"

fun promote_loop ::
    "pyfloat \<Rightarrow> delayed_item list \<Rightarrow> (QueueKey, WorkItem list) dict
      \<Rightarrow> delayed_item list \<times> (QueueKey, WorkItem list) dict" where
  "promote_loop now [] ready = ([], ready)"
| "promote_loop now ((t, n, k, it) # rest) ready =
     (if t \<le> now then promote_loop now rest (queue_append k it ready)
      else ((t, n, k, it) # rest, ready))"

definition promote_delayed :: "pyfloat \<Rightarrow> InMemoryWorkQueue \<Rightarrow> InMemoryWorkQueue" where
  "promote_delayed now s =
     (let (delayed, ready) = promote_loop now (wq_delayed s) (wq_ready s)
      in s\<lparr>wq_delayed := delayed, wq_ready := ready\<rparr>)"

definition append_dead_letter ::
    "QueueKey \<Rightarrow> WorkItem \<Rightarrow> InMemoryWorkQueue \<Rightarrow> InMemoryWorkQueue" where
  "append_dead_letter k it s =
     s\<lparr>wq_dead := dict_set k (trim_left (wq_max_dead_letters s) (queue_of (wq_dead s) k @ [it]))
        (wq_dead s)\<rparr>"

definition retry_or_dead_letter ::
    "pyfloat \<Rightarrow> QueueKey \<Rightarrow> WorkItem \<Rightarrow> rat \<Rightarrow> InMemoryWorkQueue \<Rightarrow> InMemoryWorkQueue" where
  "retry_or_dead_letter t k it delay s =
     (if wi_max_attempts it \<le> wi_attempt it then append_dead_letter k it s
      else enqueue t k it delay s)"

definition drop_empty :: "'k \<Rightarrow> ('k, 'a list) dict \<Rightarrow> ('k, 'a list) dict" where
  "drop_empty k d = (if dict_get d k = Some [] then dict_pop k d else d)"

definition prune_queue :: "QueueKey \<Rightarrow> InMemoryWorkQueue \<Rightarrow> InMemoryWorkQueue" where
  "prune_queue k s =
     s\<lparr>wq_ready := drop_empty k (wq_ready s), wq_dead := drop_empty k (wq_dead s)\<rparr>"

text \<open>One pass of the loop over the expired receipts. The delay is 0, so no clock is read.\<close>

definition recover_receipt :: "string \<Rightarrow> InMemoryWorkQueue \<Rightarrow> InMemoryWorkQueue" where
  "recover_receipt receipt s =
     (case dict_get (wq_inflight s) receipt of
        None \<Rightarrow> s
      | Some r \<Rightarrow>
          prune_queue (rv_queue_key r)
            (retry_or_dead_letter 0 (rv_queue_key r) (rv_item r) 0
              (s\<lparr>wq_inflight := dict_pop receipt (wq_inflight s)\<rparr>)))"

definition recover_expired :: "pyfloat \<Rightarrow> InMemoryWorkQueue \<Rightarrow> InMemoryWorkQueue" where
  "recover_expired now s =
     fold recover_receipt
       [receipt. (receipt, r) \<leftarrow> wq_inflight s, rv_visible_until r \<le> now] s"

definition recover :: "pyfloat \<Rightarrow> pyfloat \<Rightarrow> InMemoryWorkQueue \<Rightarrow> InMemoryWorkQueue" where
  "recover t1 t2 s = recover_expired t2 (promote_delayed t1 s)"

definition required_reservation :: "WorkDelivery \<Rightarrow> InMemoryWorkQueue \<Rightarrow> Reservation result" where
  "required_reservation d s =
     (case dict_get (wq_inflight s) (wd_receipt d) of
        None \<Rightarrow> Inl CacheConflictError
      | Some r \<Rightarrow>
          if wi_identity (rv_item r) \<noteq> wd_identity d \<or> snd (rv_queue_key r) \<noteq> wd_queue d
             \<or> wi_attempt (rv_item r) \<noteq> wd_attempt d
          then Inl CacheConflictError
          else Inr r)"

definition wakeups :: "QueueKey \<Rightarrow> InMemoryWorkQueue \<Rightarrow> pyfloat list" where
  "wakeups k s =
     [t. (t, _, k', _) \<leftarrow> wq_delayed s, k' = k]
     @ [rv_visible_until r. (_, r) \<leftarrow> wq_inflight s, rv_queue_key r = k]"

definition next_wakeup :: "QueueKey \<Rightarrow> InMemoryWorkQueue \<Rightarrow> pyfloat option" where
  "next_wakeup k s =
     (case wakeups k s of [] \<Rightarrow> None | t # ts \<Rightarrow> Some (fold (\<lambda>x m. py_min m x) ts t))"

definition delayed_count :: "QueueKey \<Rightarrow> InMemoryWorkQueue \<Rightarrow> nat" where
  "delayed_count k s = length [k'. (_, _, k', _) \<leftarrow> wq_delayed s, k' = k]"

definition inflight_count :: "QueueKey \<Rightarrow> InMemoryWorkQueue \<Rightarrow> nat" where
  "inflight_count k s = length [r. (_, r) \<leftarrow> wq_inflight s, rv_queue_key r = k]"

definition active_count :: "QueueKey \<Rightarrow> InMemoryWorkQueue \<Rightarrow> nat" where
  "active_count k s = length (queue_of (wq_ready s) k) + delayed_count k s + inflight_count k s"

definition known_queues :: "InMemoryWorkQueue \<Rightarrow> QueueKey list" where
  "known_queues s =
     remdups ([k. (k, items) \<leftarrow> wq_ready s, items \<noteq> []]
       @ [k. (k, items) \<leftarrow> wq_dead s, items \<noteq> []]
       @ [k. (_, _, k, _) \<leftarrow> wq_delayed s]
       @ [rv_queue_key r. (_, r) \<leftarrow> wq_inflight s])"

definition ensure_queue_capacity :: "QueueKey \<Rightarrow> InMemoryWorkQueue \<Rightarrow> unit result" where
  "ensure_queue_capacity k s =
     (if k \<notin> set (known_queues s) \<and> wq_max_queues s \<le> int (length (known_queues s))
      then Inl CacheWorkQueueRejectedError else Inr ())"

section \<open>Operations\<close>

definition publish ::
    "pyfloat \<Rightarrow> pyfloat \<Rightarrow> string \<Rightarrow> pyobj \<Rightarrow> pyobj \<Rightarrow> pyobj \<Rightarrow> pyobj \<Rightarrow> pyobj
      \<Rightarrow> (InMemoryWorkQueue, WorkIdentity) pyop" where
  "publish t1 t2 uid owner queue payload delay max_attempts s =
     checked (queue_key owner queue) s (\<lambda>k.
     checked (validate_payload payload) s (\<lambda>b.
     checked (validate_non_negative_finite delay) s (\<lambda>d.
     checked (validate_positive_integer max_attempts) s (\<lambda>m.
     checked (make_WorkIdentity (PyStr uid)) s (\<lambda>idn.
     checked (require_open s) s (\<lambda>_.
       let s1 = promote_delayed t1 s in
       checked (ensure_queue_capacity k s1) s1 (\<lambda>_.
         if wq_max_items s1 \<le> int (active_count k s1) then (Inl CacheWorkQueueRejectedError, s1)
         else (Inr idn, enqueue t2 k
                \<lparr>wi_identity = idn, wi_payload = b, wi_max_attempts = m, wi_attempt = 0\<rparr> d s1))))))))"

text \<open>What \<open>reserve\<close> computes before its loop: the key, the visibility timeout and the deadline.\<close>

definition reserve_arguments ::
    "pyfloat \<Rightarrow> pyobj \<Rightarrow> pyobj \<Rightarrow> pyobj \<Rightarrow> pyobj \<Rightarrow> pyobj \<Rightarrow> (QueueKey \<times> rat \<times> pyfloat) result" where
  "reserve_arguments l owner queue consumer visibility_timeout wait_timeout =
     res_bind (queue_key owner queue) (\<lambda>k.
     res_bind (validate_resource consumer) (\<lambda>_.
     res_bind (validate_positive_finite visibility_timeout) (\<lambda>v.
     res_bind (validate_non_negative_finite wait_timeout) (\<lambda>w.
       Inr (k, v, l + Fin w)))))"

text \<open>How one iteration ends: with a return, with \<open>continue\<close>, or waiting (\<open>wait_for\<close>, \<open>remaining\<close>).\<close>

datatype reserve_outcome =
    Returned "WorkDelivery option"
  | Again
  | WaitFor pyfloat pyfloat

definition deliver ::
    "pyfloat \<Rightarrow> string \<Rightarrow> QueueKey \<Rightarrow> rat \<Rightarrow> WorkItem \<Rightarrow> WorkItem list
      \<Rightarrow> (InMemoryWorkQueue, reserve_outcome) pyop" where
  "deliver t3 uid k v it rest s =
     (let r = \<lparr>rv_queue_key = k, rv_item = it\<lparr>wi_attempt := wi_attempt it + 1\<rparr>,
               rv_visible_until = t3 + Fin v, rv_receipt = uid\<rparr>;
          s1 = prune_queue k (s\<lparr>wq_ready := dict_set k rest (wq_ready s),
                                 wq_inflight := dict_set uid r (wq_inflight s)\<rparr>)
      in checked (reservation_delivery r) s1 (\<lambda>d. (Inr (Returned (Some d)), s1)))"

definition wait_decision ::
    "pyfloat \<Rightarrow> pyfloat \<Rightarrow> pyfloat \<Rightarrow> pyfloat option \<Rightarrow> reserve_outcome" where
  "wait_decision l t4 deadline wakeup =
     (let remaining = deadline - l in
      if remaining \<le> 0 then Returned None
      else case wakeup of
          None \<Rightarrow> WaitFor remaining remaining
        | Some w \<Rightarrow>
            (let wait_for = py_min remaining (py_max 0 (w - t4)) in
             if py_eq wait_for 0 then Again else WaitFor wait_for remaining))"

definition reserve_iteration ::
    "pyfloat \<Rightarrow> pyfloat \<Rightarrow> pyfloat \<Rightarrow> pyfloat \<Rightarrow> pyfloat \<Rightarrow> string \<Rightarrow> QueueKey \<Rightarrow> rat \<Rightarrow> pyfloat
      \<Rightarrow> (InMemoryWorkQueue, reserve_outcome) pyop" where
  "reserve_iteration t1 t2 t3 l t4 uid k v deadline s =
     checked (require_open s) s (\<lambda>_.
       let s1 = recover t1 t2 s in
       case queue_of (wq_ready s1) k of
         it # rest \<Rightarrow> deliver t3 uid k v it rest s1
       | [] \<Rightarrow> (Inr (wait_decision l t4 deadline (next_wakeup k s1)), s1))"

text \<open>After the wait: a timeout that used up the remaining time ends the call with \<open>None\<close>.\<close>

definition after_wait :: "bool \<Rightarrow> pyfloat \<Rightarrow> pyfloat \<Rightarrow> bool" where
  "after_wait timed_out wait_for remaining \<longleftrightarrow> timed_out \<and> remaining \<le> wait_for"

text \<open>
  The loop as one task sees it: an iteration has the readings of its clocks, a fresh receipt and
  whether its wait timed out. \<open>None\<close> means that the call is still in its loop when the
  list of iterations ends.
\<close>

record reserve_reads =
  rd_promote :: pyfloat
  rd_recover :: pyfloat
  rd_visible :: pyfloat
  rd_loop :: pyfloat
  rd_wakeup :: pyfloat
  rd_uuid :: string
  rd_timed_out :: bool

definition iteration_of ::
    "reserve_reads \<Rightarrow> QueueKey \<Rightarrow> rat \<Rightarrow> pyfloat \<Rightarrow> (InMemoryWorkQueue, reserve_outcome) pyop" where
  "iteration_of e k v deadline =
     reserve_iteration (rd_promote e) (rd_recover e) (rd_visible e) (rd_loop e) (rd_wakeup e)
       (rd_uuid e) k v deadline"

fun reserve_loop ::
    "reserve_reads list \<Rightarrow> QueueKey \<Rightarrow> rat \<Rightarrow> pyfloat \<Rightarrow> InMemoryWorkQueue
      \<Rightarrow> (WorkDelivery option result \<times> InMemoryWorkQueue) option" where
  "reserve_loop [] k v deadline s = None"
| "reserve_loop (e # es) k v deadline s =
     (case iteration_of e k v deadline s of
        (Inl x, s1) \<Rightarrow> Some (Inl x, s1)
      | (Inr (Returned d), s1) \<Rightarrow> Some (Inr d, s1)
      | (Inr Again, s1) \<Rightarrow> reserve_loop es k v deadline s1
      | (Inr (WaitFor w rem), s1) \<Rightarrow>
          if after_wait (rd_timed_out e) w rem then Some (Inr None, s1)
          else reserve_loop es k v deadline s1)"

definition reserve where
  "reserve l es owner queue consumer visibility_timeout wait_timeout s =
     (case reserve_arguments l owner queue consumer visibility_timeout wait_timeout of
        Inl e \<Rightarrow> Some (Inl e, s)
      | Inr (k, v, deadline) \<Rightarrow> reserve_loop es k v deadline s)"

definition acknowledge :: "pyfloat \<Rightarrow> WorkDelivery \<Rightarrow> (InMemoryWorkQueue, unit) pyop" where
  "acknowledge t1 d s =
     (let s1 = promote_delayed t1 s in
      checked (required_reservation d s1) s1 (\<lambda>r.
        (Inr (), prune_queue (rv_queue_key r)
          (s1\<lparr>wq_inflight := dict_pop (rv_receipt r) (wq_inflight s1)\<rparr>))))"

definition renew_delivery ::
    "pyfloat \<Rightarrow> pyfloat \<Rightarrow> WorkDelivery \<Rightarrow> pyobj \<Rightarrow> (InMemoryWorkQueue, WorkDelivery) pyop" where
  "renew_delivery t1 t2 d visibility_timeout s =
     checked (validate_positive_finite visibility_timeout) s (\<lambda>v.
       let s1 = promote_delayed t1 s in
       checked (required_reservation d s1) s1 (\<lambda>r.
         let r1 = r\<lparr>rv_visible_until := t2 + Fin v\<rparr>;
             s2 = s1\<lparr>wq_inflight := dict_set (wd_receipt d) r1 (wq_inflight s1)\<rparr>
         in checked (reservation_delivery r1) s2 (\<lambda>x. (Inr x, s2))))"

definition reject ::
    "pyfloat \<Rightarrow> pyfloat \<Rightarrow> WorkDelivery \<Rightarrow> pyobj \<Rightarrow> (InMemoryWorkQueue, unit) pyop" where
  "reject t1 t2 d delay s =
     checked (validate_non_negative_finite delay) s (\<lambda>dl.
       let s1 = promote_delayed t1 s in
       checked (required_reservation d s1) s1 (\<lambda>r.
         (Inr (), retry_or_dead_letter t2 (rv_queue_key r) (rv_item r) dl
           (s1\<lparr>wq_inflight := dict_pop (rv_receipt r) (wq_inflight s1)\<rparr>))))"

definition dead_letter :: "pyfloat \<Rightarrow> WorkDelivery \<Rightarrow> (InMemoryWorkQueue, unit) pyop" where
  "dead_letter t1 d s =
     (let s1 = promote_delayed t1 s in
      checked (required_reservation d s1) s1 (\<lambda>r.
        (Inr (), append_dead_letter (rv_queue_key r) (rv_item r)
          (s1\<lparr>wq_inflight := dict_pop (rv_receipt r) (wq_inflight s1)\<rparr>))))"

fun dead_deliveries :: "string \<Rightarrow> WorkItem list \<Rightarrow> WorkDelivery list result" where
  "dead_deliveries queue [] = Inr []"
| "dead_deliveries queue (it # its) =
     res_bind (make_WorkDelivery queue (wi_identity it) (wi_payload it) (wi_attempt it) (Fin 0)
         (''dead-'' @ identity_value (wi_identity it))) (\<lambda>d.
     res_bind (dead_deliveries queue its) (\<lambda>ds. Inr (d # ds)))"

definition dead_letters ::
    "pyfloat \<Rightarrow> pyobj \<Rightarrow> pyobj \<Rightarrow> pyobj \<Rightarrow> (InMemoryWorkQueue, WorkDelivery list) pyop" where
  "dead_letters t1 owner queue limit s =
     checked (queue_key owner queue) s (\<lambda>k.
     checked (validate_limit limit) s (\<lambda>n.
       let s1 = promote_delayed t1 s in
       (dead_deliveries (snd k) (take (nat n) (queue_of (wq_dead s1) k)), s1)))"

definition close_work_queue :: "InMemoryWorkQueue \<Rightarrow> InMemoryWorkQueue" where
  "close_work_queue s = s\<lparr>wq_closed := True\<rparr>"

section \<open>Calls\<close>

datatype work_call =
    QPublish pyfloat pyfloat string pyobj pyobj pyobj pyobj pyobj
  | QReserve reserve_reads QueueKey rat pyfloat
  | QAcknowledge pyfloat WorkDelivery
  | QRenew pyfloat pyfloat WorkDelivery pyobj
  | QReject pyfloat pyfloat WorkDelivery pyobj
  | QDeadLetter pyfloat WorkDelivery
  | QDeadLetters pyfloat pyobj pyobj pyobj
  | QClose

fun work_step :: "work_call \<Rightarrow> InMemoryWorkQueue \<Rightarrow> InMemoryWorkQueue" where
  "work_step (QPublish t1 t2 uid ow qu pl dl ma) s = snd (publish t1 t2 uid ow qu pl dl ma s)"
| "work_step (QReserve e k v deadline) s = snd (iteration_of e k v deadline s)"
| "work_step (QAcknowledge t1 d) s = snd (acknowledge t1 d s)"
| "work_step (QRenew t1 t2 d v) s = snd (renew_delivery t1 t2 d v s)"
| "work_step (QReject t1 t2 d dl) s = snd (reject t1 t2 d dl s)"
| "work_step (QDeadLetter t1 d) s = snd (dead_letter t1 d s)"
| "work_step (QDeadLetters t1 ow qu n) s = snd (dead_letters t1 ow qu n s)"
| "work_step QClose s = close_work_queue s"

section \<open>Where the work items are\<close>

text \<open>
  \<open>queued\<close> are the items that wait (ready or delayed), \<open>held\<close> those a consumer has reserved.
  \<open>work_of\<close> is what stays the same of an item while it moves; its attempt number changes.
\<close>

fun item_of_delayed :: "delayed_item \<Rightarrow> QueueKey \<times> WorkItem" where
  "item_of_delayed (t, n, k, it) = (k, it)"

definition item_of_reservation :: "string \<times> Reservation \<Rightarrow> QueueKey \<times> WorkItem" where
  "item_of_reservation p = (rv_queue_key (snd p), rv_item (snd p))"

definition queued :: "InMemoryWorkQueue \<Rightarrow> (QueueKey \<times> WorkItem) multiset" where
  "queued s = mset (dict_items (wq_ready s)) + mset (map item_of_delayed (wq_delayed s))"

definition held :: "InMemoryWorkQueue \<Rightarrow> (QueueKey \<times> WorkItem) multiset" where
  "held s = mset (map item_of_reservation (wq_inflight s))"

type_synonym work = "QueueKey \<times> WorkIdentity \<times> bytes \<times> int"

fun work_of :: "QueueKey \<times> WorkItem \<Rightarrow> work" where
  "work_of (k, it) = (k, wi_identity it, wi_payload it, wi_max_attempts it)"

definition active_work :: "InMemoryWorkQueue \<Rightarrow> work multiset" where
  "active_work s = image_mset work_of (queued s + held s)"

lemma fst_work_of [simp]: "fst (work_of p) = fst p"
  by (cases p) simp

lemma queue_of_drop_empty [simp]: "queue_of (drop_empty k d) k' = queue_of d k'"
  by (auto simp: queue_of_def drop_empty_def)

lemma distinct_drop_empty [simp]:
  "distinct (dict_keys d) \<Longrightarrow> distinct (dict_keys (drop_empty k d))"
  by (simp add: drop_empty_def)

lemma mset_dict_items_drop_empty [simp]:
  "distinct (dict_keys d) \<Longrightarrow> mset (dict_items (drop_empty k d)) = mset (dict_items d)"
  using mset_dict_items_pop [of d k] by (auto simp: drop_empty_def queue_of_def)

lemma mset_dict_items_popleft:
  assumes "distinct (dict_keys d)" and "queue_of d k = x # rest"
  shows "mset (dict_items d) = add_mset (k, x) (mset (dict_items (dict_set k rest d)))"
  using mset_dict_items_set [OF assms(1), of k rest] assms(2) by simp

lemma in_dict_items: "distinct (dict_keys d) \<Longrightarrow> (k, x) \<in> set (dict_items d) \<longleftrightarrow> x \<in> set (queue_of d k)"
  by (auto simp: dict_items_def queue_of_def split: option.splits
      intro: map_of_SomeD dest: map_of_is_SomeI)

lemma count_dict_items:
  assumes "distinct (dict_keys d)"
  shows "count (image_mset fst (mset (dict_items d))) k = length (queue_of d k)"
  using assms
proof (induction d)
  case Nil
  show ?case by (simp add: dict_items_def queue_of_def)
next
  case (Cons p d)
  have other: "count (image_mset fst (mset (map (Pair a) ys))) k = (if a = k then length ys else 0)"
    for a and ys :: "'b list"
    by (induction ys) auto
  have "queue_of d k = []" if "fst p = k"
    using that Cons.prems by (auto simp: queue_of_def image_iff split: option.splits dest!: map_of_SomeD)
  then show ?case using Cons other
    by (cases p) (auto simp: dict_items_def queue_of_def)
qed

section \<open>Accounting\<close>

definition wq_shape :: "InMemoryWorkQueue \<Rightarrow> bool" where
  "wq_shape s \<longleftrightarrow> distinct (dict_keys (wq_ready s)) \<and> distinct (dict_keys (wq_inflight s))
     \<and> distinct (dict_keys (wq_dead s)) \<and> (\<forall>p \<in> set (wq_inflight s). rv_receipt (snd p) = fst p)"

definition dead_of :: "InMemoryWorkQueue \<Rightarrow> QueueKey \<Rightarrow> WorkItem list" where
  "dead_of s k = queue_of (wq_dead s) k"

definition for_key :: "'k \<Rightarrow> ('k \<times> 'a) list \<Rightarrow> 'a list" where
  "for_key k ps = map snd (filter (\<lambda>p. fst p = k) ps)"

text \<open>
  \<open>work_balance s ins outs D s'\<close>: between \<open>s\<close> and \<open>s'\<close> the work \<open>ins\<close> came in, the work \<open>outs\<close>
  left, and the items \<open>D\<close> went, in this order, to the dead letters of their queues. Nothing
  else was lost or made up.
\<close>

definition work_balance ::
    "InMemoryWorkQueue \<Rightarrow> work multiset \<Rightarrow> work multiset \<Rightarrow> (QueueKey \<times> WorkItem) list
      \<Rightarrow> InMemoryWorkQueue \<Rightarrow> bool" where
  "work_balance s ins outs D s' \<longleftrightarrow>
     active_work s + ins = active_work s' + outs + mset (map work_of D)
     \<and> (\<forall>k. dead_of s' k = keep_last (wq_max_dead_letters s) (dead_of s k @ for_key k D))
     \<and> wq_max_dead_letters s' = wq_max_dead_letters s \<and> wq_max_items s' = wq_max_items s
     \<and> wq_max_queues s' = wq_max_queues s"

lemma for_key_simps [simp]:
  "for_key k [] = []"
  "for_key k (p # ps) = (if fst p = k then snd p # for_key k ps else for_key k ps)"
  "for_key k (ps @ qs) = for_key k ps @ for_key k qs"
  by (simp_all add: for_key_def)

lemma work_balance_trans:
  assumes "work_balance s i u D s'" and "work_balance s' i' u' E s''" and "0 \<le> wq_max_dead_letters s"
  shows "work_balance s (i + i') (u + u') (D @ E) s''"
proof -
  have "active_work s + (i + i') = active_work s'' + (u + u') + mset (map work_of (D @ E))"
  proof -
    have "active_work s + (i + i') = (active_work s + i) + i'" by (simp add: ac_simps)
    also have "\<dots> = (active_work s' + i') + u + mset (map work_of D)"
      using assms(1) by (simp add: work_balance_def ac_simps)
    also have "\<dots> = active_work s'' + (u + u') + mset (map work_of (D @ E))"
      using assms(2) by (simp add: work_balance_def ac_simps)
    finally show ?thesis .
  qed
  then show ?thesis using assms unfolding work_balance_def by simp
qed

lemmas work_balance_idle_trans =
  work_balance_trans [where i = "{#}" and u = "{#}" and D = "[]", simplified]

definition wq_good :: "InMemoryWorkQueue \<Rightarrow> bool" where
  "wq_good s \<longleftrightarrow> wq_shape s \<and> 0 < wq_max_dead_letters s
     \<and> (\<forall>k. int (length (dead_of s k)) \<le> wq_max_dead_letters s)"

lemma wq_goodD:
  assumes "wq_good s"
  shows "distinct (dict_keys (wq_ready s))" "distinct (dict_keys (wq_inflight s))"
    "distinct (dict_keys (wq_dead s))" "0 < wq_max_dead_letters s"
    "int (length (dead_of s k)) \<le> wq_max_dead_letters s"
  using assms by (auto simp: wq_good_def wq_shape_def)

lemma wq_good_receipt:
  "wq_good s \<Longrightarrow> dict_get (wq_inflight s) x = Some r \<Longrightarrow> rv_receipt r = x"
  by (auto simp: wq_good_def wq_shape_def dest!: dict_get_in_set)

lemma work_balance_refl: "wq_good s \<Longrightarrow> work_balance s {#} {#} [] s"
  by (simp add: work_balance_def keep_last_short wq_goodD)

subsection \<open>The helpers\<close>

lemma promote_loop_items:
  assumes "promote_loop now ds ready = (ds', ready')" and "distinct (dict_keys ready)"
  shows "distinct (dict_keys ready')
    \<and> mset (dict_items ready') + mset (map item_of_delayed ds')
      = mset (dict_items ready) + mset (map item_of_delayed ds)"
  using assms
  by (induction now ds ready rule: promote_loop.induct) (auto split: if_splits)

lemma promote_delayed_effect:
  assumes "wq_good s"
  shows "wq_good (promote_delayed t s)" "queued (promote_delayed t s) = queued s"
    "held (promote_delayed t s) = held s" "wq_inflight (promote_delayed t s) = wq_inflight s"
    "wq_dead (promote_delayed t s) = wq_dead s"
    "work_balance s {#} {#} [] (promote_delayed t s)"
proof -
  obtain ds' ready' where p: "promote_loop t (wq_delayed s) (wq_ready s) = (ds', ready')" by fastforce
  note items = promote_loop_items [OF p wq_goodD(1) [OF assms]]
  have eq: "promote_delayed t s = s\<lparr>wq_delayed := ds', wq_ready := ready'\<rparr>"
    by (simp add: promote_delayed_def p)
  show good: "wq_good (promote_delayed t s)"
    using assms items by (simp add: eq wq_good_def wq_shape_def dead_of_def)
  show q: "queued (promote_delayed t s) = queued s" using items by (simp add: eq queued_def)
  show h: "held (promote_delayed t s) = held s" by (simp add: eq held_def)
  show "wq_inflight (promote_delayed t s) = wq_inflight s" "wq_dead (promote_delayed t s) = wq_dead s"
    by (simp_all add: eq)
  have "active_work (promote_delayed t s) = active_work s" by (simp add: active_work_def q h)
  then show "work_balance s {#} {#} [] (promote_delayed t s)"
    using work_balance_refl [OF assms] by (simp add: work_balance_def eq dead_of_def)
qed

lemma mset_heappush [simp]: "mset (heappush x ds) = add_mset x (mset ds)"
  by (induction x ds rule: heappush.induct) auto

lemma enqueue_effect:
  assumes "wq_good s"
  shows "wq_good (enqueue t k it d s)" "queued (enqueue t k it d s) = add_mset (k, it) (queued s)"
    "held (enqueue t k it d s) = held s" "wq_dead (enqueue t k it d s) = wq_dead s"
    "wq_inflight (enqueue t k it d s) = wq_inflight s"
    "work_balance s {#work_of (k, it)#} {#} [] (enqueue t k it d s)"
proof -
  note dist = wq_goodD(1) [OF assms]
  show "wq_good (enqueue t k it d s)"
    using assms by (simp add: enqueue_def wq_good_def wq_shape_def dead_of_def)
  have "image_mset item_of_delayed (mset (heappush x ds))
      = add_mset (item_of_delayed x) (image_mset item_of_delayed (mset ds))" for x ds
    by simp
  then show q: "queued (enqueue t k it d s) = add_mset (k, it) (queued s)"
    using dist by (simp add: enqueue_def queued_def)
  show h: "held (enqueue t k it d s) = held s" by (simp add: enqueue_def held_def)
  show "wq_dead (enqueue t k it d s) = wq_dead s"
    "wq_inflight (enqueue t k it d s) = wq_inflight s" by (simp_all add: enqueue_def)
  show "work_balance s {#work_of (k, it)#} {#} [] (enqueue t k it d s)"
    using work_balance_refl [OF assms] q h
    by (simp add: work_balance_def active_work_def dead_of_def) (simp add: enqueue_def)
qed

lemma append_dead_letter_effect:
  assumes "wq_good s"
  shows "wq_good (append_dead_letter k it s)" "queued (append_dead_letter k it s) = queued s"
    "held (append_dead_letter k it s) = held s"
    "wq_inflight (append_dead_letter k it s) = wq_inflight s"
    "work_balance s {#work_of (k, it)#} {#} [(k, it)] (append_dead_letter k it s)"
proof -
  have max: "0 \<le> wq_max_dead_letters s" using wq_goodD(4) [OF assms] by simp
  have dead: "dead_of (append_dead_letter k it s) k'
      = keep_last (wq_max_dead_letters s) (dead_of s k' @ for_key k' [(k, it)])" for k'
    using wq_goodD(5) [OF assms, of k']
    by (simp add: append_dead_letter_def dead_of_def trim_left_keep_last [OF max] keep_last_short)
  have len: "int (length (dead_of (append_dead_letter k it s) k')) \<le> wq_max_dead_letters s" for k'
    unfolding dead by (rule length_keep_last [OF max])
  have "wq_shape (append_dead_letter k it s)"
    using assms by (simp add: wq_good_def wq_shape_def append_dead_letter_def)
  moreover have "wq_max_dead_letters (append_dead_letter k it s) = wq_max_dead_letters s"
    by (simp add: append_dead_letter_def)
  ultimately show "wq_good (append_dead_letter k it s)"
    using wq_goodD(4) [OF assms] len by (simp add: wq_good_def)
  show "queued (append_dead_letter k it s) = queued s" "held (append_dead_letter k it s) = held s"
    "wq_inflight (append_dead_letter k it s) = wq_inflight s"
    by (simp_all add: append_dead_letter_def queued_def held_def)
  then show "work_balance s {#work_of (k, it)#} {#} [(k, it)] (append_dead_letter k it s)"
    using dead by (simp add: work_balance_def active_work_def) (simp add: append_dead_letter_def)
qed

lemma retry_or_dead_letter_effect:
  assumes "wq_good s"
  shows "wq_good (retry_or_dead_letter t k it d s)"
    "held (retry_or_dead_letter t k it d s) = held s"
    "wq_inflight (retry_or_dead_letter t k it d s) = wq_inflight s"
    "queued (retry_or_dead_letter t k it d s) =
       (if wi_attempt it < wi_max_attempts it then add_mset (k, it) (queued s) else queued s)"
    "work_balance s {#work_of (k, it)#} {#}
       (if wi_attempt it < wi_max_attempts it then [] else [(k, it)])
       (retry_or_dead_letter t k it d s)"
  using enqueue_effect [OF assms] append_dead_letter_effect [OF assms]
  by (auto simp: retry_or_dead_letter_def simp del: work_of.simps)

lemma prune_queue_effect:
  assumes "wq_good s"
  shows "wq_good (prune_queue k s)" "queued (prune_queue k s) = queued s"
    "held (prune_queue k s) = held s" "wq_inflight (prune_queue k s) = wq_inflight s"
    "work_balance s {#} {#} [] (prune_queue k s)"
proof -
  show "wq_good (prune_queue k s)"
    using assms by (simp add: prune_queue_def wq_good_def wq_shape_def dead_of_def)
  show q: "queued (prune_queue k s) = queued s" "held (prune_queue k s) = held s"
    "wq_inflight (prune_queue k s) = wq_inflight s"
    using wq_goodD(1) [OF assms] by (simp_all add: prune_queue_def queued_def held_def)
  show "work_balance s {#} {#} [] (prune_queue k s)"
    using work_balance_refl [OF assms] q
    by (simp add: work_balance_def active_work_def) (simp add: prune_queue_def dead_of_def)
qed

text \<open>Taking a reservation out of \<open>_inflight\<close>.\<close>

abbreviation drop_receipt :: "string \<Rightarrow> InMemoryWorkQueue \<Rightarrow> InMemoryWorkQueue" where
  "drop_receipt x s \<equiv> s\<lparr>wq_inflight := dict_pop x (wq_inflight s)\<rparr>"

lemma mset_dict_pop:
  assumes "distinct (dict_keys d)" and "dict_get d k = Some v"
  shows "mset d = add_mset (k, v) (mset (dict_pop k d))"
  using assms
proof (induction d)
  case (Cons p d)
  have "dict_pop k d = d" if "fst p = k"
    using that Cons.prems(1) by (auto simp: AList.delete_eq filter_id_conv image_iff)
  then show ?case using Cons by (cases p) (auto split: if_splits)
qed simp

lemma drop_receipt_effect:
  assumes "wq_good s" and "dict_get (wq_inflight s) x = Some r"
  shows "wq_good (drop_receipt x s)" "queued (drop_receipt x s) = queued s"
    "held s = add_mset (rv_queue_key r, rv_item r) (held (drop_receipt x s))"
    "work_balance s {#} {#work_of (rv_queue_key r, rv_item r)#} [] (drop_receipt x s)"
proof -
  show "wq_good (drop_receipt x s)"
    using assms by (simp add: wq_good_def wq_shape_def dead_of_def)
  show q: "queued (drop_receipt x s) = queued s" by (simp add: queued_def)
  show h: "held s = add_mset (rv_queue_key r, rv_item r) (held (drop_receipt x s))"
    using mset_dict_pop [OF wq_goodD(2) [OF assms(1)] assms(2)]
    by (simp add: held_def item_of_reservation_def)
  show "work_balance s {#} {#work_of (rv_queue_key r, rv_item r)#} [] (drop_receipt x s)"
    using work_balance_refl [OF assms(1)] q
    by (simp add: work_balance_def active_work_def h dead_of_def)
qed

lemma work_balance_cancel:
  "work_balance s {#} {#w#} D s' \<Longrightarrow> work_balance s' {#w#} {#} E s'' \<Longrightarrow> 0 \<le> wq_max_dead_letters s \<Longrightarrow>
     work_balance s {#} {#} (D @ E) s''"
  using work_balance_trans [of s "{#}" "{#w#}" D s' "{#w#}" "{#}" E s'']
  by (simp add: work_balance_def)

definition exhausted :: "QueueKey \<times> WorkItem \<Rightarrow> bool" where
  "exhausted p \<longleftrightarrow> wi_max_attempts (snd p) \<le> wi_attempt (snd p)"

text \<open>\<open>recovers s D s'\<close>: reserved items went back to their queues, or to the dead letters when
  their attempts were used up.\<close>

definition recovers :: "InMemoryWorkQueue \<Rightarrow> (QueueKey \<times> WorkItem) list \<Rightarrow> InMemoryWorkQueue \<Rightarrow> bool" where
  "recovers s D s' \<longleftrightarrow> wq_good s' \<and> work_balance s {#} {#} D s' \<and> (\<forall>p \<in> set D. exhausted p \<and> p \<in># held s)
     \<and> held s' \<subseteq># held s \<and> queued s \<subseteq># queued s'
     \<and> (\<forall>p. p \<in># queued s' \<longrightarrow> p \<in># queued s \<or> (p \<in># held s \<and> \<not> exhausted p))"

lemma recovers_refl: "wq_good s \<Longrightarrow> recovers s [] s"
  by (simp add: recovers_def work_balance_refl)

lemma recovers_trans:
  assumes "wq_good s" and "recovers s D s'" and "recovers s' E s''"
  shows "recovers s (D @ E) s''"
proof -
  have "work_balance s {#} {#} (D @ E) s''"
    using assms wq_goodD(4) [OF assms(1)] work_balance_trans [of s "{#}" "{#}" D s' "{#}" "{#}" E s'']
    by (simp add: recovers_def)
  moreover have "held s'' \<subseteq># held s" "queued s \<subseteq># queued s''"
    using assms by (auto simp: recovers_def intro: subset_mset.order_trans)
  ultimately show ?thesis using assms by (fastforce simp: recovers_def dest: mset_subset_eqD)
qed

lemma drop_then_retry:
  assumes "wq_good s" and "dict_get (wq_inflight s) x = Some r"
  shows "recovers s (if exhausted (rv_queue_key r, rv_item r) then [(rv_queue_key r, rv_item r)] else [])
    (retry_or_dead_letter t (rv_queue_key r) (rv_item r) d (drop_receipt x s))"
proof -
  let ?p = "(rv_queue_key r, rv_item r)"
  note drop = drop_receipt_effect [OF assms]
  note retry = retry_or_dead_letter_effect [OF drop(1), where t = t and k = "rv_queue_key r"
      and it = "rv_item r" and d = d]
  have ex: "exhausted ?p \<longleftrightarrow> \<not> wi_attempt (rv_item r) < wi_max_attempts (rv_item r)"
    by (auto simp: exhausted_def)
  have "work_balance s {#} {#} (if exhausted ?p then [?p] else [])
      (retry_or_dead_letter t (rv_queue_key r) (rv_item r) d (drop_receipt x s))"
    using work_balance_cancel [OF drop(4) retry(5)] wq_goodD(4) [OF assms(1)] ex
    by (auto split: if_splits)
  then show ?thesis
    using retry drop ex by (simp add: recovers_def)
qed

lemma prune_recovers: "wq_good s \<Longrightarrow> recovers s [] (prune_queue k s)"
  using prune_queue_effect [of s k] by (simp add: recovers_def)

lemma promote_recovers: "wq_good s \<Longrightarrow> recovers s [] (promote_delayed t s)"
  using promote_delayed_effect [of s t] by (simp add: recovers_def)

lemma recover_receipt_recovers:
  assumes "wq_good s"
  shows "\<exists>D. recovers s D (recover_receipt x s)"
proof (cases "dict_get (wq_inflight s) x")
  case None
  then show ?thesis using recovers_refl [OF assms] by (auto simp: recover_receipt_def)
next
  case (Some r)
  let ?s1 = "retry_or_dead_letter 0 (rv_queue_key r) (rv_item r) 0 (drop_receipt x s)"
  obtain D where "recovers s D ?s1" using drop_then_retry [OF assms Some] by blast
  moreover from this have "wq_good ?s1" by (simp add: recovers_def)
  ultimately show ?thesis
    using recovers_trans [OF assms _ prune_recovers] Some by (fastforce simp: recover_receipt_def)
qed

lemma fold_recover_recovers:
  assumes "wq_good s"
  shows "\<exists>D. recovers s D (fold recover_receipt xs s)"
  using assms
proof (induction xs arbitrary: s)
  case Nil
  then show ?case using recovers_refl by auto
next
  case (Cons x xs)
  obtain D where D: "recovers s D (recover_receipt x s)"
    using recover_receipt_recovers [OF Cons.prems] by blast
  then have "wq_good (recover_receipt x s)" by (simp add: recovers_def)
  then obtain E where "recovers (recover_receipt x s) E (fold recover_receipt xs (recover_receipt x s))"
    using Cons.IH by blast
  then show ?case using recovers_trans [OF Cons.prems D] by auto
qed

lemma recover_recovers:
  assumes "wq_good s"
  shows "\<exists>D. recovers s D (recover t1 t2 s)"
proof -
  have p: "recovers s [] (promote_delayed t1 s)" by (rule promote_recovers [OF assms])
  then have "wq_good (promote_delayed t1 s)" by (simp add: recovers_def)
  then obtain D where "recovers (promote_delayed t1 s) D (recover t1 t2 s)"
    using fold_recover_recovers by (fastforce simp: recover_def recover_expired_def)
  then show ?thesis using recovers_trans [OF assms p] by auto
qed

subsection \<open>Reserving\<close>

lemma mset_dict_set:
  assumes "distinct (dict_keys d)"
  shows "mset (dict_set k v d) = add_mset (k, v) (mset (dict_pop k d))"
proof -
  have "dict_pop k (dict_set k v d) = dict_pop k d"
    by (induction d) auto
  then show ?thesis using mset_dict_pop [of "dict_set k v d" k v] assms by simp
qed

lemma held_set_receipt:
  assumes "wq_good s" and "rv_receipt r = x"
  shows "held (s\<lparr>wq_inflight := dict_set x r (wq_inflight s)\<rparr>)
      = add_mset (rv_queue_key r, rv_item r) (held (drop_receipt x s))"
    and "wq_good (s\<lparr>wq_inflight := dict_set x r (wq_inflight s)\<rparr>)"
  using assms mset_dict_set [OF wq_goodD(2) [OF assms(1)], of x r]
  by (auto simp: held_def item_of_reservation_def wq_good_def wq_shape_def dead_of_def set_dict_set)

text \<open>The state in which \<open>deliver\<close> leaves the queue, whether or not the delivery can be built.\<close>

definition delivered ::
    "pyfloat \<Rightarrow> string \<Rightarrow> QueueKey \<Rightarrow> rat \<Rightarrow> WorkItem \<Rightarrow> WorkItem list
      \<Rightarrow> InMemoryWorkQueue \<Rightarrow> InMemoryWorkQueue" where
  "delivered t3 uid k v it rest s =
     prune_queue k (s\<lparr>wq_ready := dict_set k rest (wq_ready s),
       wq_inflight := dict_set uid \<lparr>rv_queue_key = k, rv_item = it\<lparr>wi_attempt := wi_attempt it + 1\<rparr>,
         rv_visible_until = t3 + Fin v, rv_receipt = uid\<rparr> (wq_inflight s)\<rparr>)"

lemma snd_deliver [simp]: "snd (deliver t3 uid k v it rest s) = delivered t3 uid k v it rest s"
  by (simp add: deliver_def delivered_def Let_def checked_def split: sum.splits)

lemma delivered_effect:
  fixes tv :: pyfloat and uid :: string and v :: rat
  assumes "wq_good s" and "queue_of (wq_ready s) k = it # rest"
  defines "s' \<equiv> delivered tv uid k v it rest s"
  defines "it' \<equiv> it\<lparr>wi_attempt := wi_attempt it + 1\<rparr>"
  shows "wq_good s'" "queued s = add_mset (k, it) (queued s')"
    "held s' = add_mset (k, it') (held (drop_receipt uid s))"
    "work_balance s {#} (image_mset work_of (held s - held (drop_receipt uid s))) [] s'"
proof -
  let ?r = "\<lparr>rv_queue_key = k, rv_item = it', rv_visible_until = tv + Fin v, rv_receipt = uid\<rparr>"
  let ?s1 = "s\<lparr>wq_ready := dict_set k rest (wq_ready s)\<rparr>"
  let ?s2 = "?s1\<lparr>wq_inflight := dict_set uid ?r (wq_inflight ?s1)\<rparr>"
  have eq: "s' = prune_queue k ?s2" by (simp add: s'_def delivered_def it'_def)
  have good1: "wq_good ?s1" using assms(1) by (simp add: wq_good_def wq_shape_def dead_of_def)
  note set = held_set_receipt [OF good1, of ?r uid, simplified]
  note prune = prune_queue_effect [OF set(2), of k]
  show good: "wq_good s'" using prune(1) by (simp add: eq)
  show q: "queued s = add_mset (k, it) (queued s')"
    using prune(2) mset_dict_items_popleft [OF wq_goodD(1) [OF assms(1)] assms(2)]
    by (simp add: eq queued_def)
  show h: "held s' = add_mset (k, it') (held (drop_receipt uid s))"
    using prune(3) set(1) by (simp add: eq) (simp add: held_def)
  have "held (drop_receipt uid s) \<subseteq># held s"
    using drop_receipt_effect(3) [OF assms(1), of uid] dict_pop_absent [of "wq_inflight s" uid]
    by (cases "dict_get (wq_inflight s) uid") (auto simp: held_def)
  then have "active_work s = active_work s' + image_mset work_of (held s - held (drop_receipt uid s))"
    unfolding active_work_def q h
    by (simp add: it'_def image_mset_Diff image_mset_subseteq_mono)
  then show "work_balance s {#} (image_mset work_of (held s - held (drop_receipt uid s))) [] s'"
    using work_balance_refl [OF assms(1)]
    by (simp add: work_balance_def eq) (simp add: prune_queue_def dead_of_def)
qed

lemma iteration_cases:
  obtains (closed) "wq_closed s" "iteration_of e k v deadline s = (Inl CacheFeatureError, s)"
  | (ready) it rest where "\<not> wq_closed s"
      "queue_of (wq_ready (recover (rd_promote e) (rd_recover e) s)) k = it # rest"
      "iteration_of e k v deadline s = deliver (rd_visible e) (rd_uuid e) k v it rest
         (recover (rd_promote e) (rd_recover e) s)"
  | (idle) "\<not> wq_closed s"
      "queue_of (wq_ready (recover (rd_promote e) (rd_recover e) s)) k = []"
      "iteration_of e k v deadline s =
         (Inr (wait_decision (rd_loop e) (rd_wakeup e) deadline
            (next_wakeup k (recover (rd_promote e) (rd_recover e) s))),
          recover (rd_promote e) (rd_recover e) s)"
proof (cases "wq_closed s")
  case True
  then show thesis using closed by (simp add: iteration_of_def reserve_iteration_def require_open_def)
next
  case False
  then show thesis
    using ready idle
    by (cases "queue_of (wq_ready (recover (rd_promote e) (rd_recover e) s)) k")
       (simp_all add: iteration_of_def reserve_iteration_def require_open_def Let_def)
qed

section \<open>The invariant\<close>

definition wq_attempts :: "InMemoryWorkQueue \<Rightarrow> bool" where
  "wq_attempts s \<longleftrightarrow>
     (\<forall>p. p \<in># queued s \<longrightarrow> 0 \<le> wi_attempt (snd p) \<and> wi_attempt (snd p) < wi_max_attempts (snd p))
     \<and> (\<forall>p. p \<in># held s \<longrightarrow> 0 < wi_attempt (snd p) \<and> wi_attempt (snd p) \<le> wi_max_attempts (snd p))
     \<and> (\<forall>k. \<forall>it \<in> set (dead_of s k). 0 < wi_attempt it \<and> wi_attempt it \<le> wi_max_attempts it)"

definition wq_capacity :: "InMemoryWorkQueue \<Rightarrow> bool" where
  "wq_capacity s \<longleftrightarrow> (\<forall>k. int (active_count k s) \<le> wq_max_items s)
     \<and> int (length (known_queues s)) \<le> wq_max_queues s"

definition wq_inv :: "InMemoryWorkQueue \<Rightarrow> bool" where
  "wq_inv s \<longleftrightarrow> wq_good s \<and> wq_attempts s \<and> wq_capacity s"

lemma length_comprehension:
  "length [x. (x, y) \<leftarrow> ps, P x y] = length (filter (\<lambda>(x, y). P x y) ps)"
  by (induction ps) auto

lemma delayed_count_mset:
  "delayed_count k s = count (image_mset fst (mset (map item_of_delayed (wq_delayed s)))) k"
proof -
  have "length [k'. (_, _, k', _) \<leftarrow> ds, k' = k] = count (mset (map (fst \<circ> item_of_delayed) ds)) k"
    for ds :: "delayed_item list"
    by (induction ds) auto
  then show ?thesis by (simp add: delayed_count_def multiset.map_comp)
qed

lemma inflight_count_mset:
  "inflight_count k s = count (image_mset fst (held s)) k"
proof -
  have "length [r. (_, r) \<leftarrow> ds, rv_queue_key r = k]
      = count (mset (map (fst \<circ> item_of_reservation) ds)) k" for ds :: "(string \<times> Reservation) list"
    by (induction ds) (auto simp: item_of_reservation_def)
  then show ?thesis by (simp add: inflight_count_def held_def multiset.map_comp)
qed

lemma active_count_work:
  assumes "wq_good s"
  shows "active_count k s = count (image_mset fst (active_work s)) k"
  using count_dict_items [OF wq_goodD(1) [OF assms], of k]
  by (simp add: active_count_def delayed_count_mset inflight_count_mset active_work_def queued_def
      multiset.map_comp comp_def)

lemma known_queues_iff:
  assumes "wq_good s"
  shows "k \<in> set (known_queues s) \<longleftrightarrow> k \<in> fst ` set_mset (active_work s) \<or> dead_of s k \<noteq> []"
proof -
  have nonempty: "k \<in> set [k. (k, items) \<leftarrow> d, items \<noteq> []] \<longleftrightarrow> queue_of d k \<noteq> []"
    if "distinct (dict_keys d)" for d :: "(QueueKey, WorkItem list) dict"
  proof -
    have "k \<in> set [k. (k, items) \<leftarrow> d, items \<noteq> []] \<longleftrightarrow> (\<exists>items. (k, items) \<in> set d \<and> items \<noteq> [])"
      by force
    then show ?thesis
      by (auto simp: queue_of_def simp flip: map_of_eq_Some_iff [OF that] split: option.splits)
  qed
  have ready: "queue_of (wq_ready s) k \<noteq> [] \<longleftrightarrow> k \<in> fst ` set (dict_items (wq_ready s))"
  proof -
    have "queue_of (wq_ready s) k \<noteq> [] \<longleftrightarrow> (\<exists>x. x \<in> set (queue_of (wq_ready s) k))"
      by (cases "queue_of (wq_ready s) k") auto
    also have "\<dots> \<longleftrightarrow> (\<exists>x. (k, x) \<in> set (dict_items (wq_ready s)))"
      using in_dict_items [OF wq_goodD(1) [OF assms], of k] by simp
    finally show ?thesis by force
  qed
  have work: "fst ` set_mset (active_work s) = fst ` (set_mset (queued s) \<union> set_mset (held s))"
    by (simp add: active_work_def image_image image_Un)
  have "k \<in> set (known_queues s) \<longleftrightarrow> queue_of (wq_ready s) k \<noteq> [] \<or> dead_of s k \<noteq> []
      \<or> k \<in> fst ` item_of_delayed ` set (wq_delayed s)
      \<or> k \<in> fst ` item_of_reservation ` set (wq_inflight s)"
    unfolding known_queues_def set_remdups set_append Un_iff nonempty [OF wq_goodD(1) [OF assms]]
      nonempty [OF wq_goodD(3) [OF assms]] dead_of_def
    by (force simp: image_iff item_of_reservation_def)
  then show ?thesis
    unfolding ready work by (auto simp: queued_def held_def image_Un)
qed

lemma length_known_mono:
  assumes "set (known_queues s') \<subseteq> set (known_queues s)"
  shows "length (known_queues s') \<le> length (known_queues s)"
proof -
  have "length (known_queues x) = card (set (known_queues x))" for x
    by (simp add: known_queues_def length_remdups_card_conv)
  then show ?thesis using assms by (simp add: card_mono)
qed

text \<open>No call but \<open>publish\<close> adds work, so none but \<open>publish\<close> can exceed a capacity.\<close>

lemma work_balance_capacity:
  assumes "wq_good s" and "wq_good s'" and "wq_capacity s" and "work_balance s {#} outs D s'"
  shows "wq_capacity s'"
proof -
  have work: "active_work s = active_work s' + outs + mset (map work_of D)"
    using assms(4) by (simp add: work_balance_def)
  have dead: "dead_of s' k = keep_last (wq_max_dead_letters s) (dead_of s k @ for_key k D)" for k
    using assms(4) by (simp add: work_balance_def)
  have "k \<in> set (known_queues s)" if k: "k \<in> set (known_queues s')" for k
  proof -
    have any: "dead_of s k \<noteq> [] \<or> for_key k D \<noteq> []" if "dead_of s' k \<noteq> []"
      using that by (auto simp: dead keep_last_def)
    consider "k \<in> fst ` set_mset (active_work s')" | "dead_of s k \<noteq> []" | "for_key k D \<noteq> []"
      using k any known_queues_iff [OF assms(2), of k] by blast
    then have "k \<in> fst ` set_mset (active_work s) \<or> dead_of s k \<noteq> []"
      by cases (auto simp: work image_Un image_image for_key_def filter_empty_conv)
    then show ?thesis using known_queues_iff [OF assms(1)] by simp
  qed
  then have "length (known_queues s') \<le> length (known_queues s)" by (intro length_known_mono) auto
  moreover have "active_count k s' \<le> active_count k s" for k
    by (simp add: active_count_work assms(1,2) work)
  ultimately show ?thesis
    using assms(3,4) unfolding wq_capacity_def work_balance_def by (metis of_nat_mono order_trans)
qed

lemma dead_after:
  assumes "work_balance s ins outs D s'" and "it \<in> set (dead_of s' k)"
  shows "it \<in> set (dead_of s k) \<or> (k, it) \<in> set D"
  using assms set_keep_last [of "wq_max_dead_letters s" "dead_of s k @ for_key k D"]
  by (auto simp: work_balance_def for_key_def)

lemma recovers_attempts:
  assumes "wq_attempts s" and "recovers s D s'"
  shows "wq_attempts s'"
  unfolding wq_attempts_def
proof (intro conjI allI impI ballI)
  fix p
  assume "p \<in># queued s'"
  then have "p \<in># queued s \<or> (p \<in># held s \<and> \<not> exhausted p)" using assms(2) by (simp add: recovers_def)
  then show "0 \<le> wi_attempt (snd p)" "wi_attempt (snd p) < wi_max_attempts (snd p)"
    using assms(1) by (auto simp: wq_attempts_def exhausted_def dest: order.strict_implies_order)
next
  fix p
  assume "p \<in># held s'"
  then have "p \<in># held s" using assms(2) by (auto simp: recovers_def dest: mset_subset_eqD)
  then show "0 < wi_attempt (snd p)" "wi_attempt (snd p) \<le> wi_max_attempts (snd p)"
    using assms(1) by (simp_all add: wq_attempts_def)
next
  fix k it
  assume "it \<in> set (dead_of s' k)"
  then have "it \<in> set (dead_of s k) \<or> (k, it) \<in># held s"
    using assms(2) dead_after unfolding recovers_def by blast
  then show "0 < wi_attempt it" "wi_attempt it \<le> wi_max_attempts it"
    using assms(1) unfolding wq_attempts_def by force+
qed

lemma recovers_inv: "wq_inv s \<Longrightarrow> recovers s D s' \<Longrightarrow> wq_inv s'"
  using recovers_attempts work_balance_capacity unfolding wq_inv_def recovers_def by blast

lemma delivered_inv:
  assumes "wq_inv s" and "queue_of (wq_ready s) k = it # rest"
  shows "wq_inv (delivered t3 uid k v it rest s)"
proof -
  let ?s' = "delivered t3 uid k v it rest s"
  have good: "wq_good s" and att: "wq_attempts s" and cap: "wq_capacity s"
    using assms(1) by (simp_all add: wq_inv_def)
  note eff = delivered_effect [OF good assms(2), where tv = t3 and uid = uid and v = v]
  have it: "0 \<le> wi_attempt it \<and> wi_attempt it < wi_max_attempts it"
    using att eff(2) by (simp add: wq_attempts_def)
  have held: "p \<in># held (drop_receipt uid s) \<Longrightarrow> p \<in># held s" for p
    using drop_receipt_effect(3) [OF good, of uid] dict_pop_absent [of "wq_inflight s" uid]
    by (cases "dict_get (wq_inflight s) uid") (auto simp: held_def)
  have "wq_attempts ?s'"
    unfolding wq_attempts_def
  proof (intro conjI allI impI ballI)
    fix p assume "p \<in># queued ?s'"
    then show "0 \<le> wi_attempt (snd p)" "wi_attempt (snd p) < wi_max_attempts (snd p)"
      using att eff(2) by (simp_all add: wq_attempts_def)
  next
    fix p assume "p \<in># held ?s'"
    then show "0 < wi_attempt (snd p)" "wi_attempt (snd p) \<le> wi_max_attempts (snd p)"
      using att eff(3) it held [of p] by (auto simp: wq_attempts_def)
  next
    fix k' x assume "x \<in> set (dead_of ?s' k')"
    then show "0 < wi_attempt x" "wi_attempt x \<le> wi_max_attempts x"
      using dead_after [OF eff(4), of x k'] att unfolding wq_attempts_def by auto
  qed
  then show ?thesis
    using eff(1) work_balance_capacity [OF good eff(1) cap eff(4)] by (simp add: wq_inv_def)
qed

lemma iteration_inv:
  assumes "wq_inv s"
  shows "wq_inv (snd (iteration_of e k v deadline s))"
proof -
  have good: "wq_good s" using assms by (simp add: wq_inv_def)
  then obtain D where "recovers s D (recover (rd_promote e) (rd_recover e) s)"
    using recover_recovers by blast
  then have rec: "wq_inv (recover (rd_promote e) (rd_recover e) s)"
    using assms recovers_inv by blast
  show ?thesis
    by (cases rule: iteration_cases [of s e k v deadline])
       (use assms rec in \<open>auto intro: delivered_inv\<close>)
qed

subsection \<open>The other operations\<close>

lemma required_reservation_Inr:
  assumes "wq_good s" and "required_reservation d s = Inr r"
  shows "dict_get (wq_inflight s) (wd_receipt d) = Some r" "rv_receipt r = wd_receipt d"
  using assms wq_good_receipt [OF assms(1)]
  by (auto simp: required_reservation_def split: option.splits if_splits)

text \<open>
  \<open>acknowledge\<close>, \<open>renew\<close>, \<open>reject\<close> and \<open>dead_letter\<close> first promote and then settle or refuse:
  either the delivery is stale and only the promotion happens, or its reservation is found.
\<close>

lemma settle_cases:
  assumes "wq_good s"
  obtains (stale) e where "required_reservation d (promote_delayed t s) = Inl e"
    "recovers s [] (promote_delayed t s)"
  | (found) r where "required_reservation d (promote_delayed t s) = Inr r"
    "dict_get (wq_inflight s) (wd_receipt d) = Some r" "rv_receipt r = wd_receipt d"
    "dict_get (wq_inflight (promote_delayed t s)) (wd_receipt d) = Some r"
    "recovers s [] (promote_delayed t s)"
proof (cases "required_reservation d (promote_delayed t s)")
  case (Inl e)
  then show thesis using stale promote_recovers [OF assms] by blast
next
  case (Inr r)
  then show thesis
    using found required_reservation_Inr [OF promote_delayed_effect(1) [OF assms] Inr]
      promote_delayed_effect(4) [OF assms, of t] promote_recovers [OF assms] by metis
qed

lemma acknowledge_cases:
  assumes "wq_good s"
  obtains (stale) e s' where "acknowledge t d s = (Inl e, s')" "recovers s [] s'"
  | (settled) r s' where "acknowledge t d s = (Inr (), s')"
    "dict_get (wq_inflight s) (wd_receipt d) = Some r" "wq_good s'"
    "queued s' = queued s" "held s = add_mset (rv_queue_key r, rv_item r) (held s')"
    "work_balance s {#} {#work_of (rv_queue_key r, rv_item r)#} [] s'"
    "wq_inflight s' = dict_pop (wd_receipt d) (wq_inflight s)"
proof (cases rule: settle_cases [OF assms, of d t])
  case (1 e)
  then show thesis using stale by (simp add: acknowledge_def Let_def)
next
  case (2 r)
  let ?s1 = "promote_delayed t s"
  note p = promote_delayed_effect [OF assms, of t]
  note drop = drop_receipt_effect [OF p(1) 2(4)]
  note prune = prune_queue_effect [OF drop(1), of "rv_queue_key r"]
  let ?s' = "prune_queue (rv_queue_key r) (drop_receipt (wd_receipt d) ?s1)"
  have max: "0 \<le> wq_max_dead_letters s" using wq_goodD(4) [OF assms] by simp
  have "work_balance s {#} {#work_of (rv_queue_key r, rv_item r)#} [] (drop_receipt (wd_receipt d) ?s1)"
    using work_balance_trans [OF p(6) drop(4) max] by simp
  then have "work_balance s {#} {#work_of (rv_queue_key r, rv_item r)#} [] ?s'"
    using work_balance_trans [OF _ prune(5) max] by force
  moreover have "acknowledge t d s = (Inr (), ?s')"
    using 2 by (simp add: acknowledge_def Let_def)
  moreover have "wq_inflight ?s' = dict_pop (wd_receipt d) (wq_inflight s)"
    using prune(4) p(4) by simp
  ultimately show thesis
    using settled [of ?s' r] 2(2) prune(1-3) drop(2,3) p(2,3) by simp
qed

lemma reject_cases:
  assumes "wq_good s"
  obtains (stale) e s' where "reject t1 t2 d dl s = (Inl e, s')" "recovers s [] s'"
  | (settled) r s' where "reject t1 t2 d dl s = (Inr (), s')"
    "dict_get (wq_inflight s) (wd_receipt d) = Some r"
    "recovers s (if exhausted (rv_queue_key r, rv_item r) then [(rv_queue_key r, rv_item r)] else []) s'"
    "wq_inflight s' = dict_pop (wd_receipt d) (wq_inflight s)"
proof (cases "validate_non_negative_finite dl")
  case (Inl e)
  then show thesis using stale recovers_refl [OF assms] by (simp add: reject_def)
next
  case (Inr x)
  show thesis
  proof (cases rule: settle_cases [OF assms, of d t1])
    case (1 e)
    then show thesis using stale Inr by (simp add: reject_def Let_def)
  next
    case (2 r)
    note p = promote_delayed_effect [OF assms, of t1]
    note retry = drop_then_retry [OF p(1) 2(4), of t2 x]
    let ?s1 = "drop_receipt (wd_receipt d) (promote_delayed t1 s)"
    have "wq_inflight (retry_or_dead_letter t2 (rv_queue_key r) (rv_item r) x ?s1)
        = dict_pop (wd_receipt d) (wq_inflight s)"
      using retry_or_dead_letter_effect(3) [OF drop_receipt_effect(1) [OF p(1) 2(4)]] p(4) by simp
    then show thesis
      using settled recovers_trans [OF assms 2(5) retry] 2 Inr by (simp add: reject_def Let_def)
  qed
qed

lemma dead_letter_cases:
  assumes "wq_good s"
  obtains (stale) e s' where "dead_letter t d s = (Inl e, s')" "recovers s [] s'"
  | (settled) r s' where "dead_letter t d s = (Inr (), s')"
    "dict_get (wq_inflight s) (wd_receipt d) = Some r" "wq_good s'"
    "queued s' = queued s" "held s = add_mset (rv_queue_key r, rv_item r) (held s')"
    "work_balance s {#} {#} [(rv_queue_key r, rv_item r)] s'"
    "wq_inflight s' = dict_pop (wd_receipt d) (wq_inflight s)"
proof (cases rule: settle_cases [OF assms, of d t])
  case (1 e)
  then show thesis using stale by (simp add: dead_letter_def Let_def)
next
  case (2 r)
  let ?s1 = "promote_delayed t s"
  note p = promote_delayed_effect [OF assms, of t]
  note drop = drop_receipt_effect [OF p(1) 2(4)]
  let ?k = "rv_queue_key r" and ?it = "rv_item r"
  note app = append_dead_letter_effect [OF drop(1), where k = ?k and it = ?it]
  have max: "0 \<le> wq_max_dead_letters s" using wq_goodD(4) [OF assms] by simp
  have "work_balance s {#} {#work_of (?k, ?it)#} [] (drop_receipt (wd_receipt d) ?s1)"
    using work_balance_trans [OF p(6) drop(4) max] by simp
  from work_balance_cancel [OF this app(5) max]
  have "work_balance s {#} {#} [(?k, ?it)]
      (append_dead_letter ?k ?it (drop_receipt (wd_receipt d) ?s1))" by simp
  moreover have "dead_letter t d s
      = (Inr (), append_dead_letter ?k ?it (drop_receipt (wd_receipt d) ?s1))"
    using 2 by (simp add: dead_letter_def Let_def)
  moreover have "wq_inflight (append_dead_letter ?k ?it (drop_receipt (wd_receipt d) ?s1))
      = dict_pop (wd_receipt d) (wq_inflight s)"
    using app(4) p(4) by simp
  ultimately show thesis using settled 2(2) app(1-3) drop(2,3) p(2,3) by simp
qed

lemma renew_delivery_cases:
  assumes "wq_good s"
  obtains (stale) e s' where "renew_delivery t1 t2 d vt s = (Inl e, s')" "recovers s [] s'"
    "wq_inflight s' = wq_inflight s"
  | (kept) r r' s' where "snd (renew_delivery t1 t2 d vt s) = s'"
    "dict_get (wq_inflight s) (wd_receipt d) = Some r" "recovers s [] s'"
    "wq_inflight s' = dict_set (wd_receipt d) r' (wq_inflight s)"
    "rv_queue_key r' = rv_queue_key r" "rv_item r' = rv_item r"
proof (cases "validate_positive_finite vt")
  case (Inl e)
  then show thesis using stale recovers_refl [OF assms] by (simp add: renew_delivery_def)
next
  case (Inr v)
  show thesis
  proof (cases rule: settle_cases [OF assms, of d t1])
    case (1 e)
    then show thesis
      using stale Inr promote_delayed_effect(4) [OF assms] by (simp add: renew_delivery_def Let_def)
  next
    case (2 r)
    let ?s1 = "promote_delayed t1 s" and ?r = "r\<lparr>rv_visible_until := t2 + Fin v\<rparr>"
    let ?s' = "?s1\<lparr>wq_inflight := dict_set (wd_receipt d) ?r (wq_inflight ?s1)\<rparr>"
    note p = promote_delayed_effect [OF assms, of t1]
    have set: "held ?s' = held ?s1" "wq_good ?s'"
      using held_set_receipt [OF p(1), of ?r "wd_receipt d"] 2(3)
        drop_receipt_effect(3) [OF p(1) 2(4)] by simp_all
    have "work_balance ?s1 {#} {#} [] ?s'"
      using work_balance_refl [OF p(1)] set(1)
      by (simp add: work_balance_def active_work_def dead_of_def queued_def)
    then have "recovers ?s1 [] ?s'" using set by (simp add: recovers_def queued_def)
    from recovers_trans [OF assms 2(5) this] have "recovers s [] ?s'" by simp
    moreover have "snd (renew_delivery t1 t2 d vt s) = ?s'"
      using 2 Inr by (simp add: renew_delivery_def Let_def checked_def split: sum.splits)
    ultimately show thesis using kept [of ?s' r ?r] 2(2) p(4) by simp
  qed
qed

lemma publish_cases:
  assumes "wq_good s"
  obtains (refused) e s' where "publish t1 t2 uid ow qu pl dl ma s = (Inl e, s')" "recovers s [] s'"
    "wq_inflight s' = wq_inflight s"
  | (accepted) k b d m where
    "queue_key ow qu = Inr k" "validate_payload pl = Inr b" "validate_non_negative_finite dl = Inr d"
    "validate_positive_integer ma = Inr m"
    "ensure_queue_capacity k (promote_delayed t1 s) = Inr ()"
    "int (active_count k (promote_delayed t1 s)) < wq_max_items s"
    "publish t1 t2 uid ow qu pl dl ma s =
       (Inr (WorkIdentity uid), enqueue t2 k \<lparr>wi_identity = WorkIdentity uid, wi_payload = b,
          wi_max_attempts = m, wi_attempt = 0\<rparr> d (promote_delayed t1 s))"
proof -
  let ?s1 = "promote_delayed t1 s"
  note p = promote_recovers [OF assms, of t1] promote_delayed_effect(4) [OF assms, of t1]
  note r = recovers_refl [OF assms]
  have max: "wq_max_items ?s1 = wq_max_items s"
    using promote_delayed_effect(6) [OF assms, of t1] by (simp add: work_balance_def)
  show thesis
  proof (cases "\<exists>e s'. publish t1 t2 uid ow qu pl dl ma s = (Inl e, s')")
    case True
    then obtain e s' where f: "publish t1 t2 uid ow qu pl dl ma s = (Inl e, s')" by blast
    then have "s' = s \<or> s' = ?s1"
      by (auto simp: publish_def Let_def checked_def split: sum.splits if_splits)
    then show thesis using refused [OF f] p r by auto
  next
    case False
    then show thesis
      using accepted max
      by (auto simp: publish_def Let_def checked_def make_WorkIdentity_def res_bind_def
          split: sum.splits if_splits)
  qed
qed

lemma publish_inv:
  assumes "wq_inv s"
  shows "wq_inv (snd (publish t1 t2 uid ow qu pl dl ma s))"
proof -
  have good: "wq_good s" using assms by (simp add: wq_inv_def)
  show ?thesis
  proof (cases rule: publish_cases [OF good, of t1 t2 uid ow qu pl dl ma])
    case (1 e s')
    then show ?thesis using recovers_inv [OF assms] by simp
  next
    case (2 k b d m)
    let ?s1 = "promote_delayed t1 s"
    let ?it = "\<lparr>wi_identity = WorkIdentity uid, wi_payload = b, wi_max_attempts = m, wi_attempt = 0\<rparr>"
    let ?s' = "enqueue t2 k ?it d ?s1"
    have inv1: "wq_inv ?s1" using recovers_inv [OF assms promote_recovers [OF good]] .
    then have good1: "wq_good ?s1" by (simp add: wq_inv_def)
    note en = enqueue_effect [OF good1, where t = t2 and k = k and it = ?it and d = d]
    have work: "active_work ?s' = add_mset (work_of (k, ?it)) (active_work ?s1)"
      and maxs: "wq_max_items ?s' = wq_max_items ?s1" "wq_max_queues ?s' = wq_max_queues ?s1"
      using en(6) by (simp_all add: work_balance_def)
    have items: "wq_max_items ?s1 = wq_max_items s"
      using promote_delayed_effect(6) [OF good, of t1] by (simp add: work_balance_def)
    have dead: "dead_of ?s' k' = dead_of ?s1 k'" for k' using en(4) by (simp add: dead_of_def)
    have known: "set (known_queues ?s') = insert k (set (known_queues ?s1))"
      using known_queues_iff [OF good1] known_queues_iff [OF en(1)]
      by (auto simp: work dead simp del: work_of.simps)
    have "length (known_queues ?s') = card (insert k (set (known_queues ?s1)))"
      using known by (metis (no_types) known_queues_def length_remdups_card_conv set_remdups)
    moreover have "length (known_queues ?s1) = card (set (known_queues ?s1))"
      by (metis (no_types) known_queues_def length_remdups_card_conv set_remdups)
    moreover have "k \<in> set (known_queues ?s1) \<or> int (length (known_queues ?s1)) < wq_max_queues ?s1"
      using 2(5) by (auto simp: ensure_queue_capacity_def split: if_splits)
    ultimately have "int (length (known_queues ?s')) \<le> wq_max_queues ?s'"
      using inv1 by (auto simp: wq_inv_def wq_capacity_def card_insert_if maxs insert_absorb)
    moreover have "int (active_count k' ?s') \<le> wq_max_items ?s'" for k'
      using inv1 2(6) active_count_work [OF good1] active_count_work [OF en(1)] items
      by (auto simp: wq_inv_def wq_capacity_def work maxs simp del: work_of.simps)
    ultimately have "wq_capacity ?s'" by (simp add: wq_capacity_def)
    moreover have "wq_attempts ?s'"
      using inv1 en(2,3) dead 2(4) by (auto simp: wq_inv_def wq_attempts_def)
    ultimately show ?thesis using en(1) 2(7) by (simp add: wq_inv_def)
  qed
qed

lemma settled_inv:
  assumes "wq_inv s" and "wq_good s'" and "queued s' = queued s" and "held s' \<subseteq># held s"
    and "work_balance s {#} outs D s'" and "set D \<subseteq> set_mset (held s)"
  shows "wq_inv s'"
proof -
  have good: "wq_good s" and att: "wq_attempts s" using assms(1) by (simp_all add: wq_inv_def)
  have "wq_attempts s'"
    unfolding wq_attempts_def
  proof (intro conjI allI impI ballI)
    fix k it
    assume "it \<in> set (dead_of s' k)"
    then have "it \<in> set (dead_of s k) \<or> (k, it) \<in># held s" using dead_after [OF assms(5)] assms(6) by blast
    then show "0 < wi_attempt it" "wi_attempt it \<le> wi_max_attempts it"
      using att unfolding wq_attempts_def by force+
  qed (use att assms(3) mset_subset_eqD [OF assms(4)] in \<open>auto simp: wq_attempts_def\<close>)
  then show ?thesis
    using assms(1,2) work_balance_capacity [OF good assms(2) _ assms(5)] by (simp add: wq_inv_def)
qed

lemma dead_letters_state:
  "snd (dead_letters t ow qu n s) = s \<or> snd (dead_letters t ow qu n s) = promote_delayed t s"
  by (simp add: dead_letters_def Let_def checked_def split: sum.splits)

lemma work_step_inv:
  assumes "wq_inv s"
  shows "wq_inv (work_step c s)"
proof -
  have good: "wq_good s" using assms by (simp add: wq_inv_def)
  show ?thesis
  proof (cases c)
    case (QAcknowledge t d)
    show ?thesis
      by (cases rule: acknowledge_cases [OF good, of t d])
         (use QAcknowledge settled_inv [OF assms] recovers_inv [OF assms] in auto)
  next
    case (QRenew t1 t2 d v)
    show ?thesis
      by (cases rule: renew_delivery_cases [OF good, of t1 t2 d v])
         (use QRenew recovers_inv [OF assms] in auto)
  next
    case (QReject t1 t2 d dl)
    show ?thesis
      by (cases rule: reject_cases [OF good, of t1 t2 d dl])
         (use QReject recovers_inv [OF assms] in auto)
  next
    case (QDeadLetter t d)
    show ?thesis
      by (cases rule: dead_letter_cases [OF good, of t d])
         (use QDeadLetter settled_inv [OF assms] recovers_inv [OF assms] in auto)
  next
    case (QDeadLetters t ow qu n)
    then show ?thesis
      using assms recovers_inv [OF assms promote_recovers [OF good]] dead_letters_state [of t ow qu n s]
      by auto
  next
    case QClose
    have "wq_inv (close_work_queue s) = wq_inv s"
      by (simp add: close_work_queue_def wq_inv_def wq_good_def wq_shape_def wq_attempts_def
          wq_capacity_def active_count_def delayed_count_def inflight_count_def known_queues_def
          dead_of_def queued_def held_def)
    then show ?thesis using QClose assms by simp
  qed (use assms publish_inv iteration_inv in auto)
qed

section \<open>What each call does to the work\<close>

definition fresh_receipt :: "work_call \<Rightarrow> InMemoryWorkQueue \<Rightarrow> bool" where
  "fresh_receipt c s \<longleftrightarrow>
     (case c of QReserve e k v dl \<Rightarrow> dict_get (wq_inflight s) (rd_uuid e) = None | _ \<Rightarrow> True)"

text \<open>
  The contract of each call. \<open>publish\<close> adds its item if it succeeds; \<open>acknowledge\<close> removes the item
  of the delivery; \<open>dead_letter\<close> moves it to the dead letters; \<open>reject\<close> and the recovery inside
  \<open>reserve\<close> move only items whose attempts are used up to the dead letters and keep all others.
\<close>

fun work_contract :: "work_call \<Rightarrow> InMemoryWorkQueue \<Rightarrow> InMemoryWorkQueue \<Rightarrow> bool" where
  "work_contract (QPublish t1 t2 uid ow qu pl dl ma) s s' \<longleftrightarrow>
     (case fst (publish t1 t2 uid ow qu pl dl ma s) of
        Inl e \<Rightarrow> work_balance s {#} {#} [] s'
      | Inr idn \<Rightarrow> \<exists>k b m. queue_key ow qu = Inr k \<and> pl = PyBytes b \<and> ma = PyInt m
          \<and> idn = WorkIdentity uid \<and> work_balance s {#(k, idn, b, m)#} {#} [] s')"
| "work_contract (QReserve e k v dl) s s' \<longleftrightarrow>
     (\<exists>D. work_balance s {#} {#} D s' \<and> (\<forall>p \<in> set D. exhausted p \<and> p \<in># held s))"
| "work_contract (QAcknowledge t d) s s' \<longleftrightarrow>
     (case fst (acknowledge t d s) of
        Inl e \<Rightarrow> work_balance s {#} {#} [] s'
      | Inr _ \<Rightarrow> \<exists>r. dict_get (wq_inflight s) (wd_receipt d) = Some r
          \<and> work_balance s {#} {#work_of (rv_queue_key r, rv_item r)#} [] s')"
| "work_contract (QRenew t1 t2 d v) s s' \<longleftrightarrow> work_balance s {#} {#} [] s'"
| "work_contract (QReject t1 t2 d dl) s s' \<longleftrightarrow>
     (\<exists>D. work_balance s {#} {#} D s' \<and> (\<forall>p \<in> set D. exhausted p \<and> p \<in># held s))"
| "work_contract (QDeadLetter t d) s s' \<longleftrightarrow>
     (case fst (dead_letter t d s) of
        Inl e \<Rightarrow> work_balance s {#} {#} [] s'
      | Inr _ \<Rightarrow> \<exists>r. dict_get (wq_inflight s) (wd_receipt d) = Some r
          \<and> work_balance s {#} {#} [(rv_queue_key r, rv_item r)] s')"
| "work_contract (QDeadLetters t ow qu n) s s' \<longleftrightarrow> work_balance s {#} {#} [] s'"
| "work_contract QClose s s' \<longleftrightarrow> work_balance s {#} {#} [] s'"

lemma recovers_balance: "recovers s D s' \<Longrightarrow> work_balance s {#} {#} D s'"
  by (simp add: recovers_def)

lemma publish_contract:
  assumes "wq_good s"
  shows "work_contract (QPublish t1 t2 uid ow qu pl dl ma) s (snd (publish t1 t2 uid ow qu pl dl ma s))"
proof (cases rule: publish_cases [OF assms, of t1 t2 uid ow qu pl dl ma])
  case (1 e s')
  then show ?thesis by (simp add: recovers_balance)
next
  case (2 k b d m)
  let ?it = "\<lparr>wi_identity = WorkIdentity uid, wi_payload = b, wi_max_attempts = m, wi_attempt = 0\<rparr>"
  note p = promote_delayed_effect [OF assms, of t1]
  have "work_balance s {#work_of (k, ?it)#} {#} [] (enqueue t2 k ?it d (promote_delayed t1 s))"
    using work_balance_trans [OF p(6) enqueue_effect(6) [OF p(1), where t = t2 and k = k
        and it = ?it and d = d]] wq_goodD(4) [OF assms] by (simp del: work_of.simps)
  then show ?thesis using 2 by simp
qed

lemma reserve_contract:
  assumes "wq_good s"
  shows "\<exists>D. work_balance s {#} (image_mset work_of (held (recover (rd_promote e) (rd_recover e) s)
        - held (drop_receipt (rd_uuid e) (recover (rd_promote e) (rd_recover e) s)))) D
        (snd (iteration_of e k v deadline s))
      \<and> (\<forall>p \<in> set D. exhausted p \<and> p \<in># held s)
    \<or> work_balance s {#} {#} D (snd (iteration_of e k v deadline s))
      \<and> (\<forall>p \<in> set D. exhausted p \<and> p \<in># held s)"
proof -
  let ?s1 = "recover (rd_promote e) (rd_recover e) s"
  obtain D where D: "recovers s D ?s1" using recover_recovers [OF assms] by blast
  then have good1: "wq_good ?s1" and out: "\<forall>p \<in> set D. exhausted p \<and> p \<in># held s"
    by (simp_all add: recovers_def)
  have max: "0 \<le> wq_max_dead_letters s" using wq_goodD(4) [OF assms] by simp
  show ?thesis
  proof (cases rule: iteration_cases [of s e k v deadline])
    case (ready it rest)
    have "work_balance s {#} (image_mset work_of (held ?s1 - held (drop_receipt (rd_uuid e) ?s1))) D
        (delivered (rd_visible e) (rd_uuid e) k v it rest ?s1)"
      using work_balance_trans [OF recovers_balance [OF D] delivered_effect(4) [OF good1 ready(2)] max]
      by simp
    then show ?thesis using ready out by auto
  next
    case closed
    then show ?thesis using work_balance_refl [OF assms] by (intro exI [of _ "[]"]) simp
  next
    case idle
    then show ?thesis using recovers_balance [OF D] out by auto
  qed
qed

lemma recover_receipt_inflight: "wq_inflight (recover_receipt x s) = dict_pop x (wq_inflight s)"
proof (cases "dict_get (wq_inflight s) x")
  case None
  then show ?thesis by (simp add: recover_receipt_def dict_pop_absent)
next
  case (Some r)
  then show ?thesis
    by (simp add: recover_receipt_def retry_or_dead_letter_def prune_queue_def enqueue_def
        append_dead_letter_def)
qed

lemma fold_recover_inflight:
  "wq_inflight (fold recover_receipt xs s) = dict_pop_all xs (wq_inflight s)"
  by (induction xs arbitrary: s) (simp_all add: dict_pop_all_def recover_receipt_inflight)

lemma recover_inflight:
  assumes "wq_good s"
  shows "wq_inflight (recover t1 t2 s) = filter (\<lambda>p. \<not> rv_visible_until (snd p) \<le> t2) (wq_inflight s)"
  using dict_pop_expired [OF wq_goodD(2) [OF assms], of "\<lambda>r. rv_visible_until r \<le> t2"]
    promote_delayed_effect(4) [OF assms, of t1]
  by (simp add: recover_def recover_expired_def fold_recover_inflight)

lemma dict_get_filter_absent: "dict_get d k = None \<Longrightarrow> dict_get (filter P d) k = None"
  by (force simp: map_of_eq_None_iff)

lemma reserve_fresh_contract:
  assumes "wq_good s" and "dict_get (wq_inflight s) (rd_uuid e) = None"
  shows "\<exists>D. work_balance s {#} {#} D (snd (iteration_of e k v deadline s))
      \<and> (\<forall>p \<in> set D. exhausted p \<and> p \<in># held s)"
proof -
  let ?s1 = "recover (rd_promote e) (rd_recover e) s"
  have "dict_get (wq_inflight ?s1) (rd_uuid e) = None"
    using assms(2) by (simp add: recover_inflight [OF assms(1)] dict_get_filter_absent)
  then have "held (drop_receipt (rd_uuid e) ?s1) = held ?s1"
    by (simp add: held_def dict_pop_absent)
  then show ?thesis using reserve_contract [OF assms(1), of e k v deadline] by auto
qed

lemma work_step_contract:
  assumes "wq_good s" and "fresh_receipt c s"
  shows "work_contract c s (work_step c s)"
proof (cases c)
  case (QAcknowledge t d)
  show ?thesis
    by (cases rule: acknowledge_cases [OF assms(1), of t d])
       (use QAcknowledge recovers_balance in auto)
next
  case (QRenew t1 t2 d v)
  show ?thesis
    by (cases rule: renew_delivery_cases [OF assms(1), of t1 t2 d v])
       (use QRenew recovers_balance in auto)
next
  case (QReject t1 t2 d dl)
  show ?thesis
    by (cases rule: reject_cases [OF assms(1), of t1 t2 d dl])
       (use QReject in \<open>auto simp: recovers_def split: if_splits\<close>)
next
  case (QDeadLetter t d)
  show ?thesis
    by (cases rule: dead_letter_cases [OF assms(1), of t d])
       (use QDeadLetter recovers_balance in auto)
next
  case (QDeadLetters t ow qu n)
  then show ?thesis
    using work_balance_refl [OF assms(1)] promote_delayed_effect(6) [OF assms(1)]
      dead_letters_state [of t ow qu n s] by auto
next
  case QClose
  then show ?thesis
    using work_balance_refl [OF assms(1)]
    by (simp add: close_work_queue_def work_balance_def active_work_def queued_def held_def dead_of_def)
qed (use assms publish_contract reserve_fresh_contract in \<open>auto simp: fresh_receipt_def\<close>)

text \<open>The work a \<open>publish\<close> call brings in if it is accepted.\<close>

fun published_work :: "work_call \<Rightarrow> work multiset" where
  "published_work (QPublish t1 t2 uid ow qu pl dl ma) =
     (case (queue_key ow qu, validate_payload pl, validate_positive_integer ma) of
        (Inr k, Inr b, Inr m) \<Rightarrow> {#(k, WorkIdentity uid, b, m)#}
      | _ \<Rightarrow> {#})"
| "published_work _ = {#}"

lemma work_balance_subset:
  assumes "work_balance s ins outs D s'"
  shows "active_work s' \<subseteq># active_work s + ins"
proof -
  have "active_work s + ins = active_work s' + (outs + mset (map work_of D))"
    using assms by (simp add: work_balance_def add.assoc)
  then show ?thesis by (simp only: mset_subset_eq_add_left)
qed

interpretation work_bag: bag_machine work_step wq_inv active_work published_work
proof unfold_locales
  fix s c
  assume inv: "wq_inv s"
  then have good: "wq_good s" by (simp add: wq_inv_def)
  show "wq_inv (work_step c s)" by (rule work_step_inv [OF inv])
  show "active_work (work_step c s) \<subseteq># active_work s + published_work c"
  proof (cases c)
    case (QPublish t1 t2 uid ow qu pl dl ma)
    note contract = publish_contract [OF good, of t1 t2 uid ow qu pl dl ma]
    show ?thesis
    proof (cases rule: publish_cases [OF good, of t1 t2 uid ow qu pl dl ma])
      case (1 e s')
      then have "active_work s' \<subseteq># active_work s"
        using work_balance_subset [OF recovers_balance [OF 1(2)]] by simp
      then show ?thesis using 1 QPublish by (simp add: subset_mset.add_increasing2)
    next
      case (2 k b d m)
      then have "work_balance s {#(k, WorkIdentity uid, b, m)#} {#} []
          (snd (publish t1 t2 uid ow qu pl dl ma s))"
        using contract by auto
      from work_balance_subset [OF this] show ?thesis using 2 QPublish by simp
    qed
  next
    case (QReserve e k v dl)
    show ?thesis
      using reserve_contract [OF good, of e k v dl] unfolding QReserve
      by (auto dest: work_balance_subset)
  next
    case (QAcknowledge t d)
    show ?thesis
      using work_step_contract [OF good, of c] unfolding QAcknowledge
      by (auto simp: fresh_receipt_def dest: work_balance_subset split: sum.splits)
  next
    case (QDeadLetter t d)
    show ?thesis
      using work_step_contract [OF good, of c] unfolding QDeadLetter
      by (auto simp: fresh_receipt_def dest: work_balance_subset split: sum.splits)
  qed (use work_step_contract [OF good, of c] in
      \<open>auto simp: fresh_receipt_def dest: work_balance_subset\<close>)
qed

lemma new_work_queue_inv:
  assumes "new_work_queue mi md mq = Inr s"
  shows "wq_inv s \<and> active_work s = {#} \<and> wq_inflight s = []"
  using assms
  by (auto simp: new_work_queue_def wq_inv_def wq_good_def wq_shape_def wq_attempts_def wq_capacity_def
      active_count_def delayed_count_def inflight_count_def known_queues_def dead_of_def queued_def
      held_def dict_items_def queue_of_def active_work_def)

section \<open>Receipts\<close>

text \<open>A receipt comes into use only as the fresh identifier of a \<open>reserve\<close>.\<close>

definition new_receipts :: "work_call \<Rightarrow> string list" where
  "new_receipts c = (case c of QReserve e k v dl \<Rightarrow> [rd_uuid e] | _ \<Rightarrow> [])"

lemma delivered_inflight:
  "wq_inflight (delivered t3 uid k v it rest s) =
     dict_set uid \<lparr>rv_queue_key = k, rv_item = it\<lparr>wi_attempt := wi_attempt it + 1\<rparr>,
       rv_visible_until = t3 + Fin v, rv_receipt = uid\<rparr> (wq_inflight s)"
  by (simp add: delivered_def prune_queue_def)

lemma work_step_receipt:
  assumes "wq_good s" and "dict_get (wq_inflight s) x = None" and "x \<notin> set (new_receipts c)"
  shows "dict_get (wq_inflight (work_step c s)) x = None"
proof (cases c)
  case (QPublish t1 t2 uid ow qu pl dl ma)
  show ?thesis
    by (cases rule: publish_cases [OF assms(1), of t1 t2 uid ow qu pl dl ma])
       (use QPublish assms(2) promote_delayed_effect [OF assms(1), of t1] in
        \<open>auto simp: enqueue_effect(5)\<close>)
next
  case (QReserve e k v dl)
  have rec: "dict_get (wq_inflight (recover (rd_promote e) (rd_recover e) s)) x = None"
    using assms(2) by (simp add: recover_inflight [OF assms(1)] dict_get_filter_absent)
  show ?thesis
    by (cases rule: iteration_cases [of s e k v dl])
       (use QReserve assms(2,3) rec in \<open>auto simp: delivered_inflight new_receipts_def\<close>)
next
  case (QAcknowledge t d)
  show ?thesis
    by (cases rule: acknowledge_cases [OF assms(1), of t d])
       (use QAcknowledge assms(2) promote_delayed_effect(4) [OF assms(1)] in
        \<open>auto simp: acknowledge_def Let_def checked_def split: sum.splits\<close>)
next
  case (QRenew t1 t2 d v)
  show ?thesis
    by (cases rule: renew_delivery_cases [OF assms(1), of t1 t2 d v])
       (use QRenew assms(2) in auto)
next
  case (QReject t1 t2 d dl)
  show ?thesis
    by (cases rule: reject_cases [OF assms(1), of t1 t2 d dl])
       (use QReject assms(2) promote_delayed_effect(4) [OF assms(1)] in
        \<open>auto simp: reject_def Let_def checked_def split: sum.splits\<close>)
next
  case (QDeadLetter t d)
  show ?thesis
    by (cases rule: dead_letter_cases [OF assms(1), of t d])
       (use QDeadLetter assms(2) promote_delayed_effect(4) [OF assms(1)] in
        \<open>auto simp: dead_letter_def Let_def checked_def split: sum.splits\<close>)
next
  case (QDeadLetters t ow qu n)
  then show ?thesis
    using assms(2) promote_delayed_effect(4) [OF assms(1)] dead_letters_state [of t ow qu n s] by auto
qed (use assms(2) in \<open>simp add: close_work_queue_def\<close>)

lemma run_receipt:
  assumes "wq_inv s" and "dict_get (wq_inflight s) x = None"
    and "\<forall>c \<in> set cs. x \<notin> set (new_receipts c)"
  shows "dict_get (wq_inflight (run work_step cs s)) x = None"
  using assms
proof (induction cs arbitrary: s)
  case (Cons c cs)
  have "dict_get (wq_inflight (work_step c s)) x = None"
    using Cons.prems work_step_receipt [of s x c] by (simp add: wq_inv_def)
  then show ?case using Cons.IH work_step_inv [OF Cons.prems(1)] Cons.prems(3) by simp
qed simp

section \<open>Order of delivery\<close>

definition ready_of :: "InMemoryWorkQueue \<Rightarrow> QueueKey \<Rightarrow> WorkItem list" where
  "ready_of s k = queue_of (wq_ready s) k"

text \<open>\<open>extends s s'\<close>: each ready queue only got items appended.\<close>

definition extends :: "InMemoryWorkQueue \<Rightarrow> InMemoryWorkQueue \<Rightarrow> bool" where
  "extends s s' \<longleftrightarrow> (\<forall>k. \<exists>new. ready_of s' k = ready_of s k @ new)"

lemma extends_same: "(\<And>k. ready_of s' k = ready_of s k) \<Longrightarrow> extends s s'"
  by (simp add: extends_def)

lemma extends_refl [simp]: "extends s s"
  by (simp add: extends_def)

lemma extends_trans: "extends s s' \<Longrightarrow> extends s' s'' \<Longrightarrow> extends s s''"
  unfolding extends_def by (metis append.assoc)

lemma promote_loop_split:
  "promote_loop now ds ready =
     (dropWhile (\<lambda>d. fst d \<le> now) ds,
      fold (\<lambda>d. queue_append (fst (item_of_delayed d)) (snd (item_of_delayed d)))
        (takeWhile (\<lambda>d. fst d \<le> now) ds) ready)"
  by (induction now ds ready rule: promote_loop.induct) auto

lemma queue_of_fold_append:
  "queue_of (fold (\<lambda>d. queue_append (fst (f d)) (snd (f d))) ds ready) k
     = queue_of ready k @ for_key k (map f ds)"
  by (induction ds arbitrary: ready) auto

lemma promote_delayed_ready:
  "ready_of (promote_delayed now s) k
     = ready_of s k @ for_key k (map item_of_delayed (takeWhile (\<lambda>d. fst d \<le> now) (wq_delayed s)))"
  by (simp add: promote_delayed_def promote_loop_split ready_of_def queue_of_fold_append)

lemma promote_delayed_delayed:
  "wq_delayed (promote_delayed now s) = dropWhile (\<lambda>d. fst d \<le> now) (wq_delayed s)"
  by (simp add: promote_delayed_def promote_loop_split)

lemma extends_promote [simp]: "extends s (promote_delayed t s)"
  by (simp add: extends_def promote_delayed_ready)

lemma extends_enqueue [simp]: "extends s (enqueue t k it d s)"
  by (simp add: extends_def enqueue_def ready_of_def)

lemma extends_retry [simp]: "extends s (retry_or_dead_letter t k it d s)"
  by (simp add: retry_or_dead_letter_def) (simp add: extends_def append_dead_letter_def ready_of_def)

lemma ready_of_prune [simp]: "ready_of (prune_queue k s) k' = ready_of s k'"
  by (simp add: prune_queue_def ready_of_def)

lemma extends_recover_receipt: "extends s (recover_receipt x s)"
proof (cases "dict_get (wq_inflight s) x")
  case (Some r)
  have "extends s (drop_receipt x s)" by (rule extends_same) (simp add: ready_of_def)
  then have "extends s (retry_or_dead_letter 0 (rv_queue_key r) (rv_item r) 0 (drop_receipt x s))"
    by (rule extends_trans) simp
  then show ?thesis using Some by (simp add: recover_receipt_def extends_def)
qed (simp add: recover_receipt_def)

lemma extends_fold_recover: "extends s (fold recover_receipt xs s)"
  by (induction xs arbitrary: s) (auto intro: extends_trans extends_recover_receipt)

lemma extends_recover: "extends s (recover t1 t2 s)"
  unfolding recover_def recover_expired_def by (rule extends_trans [OF extends_promote extends_fold_recover])

lemma work_step_extends:
  assumes "\<forall>e v dl. c \<noteq> QReserve e k v dl"
  shows "\<exists>new. ready_of (work_step c s) k = ready_of s k @ new"
proof -
  have ext: "\<exists>new. ready_of s' k = ready_of s k @ new" if "extends s s'" for s'
    using that by (simp add: extends_def)
  have drop: "extends s (f (drop_receipt x (promote_delayed t s)))"
    if "\<And>s1. extends s1 (f s1)" for f x t
  proof (rule extends_trans [OF extends_promote [of s t]])
    show "extends (promote_delayed t s) (f (drop_receipt x (promote_delayed t s)))"
      by (rule extends_trans [OF _ that]) (simp add: extends_def ready_of_def)
  qed
  have dead: "extends s1 (append_dead_letter k' it s1)" for k' it s1
    by (rule extends_same) (simp add: append_dead_letter_def ready_of_def)
  have prune: "extends s1 (prune_queue k' s1)" for k' s1 by (rule extends_same) simp
  show ?thesis
  proof (cases c)
    case (QPublish t1 t2 uid ow qu pl dl ma)
    then show ?thesis
      by (intro ext) (auto simp: publish_def Let_def checked_def
          intro: extends_trans [OF extends_promote extends_enqueue] split: sum.splits)
  next
    case (QReserve e k' v dl)
    then have "k' \<noteq> k" using assms by blast
    then have "ready_of (delivered t3 uid k' v it rest s1) k = ready_of s1 k" for t3 uid it rest s1
      by (simp add: delivered_def) (simp add: ready_of_def)
    then show ?thesis
      by (cases rule: iteration_cases [of s e k' v dl])
         (use QReserve ext [OF extends_recover [of s "rd_promote e" "rd_recover e"]] in auto)
  next
    case (QAcknowledge t d)
    then show ?thesis
      by (intro ext) (auto simp: acknowledge_def Let_def checked_def split: sum.splits intro!: drop prune)
  next
    case (QRenew t1 t2 d v)
    have "extends s ((promote_delayed t1 s)\<lparr>wq_inflight := y\<rparr>)" for y
      by (rule extends_trans [OF extends_promote [of s t1]]) (simp add: extends_def ready_of_def)
    then show ?thesis using QRenew
      by (intro ext) (auto simp: renew_delivery_def Let_def checked_def split: sum.splits)
  next
    case (QReject t1 t2 d dl)
    then show ?thesis
      by (intro ext) (auto simp: reject_def Let_def checked_def split: sum.splits intro!: drop)
  next
    case (QDeadLetter t d)
    then show ?thesis
      by (intro ext) (auto simp: dead_letter_def Let_def checked_def split: sum.splits intro!: drop dead)
  next
    case (QDeadLetters t ow qu n)
    then show ?thesis by (intro ext) (use dead_letters_state [of t ow qu n s] in auto)
  next
    case QClose
    then show ?thesis by (intro ext) (simp add: close_work_queue_def extends_def ready_of_def)
  qed
qed

lemma deliver_result:
  assumes "fst (deliver t3 uid k v it rest s) = Inr x"
  shows "\<exists>d. x = Returned (Some d) \<and> wd_queue d = snd k \<and> wd_identity d = wi_identity it
    \<and> wd_payload d = wi_payload it \<and> wd_attempt d = wi_attempt it + 1 \<and> wd_receipt d = uid"
proof -
  let ?r = "\<lparr>rv_queue_key = k, rv_item = it\<lparr>wi_attempt := wi_attempt it + 1\<rparr>,
       rv_visible_until = t3 + Fin v, rv_receipt = uid\<rparr>"
  obtain d where "reservation_delivery ?r = Inr d" "x = Returned (Some d)"
    using assms by (auto simp: deliver_def Let_def checked_def split: sum.splits)
  then show ?thesis
    by (auto simp: reservation_delivery_def make_WorkDelivery_def split: pyfloat.splits)
qed

text \<open>What one iteration hands out, and the run of a whole system seen from one queue.\<close>

fun handed_out :: "QueueKey \<Rightarrow> work_call \<Rightarrow> InMemoryWorkQueue \<Rightarrow> WorkIdentity list" where
  "handed_out k (QReserve e k' v deadline) s =
     (if k' = k then case fst (iteration_of e k' v deadline s) of
         Inr (Returned (Some d)) \<Rightarrow> [wd_identity d] | _ \<Rightarrow> [] else [])"
| "handed_out k _ s = []"

fun deliveries :: "QueueKey \<Rightarrow> work_call list \<Rightarrow> InMemoryWorkQueue \<Rightarrow> WorkIdentity list" where
  "deliveries k [] s = []"
| "deliveries k (c # cs) s = handed_out k c s @ deliveries k cs (work_step c s)"

text \<open>No \<open>reserve\<close> of the run raised \<open>ValueError\<close> (an invalid receipt or an overflowing deadline).\<close>

fun reserves_valid :: "work_call list \<Rightarrow> InMemoryWorkQueue \<Rightarrow> bool" where
  "reserves_valid [] s \<longleftrightarrow> True"
| "reserves_valid (c # cs) s \<longleftrightarrow>
     (case c of QReserve e k v deadline \<Rightarrow> fst (iteration_of e k v deadline s) \<noteq> Inl ValueError | _ \<Rightarrow> True)
     \<and> reserves_valid cs (work_step c s)"

lemma make_WorkDelivery_Inl: "make_WorkDelivery qu idn pl att vu rc = Inl e \<Longrightarrow> e = ValueError"
  by (auto simp: make_WorkDelivery_def res_bind_def validator_eqs split: sum.splits if_splits pyfloat.splits)

lemma deliver_Inl: "fst (deliver t3 uid k v it rest s) = Inl e \<Longrightarrow> e = ValueError"
  by (auto simp: deliver_def Let_def checked_def reservation_delivery_def
      dest!: make_WorkDelivery_Inl split: sum.splits)

lemma handed_out_fifo:
  assumes "case c of QReserve e k v deadline \<Rightarrow> fst (iteration_of e k v deadline s) \<noteq> Inl ValueError
    | _ \<Rightarrow> True"
  shows "\<exists>new. map wi_identity (ready_of s k @ new)
    = handed_out k c s @ map wi_identity (ready_of (work_step c s) k)"
proof (cases "\<exists>e v dl. c = QReserve e k v dl")
  case False
  then have "handed_out k c s = []" by (cases c) auto
  then show ?thesis using work_step_extends [of c k s] False by auto
next
  case True
  then obtain e v dl where c: "c = QReserve e k v dl" by blast
  let ?s1 = "recover (rd_promote e) (rd_recover e) s"
  obtain new where new: "ready_of ?s1 k = ready_of s k @ new"
    using extends_recover [of s "rd_promote e" "rd_recover e"] by (auto simp: extends_def)
  show ?thesis
  proof (cases rule: iteration_cases [of s e k v dl])
    case closed
    then show ?thesis by (simp add: c)
  next
    case (ready it rest)
    let ?o = "fst (deliver (rd_visible e) (rd_uuid e) k v it rest ?s1)"
    obtain x where x: "?o = Inr x"
      using assms deliver_Inl [of "rd_visible e" "rd_uuid e" k v it rest ?s1] ready(3)
      by (cases ?o) (auto simp: c)
    then have "handed_out k c s = [wi_identity it]"
      using deliver_result [OF x] ready(3) by (auto simp: c)
    moreover have "ready_of (work_step c s) k = rest"
      using ready(3) by (simp add: c delivered_def) (simp add: ready_of_def)
    moreover have "ready_of s k @ new = it # rest" using new ready(2) by (simp add: ready_of_def)
    ultimately show ?thesis by (intro exI [of _ new]) simp
  next
    case idle
    then show ?thesis using new
      by (auto simp: c wait_decision_def Let_def split: option.splits if_splits)
  qed
qed

section \<open>The loop of reserve makes progress\<close>

definition pending :: "QueueKey \<Rightarrow> InMemoryWorkQueue \<Rightarrow> nat" where
  "pending k s = delayed_count k s + inflight_count k s"

text \<open>The times in the state are doubles, and the delayed items are in the order of their times.\<close>

definition real_time :: "pyfloat \<Rightarrow> bool" where
  "real_time t \<longleftrightarrow> is_double t \<and> \<not> is_nan t"

definition wq_times :: "InMemoryWorkQueue \<Rightarrow> bool" where
  "wq_times s \<longleftrightarrow> sorted_wrt (\<lambda>a b. fst a \<le> fst b) (wq_delayed s)
     \<and> (\<forall>d \<in> set (wq_delayed s). real_time (fst d))
     \<and> (\<forall>p \<in> set (wq_inflight s). real_time (rv_visible_until (snd p)))"

text \<open>A call of \<open>reserve\<close> that keeps going round its loop without waiting.\<close>

fun busy :: "reserve_reads list \<Rightarrow> QueueKey \<Rightarrow> rat \<Rightarrow> pyfloat \<Rightarrow> InMemoryWorkQueue \<Rightarrow> bool" where
  "busy [] k v deadline s \<longleftrightarrow> True"
| "busy (e # es) k v deadline s \<longleftrightarrow>
     (case iteration_of e k v deadline s of (Inr Again, s1) \<Rightarrow> busy es k v deadline s1 | _ \<Rightarrow> False)"

text \<open>The cache's clock does not go backwards between the iterations.\<close>

fun clock_ordered :: "reserve_reads list \<Rightarrow> bool" where
  "clock_ordered (e # e' # es) \<longleftrightarrow> rd_wakeup e \<le> rd_promote e' \<and> rd_wakeup e \<le> rd_recover e'
     \<and> clock_ordered (e' # es)"
| "clock_ordered _ \<longleftrightarrow> True"

lemma recover_delayed:
  "wq_delayed (recover t1 t2 s) = dropWhile (\<lambda>d. fst d \<le> t1) (wq_delayed s)"
proof -
  have step: "wq_delayed (recover_receipt x s) = wq_delayed s" for x s
    by (simp add: recover_receipt_def retry_or_dead_letter_def prune_queue_def enqueue_def
        append_dead_letter_def split: option.splits)
  have "wq_delayed (fold recover_receipt xs s) = wq_delayed s" for xs s
    by (induction xs arbitrary: s) (simp_all add: step)
  then show ?thesis by (simp add: recover_def recover_expired_def promote_delayed_delayed)
qed

lemma wq_times_recover:
  assumes "wq_good s" and "wq_times s"
  shows "wq_times (recover t1 t2 s)"
  using assms(2) sorted_wrt_append [of "\<lambda>a b. fst a \<le> fst b" "takeWhile (\<lambda>d. fst d \<le> t1) (wq_delayed s)"
      "dropWhile (\<lambda>d. fst d \<le> t1) (wq_delayed s)"]
  by (auto simp: wq_times_def recover_delayed recover_inflight [OF assms(1)] dest: set_dropWhileD)

text \<open>With sorted delays every item that is due is promoted.\<close>

lemma due_items_promoted:
  assumes "sorted_wrt (\<lambda>a b. fst a \<le> (fst b :: pyfloat)) ds" and "d \<in> set ds" and "fst d \<le> t"
  shows "d \<in> set (takeWhile (\<lambda>d. fst d \<le> t) ds)"
  using assms
proof (induction ds)
  case (Cons a ds)
  then have "fst a \<le> t" using pyfloat_le_trans by auto
  then show ?case using Cons by auto
qed simp

lemma delayed_count_recover: "delayed_count k (recover t1 t2 s) \<le> delayed_count k s"
proof -
  have "length (concat (map f (dropWhile P xs))) \<le> length (concat (map f xs))" for f P and xs :: "'x list"
    by (induction xs) auto
  then show ?thesis by (simp add: delayed_count_def recover_delayed)
qed

lemma pending_recover:
  assumes "wq_good s"
  shows "pending k (recover t1 t2 s) \<le> pending k s"
proof -
  have "inflight_count k (recover t1 t2 s) \<le> inflight_count k s"
  proof -
    have "length (concat (map f (filter P xs))) \<le> length (concat (map f xs))" for f P and xs :: "'x list"
      by (induction xs) auto
    then show ?thesis by (simp add: inflight_count_def recover_inflight [OF assms])
  qed
  then show ?thesis using delayed_count_recover [of k t1 t2 s] by (simp add: pending_def)
qed

lemma py_min_fold: "fold (\<lambda>x m. py_min m x) ts t \<in> set (t # ts)"
proof (induction ts arbitrary: t)
  case (Cons x ts)
  have "fold (\<lambda>x m. py_min m x) ts (py_min t x) \<in> set (py_min t x # ts)" by (rule Cons.IH)
  then show ?case by (auto simp: py_min_def split: if_splits)
qed simp

lemma next_wakeup_member: "next_wakeup k s = Some w \<Longrightarrow> w \<in> set (wakeups k s)"
  using py_min_fold by (auto simp: next_wakeup_def split: list.splits)

lemma wait_decision_Again:
  assumes "wait_decision l t deadline wakeup = Again"
  shows "\<exists>w. wakeup = Some w \<and> \<not> 0 < w - t"
  using assms
  by (auto simp: wait_decision_def Let_def py_min_def py_max_def py_eq_def zero_pyfloat_def
      split: if_splits option.splits)

lemma wakeup_real_time:
  assumes "wq_times s" and "w \<in> set (wakeups k s)"
  shows "real_time w"
  using assms by (fastforce simp: wq_times_def wakeups_def)

text \<open>An iteration that ends with \<open>continue\<close> leaves something that is due at its last reading.\<close>

lemma again_due:
  assumes "wq_good s" and "wq_times s" and "real_time (rd_wakeup e)"
    and "iteration_of e k v deadline s = (Inr Again, s1)"
  shows "s1 = recover (rd_promote e) (rd_recover e) s \<and> ready_of s1 k = []
    \<and> (\<exists>w \<in> set (wakeups k s1). w \<le> rd_wakeup e)"
proof (cases rule: iteration_cases [of s e k v deadline])
  case (ready it rest)
  then have "fst (deliver (rd_visible e) (rd_uuid e) k v it rest
      (recover (rd_promote e) (rd_recover e) s)) = Inr Again"
    using assms(4) by (metis fst_conv)
  from deliver_result [OF this] show ?thesis by simp
next
  case idle
  then have s1: "s1 = recover (rd_promote e) (rd_recover e) s"
    and dec: "wait_decision (rd_loop e) (rd_wakeup e) deadline (next_wakeup k s1) = Again"
    using assms(4) by simp_all
  obtain w where w: "next_wakeup k s1 = Some w" "\<not> 0 < w - rd_wakeup e"
    using wait_decision_Again [OF dec] by blast
  have mem: "w \<in> set (wakeups k s1)" using next_wakeup_member [OF w(1)] .
  have "real_time w"
    using wakeup_real_time [OF wq_times_recover [OF assms(1,2)]] mem s1 by blast
  then have "w \<le> rd_wakeup e"
    using le_if_minus_not_positive w(2) assms(3) by (simp add: real_time_def)
  then show ?thesis using s1 mem idle(2) by (auto simp: ready_of_def)
qed (use assms(4) in simp)

lemma inflight_count_drop:
  assumes "wq_good s" and "r \<in> set (dict_values (wq_inflight s))" and "rv_queue_key r = k"
    and "rv_visible_until r \<le> t2"
  shows "inflight_count k (recover t1 t2 s) < inflight_count k s"
proof -
  have drop: "length (concat (map f (filter P xs))) < length (concat (map f xs))"
    if "x \<in> set xs" "\<not> P x" "f x \<noteq> []" for f P x and xs :: "'x list"
    using that
  proof (induction xs)
    case (Cons y xs)
    have "length (concat (map f (filter P xs))) \<le> length (concat (map f xs))"
      by (induction xs) auto
    then show ?case using Cons by (auto simp flip: length_greater_0_conv)
  qed simp
  obtain x where "(x, r) \<in> set (wq_inflight s)" using assms(2) by auto
  then show ?thesis
    using assms(3,4) by (auto simp: inflight_count_def recover_inflight [OF assms(1)]
        intro!: drop [of "(x, r)"])
qed

text \<open>If something of the queue is due, one more round without a delivery uses it up.\<close>

lemma busy_round_decreases:
  assumes "wq_good s" and "wq_times s" and "w \<in> set (wakeups k s)" and "w \<le> t1" and "w \<le> t2"
    and "ready_of (recover t1 t2 s) k = []"
  shows "pending k (recover t1 t2 s) < pending k s"
proof -
  consider (delayed) n it where "(w, n, k, it) \<in> set (wq_delayed s)"
    | (held) r where "r \<in> set (dict_values (wq_inflight s))" "rv_queue_key r = k" "rv_visible_until r = w"
    using assms(3) by (force simp: wakeups_def)
  then show ?thesis
  proof cases
    case delayed
    then have "(w, n, k, it) \<in> set (takeWhile (\<lambda>d. fst d \<le> t1) (wq_delayed s))"
      using due_items_promoted [of "wq_delayed s" "(w, n, k, it)" t1] assms(2,4)
      by (simp add: wq_times_def)
    then have "ready_of (promote_delayed t1 s) k \<noteq> []"
      by (force simp: promote_delayed_ready for_key_def filter_empty_conv)
    moreover have "extends (promote_delayed t1 s) (recover t1 t2 s)"
      by (simp add: recover_def recover_expired_def extends_fold_recover)
    ultimately show ?thesis using assms(6) unfolding extends_def by (metis append_is_Nil_conv)
  next
    case held
    then have "inflight_count k (recover t1 t2 s) < inflight_count k s"
      using inflight_count_drop [OF assms(1)] assms(5) by simp
    then show ?thesis using delayed_count_recover [of k t1 t2 s] by (simp add: pending_def)
  qed
qed

lemma recover_good: "wq_good s \<Longrightarrow> wq_good (recover t1 t2 s)"
  using recover_recovers [of s t1 t2] by (auto simp: recovers_def)

lemma pending_positive: "w \<in> set (wakeups k s) \<Longrightarrow> 0 < pending k s"
  by (force simp: wakeups_def pending_def delayed_count_def inflight_count_def)

lemma busy_bounded_from_due:
  assumes "wq_good s" and "wq_times s" and "w \<in> set (wakeups k s)" and "w \<le> rd_promote e"
    and "w \<le> rd_recover e" and "busy (e # es) k v deadline s" and "clock_ordered (e # es)"
    and "\<forall>e \<in> set (e # es). real_time (rd_wakeup e)"
  shows "length (e # es) < pending k s"
  using assms
proof (induction es arbitrary: s e w)
  case Nil
  obtain s1 where it: "iteration_of e k v deadline s = (Inr Again, s1)"
    using Nil.prems(6) by (auto split: prod.splits sum.splits reserve_outcome.splits)
  note due = again_due [OF Nil.prems(1,2) _ it]
  obtain w' where s1: "s1 = recover (rd_promote e) (rd_recover e) s" "ready_of s1 k = []"
    and w': "w' \<in> set (wakeups k s1)"
    using due Nil.prems(8) by auto
  have "pending k s1 < pending k s"
    using busy_round_decreases [OF Nil.prems(1-5)] s1 by simp
  then show ?case using pending_positive [OF w'] by simp
next
  case (Cons e' es)
  obtain s1 where it: "iteration_of e k v deadline s = (Inr Again, s1)"
    and busy: "busy (e' # es) k v deadline s1"
    using Cons.prems(6) by (auto split: prod.splits sum.splits reserve_outcome.splits)
  note due = again_due [OF Cons.prems(1,2) _ it]
  obtain w' where s1: "s1 = recover (rd_promote e) (rd_recover e) s" "ready_of s1 k = []"
    and w': "w' \<in> set (wakeups k s1)" "w' \<le> rd_wakeup e"
    using due Cons.prems(8) by auto
  have less: "pending k s1 < pending k s"
    using busy_round_decreases [OF Cons.prems(1-5)] s1 by simp
  have "length (e' # es) < pending k s1"
  proof (rule Cons.IH [OF _ _ w'(1)])
    show "w' \<le> rd_promote e'" "w' \<le> rd_recover e'"
      using w'(2) Cons.prems(7) by (auto intro: pyfloat_le_trans)
  qed (use Cons.prems s1 busy in \<open>auto simp: recover_good wq_times_recover\<close>)
  then show ?case using less by simp
qed

lemma busy_bounded:
  assumes "wq_good s" and "wq_times s" and "busy es k v deadline s" and "clock_ordered es"
    and "\<forall>e \<in> set es. real_time (rd_wakeup e)"
  shows "length es \<le> pending k s"
proof (cases es)
  case (Cons e es')
  obtain s1 where it: "iteration_of e k v deadline s = (Inr Again, s1)"
    and busy: "busy es' k v deadline s1"
    using assms(3) Cons by (auto split: prod.splits sum.splits reserve_outcome.splits)
  note due = again_due [OF assms(1,2) _ it]
  obtain w where s1: "s1 = recover (rd_promote e) (rd_recover e) s"
    and w: "w \<in> set (wakeups k s1)" "w \<le> rd_wakeup e"
    using due assms(5) Cons by auto
  have le: "pending k s1 \<le> pending k s" using pending_recover [OF assms(1)] s1 by simp
  have "length es' < pending k s1"
  proof (cases es')
    case Nil
    then show ?thesis using pending_positive [OF w(1)] by simp
  next
    case (Cons e' es'')
    show ?thesis
      unfolding Cons
    proof (rule busy_bounded_from_due [OF _ _ w(1)])
      show "w \<le> rd_promote e'" "w \<le> rd_recover e'"
        using w(2) assms(4) \<open>es = e # es'\<close> Cons by (auto intro: pyfloat_le_trans)
      show "busy (e' # es'') k v deadline s1" using busy Cons by simp
    qed (use assms s1 \<open>es = e # es'\<close> Cons in \<open>auto simp: recover_good wq_times_recover\<close>)
  qed
  then show ?thesis using le Cons by simp
qed simp

section \<open>Properties\<close>

definition demo_queue :: InMemoryWorkQueue where
  "demo_queue = projr (new_work_queue (PyInt 5) (PyInt 2) (PyInt 3))"

definition demo_publish :: "string \<Rightarrow> work_call" where
  "demo_publish uid =
     QPublish (Fin 0) (Fin 0) uid (PyStr ''o'') (PyStr ''q'') (PyBytes [1]) (PyInt 0) (PyInt 2)"

definition demo_reads :: "int \<Rightarrow> string \<Rightarrow> reserve_reads" where
  "demo_reads t uid =
     \<lparr>rd_promote = Fin (of_int t), rd_recover = Fin (of_int t), rd_visible = Fin (of_int t),
      rd_loop = Fin (of_int t), rd_wakeup = Fin (of_int t), rd_uuid = uid, rd_timed_out = False\<rparr>"

definition demo_reserve :: "int \<Rightarrow> string \<Rightarrow> work_call" where
  "demo_reserve t uid = QReserve (demo_reads t uid) (''o'', ''q'') 10 (Fin 100)"

definition demo_delivery :: WorkDelivery where
  "demo_delivery = \<lparr>wd_queue = ''q'', wd_identity = WorkIdentity ''w1'', wd_payload = [1],
     wd_attempt = 1, wd_visible_until = 10, wd_receipt = ''r1''\<rparr>"

definition demo_work :: InMemoryWorkQueue where
  "demo_work = run work_step [demo_publish ''w1'', demo_reserve 0 ''r1''] demo_queue"

lemma work_queue_inv_run: "new_work_queue mi md mq = Inr s \<Longrightarrow> wq_inv (run work_step cs s)"
  using work_bag.run_inv new_work_queue_inv by blast

text \<open>C9: From a new work queue, any sequence of calls keeps: no delivery beyond an item's maximum
  number of attempts (a waiting item has attempts left, a reserved or dead one has had between one and
  the maximum), at most \<open>max_items_per_queue\<close> active items in a queue, at most
  \<open>max_dead_letters_per_queue\<close> dead letters, and at most \<open>max_queues\<close> queues.\<close>

theorem work_queue_invariant:
  assumes "new_work_queue mi md mq = Inr s"
  shows "wq_inv (run work_step cs s)"
  using assms by (rule work_queue_inv_run)

theorem work_queue_invariant_witness: "wq_inv (run work_step [demo_publish ''w1''] demo_queue)"
  by (rule work_queue_invariant [of "PyInt 5" "PyInt 2" "PyInt 3"])
     (simp add: demo_queue_def new_work_queue_def)

text \<open>C6: No work is lost or duplicated. In a state that satisfies the invariant, every call with a
  fresh receipt changes the work held by the queue exactly as its contract says: only a successful
  \<open>publish\<close> adds an item, only a successful \<open>acknowledge\<close> removes one, and items go to the dead
  letters only by \<open>dead_letter\<close> or with all their attempts used.\<close>

theorem work_conserved:
  assumes "wq_inv s" and "fresh_receipt c s"
  shows "work_contract c s (work_step c s)"
  using work_step_contract assms by (simp add: wq_inv_def)

theorem work_conserved_witness:
  "work_contract (demo_reserve 20 ''r2'') demo_queue (work_step (demo_reserve 20 ''r2'') demo_queue)"
proof (rule work_conserved)
  show "wq_inv demo_queue"
    using new_work_queue_inv [of "PyInt 5" "PyInt 2" "PyInt 3" demo_queue]
    by (simp add: demo_queue_def new_work_queue_def)
  show "fresh_receipt (demo_reserve 20 ''r2'') demo_queue" by code_simp
qed

text \<open>C7: No work item is held by two consumers at once. If the identifiers of the published items are
  pairwise different, then after any sequence of calls two reservations of the same item are the
  same reservation.\<close>

theorem work_item_single_holder:
  assumes "new_work_queue mi md mq = Inr s"
    and "\<forall>i. count (image_mset (\<lambda>w. fst (snd w)) (\<Sum>c\<leftarrow>cs. published_work c)) i \<le> 1"
    and "dict_get (wq_inflight (run work_step cs s)) x = Some r"
    and "dict_get (wq_inflight (run work_step cs s)) y = Some r'"
    and "wi_identity (rv_item r) = wi_identity (rv_item r')"
  shows "x = y"
proof (rule ccontr)
  let ?t = "run work_step cs s" and ?i = "wi_identity (rv_item r)"
  assume "x \<noteq> y"
  note new = new_work_queue_inv [OF assms(1)]
  have good: "wq_good ?t" using work_bag.run_inv new by (simp add: wq_inv_def)
  have "held ?t = add_mset (rv_queue_key r, rv_item r) (held (drop_receipt x ?t))"
    using drop_receipt_effect(3) [OF good assms(3)] .
  moreover have "held (drop_receipt x ?t)
      = add_mset (rv_queue_key r', rv_item r') (held (drop_receipt y (drop_receipt x ?t)))"
    using drop_receipt_effect(3) [OF drop_receipt_effect(1) [OF good assms(3)], of y r'] assms(4)
      \<open>x \<noteq> y\<close> by simp
  ultimately have "2 \<le> count (image_mset (\<lambda>w. fst (snd w)) (active_work ?t)) ?i"
    using assms(5) by (simp add: active_work_def)
  moreover have "count (image_mset (\<lambda>w. fst (snd w)) (active_work ?t)) ?i \<le> 1"
    by (rule work_bag.run_labels_distinct) (use new assms(2) in auto)
  ultimately show False by simp
qed

theorem work_item_single_holder_witness:
  "\<exists>r. dict_get (wq_inflight demo_work) ''r1'' = Some r \<and> ''r1'' = ''r1''"
proof -
  have new: "new_work_queue (PyInt 5) (PyInt 2) (PyInt 3) = Inr demo_queue"
    by (simp add: demo_queue_def new_work_queue_def)
  have "image_mset (\<lambda>w. fst (snd w))
      (\<Sum>c\<leftarrow>[demo_publish ''w1'', demo_reserve 0 ''r1'']. published_work c) = {#WorkIdentity ''w1''#}"
    by (simp add: demo_publish_def demo_reserve_def queue_key_def validator_eqs feature_limits
        py_strip_def py_lstrip_def py_isspace_def)
  then have labels: "\<forall>i. count (image_mset (\<lambda>w. fst (snd w))
      (\<Sum>c\<leftarrow>[demo_publish ''w1'', demo_reserve 0 ''r1'']. published_work c)) i \<le> 1"
    by simp
  have held: "dict_get (wq_inflight demo_work) ''r1'' =
    Some \<lparr>rv_queue_key = (''o'', ''q''), rv_item = \<lparr>wi_identity = WorkIdentity ''w1'', wi_payload = [1],
            wi_max_attempts = 2, wi_attempt = 1\<rparr>, rv_visible_until = Fin 10, rv_receipt = ''r1''\<rparr>"
    by code_simp
  show ?thesis
    using work_item_single_holder [OF new labels held [unfolded demo_work_def]
        held [unfolded demo_work_def] refl] held by blast
qed

text \<open>C8: A settled delivery stays settled. Once a receipt is not in use (because it was acknowledged,
  rejected, dead-lettered or its reservation expired and was recovered), no later call brings it
  back, and every attempt to settle or renew the delivery raises (\<open>acknowledge\<close> and \<open>dead_letter\<close> a
  \<open>CacheConflictError\<close>).\<close>

theorem settled_delivery_stays_settled:
  assumes "wq_inv s" and "dict_get (wq_inflight s) (wd_receipt d) = None"
    and "\<forall>c \<in> set cs. wd_receipt d \<notin> set (new_receipts c)"
  shows "fst (acknowledge t d (run work_step cs s)) = Inl CacheConflictError
    \<and> fst (dead_letter t d (run work_step cs s)) = Inl CacheConflictError
    \<and> (\<exists>e. fst (reject t t2 d delay (run work_step cs s)) = Inl e)
    \<and> (\<exists>e. fst (renew_delivery t t2 d timeout (run work_step cs s)) = Inl e)"
proof -
  let ?s = "run work_step cs s"
  have good: "wq_good ?s" using work_bag.run_inv [OF assms(1)] by (simp add: wq_inv_def)
  have "dict_get (wq_inflight (promote_delayed t ?s)) (wd_receipt d) = None"
    using run_receipt [OF assms] promote_delayed_effect(4) [OF good] by simp
  then have "required_reservation d (promote_delayed t ?s) = Inl CacheConflictError"
    by (simp add: required_reservation_def)
  then show ?thesis
    by (simp add: acknowledge_def dead_letter_def reject_def renew_delivery_def Let_def checked_def
        split: sum.splits)
qed

theorem settled_delivery_stays_settled_witness:
  "fst (acknowledge (Fin 2) demo_delivery
     (run work_step [demo_publish ''w2''] (snd (acknowledge (Fin 1) demo_delivery demo_work))))
     = Inl CacheConflictError"
proof -
  have inv: "wq_inv (snd (acknowledge (Fin 1) demo_delivery demo_work))"
    unfolding demo_work_def
    using work_queue_inv_run [of "PyInt 5" "PyInt 2" "PyInt 3" demo_queue
        "[demo_publish ''w1'', demo_reserve 0 ''r1'', QAcknowledge (Fin 1) demo_delivery]"]
    by (simp add: demo_queue_def new_work_queue_def)
  have gone: "dict_get (wq_inflight (snd (acknowledge (Fin 1) demo_delivery demo_work)))
      (wd_receipt demo_delivery) = None"
    by code_simp
  have fresh: "\<forall>c \<in> set [demo_publish ''w2'']. wd_receipt demo_delivery \<notin> set (new_receipts c)"
    by code_simp
  from settled_delivery_stays_settled [OF inv gone fresh] show ?thesis by blast
qed

text \<open>C10: Deliveries are in order. For any interleaving of calls, the identities handed out for a
  queue, followed by those still ready, are the ones that were ready at the start followed by
  others that became ready later: a consumer never gets an item before one that was ready earlier.\<close>

theorem deliveries_in_order:
  assumes "reserves_valid cs s"
  shows "\<exists>new. map wi_identity (ready_of s k @ new)
    = deliveries k cs s @ map wi_identity (ready_of (run work_step cs s) k)"
  using assms
proof (induction cs arbitrary: s)
  case Nil
  show ?case by (intro exI [of _ "[]"]) simp
next
  case (Cons c cs)
  obtain new1 where 1: "map wi_identity (ready_of s k @ new1)
      = handed_out k c s @ map wi_identity (ready_of (work_step c s) k)"
    using handed_out_fifo Cons.prems by fastforce
  obtain new2 where 2: "map wi_identity (ready_of (work_step c s) k @ new2)
      = deliveries k cs (work_step c s) @ map wi_identity (ready_of (run work_step (c # cs) s) k)"
    using Cons by fastforce
  have "map wi_identity (ready_of s k @ new1 @ new2)
      = handed_out k c s @ map wi_identity (ready_of (work_step c s) k @ new2)"
    using 1 by (metis append.assoc map_append)
  also note 2
  finally show ?case by (intro exI [of _ "new1 @ new2"]) simp
qed

theorem deliveries_in_order_witness:
  "\<exists>new. map wi_identity (ready_of (run work_step [demo_publish ''w1'', demo_publish ''w2''] demo_queue)
        (''o'', ''q'') @ new)
    = deliveries (''o'', ''q'') [demo_reserve 1 ''r1'', demo_reserve 2 ''r2'']
        (run work_step [demo_publish ''w1'', demo_publish ''w2''] demo_queue)
      @ map wi_identity (ready_of (run work_step [demo_reserve 1 ''r1'', demo_reserve 2 ''r2'']
          (run work_step [demo_publish ''w1'', demo_publish ''w2''] demo_queue)) (''o'', ''q''))"
  by (rule deliveries_in_order) code_simp

text \<open>C11: \<open>reserve\<close> does not spin. While the clock does not go backwards, the loop goes round without
  waiting at most as often as the queue has delayed and reserved items; then it returns or waits.\<close>

theorem reserve_busy_loop_bounded:
  assumes "wq_inv s" and "wq_times s" and "busy es k v deadline s" and "clock_ordered es"
    and "\<forall>e \<in> set es. real_time (rd_wakeup e)"
  shows "length es \<le> pending k s"
  using busy_bounded assms by (simp add: wq_inv_def)

theorem reserve_busy_loop_bounded_witness:
  "length [(demo_reads 0 ''r2'')\<lparr>rd_wakeup := Fin 10\<rparr>] \<le> pending (''o'', ''q'') demo_work"
proof (rule reserve_busy_loop_bounded)
  show "wq_inv demo_work"
    unfolding demo_work_def
    by (rule work_queue_inv_run [of "PyInt 5" "PyInt 2" "PyInt 3"])
       (simp add: demo_queue_def new_work_queue_def)
  show "wq_times demo_work" by code_simp
  show "busy [(demo_reads 0 ''r2'')\<lparr>rd_wakeup := Fin 10\<rparr>] (''o'', ''q'') 10 (Fin 100) demo_work"
    by code_simp
  show "clock_ordered [(demo_reads 0 ''r2'')\<lparr>rd_wakeup := Fin 10\<rparr>]" by simp
  show "\<forall>e \<in> set [(demo_reads 0 ''r2'')\<lparr>rd_wakeup := Fin 10\<rparr>]. real_time (rd_wakeup e)" by code_simp
qed

end
