(* ===== verification/Paged_Log.thy ===== *)
theory Paged_Log
  imports Contracts
begin

text \<open>
  Reading a stream in pages, as \<open>lifecycle\<close> and \<open>_status_from_stream\<close> of
  \<open>src/src/wybra/tasks/taskiq_lifecycle.py\<close> do.

  Other callers append between two reads: the state of the streams at each read is an element of a
  list, and a loop that needs one more read than the list has answers \<open>None\<close>.

  The locale \<open>paged_log\<close> is what the loop relies on: a read returns the records after a position, or
  raises when some of them are gone. Its lemmas show that the pages add up to one pass over the log,
  also when records are appended and old ones expire meanwhile, and that the loop over a stream at
  rest returns.
\<close>

section \<open>The loop\<close>

text \<open>The body of the loop over the records of a page.\<close>

fun absorb :: "(StreamRecord \<Rightarrow> 'a \<Rightarrow> 'a result) \<Rightarrow> StreamRecord list \<Rightarrow> 'a \<Rightarrow> 'a result" where
  "absorb step [] a = Inr a"
| "absorb step (r # rs) a = res_bind (step r a) (absorb step rs)"

text \<open>One element of the list of streams is used up by each read.\<close>

fun replay_loop ::
    "(StreamPosition option \<Rightarrow> 'c \<Rightarrow> StreamRecord list result) \<Rightarrow> int \<Rightarrow> (StreamRecord \<Rightarrow> 'a \<Rightarrow> 'a result) \<Rightarrow> 'a
     \<Rightarrow> StreamPosition option \<Rightarrow> 'a \<Rightarrow> bool \<Rightarrow> 'c list \<Rightarrow> ('a \<times> StreamPosition option) result option"
where
  "replay_loop read page step start position a restarted [] = None"
| "replay_loop read page step start position a restarted (c # cs) =
     (case read position c of
        Inl e \<Rightarrow>
          if e \<noteq> CachePositionExpiredError then Some (Inl e)
          else if restarted then Some (Inl TaskLifecycleError)
          else replay_loop read page step start None start True cs
      | Inr records \<Rightarrow>
          if records = [] then Some (Inr (a, position))
          else case absorb step records a of
            Inl e \<Rightarrow> Some (Inl e)
          | Inr a' \<Rightarrow>
              if int (length records) < page then Some (Inr (a', Some (sr_position (last records))))
              else replay_loop read page step start (Some (sr_position (last records))) a' restarted cs)"

lemma absorb_append: "absorb step (xs @ ys) a = res_bind (absorb step xs a) (absorb step ys)"
proof (induction xs arbitrary: a)
  case (Cons x xs)
  then show ?case by (cases "step x a") simp_all
qed simp

text \<open>\<open>log_extends L L'\<close>: \<open>L'\<close> has grown out of \<open>L\<close>.\<close>

definition log_extends :: "'r list \<Rightarrow> 'r list \<Rightarrow> bool" where
  "log_extends L L' \<longleftrightarrow> (\<exists>M. L' = L @ M)"

lemma log_extends_simps [simp]: "log_extends L L" "log_extends L (L @ M)"
  by (auto simp: log_extends_def)

lemma log_extends_trans: "log_extends L M \<Longrightarrow> log_extends M N \<Longrightarrow> log_extends L N"
  by (auto simp: log_extends_def)

lemma log_extends_length: "log_extends L M \<Longrightarrow> length L \<le> length M"
  by (auto simp: log_extends_def)

text \<open>Logs that grow at the end while more and more of their beginning expires.\<close>

definition grows :: "('r list \<times> nat) list \<Rightarrow> bool" where
  "grows Ls \<longleftrightarrow> sorted_wrt (\<lambda>(L, g) (L', g'). log_extends L L' \<and> g \<le> g') Ls"

lemma take_drop_page: "m \<le> n \<Longrightarrow> drop m (take n L) @ take k (drop n L) = drop m (take (n + k) L)"
  by (cases "n \<le> length L") (simp_all add: take_add)

lemma log_extends_take: "log_extends L L' \<Longrightarrow> n \<le> length L \<Longrightarrow> take n L' = take n L"
  by (auto simp: log_extends_def)

section \<open>Logs read in pages\<close>

text \<open>\<open>view c L g\<close>: the state \<open>c\<close> has the complete log \<open>L\<close>, of which the first \<open>g\<close> records are gone.\<close>

locale paged_log =
  fixes read :: "StreamPosition option \<Rightarrow> 'c \<Rightarrow> StreamRecord list result"
    and page :: int
    and view :: "'c \<Rightarrow> StreamRecord list \<Rightarrow> nat \<Rightarrow> bool"
  assumes page_positive: "view c L g \<Longrightarrow> 0 < page"
    and gone_bound: "view c L g \<Longrightarrow> g \<le> length L"
    and last_kept: "view c L g \<Longrightarrow> L \<noteq> [] \<Longrightarrow> g < length L"
    and position_at: "view c L g \<Longrightarrow> i < length L \<Longrightarrow> sr_position (L ! i) = StreamPosition (int i + 1)"
    and read_first: "view c L g \<Longrightarrow> read None c = Inr (take (nat page) (drop g L))"
    and read_expired: "view c L g \<Longrightarrow> n < g \<Longrightarrow> read (Some (StreamPosition (int n))) c = Inl CachePositionExpiredError"
    and read_after: "view c L g \<Longrightarrow> g \<le> n \<Longrightarrow> read (Some (StreamPosition (int n))) c = Inr (take (nat page) (drop n L))"
begin

lemma last_position:
  assumes "view c L g" and "rs = take (nat page) (drop n L)" and "rs \<noteq> []"
  shows "sr_position (last rs) = StreamPosition (int (n + length rs))" and "n + length rs \<le> length L"
proof -
  have len: "length rs = min (nat page) (length L - n)" by (simp add: assms(2))
  have "0 < length rs" using assms(3) by simp
  then have "n < length L" using len by simp
  then show "n + length rs \<le> length L" using len by simp
  have "length rs - 1 < nat page" "length rs - 1 < length L - n" using \<open>0 < length rs\<close> len by auto
  then have "rs ! (length rs - 1) = L ! (n + (length rs - 1))" unfolding assms(2) by (simp del: length_take)
  then have "last rs = L ! (n + (length rs - 1))" using assms(3) by (simp add: last_conv_nth)
  then show "sr_position (last rs) = StreamPosition (int (n + length rs))"
  proof -
    have "n + (length rs - 1) < length L" using \<open>0 < length rs\<close> \<open>n + length rs \<le> length L\<close> by linarith
    moreover have "int (n + (length rs - 1)) + 1 = int (n + length rs)" using \<open>0 < length rs\<close> by linarith
    ultimately show ?thesis
      using position_at [OF assms(1)] \<open>last rs = L ! (n + (length rs - 1))\<close> by (simp only:)
  qed
qed

text \<open>What the loop has absorbed when it stands at a position: a segment of the log that begins at \<open>m\<close>.\<close>

definition absorbed ::
    "(StreamRecord \<Rightarrow> 'a \<Rightarrow> 'a result) \<Rightarrow> 'a \<Rightarrow> nat \<Rightarrow> (StreamRecord list \<times> nat) list \<Rightarrow> StreamPosition option \<Rightarrow> 'a \<Rightarrow> bool"
where
  "absorbed step start m0 Ls position a \<longleftrightarrow>
     (position = None \<and> a = start) \<or>
     (\<exists>n m. position = Some (StreamPosition (int n)) \<and> m \<le> n
       \<and> (\<forall>(L, g) \<in> set Ls. n \<le> length L \<and> (m \<le> g \<or> m = m0) \<and> absorb step (drop m (take n L)) start = Inr a))"

text \<open>A read at \<open>n\<close> continues the segment.\<close>

lemma absorb_page:
  assumes "m \<le> n" and "absorb step (drop m (take n L)) start = Inr a"
    and "absorb step (take (nat page) (drop n L)) a = Inr a'"
  shows "absorb step (drop m (take (n + length (take (nat page) (drop n L))) L)) start = Inr a'"
proof -
  have "take (n + length (take (nat page) (drop n L))) L = take (n + nat page) L"
    by (auto simp: min_def)
  then show ?thesis
    using assms by (simp add: take_drop_page [symmetric] absorb_append)
qed

lemma short_page:
  assumes "view c L g" and "int (length (take (nat page) (drop n L))) < page"
  shows "take (n + length (take (nat page) (drop n L))) L = L"
  using assms(2) page_positive [OF assms(1)] by (auto simp: min_def split: if_splits)

text \<open>The read with index \<open>i\<close> was the last one: with the states up to it the loop returns, with fewer it does
  not. What the loop returns is what it absorbs from the log as it was then.\<close>

definition ended_at ::
    "nat \<Rightarrow> (StreamRecord \<Rightarrow> 'a \<Rightarrow> 'a result) \<Rightarrow> 'a \<Rightarrow> nat \<Rightarrow> (StreamRecord list \<times> nat) list \<Rightarrow> ('c list \<Rightarrow> ('a \<times> StreamPosition option) result option)
     \<Rightarrow> 'c list \<Rightarrow> StreamPosition option \<Rightarrow> 'a \<Rightarrow> StreamPosition option \<Rightarrow> bool"
where
  "ended_at i step start m0 Ls loop cs position a position' \<longleftrightarrow>
     i < length Ls \<and> loop (take i cs) = None \<and> loop (take (Suc i) cs) = Some (Inr (a, position'))
     \<and> (\<exists>m. (m \<le> snd (Ls ! i) \<or> m = m0) \<and> absorb step (drop m (fst (Ls ! i))) start = Inr a)
     \<and> position' = (if position = None \<and> fst (Ls ! i) = [] then None else Some (StreamPosition (int (length (fst (Ls ! i))))))"

lemma ended_at_first:
  assumes "loop [] = None" and "loop [c] = Some (Inr (a, position'))" and "m \<le> g \<or> m = m0"
    and "absorb step (drop m L) start = Inr a"
    and "position' = (if position = None \<and> L = [] then None else Some (StreamPosition (int (length L))))"
  shows "ended_at 0 step start m0 ((L, g) # Ls) loop (c # cs) position a position'"
  using assms by (auto simp: ended_at_def)

lemma ended_at_later:
  assumes "ended_at i step start m0 Ls loop' cs next a position'" and "loop [] = None" and "\<And>xs. loop (c # xs) = loop' xs"
    and "\<forall>(L, g) \<in> set Ls. L \<noteq> []"
  shows "ended_at (Suc i) step start m0 (p # Ls) loop (c # cs) position a position'"
  using assms nth_mem [of i Ls] by (fastforce simp: ended_at_def case_prod_beta)

lemma replay_segment:
  assumes "replay_loop read page step start position a restarted cs = Some (Inr (a', position'))"
    and "list_all2 (\<lambda>c (L, g). view c L g) cs Ls" and "grows Ls" and "absorbed step start m0 Ls position a"
  shows "\<exists>i. ended_at i step start m0 Ls (replay_loop read page step start position a restarted) cs position a' position'"
  using assms
proof (induction cs arbitrary: position a restarted Ls)
  case (Cons c cs)
  obtain L g Ls' where Ls: "Ls = (L, g) # Ls'" and view: "view c L g"
    and views: "list_all2 (\<lambda>c (L, g). view c L g) cs Ls'" and grows: "grows Ls'"
    and later: "\<forall>(L', g') \<in> set Ls'. log_extends L L' \<and> g \<le> g'"
    using Cons.prems(2,3) by (cases Ls) (auto simp: grows_def)
  note IH = Cons.IH [OF _ views grows]
  let ?loop = "replay_loop read page step start position a restarted"
  have page: "?case"
    if run: "\<And>xs. ?loop (c # xs) = (if rs = [] then Some (Inr (a, position)) else case absorb step rs a of Inl e \<Rightarrow> Some (Inl e)
        | Inr a' \<Rightarrow> if int (length rs) < page then Some (Inr (a', Some (sr_position (last rs))))
            else replay_loop read page step start (Some (sr_position (last rs))) a' restarted xs)"
      and rs: "rs = take (nat page) (drop n L)" and n: "m \<le> n" "n \<le> length L" "m \<le> g \<or> m = m0"
      and a: "absorb step (drop m (take n L)) start = Inr a"
      and pos: "position = None \<and> n = g \<or> position = Some (StreamPosition (int n))" for rs n m
  proof (cases "rs = []")
    case True
    then have "drop n L = []" using rs page_positive [OF view] by simp
    then have all: "take n L = L" "n = length L" using n(2) by simp_all
    have "position = (if position = None \<and> L = [] then None else Some (StreamPosition (int (length L))))"
      using pos all(2) last_kept [OF view] by auto
    then have "ended_at 0 step start m0 Ls ?loop (c # cs) position a position"
      unfolding Ls using run [of "[]"] True a all n(3) pos by (intro ended_at_first) auto
    moreover have "a' = a" "position' = position" using run [of cs] True Cons.prems(1) by simp_all
    ultimately show ?thesis by blast
  next
    case False
    then obtain b where b: "absorb step rs a = Inr b" using run [of cs] Cons.prems(1) by (auto split: sum.splits)
    note seg = absorb_page [OF n(1) a, folded rs, OF b]
    note last = last_position [OF view rs False]
    show ?thesis
    proof (cases "int (length rs) < page")
      case True
      then have "take (n + length rs) L = L" using short_page [OF view, of n] rs by simp
      moreover from this have "n + length rs = length L" using last(2) by (metis length_take min.absorb2)
      ultimately have "ended_at 0 step start m0 Ls ?loop (c # cs) position b (Some (StreamPosition (int (length L))))"
        unfolding Ls using run [of "[]"] False b True seg last(1) n(3) by (intro ended_at_first) auto
      moreover have "a' = b" "position' = Some (StreamPosition (int (length L)))"
        using run [of cs] False b True Cons.prems(1) last(1) \<open>n + length rs = length L\<close> by auto
      ultimately show ?thesis by blast
    next
      case long: False
      let ?next = "Some (StreamPosition (int (n + length rs)))"
      have "absorbed step start m0 Ls' ?next b"
      proof -
        have "n + length rs \<le> length L' \<and> (m \<le> g' \<or> m = m0) \<and> absorb step (drop m (take (n + length rs) L')) start = Inr b"
          if "(L', g') \<in> set Ls'" for L' g'
        proof -
          from that later have "log_extends L L'" "g \<le> g'" by auto
          then show ?thesis
            using seg last(2) n(3) log_extends_length [of L L'] log_extends_take [of L L' "n + length rs"] by auto
        qed
        then show ?thesis using n(1) unfolding absorbed_def by (intro disjI2 exI [of _ "n + length rs"] exI [of _ m]) auto
      qed
      moreover have next_read: "?loop (c # xs) = replay_loop read page step start ?next b restarted xs" for xs
        using run [of xs] False b long last(1) by simp
      ultimately obtain i where "ended_at i step start m0 Ls' (replay_loop read page step start ?next b restarted) cs ?next a' position'"
        using IH [of ?next b restarted] Cons.prems(1) by auto
      moreover have "\<forall>(L', g') \<in> set Ls'. L' \<noteq> []"
        using later log_extends_length [of L] last(2) False by fastforce
      ultimately show ?thesis using ended_at_later [of i step start m0 Ls' _ cs ?next a' position' ?loop c "(L, g)" position] next_read
        unfolding Ls by auto
    qed
  qed
  from Cons.prems(4) show ?case unfolding absorbed_def
  proof (elim disjE exE conjE)
    assume "position = None" "a = start"
    then show ?thesis
      using page [of "take (nat page) (drop g L)" g g] gone_bound [OF view]
      unfolding \<open>position = None\<close> \<open>a = start\<close> replay_loop.simps read_first [OF view] by simp
  next
    fix n m assume pos: "position = Some (StreamPosition (int n))" and "m \<le> n"
      and seg: "\<forall>(L, g) \<in> set Ls. n \<le> length L \<and> (m \<le> g \<or> m = m0) \<and> absorb step (drop m (take n L)) start = Inr a"
    show ?thesis
    proof (cases "n < g")
      case True
      then have expired: "read position c = Inl CachePositionExpiredError" using read_expired [OF view True] pos by simp
      then have "\<not> restarted" using Cons.prems(1) by (auto split: if_splits)
      then have restart: "?loop (c # xs) = replay_loop read page step start None start True xs" for xs using expired by simp
      obtain i where "ended_at i step start m0 Ls' (replay_loop read page step start None start True) cs None a' position'"
        using IH [of None start True] Cons.prems(1) restart by (auto simp: absorbed_def)
      moreover have "\<forall>(L', g') \<in> set Ls'. L' \<noteq> []"
        using later log_extends_length [of L] gone_bound [OF view] True by fastforce
      ultimately show ?thesis using ended_at_later [of i step start m0 Ls' _ cs None a' position' ?loop c "(L, g)" position] restart
        unfolding Ls by auto
    next
      case False
      then have after: "read position c = Inr (take (nat page) (drop n L))" using read_after [OF view, of n] pos by simp
      have "n \<le> length L" "m \<le> g \<or> m = m0" "absorb step (drop m (take n L)) start = Inr a" using seg by (simp_all add: Ls)
      then show ?thesis
        using page [of "take (nat page) (drop n L)" n m] pos \<open>m \<le> n\<close>
        unfolding replay_loop.simps after by simp
    qed
  qed
qed simp

text \<open>On a log at rest every full page comes closer to the end.\<close>

lemma replay_returns_after:
  assumes "\<forall>c \<in> set cs. view c L g" and "g \<le> n" and "length L - n < length cs"
  shows "\<exists>r. replay_loop read page step start (Some (StreamPosition (int n))) a restarted cs = Some r"
  using assms
proof (induction cs arbitrary: n a)
  case (Cons c cs)
  let ?rs = "take (nat page) (drop n L)"
  have view: "view c L g" using Cons.prems(1) by simp
  have "\<exists>r. replay_loop read page step start (Some (StreamPosition (int (n + length ?rs)))) b restarted cs = Some r"
    if "?rs \<noteq> []" for b
  proof (rule Cons.IH)
    have "0 < length ?rs" using that length_greater_0_conv by blast
    then show "length L - (n + length ?rs) < length cs"
      using Cons.prems(3) last_position(2) [OF view refl that] unfolding list.size by linarith
  qed (use Cons.prems in auto)
  then show ?case
    using read_after [OF view Cons.prems(2)] last_position(1) [OF view refl, of n]
    by (auto split: sum.split)
qed simp

lemma replay_returns_first:
  assumes "\<forall>c \<in> set cs. view c L g" and "length L < length cs"
  shows "\<exists>r. replay_loop read page step start None a restarted cs = Some r"
proof (cases cs)
  case (Cons c cs')
  let ?rs = "take (nat page) (drop g L)"
  have view: "view c L g" using assms(1) Cons by simp
  have "\<exists>r. replay_loop read page step start (Some (StreamPosition (int (g + length ?rs)))) b restarted cs' = Some r"
    if "?rs \<noteq> []" for b
  proof (rule replay_returns_after)
    have "0 < length ?rs" using that length_greater_0_conv by blast
    then show "length L - (g + length ?rs) < length cs'"
      using assms(2) last_position(2) [OF view refl that] unfolding Cons list.size by linarith
  qed (use assms(1) Cons in auto)
  then show ?thesis
    using read_first [OF view] last_position(1) [OF view refl, of g] by (auto simp: Cons split: sum.split)
qed (use assms in simp)

lemma replay_returns:
  assumes "\<forall>c \<in> set cs. view c L g" and "Suc (length L) < length cs"
    and "position = None \<or> (\<exists>n. position = Some (StreamPosition (int n)))"
  shows "\<exists>r. replay_loop read page step start position a restarted cs = Some r"
proof -
  obtain c cs' where cs: "cs = c # cs'" using assms(2) by (cases cs) auto
  show ?thesis
  proof (cases "\<exists>n. position = Some (StreamPosition (int n)) \<and> n < g")
    case True
    then show ?thesis
      using read_expired [of c L g] replay_returns_first [of cs' L g step start start True] assms(1,2) by (auto simp: cs)
  next
    case False
    then show ?thesis
      using assms replay_returns_first [of cs L g step start a restarted]
        replay_returns_after [of cs L g _ step start a restarted] by (auto simp: not_less)
  qed
qed

end

end
