(* ===== verification/Stream_Cache.thy ===== *)
theory Stream_Cache
  imports Lease_Cache Paged_Log
begin

text \<open>
  \<^verbatim>\<open>InMemoryStreamCache\<close> of \<^verbatim>\<open>src/src/wybra/cache/memory_streams.py\<close>: append-only streams with bounded
  retention and consumer positions, appends fenced by a lease if the caller wants that.

  The abstract specification keeps the complete log of every stream. The cache keeps the last
  \<open>max_records\<close> records of it and is shown to return, for every sequence of calls, the results
  the specification gives.
\<close>

section \<open>State and operations\<close>

type_synonym StreamKey = "string \<times> string"

record InMemoryStreamCache =
  sm_max_records :: int
  sm_max_streams :: int
  sm_max_consumers :: int
  sm_lease_cache :: "nat option"
  sm_records :: "(StreamKey, StreamRecord list) dict"
  sm_next_positions :: "(StreamKey, int) dict"
  sm_consumer_positions :: "(StreamKey \<times> string, StreamPosition) dict"

definition new_stream_cache :: "pyobj \<Rightarrow> pyobj \<Rightarrow> pyobj \<Rightarrow> InMemoryStreamCache result" where
  "new_stream_cache records streams consumers =
     res_bind (validate_positive_integer records) (\<lambda>mr.
     res_bind (validate_positive_integer streams) (\<lambda>ms.
     res_bind (validate_positive_integer consumers) (\<lambda>mc. Inr
       \<lparr>sm_max_records = mr, sm_max_streams = ms, sm_max_consumers = mc, sm_lease_cache = None,
        sm_records = [], sm_next_positions = [], sm_consumer_positions = []\<rparr>)))"

definition stream_key :: "pyobj \<Rightarrow> pyobj \<Rightarrow> StreamKey result" where
  "stream_key owner stream =
     res_bind (validate_resource owner) (\<lambda>ow.
     res_bind (validate_resource stream) (\<lambda>st. Inr (ow, st)))"

definition bind_stream_lease_fence :: "nat \<Rightarrow> (InMemoryStreamCache, unit) pyop" where
  "bind_stream_lease_fence ref c =
     (if sm_lease_cache c \<noteq> None \<and> sm_lease_cache c \<noteq> Some ref then (Inl CacheFeatureError, c)
      else (Inr (), c\<lparr>sm_lease_cache := Some ref\<rparr>))"

definition stream_fence ::
    "pyfloat \<Rightarrow> pyfloat \<Rightarrow> LeaseToken option \<Rightarrow> (InMemoryStreamCache, 'a) pyop
      \<Rightarrow> InMemoryLeaseCache \<Rightarrow> InMemoryStreamCache
      \<Rightarrow> 'a result \<times> InMemoryLeaseCache \<times> InMemoryStreamCache" where
  "stream_fence f1 f2 lease body s c =
     fenced_section (sm_lease_cache c \<noteq> None) f1 f2 lease body s c"

definition latest_position :: "StreamKey \<Rightarrow> InMemoryStreamCache \<Rightarrow> int" where
  "latest_position k c = (case dict_get (sm_next_positions c) k of None \<Rightarrow> 0 | Some n \<Rightarrow> n)"

definition append_section ::
    "StreamKey \<Rightarrow> bytes \<Rightarrow> (InMemoryStreamCache, StreamPosition) pyop" where
  "append_section k b c =
     (if dict_get (sm_records c) k = None \<and> sm_max_streams c \<le> int (length (sm_records c))
      then (Inl CacheFeatureError, c)
      else checked (make_StreamPosition (PyInt (latest_position k c + 1))) c (\<lambda>position.
        let records = queue_of (sm_records c) k;
            c1 = c\<lparr>sm_next_positions := dict_set k (position_value position) (sm_next_positions c),
                   sm_records := dict_set k records (sm_records c)\<rparr>
        in checked (make_StreamRecord (snd k) position b) c1 (\<lambda>r.
          (Inr position,
           c1\<lparr>sm_records :=
             dict_set k (trim_left (sm_max_records c) (records @ [r])) (sm_records c1)\<rparr>))))"

definition stream_append where
  "stream_append f1 f2 owner stream payload lease s c =
     (case stream_key owner stream of Inl e \<Rightarrow> (Inl e, s, c) | Inr k \<Rightarrow>
     (case validate_payload payload of Inl e \<Rightarrow> (Inl e, s, c) | Inr b \<Rightarrow>
       stream_fence f1 f2 lease (append_section k b) s c))"

definition read_records ::
    "StreamKey \<Rightarrow> StreamPosition option \<Rightarrow> int \<Rightarrow> InMemoryStreamCache \<Rightarrow> StreamRecord list result" where
  "read_records k after limit c =
     (case queue_of (sm_records c) k of
        [] \<Rightarrow> Inr []
      | first # rest \<Rightarrow>
          let earliest = position_value (sr_position first);
              after_value = (case after of None \<Rightarrow> 0 | Some p \<Rightarrow> position_value p)
          in if after \<noteq> None \<and> after_value < earliest - 1 then Inl CachePositionExpiredError
             else Inr (take (nat limit)
               (filter (\<lambda>r. after_value < position_value (sr_position r)) (first # rest))))"

definition stream_read ::
    "pyobj \<Rightarrow> pyobj \<Rightarrow> StreamPosition option \<Rightarrow> pyobj \<Rightarrow> InMemoryStreamCache \<Rightarrow> StreamRecord list result"
where
  "stream_read owner stream after limit c =
     res_bind (stream_key owner stream) (\<lambda>k.
     res_bind (validate_limit limit) (\<lambda>n. read_records k after n c))"

definition read_consumer ::
    "pyobj \<Rightarrow> pyobj \<Rightarrow> pyobj \<Rightarrow> pyobj \<Rightarrow> InMemoryStreamCache \<Rightarrow> StreamRecord list result" where
  "read_consumer owner stream consumer limit c =
     res_bind (stream_key owner stream) (\<lambda>k.
     res_bind (validate_resource consumer) (\<lambda>co.
     res_bind (validate_limit limit) (\<lambda>n.
       read_records k (dict_get (sm_consumer_positions c) (k, co)) n c)))"

definition consumer_count :: "StreamKey \<Rightarrow> (StreamKey \<times> string, StreamPosition) dict \<Rightarrow> nat" where
  "consumer_count k d = length (filter (\<lambda>p. fst (fst p) = k) d)"

definition acknowledge_position ::
    "pyobj \<Rightarrow> pyobj \<Rightarrow> pyobj \<Rightarrow> StreamPosition \<Rightarrow> (InMemoryStreamCache, unit) pyop" where
  "acknowledge_position owner stream consumer position c =
     checked (stream_key owner stream) c (\<lambda>k.
     checked (validate_resource consumer) c (\<lambda>co.
       if latest_position k c < position_value position then (Inl CacheConflictError, c)
       else
         let current = dict_get (sm_consumer_positions c) (k, co) in
         if (case current of None \<Rightarrow> False | Some p \<Rightarrow> position < p) then (Inl CacheConflictError, c)
         else if current = None
           \<and> sm_max_consumers c \<le> int (consumer_count k (sm_consumer_positions c))
         then (Inl CacheFeatureError, c)
         else (Inr (), c\<lparr>sm_consumer_positions :=
                dict_set (k, co) position (sm_consumer_positions c)\<rparr>)))"

definition forget_consumer ::
    "pyobj \<Rightarrow> pyobj \<Rightarrow> pyobj \<Rightarrow> (InMemoryStreamCache, bool) pyop" where
  "forget_consumer owner stream consumer c =
     checked (stream_key owner stream) c (\<lambda>k.
     checked (validate_resource consumer) c (\<lambda>co.
       (Inr (dict_get (sm_consumer_positions c) (k, co) \<noteq> None),
        c\<lparr>sm_consumer_positions := dict_pop (k, co) (sm_consumer_positions c)\<rparr>)))"

section \<open>Calls\<close>

datatype stream_call =
    SAppend pyfloat pyfloat pyobj pyobj pyobj "LeaseToken option"
  | SRead pyobj pyobj "StreamPosition option" pyobj
  | SReadConsumer pyobj pyobj pyobj pyobj
  | SAcknowledge pyobj pyobj pyobj StreamPosition
  | SForget pyobj pyobj pyobj
  | SLease lease_call

datatype stream_result =
    RPosition "StreamPosition result"
  | RRecords "StreamRecord list result"
  | RUnit "unit result"
  | RBool "bool result"

type_synonym stream_system = "InMemoryLeaseCache \<times> InMemoryStreamCache"

fun stream_exec :: "stream_call \<Rightarrow> stream_system \<Rightarrow> stream_result \<times> stream_system" where
  "stream_exec (SAppend f1 f2 ow st pl lease) (s, c) =
     (let (r, s', c') = stream_append f1 f2 ow st pl lease s c in (RPosition r, s', c'))"
| "stream_exec (SRead ow st after n) (s, c) = (RRecords (stream_read ow st after n c), s, c)"
| "stream_exec (SReadConsumer ow st co n) (s, c) = (RRecords (read_consumer ow st co n c), s, c)"
| "stream_exec (SAcknowledge ow st co p) (s, c) =
     (let (r, c') = acknowledge_position ow st co p c in (RUnit r, s, c'))"
| "stream_exec (SForget ow st co) (s, c) =
     (let (r, c') = forget_consumer ow st co c in (RBool r, s, c'))"
| "stream_exec (SLease l) (s, c) = (RUnit (Inr ()), lease_step l s, c)"

section \<open>Specification: complete logs\<close>

text \<open>
  The specification keeps the payloads of every stream since its beginning; the \<open>n\<close>-th payload has
  position \<open>n\<close>. Retention shows only in which positions can still be read.
\<close>

record stream_spec =
  sp_max_records :: int
  sp_max_streams :: int
  sp_max_consumers :: int
  sp_fenced :: bool
  sp_log :: "(StreamKey, bytes list) dict"
  sp_consumers :: "(StreamKey \<times> string, StreamPosition) dict"

fun number_from :: "string \<Rightarrow> int \<Rightarrow> bytes list \<Rightarrow> StreamRecord list" where
  "number_from st n [] = []"
| "number_from st n (b # bs) =
     \<lparr>sr_stream = st, sr_position = StreamPosition n, sr_payload = b\<rparr> # number_from st (n + 1) bs"

text \<open>How many payloads at the start of a log are no longer retained.\<close>

definition expired_count :: "int \<Rightarrow> bytes list \<Rightarrow> nat" where
  "expired_count maximum bs = length bs - nat maximum"

definition spec_append :: "StreamKey \<Rightarrow> bytes \<Rightarrow> (stream_spec, StreamPosition) pyop" where
  "spec_append k b S =
     (let bs = queue_of (sp_log S) k in
      if dict_get (sp_log S) k = None \<and> sp_max_streams S \<le> int (length (sp_log S))
      then (Inl CacheFeatureError, S)
      else if MAX_STREAM_POSITION < int (length bs) + 1 then (Inl ValueError, S)
      else (Inr (StreamPosition (int (length bs) + 1)),
            S\<lparr>sp_log := dict_set k (bs @ [b]) (sp_log S)\<rparr>))"

definition spec_read ::
    "StreamKey \<Rightarrow> StreamPosition option \<Rightarrow> int \<Rightarrow> stream_spec \<Rightarrow> StreamRecord list result" where
  "spec_read k after limit S =
     (let bs = queue_of (sp_log S) k; gone = expired_count (sp_max_records S) bs;
          start = (case after of None \<Rightarrow> 0 | Some p \<Rightarrow> position_value p)
      in if bs = [] then Inr []
         else if after \<noteq> None \<and> start < int gone then Inl CachePositionExpiredError
         else let first = max (nat start) gone
              in Inr (take (nat limit) (number_from (snd k) (int first + 1) (drop first bs))))"

definition spec_acknowledge ::
    "StreamKey \<Rightarrow> string \<Rightarrow> StreamPosition \<Rightarrow> (stream_spec, unit) pyop" where
  "spec_acknowledge k co position S =
     (if int (length (queue_of (sp_log S) k)) < position_value position then (Inl CacheConflictError, S)
      else case dict_get (sp_consumers S) (k, co) of
          Some p \<Rightarrow> if position < p then (Inl CacheConflictError, S)
            else (Inr (), S\<lparr>sp_consumers := dict_set (k, co) position (sp_consumers S)\<rparr>)
        | None \<Rightarrow>
            if sp_max_consumers S \<le> int (consumer_count k (sp_consumers S))
            then (Inl CacheFeatureError, S)
            else (Inr (), S\<lparr>sp_consumers := dict_set (k, co) position (sp_consumers S)\<rparr>))"

fun spec_exec ::
    "stream_call \<Rightarrow> InMemoryLeaseCache \<times> stream_spec \<Rightarrow> stream_result \<times> InMemoryLeaseCache \<times> stream_spec"
where
  "spec_exec (SAppend f1 f2 ow st pl lease) (s, S) =
     (case stream_key ow st of Inl e \<Rightarrow> (RPosition (Inl e), s, S) | Inr k \<Rightarrow>
     (case validate_payload pl of Inl e \<Rightarrow> (RPosition (Inl e), s, S) | Inr b \<Rightarrow>
       (let (r, s', S') = fenced_section (sp_fenced S) f1 f2 lease (spec_append k b) s S
        in (RPosition r, s', S'))))"
| "spec_exec (SRead ow st after n) (s, S) =
     (RRecords (res_bind (stream_key ow st) (\<lambda>k.
        res_bind (validate_limit n) (\<lambda>m. spec_read k after m S))), s, S)"
| "spec_exec (SReadConsumer ow st co n) (s, S) =
     (RRecords (res_bind (stream_key ow st) (\<lambda>k. res_bind (validate_resource co) (\<lambda>c.
        res_bind (validate_limit n) (\<lambda>m. spec_read k (dict_get (sp_consumers S) (k, c)) m S)))), s, S)"
| "spec_exec (SAcknowledge ow st co p) (s, S) =
     (let (r, S') = checked (stream_key ow st) S (\<lambda>k. checked (validate_resource co) S (\<lambda>c.
        spec_acknowledge k c p S)) in (RUnit r, s, S'))"
| "spec_exec (SForget ow st co) (s, S) =
     (let (r, S') = checked (stream_key ow st) S (\<lambda>k. checked (validate_resource co) S (\<lambda>c.
        (Inr (dict_get (sp_consumers S) (k, c) \<noteq> None),
         S\<lparr>sp_consumers := dict_pop (k, c) (sp_consumers S)\<rparr>))) in (RBool r, s, S'))"
| "spec_exec (SLease l) (s, S) = (RUnit (Inr ()), lease_step l s, S)"

section \<open>The cache refines the specification\<close>

definition retained :: "int \<Rightarrow> StreamKey \<Rightarrow> bytes list \<Rightarrow> StreamRecord list" where
  "retained maximum k bs =
     (let gone = expired_count maximum bs in number_from (snd k) (int gone + 1) (drop gone bs))"

definition stream_rel :: "InMemoryStreamCache \<Rightarrow> stream_spec \<Rightarrow> bool" where
  "stream_rel c S \<longleftrightarrow> sm_records c = dict_map (retained (sp_max_records S)) (sp_log S)
     \<and> sm_next_positions c = dict_map (\<lambda>k bs. int (length bs)) (sp_log S)
     \<and> sm_consumer_positions c = sp_consumers S
     \<and> sm_max_records c = sp_max_records S \<and> sm_max_streams c = sp_max_streams S
     \<and> sm_max_consumers c = sp_max_consumers S \<and> (sm_lease_cache c \<noteq> None) = sp_fenced S
     \<and> 0 < sp_max_records S"

lemma length_number_from [simp]: "length (number_from st n bs) = length bs"
  by (induction st n bs rule: number_from.induct) auto

lemma drop_number_from: "drop m (number_from st n bs) = number_from st (n + int m) (drop m bs)"
proof (induction m arbitrary: n bs)
  case (Suc m)
  then show ?case by (cases bs) (simp_all add: algebra_simps)
qed simp

lemma number_from_append:
  "number_from st n (bs @ cs) = number_from st n bs @ number_from st (n + int (length bs)) cs"
  by (induction st n bs rule: number_from.induct) (auto simp: algebra_simps)

lemma filter_number_from:
  "filter (\<lambda>r. a < position_value (sr_position r)) (number_from st (n + 1) bs)
     = number_from st (max a n + 1) (drop (nat (a - n)) bs)"
proof (induction bs arbitrary: n)
  case (Cons b bs)
  show ?case
  proof (cases "a \<le> n")
    case True
    then show ?thesis using Cons.IH [of "n + 1"] by (simp add: max_def)
  next
    case False
    then have "nat (a - n) = Suc (nat (a - (n + 1)))" by simp
    moreover have "max a n = a" "max a (n + 1) = a" using False by simp_all
    ultimately show ?thesis using Cons.IH [of "n + 1"] False by simp
  qed
qed simp

lemma queue_of_dict_map:
  "f k [] = [] \<Longrightarrow> queue_of (dict_map f d) k = f k (queue_of d k)"
  by (simp add: queue_of_def split: option.splits)

lemma retained_Nil [simp]: "retained n k [] = []"
  by (simp add: retained_def)

lemma retained_append:
  assumes "0 < n"
  shows "trim_left n (retained n k bs @
      [\<lparr>sr_stream = snd k, sr_position = StreamPosition (int (length bs) + 1), sr_payload = b\<rparr>])
    = retained n k (bs @ [b])"
proof -
  let ?gone = "length bs - nat n"
  have "retained n k bs @ [\<lparr>sr_stream = snd k, sr_position = StreamPosition (int (length bs) + 1),
      sr_payload = b\<rparr>] = number_from (snd k) (int ?gone + 1) (drop ?gone bs @ [b])"
    by (simp add: retained_def expired_count_def Let_def number_from_append)
  moreover have "keep_last n (number_from (snd k) (int ?gone + 1) (drop ?gone bs @ [b]))
      = retained n k (bs @ [b])"
  proof (cases "nat n \<le> length bs")
    case True
    have "length (drop ?gone bs @ [b]) - nat n = 1" using True by simp
    moreover have "length (bs @ [b]) - nat n = Suc ?gone" using True by simp
    moreover have "drop 1 (drop ?gone bs @ [b]) = drop (Suc ?gone) (bs @ [b])"
      using True assms by simp
    ultimately show ?thesis
      by (simp add: keep_last_def drop_number_from retained_def expired_count_def Let_def
          algebra_simps del: drop_append)
  next
    case False
    then show ?thesis
      by (simp add: keep_last_def retained_def expired_count_def Let_def)
  qed
  ultimately show ?thesis using assms by (simp add: trim_left_keep_last)
qed

definition stream_key_ok :: "StreamKey \<Rightarrow> bool" where
  "stream_key_ok k \<longleftrightarrow> validate_resource (PyStr (snd k)) = Inr (snd k)"

lemma stream_key_Inr: "stream_key ow st = Inr k \<Longrightarrow> stream_key_ok k"
  by (auto simp: stream_key_def stream_key_ok_def)

lemma append_section_refines:
  assumes "stream_rel c S" and "stream_key_ok k" and "length b \<le> MAX_CACHE_FEATURE_PAYLOAD_BYTES"
  shows "fst (append_section k b c) = fst (spec_append k b S)
    \<and> stream_rel (snd (append_section k b c)) (snd (spec_append k b S))"
proof -
  let ?bs = "queue_of (sp_log S) k"
  have rel: "sm_records c = dict_map (retained (sp_max_records S)) (sp_log S)"
    "sm_next_positions c = dict_map (\<lambda>k bs. int (length bs)) (sp_log S)"
    "sm_max_streams c = sp_max_streams S" "sm_max_records c = sp_max_records S" "0 < sp_max_records S"
    using assms(1) by (simp_all add: stream_rel_def)
  have latest: "latest_position k c = int (length ?bs)"
    by (simp add: latest_position_def rel queue_of_def split: option.splits)
  have records: "queue_of (sm_records c) k = retained (sp_max_records S) k ?bs"
    by (simp add: rel queue_of_dict_map)
  have mk: "make_StreamRecord (snd k) p b = Inr \<lparr>sr_stream = snd k, sr_position = p, sr_payload = b\<rparr>" for p
    using assms(2,3) by (simp add: make_StreamRecord_def stream_key_ok_def)
  have pos: "make_StreamPosition (PyInt (int (length ?bs) + 1)) =
      (if MAX_STREAM_POSITION < int (length ?bs) + 1 then Inl ValueError
       else Inr (StreamPosition (int (length ?bs) + 1)))"
    by (simp add: make_StreamPosition_def)
  show ?thesis
    using assms(1) retained_append [OF rel(5), of k ?bs b]
    by (simp add: append_section_def spec_append_def Let_def latest records mk pos)
       (simp add: stream_rel_def dict_map_set queue_of_dict_map add.commute [of 1])
qed

lemma read_records_refines:
  assumes "stream_rel c S"
  shows "read_records k after n c = spec_read k after n S"
proof -
  let ?bs = "queue_of (sp_log S) k" and ?max = "sp_max_records S"
  let ?gone = "expired_count ?max ?bs"
  have records: "queue_of (sm_records c) k = number_from (snd k) (int ?gone + 1) (drop ?gone ?bs)"
    using assms by (simp add: stream_rel_def queue_of_dict_map retained_def Let_def)
  show ?thesis
  proof (cases "drop ?gone ?bs")
    case Nil
    have "0 < nat ?max" using assms by (simp add: stream_rel_def)
    moreover have "length ?bs \<le> length ?bs - nat ?max" using Nil by (simp add: expired_count_def)
    ultimately have "length ?bs = 0" by arith
    then have "?bs = []" by simp
    then show ?thesis using records
      by (simp add: read_records_def spec_read_def Let_def expired_count_def split: option.splits)
  next
    case (Cons b bs')
    let ?start = "case after of None \<Rightarrow> 0 | Some p \<Rightarrow> position_value p"
    have flt: "filter (\<lambda>r. ?start < position_value (sr_position r)) (queue_of (sm_records c) k)
        = number_from (snd k) (int (max (nat ?start) ?gone) + 1) (drop (max (nat ?start) ?gone) ?bs)"
    proof -
      have "max ?start (int ?gone) = int (max (nat ?start) ?gone)" by simp
      moreover have "nat (?start - int ?gone) + ?gone = max (nat ?start) ?gone" by simp
      ultimately show ?thesis by (simp only: records filter_number_from drop_drop)
    qed
    have "?bs \<noteq> []" using Cons by auto
    obtain r rs where q: "queue_of (sm_records c) k = r # rs" "position_value (sr_position r) = int ?gone + 1"
      using records Cons by simp
    have "read_records k after n c = (if after \<noteq> None \<and> ?start < int ?gone
        then Inl CachePositionExpiredError
        else Inr (take (nat n)
          (filter (\<lambda>r. ?start < position_value (sr_position r)) (queue_of (sm_records c) k))))"
      by (simp only: read_records_def q(1) list.case Let_def q(2) add_diff_cancel_right')
    also have "\<dots> = spec_read k after n S"
      using \<open>?bs \<noteq> []\<close> by (simp only: flt spec_read_def Let_def if_False)
    finally show ?thesis .
  qed
qed

lemma fenced_section_refines:
  assumes "rel c a" and "bound = bound'"
    and "fst (body c) = fst (body' a)" and "rel (snd (body c)) (snd (body' a))"
  shows "fst (fenced_section bound f1 f2 lease body s c) = fst (fenced_section bound' f1 f2 lease body' s a)
    \<and> fst (snd (fenced_section bound f1 f2 lease body s c))
      = fst (snd (fenced_section bound' f1 f2 lease body' s a))
    \<and> rel (snd (snd (fenced_section bound f1 f2 lease body s c)))
        (snd (snd (fenced_section bound' f1 f2 lease body' s a)))"
  using assms
  by (simp add: fenced_section_def hold_fence_def case_prod_beta Let_def
      split: option.splits sum.splits)

definition system_rel ::
    "InMemoryLeaseCache \<times> InMemoryStreamCache \<Rightarrow> InMemoryLeaseCache \<times> stream_spec \<Rightarrow> bool" where
  "system_rel X Y \<longleftrightarrow> fst X = fst Y \<and> stream_rel (snd X) (snd Y)"

lemma stream_append_refines:
  assumes "stream_rel c S"
  shows "fst (stream_exec (SAppend f1 f2 ow st pl lease) (s, c))
      = fst (spec_exec (SAppend f1 f2 ow st pl lease) (s, S))
    \<and> system_rel (snd (stream_exec (SAppend f1 f2 ow st pl lease) (s, c)))
        (snd (spec_exec (SAppend f1 f2 ow st pl lease) (s, S)))"
proof (cases "stream_key ow st")
  case (Inl e)
  then show ?thesis using assms by (simp add: stream_append_def system_rel_def)
next
  case (Inr k)
  show ?thesis
  proof (cases "validate_payload pl")
    case (Inl e)
    then show ?thesis using \<open>stream_key ow st = Inr k\<close> assms
      by (simp add: stream_append_def system_rel_def)
  next
    case (Inr b)
    have body: "fst (append_section k b c) = fst (spec_append k b S)"
      "stream_rel (snd (append_section k b c)) (snd (spec_append k b S))"
      using append_section_refines [OF assms stream_key_Inr [OF \<open>stream_key ow st = Inr k\<close>], of b] Inr
      by simp_all
    have "(sm_lease_cache c \<noteq> None) = sp_fenced S" using assms by (simp add: stream_rel_def)
    from fenced_section_refines [where rel = stream_rel and body = "append_section k b"
        and body' = "spec_append k b", OF assms this body, of f1 f2 lease s]
    show ?thesis
      using \<open>stream_key ow st = Inr k\<close> Inr
      by (simp add: stream_append_def stream_fence_def system_rel_def case_prod_beta Let_def
          del: validate_payload_Inr_iff)
  qed
qed

lemma stream_exec_refines:
  assumes "system_rel X Y"
  shows "fst (stream_exec c X) = fst (spec_exec c Y) \<and> system_rel (snd (stream_exec c X)) (snd (spec_exec c Y))"
proof -
  obtain s x S where X: "X = (s, x)" and Y: "Y = (s, S)" and rel: "stream_rel x S"
    using assms by (cases X; cases Y) (auto simp: system_rel_def)
  have cons: "sm_consumer_positions x = sp_consumers S" "sm_max_consumers x = sp_max_consumers S"
    using rel by (simp_all add: stream_rel_def)
  have latest: "latest_position k x = int (length (queue_of (sp_log S) k))" for k
    using rel by (simp add: stream_rel_def latest_position_def queue_of_def split: option.splits)
  have keep: "stream_rel (x\<lparr>sm_consumer_positions := d\<rparr>) (S\<lparr>sp_consumers := d\<rparr>)" for d
    using rel by (simp add: stream_rel_def)
  show ?thesis
  proof (cases c)
    case (SAppend f1 f2 ow st pl lease)
    then show ?thesis using stream_append_refines [OF rel] X Y by simp
  next
    case (SRead ow st after n)
    then show ?thesis
      using rel by (simp add: X Y stream_read_def read_records_refines [OF rel] system_rel_def)
  next
    case (SReadConsumer ow st co n)
    then show ?thesis
      using rel by (simp add: X Y read_consumer_def read_records_refines [OF rel] system_rel_def cons)
  next
    case (SAcknowledge ow st co p)
    then show ?thesis
      using rel keep
      by (auto simp: X Y acknowledge_position_def spec_acknowledge_def system_rel_def cons latest Let_def
          checked_def split: sum.splits option.splits)
  next
    case (SForget ow st co)
    then show ?thesis
      using rel keep
      by (auto simp: X Y forget_consumer_def system_rel_def cons checked_def split: sum.splits)
  next
    case (SLease l)
    then show ?thesis using rel by (simp add: X Y system_rel_def)
  qed
qed

interpretation stream_log: refinement stream_exec spec_exec system_rel
  by unfold_locales (rule stream_exec_refines)

section \<open>Consequences of the refinement\<close>

definition new_stream_spec :: "pyobj \<Rightarrow> pyobj \<Rightarrow> pyobj \<Rightarrow> bool \<Rightarrow> stream_spec result" where
  "new_stream_spec records streams consumers fenced =
     res_bind (validate_positive_integer records) (\<lambda>mr.
     res_bind (validate_positive_integer streams) (\<lambda>ms.
     res_bind (validate_positive_integer consumers) (\<lambda>mc. Inr
       \<lparr>sp_max_records = mr, sp_max_streams = ms, sp_max_consumers = mc, sp_fenced = fenced,
        sp_log = [], sp_consumers = []\<rparr>)))"

lemma new_stream_rel:
  assumes "new_stream_cache mr ms mc = Inr c" and "new_stream_spec mr ms mc (ref \<noteq> None) = Inr S"
  shows "stream_rel (c\<lparr>sm_lease_cache := ref\<rparr>) S"
  using assms by (auto simp: new_stream_cache_def new_stream_spec_def stream_rel_def dict_map_def)

lemma new_stream_spec_exists:
  "new_stream_cache mr ms mc = Inr c \<Longrightarrow> \<exists>S. new_stream_spec mr ms mc fenced = Inr S"
  by (auto simp: new_stream_cache_def new_stream_spec_def)

abbreviation stream_step :: "stream_call \<Rightarrow> stream_system \<Rightarrow> stream_system" where
  "stream_step \<equiv> \<lambda>call X. snd (stream_exec call X)"

lemma run_stream_rel:
  assumes "new_stream_cache mr ms mc = Inr c" and "run stream_step cs (s, c\<lparr>sm_lease_cache := ref\<rparr>) = (s', c')"
  shows "\<exists>S. stream_rel c' S"
proof -
  obtain S where "new_stream_spec mr ms mc (ref \<noteq> None) = Inr S"
    using new_stream_spec_exists [OF assms(1)] by blast
  then have "system_rel (s, c\<lparr>sm_lease_cache := ref\<rparr>) (s, S)"
    using new_stream_rel [OF assms(1)] by (simp add: system_rel_def)
  from stream_log.run_related [OF this, of cs] show ?thesis
    using assms(2) by (auto simp: system_rel_def)
qed

lemma number_from_positions:
  "map (\<lambda>r. position_value (sr_position r)) (number_from st n bs) = [n..n + int (length bs) - 1]"
proof (induction st n bs rule: number_from.induct)
  case (2 st n b bs)
  have "n \<le> n + int (length (b # bs)) - 1" by simp
  then have "[n..n + int (length (b # bs)) - 1] = n # [n + 1..n + int (length (b # bs)) - 1]"
    by (rule upto_rec1)
  then show ?case using 2 by (simp add: algebra_simps)
qed simp

lemma take_number_from: "take m (number_from st n bs) = number_from st n (take m bs)"
  by (induction st n bs arbitrary: m rule: number_from.induct) (auto simp: take_Cons split: nat.splits)

lemma spec_read_positions:
  assumes "spec_read k (Some p) n S = Inr rs" and "0 \<le> position_value p"
  shows "map (\<lambda>r. position_value (sr_position r)) rs
    = [position_value p + 1..position_value p + int (length rs)]"
proof (cases "queue_of (sp_log S) k = []")
  case True
  then show ?thesis using assms by (simp add: spec_read_def Let_def)
next
  case False
  let ?bs = "queue_of (sp_log S) k"
  let ?gone = "expired_count (sp_max_records S) ?bs"
  have "\<not> position_value p < int ?gone"
    and rs: "rs = take (nat n) (number_from (snd k) (int (max (nat (position_value p)) ?gone) + 1)
        (drop (max (nat (position_value p)) ?gone) ?bs))"
    using assms False by (auto simp: spec_read_def Let_def split: if_splits)
  then have "int (max (nat (position_value p)) ?gone) = position_value p" by simp
  then show ?thesis
    using number_from_positions [of "snd k" "position_value p + 1"]
    by (simp add: rs take_number_from algebra_simps)
qed

subsection \<open>Reading in pages\<close>

text \<open>A stream with the complete log \<open>L\<close>, of which the first \<open>g\<close> records are gone.\<close>

definition stream_view :: "string \<Rightarrow> string \<Rightarrow> int \<Rightarrow> InMemoryStreamCache \<Rightarrow> StreamRecord list \<Rightarrow> nat \<Rightarrow> bool" where
  "stream_view ow st page c L g \<longleftrightarrow>
     (\<exists>k S. stream_key (PyStr ow) (PyStr st) = Inr k \<and> validate_limit (PyInt page) = Inr page \<and> stream_rel c S
       \<and> L = number_from (snd k) 1 (queue_of (sp_log S) k)
       \<and> g = expired_count (sp_max_records S) (queue_of (sp_log S) k))"

lemma number_from_nth: "i < length bs \<Longrightarrow> sr_position (number_from st n bs ! i) = StreamPosition (n + int i)"
  by (induction st n bs arbitrary: i rule: number_from.induct) (auto simp: nth_Cons split: nat.splits)

text \<open>A read of the specification, in terms of the numbered log.\<close>

lemma spec_read_pages:
  fixes k S
  defines "L \<equiv> number_from (snd k) 1 (queue_of (sp_log S) k)" and "g \<equiv> expired_count (sp_max_records S) (queue_of (sp_log S) k)"
  shows "spec_read k None n S = Inr (take (nat n) (drop g L))"
    and "m < g \<Longrightarrow> spec_read k (Some (StreamPosition (int m))) n S = Inl CachePositionExpiredError"
    and "g \<le> m \<Longrightarrow> spec_read k (Some (StreamPosition (int m))) n S = Inr (take (nat n) (drop m L))"
  by (auto simp: spec_read_def Let_def L_def g_def drop_number_from expired_count_def add.commute max_def)

interpretation stream_pages: paged_log "\<lambda>p c. stream_read (PyStr ow) (PyStr st) p (PyInt page) c" page "stream_view ow st page"
  for ow st page
proof unfold_locales
  fix c L g assume "stream_view ow st page c L g"
  then obtain k S where k: "stream_key (PyStr ow) (PyStr st) = Inr k" "validate_limit (PyInt page) = Inr page"
    and rel: "stream_rel c S" and L: "L = number_from (snd k) 1 (queue_of (sp_log S) k)"
    and g: "g = expired_count (sp_max_records S) (queue_of (sp_log S) k)"
    unfolding stream_view_def by blast
  show "0 < page" using k(2) by simp
  show "g \<le> length L" by (simp add: g L expired_count_def)
  have "0 < sp_max_records S" using rel by (simp add: stream_rel_def)
  then show "g < length L" if "L \<noteq> []" using that by (cases "queue_of (sp_log S) k") (auto simp: g L expired_count_def)
  show "sr_position (L ! i) = StreamPosition (int i + 1)" if "i < length L" for i
    using that by (simp add: L number_from_nth add.commute)
  have read: "stream_read (PyStr ow) (PyStr st) p (PyInt page) c = spec_read k p page S" for p
    using k by (simp add: stream_read_def read_records_refines [OF rel])
  show "stream_read (PyStr ow) (PyStr st) None (PyInt page) c = Inr (take (nat page) (drop g L))"
    unfolding read L g by (rule spec_read_pages)
  show "stream_read (PyStr ow) (PyStr st) (Some (StreamPosition (int n))) (PyInt page) c = Inl CachePositionExpiredError"
    if "n < g" for n using that unfolding read L g by (rule spec_read_pages)
  show "stream_read (PyStr ow) (PyStr st) (Some (StreamPosition (int n))) (PyInt page) c = Inr (take (nat page) (drop n L))"
    if "g \<le> n" for n using that unfolding read L g by (rule spec_read_pages)
qed

text \<open>Calls only extend the logs.\<close>

definition log_le :: "stream_spec \<Rightarrow> stream_spec \<Rightarrow> bool" where
  "log_le S T \<longleftrightarrow> sp_max_records T = sp_max_records S \<and> (\<forall>k. log_extends (queue_of (sp_log S) k) (queue_of (sp_log T) k))"

lemma log_le_refl [simp]: "log_le S S"
  by (simp add: log_le_def)

lemma log_le_trans: "log_le S T \<Longrightarrow> log_le T U \<Longrightarrow> log_le S U"
  by (auto simp: log_le_def intro: log_extends_trans)

lemma log_le_consumers: "log_le S (S\<lparr>sp_consumers := d\<rparr>)"
  by (simp add: log_le_def)

lemma spec_append_grows: "log_le S (snd (spec_append k b S))"
  by (simp add: spec_append_def Let_def log_le_def)

lemma spec_step_grows: "log_le (snd Y) (snd (snd (spec_exec call Y)))"
proof -
  obtain s S where Y: "Y = (s, S)" by fastforce
  have fenced: "log_le S (snd (snd (fenced_section bound f1 f2 lease (spec_append k b) s S)))" for bound f1 f2 lease k b
  proof -
    obtain r s' S' where f: "fenced_section bound f1 f2 lease (spec_append k b) s S = (r, s', S')" by (metis prod_cases3)
    then have "log_le S S'" by (cases rule: fenced_section_cases) (use spec_append_grows [of S k b] in auto)
    then show ?thesis using f by simp
  qed
  show ?thesis
    by (cases call) (auto simp: Y fenced log_le_consumers spec_acknowledge_def checked_def case_prod_beta Let_def split: sum.splits option.splits)
qed

abbreviation spec_step :: "stream_call \<Rightarrow> InMemoryLeaseCache \<times> stream_spec \<Rightarrow> InMemoryLeaseCache \<times> stream_spec" where
  "spec_step \<equiv> \<lambda>call Y. snd (spec_exec call Y)"

lemma spec_run_grows: "log_le (snd Y) (snd (run spec_step calls Y))"
  by (rule run_preorder [where R = "\<lambda>Y Z. log_le (snd Y) (snd Z)" and I = "\<lambda>_. True"])
     (auto intro: log_le_trans simp: spec_step_grows)

subsection \<open>Consumer positions\<close>

definition acknowledged :: "stream_system \<Rightarrow> StreamKey \<Rightarrow> string \<Rightarrow> StreamPosition option" where
  "acknowledged X k co = dict_get (sm_consumer_positions (snd X)) (k, co)"

definition forgets :: "stream_call \<Rightarrow> StreamKey \<Rightarrow> string \<Rightarrow> bool" where
  "forgets c k co \<longleftrightarrow> (case c of SForget ow st co' \<Rightarrow> stream_key ow st = Inr k \<and> co' = PyStr co | _ \<Rightarrow> False)"

lemma append_section_consumers:
  "sm_consumer_positions (snd (append_section k b c)) = sm_consumer_positions c"
  by (simp add: append_section_def Let_def checked_def split: sum.splits)

lemma stream_append_consumers:
  "sm_consumer_positions (snd (snd (stream_append f1 f2 ow st pl lease s c))) = sm_consumer_positions c"
proof -
  have "sm_consumer_positions (snd (snd (stream_fence f1 f2 lease (append_section k b) s c)))
      = sm_consumer_positions c" for k b
  proof -
    obtain r s' c' where f: "stream_fence f1 f2 lease (append_section k b) s c = (r, s', c')"
      by (metis prod_cases3)
    from f [unfolded stream_fence_def] have "sm_consumer_positions c' = sm_consumer_positions c"
      by (cases rule: fenced_section_cases) (use append_section_consumers [of k b c] in auto)
    then show ?thesis using f by simp
  qed
  then show ?thesis by (simp add: stream_append_def split: sum.splits)
qed

lemma stream_step_acknowledged:
  assumes "\<not> forgets c k co" and "acknowledged X k co = Some p"
  shows "\<exists>q. acknowledged (stream_step c X) k co = Some q \<and> p \<le> q"
proof -
  obtain s x where X: "X = (s, x)" by fastforce
  show ?thesis
  proof (cases c)
    case (SAppend f1 f2 ow st pl lease)
    then show ?thesis
      using assms(2) stream_append_consumers [of f1 f2 ow st pl lease s x]
      by (simp add: X acknowledged_def case_prod_beta Let_def)
  next
    case (SAcknowledge ow st co' q)
    then show ?thesis
      using assms(2)
      by (auto simp: X acknowledged_def acknowledge_position_def checked_def Let_def case_prod_beta
          split: sum.splits option.splits if_splits)
  next
    case (SForget ow st co')
    then show ?thesis
      using assms
      by (auto simp: X acknowledged_def forget_consumer_def forgets_def checked_def case_prod_beta
          split: sum.splits)
  qed (use assms(2) in \<open>simp_all add: X acknowledged_def\<close>)
qed

section \<open>Properties\<close>

definition demo_streams :: InMemoryStreamCache where
  "demo_streams = projr (new_stream_cache (PyInt 2) (PyInt 3) (PyInt 3))"

definition demo_spec :: stream_spec where
  "demo_spec = projr (new_stream_spec (PyInt 2) (PyInt 3) (PyInt 3) False)"

definition demo_append :: "8 word \<Rightarrow> stream_call" where
  "demo_append b = SAppend (Fin 0) (Fin 0) (PyStr ''o'') (PyStr ''s'') (PyBytes [b]) None"

lemma demo_streams_new: "new_stream_cache (PyInt 2) (PyInt 3) (PyInt 3) = Inr demo_streams"
  by (simp add: demo_streams_def new_stream_cache_def)

lemma demo_streams_unbound: "demo_streams = demo_streams\<lparr>sm_lease_cache := None\<rparr>"
  by (simp add: demo_streams_def new_stream_cache_def)

text \<open>C12: The stream cache is a window on complete logs. For every sequence of calls (appends, fenced
  or not, reads, consumer reads, acknowledgements, lease operations), each call returns what the
  specification with unbounded logs returns: positions count the appends of a stream from 1, a read
  returns the payloads after the given position without gaps, and a position older than the
  retained records raises \<open>CachePositionExpiredError\<close>.\<close>

theorem stream_cache_refines_log:
  assumes "new_stream_cache mr ms mc = Inr c" and "new_stream_spec mr ms mc (ref \<noteq> None) = Inr S"
  shows "results stream_exec cs (s, c\<lparr>sm_lease_cache := ref\<rparr>) = results spec_exec cs (s, S)"
  by (rule stream_log.same_results) (simp add: system_rel_def new_stream_rel [OF assms])

theorem stream_cache_refines_log_witness:
  "results stream_exec [demo_append 1, demo_append 2, demo_append 3] (demo_leases, demo_streams)
   = results spec_exec [demo_append 1, demo_append 2, demo_append 3] (demo_leases, demo_spec)"
proof -
  have "new_stream_spec (PyInt 2) (PyInt 3) (PyInt 3) (None \<noteq> (None :: nat option)) = Inr demo_spec"
    by (simp add: demo_spec_def new_stream_spec_def)
  from stream_cache_refines_log [OF demo_streams_new this] show ?thesis
    by (simp only: demo_streams_unbound [symmetric])
qed

text \<open>Retention is bounded and has no gaps. After any sequence of calls, the retained records of a
  stream are at most \<open>max_records\<close>, and their positions are consecutive and end with the latest one.\<close>

theorem stream_retention_contiguous:
  assumes "new_stream_cache mr ms mc = Inr c"
    and "run stream_step cs (s, c\<lparr>sm_lease_cache := ref\<rparr>) = (s', c')"
    and "dict_get (sm_records c') k = Some rs"
  shows "int (length rs) \<le> sm_max_records c'
    \<and> map (\<lambda>r. position_value (sr_position r)) rs
      = [latest_position k c' - int (length rs) + 1..latest_position k c']"
proof -
  obtain S where rel: "stream_rel c' S" using run_stream_rel [OF assms(1,2)] by blast
  obtain bs where bs: "dict_get (sp_log S) k = Some bs" and rs: "rs = retained (sp_max_records S) k bs"
    using rel assms(3) by (auto simp: stream_rel_def)
  let ?gone = "expired_count (sp_max_records S) bs"
  have latest: "latest_position k c' = int (length bs)"
    using rel bs by (simp add: stream_rel_def latest_position_def)
  have len: "int (length rs) = int (length bs) - int ?gone"
    by (simp add: rs retained_def Let_def expired_count_def)
  have "int (length bs) - int ?gone \<le> sp_max_records S"
  proof -
    have "0 < sp_max_records S" using rel by (simp add: stream_rel_def)
    then show ?thesis unfolding expired_count_def by linarith
  qed
  moreover have "sm_max_records c' = sp_max_records S" using rel by (simp add: stream_rel_def)
  moreover have "map (\<lambda>r. position_value (sr_position r)) rs
      = [int ?gone + 1..int ?gone + 1 + int (length rs) - 1]"
    unfolding rs retained_def Let_def number_from_positions by (simp add: number_from_positions)
  ultimately show ?thesis using len latest by simp
qed

theorem stream_retention_contiguous_witness:
  "map (\<lambda>r. position_value (sr_position r))
     [\<lparr>sr_stream = ''s'', sr_position = StreamPosition 2, sr_payload = [2]\<rparr>,
      \<lparr>sr_stream = ''s'', sr_position = StreamPosition 3, sr_payload = [3]\<rparr>] = [3 - 2 + 1..3]"
proof -
  let ?X = "run stream_step [demo_append 1, demo_append 2, demo_append 3]
      (demo_leases, demo_streams\<lparr>sm_lease_cache := None\<rparr>)"
  have pair: "?X = (fst ?X, snd ?X)" by simp
  have get: "dict_get (sm_records (snd ?X)) (''o'', ''s'') =
      Some [\<lparr>sr_stream = ''s'', sr_position = StreamPosition 2, sr_payload = [2]\<rparr>,
        \<lparr>sr_stream = ''s'', sr_position = StreamPosition 3, sr_payload = [3]\<rparr>]"
    by code_simp
  have latest: "latest_position (''o'', ''s'') (snd ?X) = 3" by code_simp
  from stream_retention_contiguous [OF demo_streams_new pair get] latest show ?thesis by simp
qed

text \<open>C13: A consumer never skips a record. If a consumer has acknowledged position \<open>p\<close> and its read
  returns, the records it gets are the ones at \<open>p + 1\<close>, \<open>p + 2\<close> and so on, without a gap; if some
  of them are no longer retained, the read raises instead.\<close>

theorem consumer_never_skips:
  assumes "new_stream_cache mr ms mc = Inr c"
    and "run stream_step cs (s, c\<lparr>sm_lease_cache := ref\<rparr>) = (s', c')"
    and "stream_key ow st = Inr k" and "acknowledged (s', c') k co = Some p"
    and "0 < position_value p"
    and "read_consumer ow st (PyStr co) n c' = Inr rs"
  shows "map (\<lambda>r. position_value (sr_position r)) rs
    = [position_value p + 1..position_value p + int (length rs)]"
proof -
  obtain S where rel: "stream_rel c' S" using run_stream_rel [OF assms(1,2)] by blast
  obtain m where "read_records k (Some p) m c' = Inr rs"
    using assms(3,4,6) by (auto simp: read_consumer_def acknowledged_def)
  then show ?thesis
    using spec_read_positions [of k p m S rs] assms(5) by (simp add: read_records_refines [OF rel])
qed

theorem consumer_never_skips_witness:
  "map (\<lambda>r. position_value (sr_position r))
     [\<lparr>sr_stream = ''s'', sr_position = StreamPosition 2, sr_payload = [2]\<rparr>] = [1 + 1..1 + 1]"
proof -
  let ?cs = "[demo_append 1, demo_append 2,
      SAcknowledge (PyStr ''o'') (PyStr ''s'') (PyStr ''c'') (StreamPosition 1)]"
  let ?X = "run stream_step ?cs (demo_leases, demo_streams\<lparr>sm_lease_cache := None\<rparr>)"
  have pair: "?X = (fst ?X, snd ?X)" by simp
  have key: "stream_key (PyStr ''o'') (PyStr ''s'') = Inr (''o'', ''s'')" by code_simp
  have ack: "acknowledged (fst ?X, snd ?X) (''o'', ''s'') ''c'' = Some (StreamPosition 1)" by code_simp
  have read: "read_consumer (PyStr ''o'') (PyStr ''s'') (PyStr ''c'') (PyInt 5) (snd ?X) =
      Inr [\<lparr>sr_stream = ''s'', sr_position = StreamPosition 2, sr_payload = [2]\<rparr>]"
    by code_simp
  from consumer_never_skips [OF demo_streams_new pair key ack _ read] show ?thesis by simp
qed

text \<open>Consumers do not move backwards. Through any calls that do not forget the consumer, its
  acknowledged position stays or grows.\<close>

theorem consumer_position_monotone:
  assumes "\<forall>c \<in> set cs. \<not> forgets c k co" and "acknowledged X k co = Some p"
  shows "\<exists>q. acknowledged (run stream_step cs X) k co = Some q \<and> p \<le> q"
  using assms
proof (induction cs arbitrary: X p)
  case (Cons c cs)
  obtain q where q: "acknowledged (stream_step c X) k co = Some q" "p \<le> q"
    using stream_step_acknowledged [of c k co X p] Cons.prems by auto
  obtain r where "acknowledged (run stream_step cs (stream_step c X)) k co = Some r" "q \<le> r"
    using Cons.IH [OF _ q(1)] Cons.prems(1) by auto
  then show ?case using q(2) by auto
qed simp

theorem consumer_position_monotone_witness:
  "\<exists>q. acknowledged (run stream_step [demo_append 3]
      (demo_leases, demo_streams\<lparr>sm_consumer_positions := [(((''o'', ''s''), ''c''), StreamPosition 1)]\<rparr>))
      (''o'', ''s'') ''c'' = Some q \<and> StreamPosition 1 \<le> q"
  by (rule consumer_position_monotone) (simp_all add: acknowledged_def demo_append_def forgets_def)

text \<open>A stale lease cannot append. An append fenced by a lease that is not current when it is
  validated raises and leaves the streams as they were.\<close>

theorem stale_lease_cannot_append:
  assumes "\<not> lease_current f2 l s"
  shows "(\<exists>e. fst (stream_append f1 f2 ow st pl (Some l) s c) = Inl e)
    \<and> snd (snd (stream_append f1 f2 ow st pl (Some l) s c)) = c"
proof -
  have "(\<exists>e. fst (stream_fence f1 f2 (Some l) body s c) = Inl e)
      \<and> snd (snd (stream_fence f1 f2 (Some l) body s c)) = c"
    for body :: "(InMemoryStreamCache, StreamPosition) pyop"
  proof -
    obtain r s' c' where f: "stream_fence f1 f2 (Some l) body s c = (r, s', c')" by (metis prod_cases3)
    from f [unfolded stream_fence_def] have "(\<exists>e. r = Inl e) \<and> c' = c"
      by (cases rule: fenced_section_cases) (use assms in auto)
    then show ?thesis using f by simp
  qed
  then show ?thesis by (simp add: stream_append_def split: sum.splits)
qed

theorem stale_lease_cannot_append_witness:
  "snd (snd (stream_append (Fin 0) (Fin 0) (PyStr ''o'') (PyStr ''s'') (PyBytes [1])
     (Some \<lparr>lt_owner = ''o'', lt_resource = ''r'', lt_holder = ''h'',
        lt_fencing_token = FencingToken 1, lt_expires_at = 10, lt_token = ''u''\<rparr>)
     demo_leases demo_streams)) = demo_streams"
proof -
  have "\<not> lease_current (Fin 0) \<lparr>lt_owner = ''o'', lt_resource = ''r'', lt_holder = ''h'',
      lt_fencing_token = FencingToken 1, lt_expires_at = 10, lt_token = ''u''\<rparr> demo_leases"
    by code_simp
  from stale_lease_cannot_append [OF this] show ?thesis by blast
qed

end
