(* ===== verification/PubSub_Cache.thy ===== *)
theory PubSub_Cache
  imports Stream_Cache
begin

text \<open>
  \<^verbatim>\<open>InMemoryPubSubCache\<close> and \<^verbatim>\<open>InMemoryPubSubSubscription\<close> of
  \<^verbatim>\<open>src/src/wybra/cache/memory_streams.py\<close>: topics whose subscribers have bounded buffers.

  Subscriptions are objects that the cache and their users share, so they live in a store indexed
  by address. A subscription's \<open>asyncio.Queue\<close> is the list of its waiting messages. A \<open>receive\<close>
  that finds the queue empty suspends; what it does when it is woken is \<open>receive_get\<close>, a step of its
  own, because the subscription may have been closed in between. The set of a topic's
  subscriptions is a list without duplicates; \<open>publish\<close> treats its members independently, so their
  order does not matter.
\<close>

section \<open>State\<close>

datatype pubsub_message = Payload bytes | SubscriptionClosed

record PubSubSubscription =
  sub_messages :: "pubsub_message list"
  sub_closed :: bool
  sub_topic :: StreamKey

record InMemoryPubSubCache =
  pb_buffer :: int
  pb_max_topics :: int
  pb_max_subscriptions :: int
  pb_subscriptions :: "(StreamKey, nat list) dict"
  pb_closed :: bool
  pb_store :: "nat \<Rightarrow> PubSubSubscription"
  pb_next_address :: nat

definition new_pubsub_cache :: "pyobj \<Rightarrow> pyobj \<Rightarrow> pyobj \<Rightarrow> InMemoryPubSubCache result" where
  "new_pubsub_cache buffer topics subscriptions =
     res_bind (validate_positive_integer buffer) (\<lambda>mb.
     res_bind (validate_positive_integer topics) (\<lambda>mt.
     res_bind (validate_positive_integer subscriptions) (\<lambda>ms. Inr
       \<lparr>pb_buffer = mb, pb_max_topics = mt, pb_max_subscriptions = ms, pb_subscriptions = [],
        pb_closed = False,
        pb_store = (\<lambda>_. \<lparr>sub_messages = [], sub_closed = True, sub_topic = ([], [])\<rparr>),
        pb_next_address = 0\<rparr>)))"

section \<open>Operations\<close>

abbreviation update_subscription ::
    "nat \<Rightarrow> PubSubSubscription \<Rightarrow> InMemoryPubSubCache \<Rightarrow> InMemoryPubSubCache" where
  "update_subscription a sub p \<equiv> p\<lparr>pb_store := (pb_store p)(a := sub)\<rparr>"

definition queue_full :: "nat \<Rightarrow> InMemoryPubSubCache \<Rightarrow> bool" where
  "queue_full a p \<longleftrightarrow> pb_buffer p \<le> int (length (sub_messages (pb_store p a)))"

definition mark_closed :: "nat \<Rightarrow> InMemoryPubSubCache \<Rightarrow> InMemoryPubSubCache" where
  "mark_closed a p =
     (let sub = pb_store p a in
      if sub_closed sub then p
      else let waiting = (if queue_full a p then tl (sub_messages sub) else sub_messages sub)
           in update_subscription a
                (sub\<lparr>sub_closed := True, sub_messages := waiting @ [SubscriptionClosed]\<rparr>) p)"

definition remove_subscription :: "StreamKey \<Rightarrow> nat \<Rightarrow> InMemoryPubSubCache \<Rightarrow> InMemoryPubSubCache" where
  "remove_subscription k a p =
     (case dict_get (pb_subscriptions p) k of
        None \<Rightarrow> p
      | Some subs \<Rightarrow>
          let rest = removeAll a subs in
          if rest = [] then p\<lparr>pb_subscriptions := dict_pop k (pb_subscriptions p)\<rparr>
          else p\<lparr>pb_subscriptions := dict_set k rest (pb_subscriptions p)\<rparr>)"

definition pubsub_require_open :: "InMemoryPubSubCache \<Rightarrow> unit result" where
  "pubsub_require_open p = (if pb_closed p then Inl CacheFeatureError else Inr ())"

text \<open>One round of the loop in \<open>publish\<close>.\<close>

definition publish_to :: "StreamKey \<Rightarrow> bytes \<Rightarrow> nat \<Rightarrow> InMemoryPubSubCache \<Rightarrow> InMemoryPubSubCache" where
  "publish_to k b a p =
     (if queue_full a p then remove_subscription k a (mark_closed a p)
      else let sub = pb_store p a
           in update_subscription a (sub\<lparr>sub_messages := sub_messages sub @ [Payload b]\<rparr>) p)"

definition pubsub_publish :: "pyobj \<Rightarrow> pyobj \<Rightarrow> pyobj \<Rightarrow> (InMemoryPubSubCache, unit) pyop" where
  "pubsub_publish owner topic payload p =
     checked (stream_key owner topic) p (\<lambda>k.
     checked (validate_payload payload) p (\<lambda>b.
     checked (pubsub_require_open p) p (\<lambda>_.
       (Inr (), fold (publish_to k b) (queue_of (pb_subscriptions p) k) p))))"

definition subscription_count :: "InMemoryPubSubCache \<Rightarrow> nat" where
  "subscription_count p = sum_list (map length (dict_values (pb_subscriptions p)))"

definition subscribe :: "pyobj \<Rightarrow> pyobj \<Rightarrow> (InMemoryPubSubCache, nat) pyop" where
  "subscribe owner topic p =
     checked (stream_key owner topic) p (\<lambda>k.
     checked (pubsub_require_open p) p (\<lambda>_.
       if dict_get (pb_subscriptions p) k = None
          \<and> pb_max_topics p \<le> int (length (pb_subscriptions p))
       then (Inl CacheFeatureError, p)
       else if pb_max_subscriptions p \<le> int (subscription_count p) then (Inl CacheFeatureError, p)
       else let a = pb_next_address p
            in (Inr a, p\<lparr>pb_store := (pb_store p)
                           (a := \<lparr>sub_messages = [], sub_closed = False, sub_topic = k\<rparr>),
                         pb_next_address := Suc a,
                         pb_subscriptions := queue_append k a (pb_subscriptions p)\<rparr>)))"

text \<open>What a \<open>receive\<close> finds: a message, a raise, or an empty queue to wait on.\<close>

datatype receive_outcome = Received bytes | Raised exn | Waiting

definition receive_get :: "nat \<Rightarrow> InMemoryPubSubCache \<Rightarrow> receive_outcome \<times> InMemoryPubSubCache" where
  "receive_get a p =
     (let sub = pb_store p a in
      case sub_messages sub of
        [] \<Rightarrow> (Waiting, p)
      | m # rest \<Rightarrow>
          let p1 = update_subscription a (sub\<lparr>sub_messages := rest\<rparr>) p
          in case m of SubscriptionClosed \<Rightarrow> (Raised CacheFeatureError, p1)
             | Payload b \<Rightarrow> (Received b, p1))"

definition receive ::
    "pyobj \<Rightarrow> nat \<Rightarrow> InMemoryPubSubCache \<Rightarrow> receive_outcome \<times> InMemoryPubSubCache" where
  "receive timeout a p =
     (if sub_closed (pb_store p a) then (Raised CacheFeatureError, p)
      else if timeout = PyNone then receive_get a p
      else case validate_positive_finite timeout of
          Inl e \<Rightarrow> (Raised e, p)
        | Inr t \<Rightarrow> receive_get a p)"

definition close_subscription :: "nat \<Rightarrow> InMemoryPubSubCache \<Rightarrow> InMemoryPubSubCache" where
  "close_subscription a p =
     (if sub_closed (pb_store p a) then p
      else mark_closed a (remove_subscription (sub_topic (pb_store p a)) a p))"

definition close_pubsub :: "InMemoryPubSubCache \<Rightarrow> InMemoryPubSubCache" where
  "close_pubsub p =
     (fold mark_closed (concat (dict_values (pb_subscriptions p))) (p\<lparr>pb_closed := True\<rparr>))
       \<lparr>pb_subscriptions := []\<rparr>"

section \<open>Calls\<close>

datatype pubsub_call =
    PPublish pyobj pyobj pyobj
  | PSubscribe pyobj pyobj
  | PReceive pyobj nat
  | PWake nat
  | PCloseSubscription nat
  | PClose

fun pubsub_step :: "pubsub_call \<Rightarrow> InMemoryPubSubCache \<Rightarrow> InMemoryPubSubCache" where
  "pubsub_step (PPublish ow tp pl) p = snd (pubsub_publish ow tp pl p)"
| "pubsub_step (PSubscribe ow tp) p = snd (subscribe ow tp p)"
| "pubsub_step (PReceive timeout a) p = snd (receive timeout a p)"
| "pubsub_step (PWake a) p = snd (receive_get a p)"
| "pubsub_step (PCloseSubscription a) p = close_subscription a p"
| "pubsub_step PClose p = close_pubsub p"

section \<open>Invariant\<close>

abbreviation listed :: "InMemoryPubSubCache \<Rightarrow> StreamKey \<Rightarrow> nat list" where
  "listed p k \<equiv> queue_of (pb_subscriptions p) k"

abbreviation is_open :: "nat \<Rightarrow> InMemoryPubSubCache \<Rightarrow> bool" where
  "is_open a p \<equiv> \<not> sub_closed (pb_store p a)"

abbreviation messages_of :: "nat \<Rightarrow> InMemoryPubSubCache \<Rightarrow> pubsub_message list" where
  "messages_of a p \<equiv> sub_messages (pb_store p a)"

abbreviation topic_of :: "nat \<Rightarrow> InMemoryPubSubCache \<Rightarrow> StreamKey" where
  "topic_of a p \<equiv> sub_topic (pb_store p a)"

text \<open>
  The registrations: the open subscriptions are exactly the registered ones, each under its own
  topic and once; topics without subscribers are not kept.
\<close>

definition pubsub_shape :: "InMemoryPubSubCache \<Rightarrow> bool" where
  "pubsub_shape p \<longleftrightarrow> distinct (dict_keys (pb_subscriptions p))
     \<and> (\<forall>k. dict_get (pb_subscriptions p) k \<noteq> Some [] \<and> distinct (listed p k))
     \<and> (\<forall>a k. a \<in> set (listed p k) \<longleftrightarrow> is_open a p \<and> topic_of a p = k)
     \<and> (\<forall>a. is_open a p \<longrightarrow> a < pb_next_address p)"

definition pubsub_buffers :: "InMemoryPubSubCache \<Rightarrow> bool" where
  "pubsub_buffers p \<longleftrightarrow> 0 < pb_buffer p
     \<and> (\<forall>a. int (length (messages_of a p)) \<le> pb_buffer p
          \<and> (is_open a p \<longrightarrow> SubscriptionClosed \<notin> set (messages_of a p)))"

definition pubsub_capacity :: "InMemoryPubSubCache \<Rightarrow> bool" where
  "pubsub_capacity p \<longleftrightarrow> int (length (pb_subscriptions p)) \<le> pb_max_topics p
     \<and> int (subscription_count p) \<le> pb_max_subscriptions p"

definition pubsub_inv :: "InMemoryPubSubCache \<Rightarrow> bool" where
  "pubsub_inv p \<longleftrightarrow> pubsub_shape p \<and> pubsub_buffers p \<and> pubsub_capacity p"

lemma new_pubsub_inv: "new_pubsub_cache mb mt ms = Inr p \<Longrightarrow> pubsub_inv p"
  by (auto simp: new_pubsub_cache_def pubsub_inv_def pubsub_shape_def pubsub_buffers_def
      pubsub_capacity_def subscription_count_def queue_of_def)

lemma subscription_count_items: "subscription_count p = length (dict_items (pb_subscriptions p))"
  by (simp add: subscription_count_def dict_items_def length_concat comp_def case_prod_beta)

text \<open>Taking a subscription out of service: it is marked closed and unregistered.\<close>

definition retire :: "StreamKey \<Rightarrow> nat \<Rightarrow> InMemoryPubSubCache \<Rightarrow> InMemoryPubSubCache" where
  "retire k a p = remove_subscription k a (mark_closed a p)"

lemma mark_remove_commute: "mark_closed a (remove_subscription k a p) = retire k a p"
proof -
  have q: "queue_full a (p\<lparr>pb_subscriptions := d\<rparr>) = queue_full a p" for d
    by (simp add: queue_full_def)
  show ?thesis
    by (simp add: retire_def mark_closed_def remove_subscription_def Let_def q split: option.splits)
qed

lemma mark_closed_fields [simp]:
  "pb_subscriptions (mark_closed a p) = pb_subscriptions p" "pb_closed (mark_closed a p) = pb_closed p"
  "pb_buffer (mark_closed a p) = pb_buffer p" "pb_next_address (mark_closed a p) = pb_next_address p"
  "pb_max_topics (mark_closed a p) = pb_max_topics p"
  "pb_max_subscriptions (mark_closed a p) = pb_max_subscriptions p"
  by (simp_all add: mark_closed_def Let_def)

lemma remove_subscription_fields [simp]:
  "pb_store (remove_subscription k a p) = pb_store p" "pb_closed (remove_subscription k a p) = pb_closed p"
  "pb_buffer (remove_subscription k a p) = pb_buffer p"
  "pb_next_address (remove_subscription k a p) = pb_next_address p"
  "pb_max_topics (remove_subscription k a p) = pb_max_topics p"
  "pb_max_subscriptions (remove_subscription k a p) = pb_max_subscriptions p"
  by (simp_all add: remove_subscription_def Let_def split: option.splits)

lemma listed_remove:
  "listed (remove_subscription k a p) k' = (if k' = k then removeAll a (listed p k) else listed p k')"
  by (auto simp: remove_subscription_def queue_of_def Let_def split: option.splits)

lemma store_mark_closed:
  "pb_store (mark_closed a p) a' = (if a' = a \<and> is_open a p
     then (pb_store p a)\<lparr>sub_closed := True, sub_messages :=
       (if queue_full a p then tl (messages_of a p) else messages_of a p) @ [SubscriptionClosed]\<rparr>
     else pb_store p a')"
  by (simp add: mark_closed_def Let_def)

lemma mark_closed_buffers:
  assumes "pubsub_buffers p"
  shows "pubsub_buffers (mark_closed a p)"
proof -
  have "int (length (messages_of a (mark_closed a p))) \<le> pb_buffer p"
    using assms by (auto simp: pubsub_buffers_def store_mark_closed queue_full_def not_le int_Suc)
  then show ?thesis
    using assms by (auto simp: pubsub_buffers_def store_mark_closed)
qed

lemma remove_subscription_capacity:
  assumes "distinct (dict_keys (pb_subscriptions p))" and "pubsub_capacity p"
  shows "pubsub_capacity (remove_subscription k a p)"
proof -
  let ?d = "pb_subscriptions p"
  have pop: "length (dict_items (dict_pop k ?d)) \<le> length (dict_items ?d)"
    using arg_cong [OF mset_dict_items_pop [OF assms(1), of k], of size] by simp
  have set: "length (dict_items (dict_set k rest ?d)) \<le> length (dict_items ?d)"
    if "length rest \<le> length (queue_of ?d k)" for rest
    using arg_cong [OF mset_dict_items_set [OF assms(1), of k rest], of size] that by simp
  have "length (removeAll a xs) \<le> length xs" for xs :: "nat list"
    by (simp add: removeAll_filter_not_eq)
  then have "length (dict_items (pb_subscriptions (remove_subscription k a p))) \<le> length (dict_items ?d)"
    using pop set by (auto simp: remove_subscription_def Let_def queue_of_def split: option.splits)
  moreover have "length (pb_subscriptions (remove_subscription k a p)) \<le> length ?d"
    using length_dict_pop [OF assms(1), of k]
    by (auto simp: remove_subscription_def Let_def length_dict_set split: option.splits)
  ultimately show ?thesis
    using assms(2) by (simp add: pubsub_capacity_def subscription_count_items)
qed

lemma retire_shape:
  assumes "pubsub_shape p" and "a \<in> set (listed p k)"
  shows "pubsub_shape (retire k a p)"
proof -
  let ?p = "remove_subscription k a (mark_closed a p)"
  have open_a: "is_open a p" "topic_of a p = k" using assms by (auto simp: pubsub_shape_def)
  have "distinct (dict_keys (pb_subscriptions ?p))"
    using assms(1) by (auto simp: pubsub_shape_def remove_subscription_def Let_def split: option.splits)
  moreover have "dict_get (pb_subscriptions ?p) k' \<noteq> Some []" for k'
    using assms(1) by (auto simp: pubsub_shape_def remove_subscription_def Let_def
        simp del: map_of_eq_Some_iff split: option.splits)
  moreover have "distinct (listed ?p k')" for k'
    using assms(1) by (auto simp: pubsub_shape_def listed_remove distinct_removeAll)
  moreover have "a' \<in> set (listed ?p k') \<longleftrightarrow> is_open a' ?p \<and> topic_of a' ?p = k'" for a' k'
    using assms(1) open_a by (auto simp: pubsub_shape_def listed_remove store_mark_closed)
  moreover have "a' < pb_next_address ?p" if "is_open a' ?p" for a'
    using assms(1) that by (auto simp: pubsub_shape_def store_mark_closed split: if_splits)
  ultimately show ?thesis unfolding retire_def pubsub_shape_def by blast
qed

lemma retire_inv:
  assumes "pubsub_inv p" and "a \<in> set (listed p k)"
  shows "pubsub_inv (retire k a p)"
proof -
  have "pubsub_buffers (retire k a p)"
    using mark_closed_buffers [of p a] assms(1)
    by (simp add: pubsub_inv_def retire_def pubsub_buffers_def)
  moreover have "pubsub_capacity (mark_closed a p)"
    using assms(1) by (simp add: pubsub_inv_def pubsub_capacity_def subscription_count_def)
  then have "pubsub_capacity (retire k a p)"
    unfolding retire_def using assms(1)
    by (intro remove_subscription_capacity) (simp_all add: pubsub_inv_def pubsub_shape_def)
  ultimately show ?thesis
    using retire_shape [OF _ assms(2)] assms(1) by (simp add: pubsub_inv_def)
qed

section \<open>Each call keeps the invariant\<close>

text \<open>Replacing the waiting messages of one subscription.\<close>

lemma update_messages_inv:
  assumes "pubsub_inv p" and "int (length ms) \<le> pb_buffer p"
    and "is_open a p \<Longrightarrow> SubscriptionClosed \<notin> set ms"
  shows "pubsub_inv (update_subscription a ((pb_store p a)\<lparr>sub_messages := ms\<rparr>) p)"
  using assms
  by (auto simp: pubsub_inv_def pubsub_shape_def pubsub_buffers_def pubsub_capacity_def
      subscription_count_def)

lemma publish_to_inv:
  assumes "pubsub_inv p" and "a \<in> set (listed p k)"
  shows "pubsub_inv (publish_to k b a p)"
proof (cases "queue_full a p")
  case True
  then show ?thesis using retire_inv [OF assms] by (simp add: publish_to_def retire_def)
next
  case False
  then show ?thesis
    using assms(1) update_messages_inv [OF assms(1), of "messages_of a p @ [Payload b]" a]
    by (auto simp: publish_to_def queue_full_def Let_def pubsub_inv_def pubsub_buffers_def)
qed

text \<open>What one delivery does to the subscriptions, itself and the others.\<close>

lemma publish_to_effect:
  assumes "pubsub_shape p" and "a \<in> set (listed p k)"
  shows "a' \<noteq> a \<Longrightarrow> pb_store (publish_to k b a p) a' = pb_store p a'"
    and "a' \<noteq> a \<Longrightarrow> a' \<in> set (listed (publish_to k b a p) k') \<longleftrightarrow> a' \<in> set (listed p k')"
    and "is_open a (publish_to k b a p) \<longleftrightarrow> \<not> queue_full a p"
    and "\<not> queue_full a p \<Longrightarrow> messages_of a (publish_to k b a p) = messages_of a p @ [Payload b]"
    and "topic_of a (publish_to k b a p) = topic_of a p"
proof -
  have open_a: "is_open a p" using assms by (auto simp: pubsub_shape_def)
  show "a' \<noteq> a \<Longrightarrow> pb_store (publish_to k b a p) a' = pb_store p a'"
    by (simp add: publish_to_def Let_def store_mark_closed)
  show "a' \<noteq> a \<Longrightarrow> a' \<in> set (listed (publish_to k b a p) k') \<longleftrightarrow> a' \<in> set (listed p k')"
    by (auto simp: publish_to_def Let_def listed_remove)
  show "is_open a (publish_to k b a p) \<longleftrightarrow> \<not> queue_full a p"
    using open_a by (simp add: publish_to_def Let_def store_mark_closed)
  show "\<not> queue_full a p \<Longrightarrow> messages_of a (publish_to k b a p) = messages_of a p @ [Payload b]"
    by (simp add: publish_to_def Let_def)
  show "topic_of a (publish_to k b a p) = topic_of a p"
    by (simp add: publish_to_def Let_def store_mark_closed)
qed

lemma publish_fold:
  assumes "pubsub_inv p" and "distinct xs" and "set xs \<subseteq> set (listed p k)"
  shows "pubsub_inv (fold (publish_to k b) xs p)
    \<and> (\<forall>a. a \<notin> set xs \<longrightarrow> pb_store (fold (publish_to k b) xs p) a = pb_store p a)
    \<and> (\<forall>a \<in> set xs. topic_of a (fold (publish_to k b) xs p) = topic_of a p
        \<and> (is_open a (fold (publish_to k b) xs p) \<longrightarrow>
            messages_of a (fold (publish_to k b) xs p) = messages_of a p @ [Payload b]))"
  using assms
proof (induction xs arbitrary: p)
  case (Cons x xs)
  let ?p1 = "publish_to k b x p"
  have shape: "pubsub_shape p" using Cons.prems(1) by (simp add: pubsub_inv_def)
  have x: "x \<in> set (listed p k)" "x \<notin> set xs" using Cons.prems by auto
  note eff = publish_to_effect [OF shape x(1)]
  have "y \<in> set (listed ?p1 k)" if "y \<in> set xs" for y
    using eff(2) [of y b k] that x(2) Cons.prems(3) by auto
  then have "set xs \<subseteq> set (listed ?p1 k)" by blast
  then have "pubsub_inv (fold (publish_to k b) xs ?p1)
    \<and> (\<forall>a. a \<notin> set xs \<longrightarrow> pb_store (fold (publish_to k b) xs ?p1) a = pb_store ?p1 a)
    \<and> (\<forall>a \<in> set xs. topic_of a (fold (publish_to k b) xs ?p1) = topic_of a ?p1
        \<and> (is_open a (fold (publish_to k b) xs ?p1) \<longrightarrow>
            messages_of a (fold (publish_to k b) xs ?p1) = messages_of a ?p1 @ [Payload b]))"
    using Cons publish_to_inv by simp
  moreover have "pb_store ?p1 a = pb_store p a" if "a \<in> set xs" for a
    using eff(1) that x(2) by metis
  ultimately show ?case using eff(1,3-5) x(2) by auto
qed simp

lemma mark_all_effect:
  "pubsub_buffers p \<Longrightarrow> pubsub_buffers (fold mark_closed xs p)"
  "is_open a (fold mark_closed xs p) \<longleftrightarrow> is_open a p \<and> a \<notin> set xs"
  "pb_next_address (fold mark_closed xs p) = pb_next_address p"
  "pb_max_topics (fold mark_closed xs p) = pb_max_topics p"
  "pb_max_subscriptions (fold mark_closed xs p) = pb_max_subscriptions p"
proof (induction xs arbitrary: p)
  case (Cons x xs)
  { case 1 then show ?case using Cons mark_closed_buffers by simp }
  { case 2 show ?case using Cons by (auto simp: store_mark_closed) }
qed (simp_all add: mark_closed_buffers)

lemma close_pubsub_inv:
  assumes "pubsub_inv p"
  shows "pubsub_inv (close_pubsub p) \<and> (\<forall>a. \<not> is_open a (close_pubsub p))"
proof -
  let ?all = "concat (dict_values (pb_subscriptions p))"
  let ?p1 = "fold mark_closed ?all (p\<lparr>pb_closed := True\<rparr>)"
  have "a \<in> set ?all" if "is_open a p" for a
  proof -
    have "a \<in> set (listed p (topic_of a p))"
      using that assms by (simp add: pubsub_inv_def pubsub_shape_def)
    then obtain subs where "dict_get (pb_subscriptions p) (topic_of a p) = Some subs" "a \<in> set subs"
      by (cases "dict_get (pb_subscriptions p) (topic_of a p)") (auto simp: queue_of_def)
    then show ?thesis by (force dest: map_of_SomeD)
  qed
  then have closed: "\<not> is_open a ?p1" for a by (auto simp: mark_all_effect(2))
  have "pubsub_buffers (p\<lparr>pb_closed := True\<rparr>)"
    using assms by (simp add: pubsub_inv_def pubsub_buffers_def)
  then have "pubsub_buffers ?p1" by (rule mark_all_effect(1))
  moreover have "0 \<le> pb_max_topics p" "0 \<le> pb_max_subscriptions p"
    using assms by (auto simp: pubsub_inv_def pubsub_capacity_def intro: order_trans)
  ultimately show ?thesis
    using closed
    by (simp add: close_pubsub_def pubsub_inv_def pubsub_shape_def pubsub_buffers_def pubsub_capacity_def
        subscription_count_def queue_of_def mark_all_effect(3-5))
qed

lemma subscribe_inv:
  assumes "pubsub_inv p"
  shows "pubsub_inv (snd (subscribe ow tp p))"
proof (cases "\<exists>a. fst (subscribe ow tp p) = Inr a")
  case False
  then have "snd (subscribe ow tp p) = p"
    by (auto simp: subscribe_def checked_def Let_def split: sum.splits if_splits)
  then show ?thesis using assms by simp
next
  case True
  then obtain k where k: "stream_key ow tp = Inr k"
    and cap: "dict_get (pb_subscriptions p) k = None \<Longrightarrow>
        int (length (pb_subscriptions p)) < pb_max_topics p"
      "int (subscription_count p) < pb_max_subscriptions p"
    and eq: "snd (subscribe ow tp p) = p\<lparr>pb_store := (pb_store p)
          (pb_next_address p := \<lparr>sub_messages = [], sub_closed = False, sub_topic = k\<rparr>),
        pb_next_address := Suc (pb_next_address p),
        pb_subscriptions := queue_append k (pb_next_address p) (pb_subscriptions p)\<rparr>"
    by (auto simp: subscribe_def checked_def Let_def split: sum.splits if_splits)
  have dist: "distinct (dict_keys (pb_subscriptions p))"
    using assms by (simp add: pubsub_inv_def pubsub_shape_def)
  have closed: "\<not> is_open (pb_next_address p) p"
    using assms by (auto simp: pubsub_inv_def pubsub_shape_def)
  then have "pb_next_address p \<notin> set (listed p k')" for k'
    using assms by (simp add: pubsub_inv_def pubsub_shape_def)
  then have "pubsub_shape (snd (subscribe ow tp p))"
    using assms closed unfolding eq pubsub_inv_def pubsub_shape_def
    by (auto simp: queue_append_def less_Suc_eq simp del: map_of_eq_Some_iff)
  moreover have "pubsub_buffers (snd (subscribe ow tp p))"
    using assms unfolding eq pubsub_inv_def pubsub_buffers_def by auto
  moreover have "pubsub_capacity (snd (subscribe ow tp p))"
  proof -
    have "length (dict_items (queue_append k a (pb_subscriptions p)))
        = Suc (length (dict_items (pb_subscriptions p)))" for a
      using arg_cong [OF mset_dict_items_append [OF dist, of k a], of size] by simp
    moreover have "int (length (queue_append k a (pb_subscriptions p))) \<le> pb_max_topics p" for a
      using cap(1) assms by (auto simp: queue_append_def length_dict_set pubsub_inv_def pubsub_capacity_def)
    ultimately show ?thesis
      using cap(2) by (simp add: eq pubsub_capacity_def subscription_count_items)
  qed
  ultimately show ?thesis by (simp add: pubsub_inv_def)
qed

lemma receive_get_inv:
  assumes "pubsub_inv p"
  shows "pubsub_inv (snd (receive_get a p))"
proof (cases "messages_of a p")
  case (Cons m rest)
  have "pubsub_inv (update_subscription a ((pb_store p a)\<lparr>sub_messages := rest\<rparr>) p)"
  proof (rule update_messages_inv [OF assms])
    have "int (length (m # rest)) \<le> pb_buffer p"
      using assms Cons by (metis pubsub_buffers_def pubsub_inv_def)
    then show "int (length rest) \<le> pb_buffer p" by simp
    show "SubscriptionClosed \<notin> set rest" if "is_open a p"
      using assms that Cons by (metis list.set_intros(2) pubsub_buffers_def pubsub_inv_def)
  qed
  then show ?thesis using Cons by (simp add: receive_get_def Let_def split: pubsub_message.splits)
qed (simp add: receive_get_def assms)

lemma receive_state: "snd (receive timeout a p) = p \<or> snd (receive timeout a p) = snd (receive_get a p)"
  by (simp add: receive_def split: sum.splits)

lemma close_subscription_inv:
  assumes "pubsub_inv p"
  shows "pubsub_inv (close_subscription a p)"
proof (cases "is_open a p")
  case True
  then have "a \<in> set (listed p (topic_of a p))"
    using assms by (simp add: pubsub_inv_def pubsub_shape_def)
  then show ?thesis using retire_inv [OF assms] True
    by (simp add: close_subscription_def mark_remove_commute)
qed (simp add: close_subscription_def assms)

lemma publish_effect:
  assumes "pubsub_inv p"
  obtains (refused) e where "pubsub_publish ow tp pl p = (Inl e, p)"
  | (sent) k b p' where "pubsub_publish ow tp pl p = (Inr (), p')" "stream_key ow tp = Inr k"
    "pl = PyBytes b" "pubsub_inv p'"
    "\<And>a. a \<notin> set (listed p k) \<Longrightarrow> pb_store p' a = pb_store p a"
    "\<And>a. a \<in> set (listed p k) \<Longrightarrow> topic_of a p' = topic_of a p"
    "\<And>a. a \<in> set (listed p k) \<Longrightarrow> is_open a p' \<Longrightarrow> messages_of a p' = messages_of a p @ [Payload b]"
proof (cases "\<exists>e. fst (pubsub_publish ow tp pl p) = Inl e")
  case True
  then show thesis using refused
    by (auto simp: pubsub_publish_def checked_def split: sum.splits)
next
  case False
  then obtain k b where "stream_key ow tp = Inr k" "pl = PyBytes b"
    and eq: "pubsub_publish ow tp pl p = (Inr (), fold (publish_to k b) (listed p k) p)"
    by (auto simp: pubsub_publish_def checked_def split: sum.splits)
  moreover have "distinct (listed p k)" using assms by (simp add: pubsub_inv_def pubsub_shape_def)
  ultimately show thesis
    using sent [of "fold (publish_to k b) (listed p k) p" k b]
      publish_fold [OF assms, of "listed p k" k b] by simp
qed

lemma pubsub_step_inv:
  assumes "pubsub_inv p"
  shows "pubsub_inv (pubsub_step c p)"
proof (cases c)
  case (PPublish ow tp pl)
  show ?thesis
    by (cases rule: publish_effect [OF assms, of ow tp pl]) (use PPublish assms in simp_all)
next
  case (PReceive timeout a)
  then show ?thesis using assms receive_get_inv receive_state [of timeout a p] by auto
qed (use assms subscribe_inv receive_get_inv close_subscription_inv close_pubsub_inv in simp_all)

interpretation pubsub: guarded_machine pubsub_step pubsub_inv
  by unfold_locales (rule pubsub_step_inv)

section \<open>What a subscriber sees\<close>

fun published_to :: "StreamKey \<Rightarrow> pubsub_call \<Rightarrow> InMemoryPubSubCache \<Rightarrow> bytes list" where
  "published_to k (PPublish ow tp pl) p =
     (if stream_key ow tp = Inr k \<and> fst (pubsub_publish ow tp pl p) = Inr ()
      then case pl of PyBytes b \<Rightarrow> [b] | _ \<Rightarrow> [] else [])"
| "published_to k _ p = []"

fun outcome_bytes :: "receive_outcome \<Rightarrow> bytes list" where
  "outcome_bytes (Received b) = [b]"
| "outcome_bytes _ = []"

fun received_by :: "nat \<Rightarrow> pubsub_call \<Rightarrow> InMemoryPubSubCache \<Rightarrow> bytes list" where
  "received_by a (PReceive timeout a') p = (if a' = a then outcome_bytes (fst (receive timeout a p)) else [])"
| "received_by a (PWake a') p = (if a' = a then outcome_bytes (fst (receive_get a p)) else [])"
| "received_by a _ p = []"

fun over_run ::
    "(pubsub_call \<Rightarrow> InMemoryPubSubCache \<Rightarrow> 'x list) \<Rightarrow> pubsub_call list \<Rightarrow> InMemoryPubSubCache \<Rightarrow> 'x list"
where
  "over_run f [] p = []"
| "over_run f (c # cs) p = f c p @ over_run f cs (pubsub_step c p)"

lemma receive_get_other: "a' \<noteq> a \<Longrightarrow> pb_store (snd (receive_get a' p)) a = pb_store p a"
  by (simp add: receive_get_def Let_def split: list.splits pubsub_message.splits)

lemma receive_get_self:
  assumes "pubsub_inv p" and "is_open a p"
  shows "messages_of a p = map Payload (outcome_bytes (fst (receive_get a p)))
      @ messages_of a (snd (receive_get a p))"
    and "topic_of a (snd (receive_get a p)) = topic_of a p"
    and "is_open a (snd (receive_get a p))"
proof -
  have "SubscriptionClosed \<notin> set (messages_of a p)"
    using assms by (simp add: pubsub_inv_def pubsub_buffers_def)
  then show "messages_of a p = map Payload (outcome_bytes (fst (receive_get a p)))
      @ messages_of a (snd (receive_get a p))"
    by (auto simp: receive_get_def Let_def split: list.splits pubsub_message.splits)
  show "topic_of a (snd (receive_get a p)) = topic_of a p" "is_open a (snd (receive_get a p))"
    using assms(2) by (auto simp: receive_get_def Let_def split: list.splits pubsub_message.splits)
qed

text \<open>One call, seen by a subscription that is open before and after it.\<close>

lemma open_subscriber_step:
  assumes "pubsub_inv p" and "is_open a p" and "is_open a (pubsub_step c p)"
  shows "messages_of a p @ map Payload (published_to (topic_of a p) c p)
      = map Payload (received_by a c p) @ messages_of a (pubsub_step c p)
    \<and> topic_of a (pubsub_step c p) = topic_of a p"
proof (cases c)
  case (PPublish ow tp pl)
  show ?thesis
  proof (cases rule: publish_effect [OF assms(1), of ow tp pl])
    case (1 e)
    then show ?thesis using PPublish by simp
  next
    case (2 k b p')
    have "a \<in> set (listed p k) \<longleftrightarrow> topic_of a p = k"
      using assms(1,2) by (simp add: pubsub_inv_def pubsub_shape_def)
    then show ?thesis
      using 2(1-3) 2(5) [of a] 2(6) [of a] 2(7) [of a] PPublish assms(3)
      by (cases "topic_of a p = k") auto
  qed
next
  case (PSubscribe ow tp)
  have "a < pb_next_address p"
    using assms(1,2) by (simp add: pubsub_inv_def pubsub_shape_def)
  then have "pb_store (snd (subscribe ow tp p)) a = pb_store p a"
    by (auto simp: subscribe_def checked_def Let_def split: sum.splits)
  then show ?thesis using PSubscribe by simp
next
  case (PReceive timeout a')
  show ?thesis
  proof (cases "a' = a")
    case True
    then show ?thesis
      using PReceive receive_get_self [OF assms(1,2)] assms(2)
      by (auto simp: receive_def split: sum.splits)
  next
    case False
    then show ?thesis
      using PReceive receive_get_other [OF False, of p] receive_state [of timeout a' p] by auto
  qed
next
  case (PWake a')
  then show ?thesis
    using receive_get_self [OF assms(1,2)] receive_get_other [of a' a p] by (cases "a' = a") auto
next
  case (PCloseSubscription a')
  then show ?thesis using assms(2,3)
    by (auto simp: close_subscription_def mark_remove_commute retire_def store_mark_closed split: if_splits)
next
  case PClose
  then show ?thesis using assms close_pubsub_inv by simp
qed

text \<open>Closing is final: a subscription that exists and is open after a call was open before it.\<close>

lemma next_address_mono: "pb_next_address p \<le> pb_next_address (pubsub_step c p)"
proof -
  have "pb_next_address (fold (publish_to k b) xs p) = pb_next_address p" for k b xs p
    by (induction xs arbitrary: p) (simp_all add: publish_to_def Let_def)
  then show ?thesis
    by (cases c) (auto simp: pubsub_publish_def subscribe_def receive_def receive_get_def
        close_subscription_def close_pubsub_def checked_def Let_def mark_all_effect(3)
        split: sum.splits list.splits pubsub_message.splits)
qed

lemma open_before_step:
  assumes "pubsub_inv p" and "a < pb_next_address p" and "is_open a (pubsub_step c p)"
  shows "is_open a p"
proof (cases c)
  case (PPublish ow tp pl)
  show ?thesis
  proof (cases rule: publish_effect [OF assms(1), of ow tp pl])
    case (1 e)
    then show ?thesis using PPublish assms(3) by simp
  next
    case (2 k b p')
    have "is_open a p" if "a \<in> set (listed p k)"
      using assms(1) that by (auto simp: pubsub_inv_def pubsub_shape_def)
    then show ?thesis using 2(1) 2(5) [of a] PPublish assms(3) by (cases "a \<in> set (listed p k)") auto
  qed
next
  case (PSubscribe ow tp)
  have "pb_store (snd (subscribe ow tp p)) a = pb_store p a"
    using assms(2) by (auto simp: subscribe_def checked_def Let_def split: sum.splits)
  then show ?thesis using PSubscribe assms(3) by simp
next
  case PClose
  then show ?thesis using assms close_pubsub_inv by simp
qed (use assms(3) in \<open>auto simp: receive_def receive_get_def close_subscription_def Let_def
      store_mark_closed split: sum.splits list.splits pubsub_message.splits if_splits\<close>)

lemma open_before_run:
  assumes "pubsub_inv p" and "a < pb_next_address p" and "is_open a (run pubsub_step cs p)"
  shows "is_open a p"
  using assms
proof (induction cs arbitrary: p)
  case (Cons c cs)
  have "is_open a (pubsub_step c p)"
    using Cons.IH [of "pubsub_step c p"] Cons.prems pubsub_step_inv
      less_le_trans [OF Cons.prems(2) next_address_mono [of p c]] by simp
  then show ?case using open_before_step Cons.prems(1,2) by blast
qed simp

section \<open>Properties\<close>

definition demo_pubsub :: InMemoryPubSubCache where
  "demo_pubsub = snd (subscribe (PyStr ''o'') (PyStr ''t'')
     (projr (new_pubsub_cache (PyInt 2) (PyInt 2) (PyInt 2))))"

text \<open>C14: A subscriber that stays open misses nothing. Take a subscription that is open before and
  after a sequence of calls by anyone (publishing, subscribing, receiving, closing others). The
  messages that were waiting at first, followed by the payloads published to its topic, are the
  payloads it received, followed by those still waiting, in the same order.\<close>

theorem open_subscriber_misses_nothing:
  assumes "pubsub_inv p" and "is_open a p" and "is_open a (run pubsub_step cs p)"
  shows "messages_of a p @ map Payload (over_run (published_to (topic_of a p)) cs p)
    = map Payload (over_run (received_by a) cs p) @ messages_of a (run pubsub_step cs p)"
  using assms
proof (induction cs arbitrary: p)
  case (Cons c cs)
  let ?p1 = "pubsub_step c p"
  have inv1: "pubsub_inv ?p1" by (rule pubsub_step_inv [OF Cons.prems(1)])
  have "a < pb_next_address p"
    using Cons.prems(1,2) by (simp add: pubsub_inv_def pubsub_shape_def)
  then have open1: "is_open a ?p1"
    using open_before_run [OF inv1, of a cs] Cons.prems(3) next_address_mono [of p c] by simp
  note step = open_subscriber_step [OF Cons.prems(1,2) open1]
  have "messages_of a ?p1 @ map Payload (over_run (published_to (topic_of a ?p1)) cs ?p1)
      = map Payload (over_run (received_by a) cs ?p1) @ messages_of a (run pubsub_step cs ?p1)"
    by (rule Cons.IH [OF inv1 open1]) (use Cons.prems(3) in simp)
  then show ?case using step by simp (metis append.assoc)
qed simp

theorem open_subscriber_misses_nothing_witness:
  "messages_of 0 demo_pubsub @ map Payload (over_run (published_to (''o'', ''t''))
      [PPublish (PyStr ''o'') (PyStr ''t'') (PyBytes [1]), PReceive PyNone 0] demo_pubsub)
   = map Payload (over_run (received_by 0)
      [PPublish (PyStr ''o'') (PyStr ''t'') (PyBytes [1]), PReceive PyNone 0] demo_pubsub)
     @ messages_of 0 (run pubsub_step
      [PPublish (PyStr ''o'') (PyStr ''t'') (PyBytes [1]), PReceive PyNone 0] demo_pubsub)"
proof -
  have new: "new_pubsub_cache (PyInt 2) (PyInt 2) (PyInt 2)
      = Inr (projr (new_pubsub_cache (PyInt 2) (PyInt 2) (PyInt 2)))"
    by (simp add: new_pubsub_cache_def)
  have inv: "pubsub_inv demo_pubsub"
    unfolding demo_pubsub_def by (rule subscribe_inv [OF new_pubsub_inv [OF new]])
  have topic: "topic_of 0 demo_pubsub = (''o'', ''t'')" by code_simp
  have open0: "is_open 0 demo_pubsub" by code_simp
  have "is_open 0 (run pubsub_step
      [PPublish (PyStr ''o'') (PyStr ''t'') (PyBytes [1]), PReceive PyNone 0] demo_pubsub)"
    by code_simp
  from open_subscriber_misses_nothing [OF inv open0 this] show ?thesis by (simp only: topic)
qed

text \<open>From a new pub/sub cache, any sequence of calls keeps: no subscription buffers more than
  \<open>subscriber_buffer\<close> messages, the open subscriptions are exactly the registered ones, there are at
  most \<open>max_topics\<close> topics, none of them empty, and at most \<open>max_subscriptions\<close> subscriptions.\<close>

theorem pubsub_invariant:
  assumes "new_pubsub_cache mb mt ms = Inr p"
  shows "pubsub_inv (run pubsub_step cs p)"
  using pubsub.run_inv [OF new_pubsub_inv [OF assms]] .

theorem pubsub_invariant_witness:
  "pubsub_inv (run pubsub_step [PSubscribe (PyStr ''o'') (PyStr ''t'')]
     (projr (new_pubsub_cache (PyInt 2) (PyInt 2) (PyInt 2))))"
  by (rule pubsub_invariant [of "PyInt 2" "PyInt 2" "PyInt 2"]) (simp add: new_pubsub_cache_def)

end
