(* ===== verification/Schedule_Cache.thy ===== *)
theory Schedule_Cache
  imports Contracts
begin

text \<open>
  \<^verbatim>\<open>src/src/wybra/cache/memory_schedules.py\<close>: schedule records with revisions, exclusive claims that
  expire, and recurrence. Every operation is one section under the lock. Clock readings are
  arguments in the order the code takes them, and so is \<open>uuid4().hex\<close>.
\<close>

section \<open>State\<close>

type_synonym ScheduleKey = "string \<times> string"

record ClaimState =
  cs_claimant :: string
  cs_fencing_token :: FencingToken
  cs_expires_at :: pyfloat
  cs_token :: string
  cs_revision :: CacheRevision

record InMemoryScheduleCache =
  sd_max_records :: int
  sd_records :: "(ScheduleKey, ScheduleRecord) dict"
  sd_claims :: "(ScheduleKey, ClaimState) dict"
  sd_next_fencing_token :: nat
  sd_next_revision :: nat

definition new_schedule_cache :: "pyobj \<Rightarrow> InMemoryScheduleCache result" where
  "new_schedule_cache maximum =
     res_bind (validate_positive_integer maximum) (\<lambda>m.
       if MAX_CACHE_FEATURE_LIMIT < m then Inl ValueError
       else Inr \<lparr>sd_max_records = m, sd_records = [], sd_claims = [], sd_next_fencing_token = 0,
                 sd_next_revision = 0\<rparr>)"

section \<open>Helpers\<close>

definition schedule_key :: "pyobj \<Rightarrow> pyobj \<Rightarrow> ScheduleKey result" where
  "schedule_key owner identity =
     res_bind (validate_resource owner) (\<lambda>ow.
     res_bind (validate_resource identity) (\<lambda>idn. Inr (ow, idn)))"

definition claim_value :: "string \<Rightarrow> ScheduleRecord \<Rightarrow> ClaimState \<Rightarrow> ScheduleClaim result" where
  "claim_value owner record st =
     make_ScheduleClaim owner record (cs_claimant st) (cs_fencing_token st) (cs_expires_at st)
       (cs_token st)"

definition next_schedule_revision :: "(InMemoryScheduleCache, CacheRevision) pyop" where
  "next_schedule_revision s =
     (let n = Suc (sd_next_revision s)
      in (make_CacheRevision (PyInt (int n)), s\<lparr>sd_next_revision := n\<rparr>))"

definition recover_claims :: "pyfloat \<Rightarrow> InMemoryScheduleCache \<Rightarrow> InMemoryScheduleCache" where
  "recover_claims now s =
     (let expired = [k. (k, st) \<leftarrow> sd_claims s, cs_expires_at st \<le> now]
      in s\<lparr>sd_claims := dict_pop_all expired (sd_claims s)\<rparr>)"

text \<open>\<open>_next_due_at\<close>. The interval of a record is positive and finite.\<close>

definition next_due_at :: "ScheduleRecord \<Rightarrow> pyfloat \<Rightarrow> rat result" where
  "next_due_at record now =
     (case sc_interval_seconds record of
        None \<Rightarrow> Inl CacheFeatureError
      | Some interval \<Rightarrow>
          let due = Fin (sc_next_due_at record);
              first = due + Fin interval;
              later =
                (if first \<le> now then
                   let elapsed = now - due;
                       aligned = (case elapsed of
                           Fin x \<Rightarrow> now + (Fin interval - Fin (fmod_fin x interval))
                         | _ \<Rightarrow> first)
                   in if aligned \<le> now \<or> \<not> is_finite aligned then next_up now else aligned
                 else first)
          in case later of Fin x \<Rightarrow> Inr x | _ \<Rightarrow> Inl CacheFeatureError)"

definition required_claim ::
    "pyfloat \<Rightarrow> ScheduleClaim \<Rightarrow> (InMemoryScheduleCache, ScheduleKey \<times> ScheduleRecord) pyop" where
  "required_claim t1 claim s =
     (let s1 = recover_claims t1 s in
      checked (schedule_key (PyStr (cl_owner claim)) (PyStr (sc_identity (cl_record claim)))) s1 (\<lambda>k.
        case dict_get (sd_claims s1) k of
          None \<Rightarrow> (Inl CacheConflictError, s1)
        | Some st \<Rightarrow>
            if cs_token st \<noteq> cl_token claim then (Inl CacheConflictError, s1)
            else case dict_get (sd_records s1) k of
                None \<Rightarrow> (Inl CacheConflictError, s1)
              | Some record \<Rightarrow>
                  if cs_claimant st \<noteq> cl_claimant claim
                     \<or> cs_fencing_token st \<noteq> cl_fencing_token claim
                     \<or> cs_revision st \<noteq> sc_revision (cl_record claim)
                     \<or> sc_revision record \<noteq> sc_revision (cl_record claim)
                  then (Inl CacheConflictError, s1)
                  else (Inr (k, record), s1)))"

text \<open>\<open>store_record\<close> is the common end of the writes: a new revision, the record, then the store.\<close>

definition store_record ::
    "ScheduleKey \<Rightarrow> string \<Rightarrow> bytes \<Rightarrow> rat \<Rightarrow> rat option \<Rightarrow> (InMemoryScheduleCache, ScheduleRecord) pyop"
where
  "store_record k identity payload due interval s =
     py_bind (next_schedule_revision s) (\<lambda>rev s1.
     checked (make_ScheduleRecord identity rev payload (Fin due) interval) s1 (\<lambda>record.
       (Inr record, s1\<lparr>sd_records := dict_set k record (sd_records s1)\<rparr>)))"

definition drop_claim :: "ScheduleKey \<Rightarrow> InMemoryScheduleCache \<Rightarrow> InMemoryScheduleCache" where
  "drop_claim k s = s\<lparr>sd_claims := dict_pop k (sd_claims s)\<rparr>"

definition drop_record :: "ScheduleKey \<Rightarrow> InMemoryScheduleCache \<Rightarrow> InMemoryScheduleCache" where
  "drop_record k s = s\<lparr>sd_records := dict_pop k (sd_records s)\<rparr>"

section \<open>Operations\<close>

definition create_schedule ::
    "pyobj \<Rightarrow> pyobj \<Rightarrow> pyobj \<Rightarrow> pyobj \<Rightarrow> pyobj \<Rightarrow> (InMemoryScheduleCache, ScheduleRecord option) pyop"
where
  "create_schedule owner identity payload due interval s =
     checked (schedule_key owner identity) s (\<lambda>k.
     checked (validate_schedule_values payload due interval) s (\<lambda>(b, d, iv).
       if dict_get (sd_records s) k \<noteq> None then (Inr None, s)
       else if sd_max_records s \<le> int (length (sd_records s)) then (Inl CacheFeatureError, s)
       else py_bind (store_record k (snd k) b d iv s) (\<lambda>record s1. (Inr (Some record), s1))))"

definition update_schedule ::
    "pyfloat \<Rightarrow> pyobj \<Rightarrow> pyobj \<Rightarrow> CacheRevision \<Rightarrow> pyobj \<Rightarrow> pyobj \<Rightarrow> pyobj
      \<Rightarrow> (InMemoryScheduleCache, ScheduleRecord option) pyop" where
  "update_schedule t1 owner identity expected payload due interval s =
     checked (schedule_key owner identity) s (\<lambda>k.
     checked (validate_schedule_values payload due interval) s (\<lambda>(b, d, iv).
       let s1 = recover_claims t1 s in
       case dict_get (sd_records s1) k of
         None \<Rightarrow> (Inr None, s1)
       | Some current \<Rightarrow>
           if sc_revision current \<noteq> expected \<or> dict_get (sd_claims s1) k \<noteq> None
           then (Inr None, s1)
           else py_bind (store_record k (snd k) b d iv s1) (\<lambda>record s2. (Inr (Some record), s2))))"

definition delete_schedule :: "pyobj \<Rightarrow> pyobj \<Rightarrow> (InMemoryScheduleCache, bool) pyop" where
  "delete_schedule owner identity s =
     checked (schedule_key owner identity) s (\<lambda>k.
       (Inr (dict_get (sd_records s) k \<noteq> None), drop_record k (drop_claim k s)))"

abbreviation due_order :: "ScheduleRecord \<Rightarrow> rat \<times> string" where
  "due_order record \<equiv> (sc_next_due_at record, sc_identity record)"

definition due_records ::
    "string \<Rightarrow> rat \<Rightarrow> ScheduleCursor option \<Rightarrow> InMemoryScheduleCache \<Rightarrow> ScheduleRecord list" where
  "due_records owner before after s =
     sort_key due_order
       [record. (k, record) \<leftarrow> sd_records s,
          fst k = owner \<and> sc_next_due_at record \<le> before \<and> dict_get (sd_claims s) k = None
          \<and> (case after of None \<Rightarrow> True
             | Some c \<Rightarrow> (cu_next_due_at c, cu_identity c) < due_order record)]"

definition due ::
    "pyfloat \<Rightarrow> pyobj \<Rightarrow> pyobj \<Rightarrow> pyobj \<Rightarrow> ScheduleCursor option
      \<Rightarrow> (InMemoryScheduleCache, ScheduleRecord list) pyop" where
  "due t1 owner before limit after s =
     checked (validate_resource owner) s (\<lambda>ow.
     checked (validate_finite before) s (\<lambda>b.
     checked (validate_limit limit) s (\<lambda>n.
       let s1 = recover_claims t1 s
       in (Inr (take (nat n) (due_records ow b after s1)), s1))))"

definition claim_schedule ::
    "pyfloat \<Rightarrow> pyfloat \<Rightarrow> pyfloat \<Rightarrow> string \<Rightarrow> pyobj \<Rightarrow> pyobj \<Rightarrow> pyobj \<Rightarrow> pyobj
      \<Rightarrow> (InMemoryScheduleCache, ScheduleClaim option) pyop" where
  "claim_schedule t1 t2 t3 uid owner identity claimant ttl s =
     checked (schedule_key owner identity) s (\<lambda>k.
     checked (validate_resource claimant) s (\<lambda>ct.
     checked (validate_positive_finite ttl) s (\<lambda>d.
       let s1 = recover_claims t1 s in
       case dict_get (sd_records s1) k of
         None \<Rightarrow> (Inr None, s1)
       | Some record \<Rightarrow>
           if t2 < Fin (sc_next_due_at record) \<or> dict_get (sd_claims s1) k \<noteq> None
           then (Inr None, s1)
           else
             let n = Suc (sd_next_fencing_token s1);
                 s2 = s1\<lparr>sd_next_fencing_token := n\<rparr>
             in checked (make_FencingToken (PyInt (int n))) s2 (\<lambda>token.
               let st = \<lparr>cs_claimant = ct, cs_fencing_token = token, cs_expires_at = t3 + Fin d,
                         cs_token = uid, cs_revision = sc_revision record\<rparr>;
                   s3 = s2\<lparr>sd_claims := dict_set k st (sd_claims s2)\<rparr>
               in checked (claim_value (fst k) record st) s3 (\<lambda>c. (Inr (Some c), s3))))))"

definition complete ::
    "pyfloat \<Rightarrow> pyfloat \<Rightarrow> ScheduleClaim \<Rightarrow> (InMemoryScheduleCache, ScheduleRecord option) pyop" where
  "complete t1 t2 claim s =
     py_bind (required_claim t1 claim s) (\<lambda>(k, record) s1.
       if sc_interval_seconds record = None then (Inr None, drop_record k (drop_claim k s1))
       else checked (next_due_at record t2) s1 (\<lambda>d.
         py_bind (store_record k (sc_identity record) (sc_payload record) d
             (sc_interval_seconds record) s1) (\<lambda>updated s2.
           (Inr (Some updated), drop_claim k s2))))"

definition discard_claim :: "pyfloat \<Rightarrow> ScheduleClaim \<Rightarrow> (InMemoryScheduleCache, unit) pyop" where
  "discard_claim t1 claim s =
     py_bind (required_claim t1 claim s) (\<lambda>(k, record) s1.
       (Inr (), drop_record k (drop_claim k s1)))"

definition advance ::
    "pyfloat \<Rightarrow> ScheduleClaim \<Rightarrow> pyobj \<Rightarrow> pyobj \<Rightarrow> (InMemoryScheduleCache, ScheduleRecord) pyop" where
  "advance t1 claim payload next_due s =
     checked (validate_schedule_values payload next_due PyNone) s (\<lambda>(b, d, iv).
       py_bind (required_claim t1 claim s) (\<lambda>(k, record) s1.
         py_bind (store_record k (sc_identity record) b d (sc_interval_seconds record) s1)
           (\<lambda>updated s2. (Inr updated, drop_claim k s2))))"

definition held_claim :: "pyfloat \<Rightarrow> ScheduleClaim \<Rightarrow> (InMemoryScheduleCache, bool) pyop" where
  "held_claim t1 claim s =
     (case required_claim t1 claim s of
        (Inl CacheConflictError, s1) \<Rightarrow> (Inr False, s1)
      | (Inl e, s1) \<Rightarrow> (Inl e, s1)
      | (Inr _, s1) \<Rightarrow> (Inr True, s1))"

definition release_claim :: "pyfloat \<Rightarrow> ScheduleClaim \<Rightarrow> (InMemoryScheduleCache, unit) pyop" where
  "release_claim t1 claim s =
     py_bind (required_claim t1 claim s) (\<lambda>(k, record) s1. (Inr (), drop_claim k s1))"

section \<open>Calls\<close>

datatype schedule_call =
    DCreate pyobj pyobj pyobj pyobj pyobj
  | DUpdate pyfloat pyobj pyobj CacheRevision pyobj pyobj pyobj
  | DDelete pyobj pyobj
  | DDue pyfloat pyobj pyobj pyobj "ScheduleCursor option"
  | DClaim pyfloat pyfloat pyfloat string pyobj pyobj pyobj pyobj
  | DComplete pyfloat pyfloat ScheduleClaim
  | DDiscard pyfloat ScheduleClaim
  | DAdvance pyfloat ScheduleClaim pyobj pyobj
  | DHeld pyfloat ScheduleClaim
  | DRelease pyfloat ScheduleClaim

fun schedule_step :: "schedule_call \<Rightarrow> InMemoryScheduleCache \<Rightarrow> InMemoryScheduleCache" where
  "schedule_step (DCreate ow idn pl du iv) s = snd (create_schedule ow idn pl du iv s)"
| "schedule_step (DUpdate t1 ow idn expd pl du iv) s = snd (update_schedule t1 ow idn expd pl du iv s)"
| "schedule_step (DDelete ow idn) s = snd (delete_schedule ow idn s)"
| "schedule_step (DDue t1 ow be n af) s = snd (due t1 ow be n af s)"
| "schedule_step (DClaim t1 t2 t3 uid ow idn ct ttl) s = snd (claim_schedule t1 t2 t3 uid ow idn ct ttl s)"
| "schedule_step (DComplete t1 t2 cl) s = snd (complete t1 t2 cl s)"
| "schedule_step (DDiscard t1 cl) s = snd (discard_claim t1 cl s)"
| "schedule_step (DAdvance t1 cl pl du) s = snd (advance t1 cl pl du s)"
| "schedule_step (DHeld t1 cl) s = snd (held_claim t1 cl s)"
| "schedule_step (DRelease t1 cl) s = snd (release_claim t1 cl s)"

section \<open>Invariant\<close>

abbreviation record_stamp :: "ScheduleRecord \<Rightarrow> int" where
  "record_stamp r \<equiv> revision_value (sc_revision r)"

abbreviation claim_stamp :: "ClaimState \<Rightarrow> int" where
  "claim_stamp st \<equiv> fencing_value (cs_fencing_token st)"

definition record_ok :: "ScheduleKey \<Rightarrow> ScheduleRecord \<Rightarrow> bool" where
  "record_ok k r \<longleftrightarrow> sc_identity r = snd k \<and> validate_resource (PyStr (snd k)) = Inr (snd k)
     \<and> length (sc_payload r) \<le> MAX_CACHE_FEATURE_PAYLOAD_BYTES
     \<and> (\<forall>i. sc_interval_seconds r = Some i \<longrightarrow> 0 < i)"

definition sched_inv :: "InMemoryScheduleCache \<Rightarrow> bool" where
  "sched_inv s \<longleftrightarrow> stamped record_stamp (sd_next_revision s) (sd_records s)
     \<and> stamped claim_stamp (sd_next_fencing_token s) (sd_claims s)
     \<and> int (length (sd_records s)) \<le> sd_max_records s
     \<and> (\<forall>k r. dict_get (sd_records s) k = Some r \<longrightarrow> record_ok k r)
     \<and> (\<forall>k st. dict_get (sd_claims s) k = Some st \<longrightarrow>
          (\<exists>r. dict_get (sd_records s) k = Some r \<and> sc_revision r = cs_revision st))"

definition sched_evolves :: "InMemoryScheduleCache \<Rightarrow> InMemoryScheduleCache \<Rightarrow> bool" where
  "sched_evolves s s' \<longleftrightarrow> sd_next_revision s \<le> sd_next_revision s'
     \<and> sd_next_fencing_token s \<le> sd_next_fencing_token s'
     \<and> only_fresh record_stamp (sd_next_revision s) (sd_records s) (sd_records s')
     \<and> only_fresh claim_stamp (sd_next_fencing_token s) (sd_claims s) (sd_claims s')"

definition sched_ok :: "InMemoryScheduleCache \<Rightarrow> InMemoryScheduleCache \<Rightarrow> bool" where
  "sched_ok s s' \<longleftrightarrow> sched_inv s' \<and> sched_evolves s s'"

lemma new_schedule_cache_inv: "new_schedule_cache m = Inr s \<Longrightarrow> sched_inv s"
  by (auto simp: new_schedule_cache_def sched_inv_def split: if_splits)

lemma sched_ok_refl: "sched_inv s \<Longrightarrow> sched_ok s s"
  by (simp add: sched_ok_def sched_evolves_def)

lemma sched_ok_trans: "sched_ok s s' \<Longrightarrow> sched_ok s' s'' \<Longrightarrow> sched_ok s s''"
  by (auto simp: sched_ok_def sched_evolves_def intro: only_fresh_trans)

lemma sched_inv_distinct:
  assumes "sched_inv s"
  shows "distinct (dict_keys (sd_records s))" "distinct (dict_keys (sd_claims s))"
  using assms by (auto simp: sched_inv_def intro: stamped_distinct)

lemma filter_claims_ok:
  assumes "sched_inv s"
  shows "sched_ok s (s\<lparr>sd_claims := filter P (sd_claims s)\<rparr>)"
proof -
  have get: "dict_get (sd_claims s) k = Some st" if "dict_get (filter P (sd_claims s)) k = Some st" for k st
    using dict_get_filter_Some [OF sched_inv_distinct(2) [OF assms] that] .
  have "only_fresh claim_stamp n (sd_claims s) (filter P (sd_claims s))" for n
    by (rule only_fresh_filter [OF sched_inv_distinct(2) [OF assms]])
  then show ?thesis
    using assms get unfolding sched_ok_def sched_evolves_def sched_inv_def
    by (simp add: stamped_filter del: map_of_eq_Some_iff)
qed

lemma recover_claims_eq:
  assumes "sched_inv s"
  shows "recover_claims t s = s\<lparr>sd_claims := filter (\<lambda>p. \<not> cs_expires_at (snd p) \<le> t) (sd_claims s)\<rparr>"
  using dict_pop_expired [OF sched_inv_distinct(2) [OF assms], of "\<lambda>st. cs_expires_at st \<le> t"]
  by (simp add: recover_claims_def)

lemma recover_claims_ok: "sched_inv s \<Longrightarrow> sched_ok s (recover_claims t s)"
  by (simp add: recover_claims_eq filter_claims_ok)

lemma drop_claim_ok: "sched_inv s \<Longrightarrow> sched_ok s (drop_claim k s)"
  unfolding drop_claim_def AList.delete_eq by (rule filter_claims_ok)

lemma drop_record_ok:
  assumes "sched_inv s"
  shows "sched_ok s (drop_record k (drop_claim k s))"
proof -
  have "int (length (dict_pop k (sd_records s))) \<le> sd_max_records s"
    using assms length_dict_pop [OF sched_inv_distinct(1) [OF assms], of k]
    by (auto simp: sched_inv_def split: if_splits)
  then show ?thesis
    using assms
    by (auto simp: sched_ok_def sched_evolves_def sched_inv_def drop_record_def drop_claim_def
        stamped_pop only_fresh_pop simp del: map_of_eq_Some_iff)
qed

text \<open>Writing a record and ending the claim on it.\<close>

lemma store_record_eq:
  assumes "validate_resource (PyStr idn) = Inr idn" and "length b \<le> MAX_CACHE_FEATURE_PAYLOAD_BYTES"
    and "\<And>i. iv = Some i \<Longrightarrow> 0 < i"
  shows "store_record k idn b d iv s =
    (Inr \<lparr>sc_identity = idn, sc_revision = CacheRevision (int (Suc (sd_next_revision s))),
          sc_payload = b, sc_next_due_at = d, sc_interval_seconds = iv\<rparr>,
     s\<lparr>sd_next_revision := Suc (sd_next_revision s),
       sd_records := dict_set k
         \<lparr>sc_identity = idn, sc_revision = CacheRevision (int (Suc (sd_next_revision s))),
          sc_payload = b, sc_next_due_at = d, sc_interval_seconds = iv\<rparr> (sd_records s)\<rparr>)"
proof -
  have "make_ScheduleRecord idn revision b (Fin d) iv = Inr \<lparr>sc_identity = idn,
      sc_revision = revision, sc_payload = b, sc_next_due_at = d, sc_interval_seconds = iv\<rparr>" for revision
    using assms by (cases iv) (simp_all add: make_ScheduleRecord_def validate_positive_finite_def)
  then show ?thesis
    by (simp add: store_record_def next_schedule_revision_def Let_def del: of_nat_Suc)
qed

lemma store_record_ok:
  assumes "sched_inv s" and "validate_resource (PyStr (snd k)) = Inr (snd k)"
    and "length b \<le> MAX_CACHE_FEATURE_PAYLOAD_BYTES" and "\<And>i. iv = Some i \<Longrightarrow> 0 < i"
    and "dict_get (sd_records s) k = None \<Longrightarrow> int (length (sd_records s)) < sd_max_records s"
  shows "sched_ok s (drop_claim k (snd (store_record k (snd k) b d iv s)))"
proof -
  let ?r = "\<lparr>sc_identity = snd k, sc_revision = CacheRevision (int (Suc (sd_next_revision s))),
     sc_payload = b, sc_next_due_at = d, sc_interval_seconds = iv\<rparr>"
  have "stamped record_stamp (Suc (sd_next_revision s)) (dict_set k ?r (sd_records s))"
    using assms(1) by (intro stamped_set) (simp_all add: sched_inv_def)
  moreover have "record_ok k ?r" using assms(2-4) by (simp add: record_ok_def)
  moreover have "only_fresh record_stamp (sd_next_revision s) (sd_records s)
      (dict_set k ?r (sd_records s))"
    by (rule only_fresh_set) simp_all
  moreover have "int (length (dict_set k ?r (sd_records s))) \<le> sd_max_records s"
    using assms(1,5) by (auto simp: length_dict_set sched_inv_def)
  moreover have "snd (store_record k (snd k) b d iv s) =
      s\<lparr>sd_next_revision := Suc (sd_next_revision s), sd_records := dict_set k ?r (sd_records s)\<rparr>"
    using store_record_eq [OF assms(2,3), of iv k d s] assms(4) by simp
  ultimately show ?thesis
    using assms(1) unfolding sched_ok_def sched_evolves_def sched_inv_def drop_claim_def
    by (auto simp: stamped_pop only_fresh_pop simp del: map_of_eq_Some_iff of_nat_Suc)
qed

lemma claim_stored_ok:
  assumes "sched_inv s" and "dict_get (sd_records s) k = Some r"
    and "cs_fencing_token st = FencingToken (int (Suc (sd_next_fencing_token s)))"
    and "cs_revision st = sc_revision r"
  shows "sched_ok s (s\<lparr>sd_next_fencing_token := Suc (sd_next_fencing_token s),
                       sd_claims := dict_set k st (sd_claims s)\<rparr>)"
proof -
  have "stamped claim_stamp (Suc (sd_next_fencing_token s)) (dict_set k st (sd_claims s))"
    using assms(1,3) by (intro stamped_set) (simp_all add: sched_inv_def)
  moreover have "only_fresh claim_stamp (sd_next_fencing_token s) (sd_claims s)
      (dict_set k st (sd_claims s))"
    using assms(3) by (intro only_fresh_set) simp_all
  ultimately show ?thesis
    using assms by (simp add: sched_ok_def sched_evolves_def sched_inv_def)
qed

section \<open>Each call keeps the invariant\<close>

lemma schedule_key_Inr:
  "schedule_key ow idn = Inr k \<Longrightarrow> ow = PyStr (fst k) \<and> idn = PyStr (snd k)
     \<and> validate_resource (PyStr (snd k)) = Inr (snd k)"
  by (auto simp: schedule_key_def)

lemma validate_schedule_values_Inr:
  assumes "validate_schedule_values pl du iv = Inr (b, d, i)"
  shows "length b \<le> MAX_CACHE_FEATURE_PAYLOAD_BYTES" and "\<And>x. i = Some x \<Longrightarrow> 0 < x"
  using assms
  by (auto simp: validate_schedule_values_def dest: validate_positive_finite_pos split: if_splits)

text \<open>\<open>claim_current t1 claim k s\<close>: at reading \<open>t1\<close> the claim is the live one on its record.\<close>

definition claim_current :: "pyfloat \<Rightarrow> ScheduleClaim \<Rightarrow> ScheduleKey \<Rightarrow> InMemoryScheduleCache \<Rightarrow> bool" where
  "claim_current t1 claim k s \<longleftrightarrow>
     schedule_key (PyStr (cl_owner claim)) (PyStr (sc_identity (cl_record claim))) = Inr k
     \<and> (case dict_get (sd_claims s) k of None \<Rightarrow> False | Some st \<Rightarrow>
          \<not> cs_expires_at st \<le> t1 \<and> cs_token st = cl_token claim \<and> cs_claimant st = cl_claimant claim
          \<and> cs_fencing_token st = cl_fencing_token claim
          \<and> cs_revision st = sc_revision (cl_record claim))"

lemma recover_claims_get:
  assumes "sched_inv s"
  shows "dict_get (sd_claims (recover_claims t s)) k =
    (case dict_get (sd_claims s) k of None \<Rightarrow> None
     | Some st \<Rightarrow> if cs_expires_at st \<le> t then None else Some st)"
  using dict_get_filter [OF sched_inv_distinct(2) [OF assms], of "\<lambda>_ st. \<not> cs_expires_at st \<le> t" k]
  by (auto simp: recover_claims_eq [OF assms] simp del: map_of_eq_Some_iff split: option.splits)

lemma recover_claims_records [simp]: "sd_records (recover_claims t s) = sd_records s"
  "sd_max_records (recover_claims t s) = sd_max_records s"
  by (simp_all add: recover_claims_def Let_def)

lemma required_claim_cases:
  assumes "sched_inv s"
  obtains (stale) e where "required_claim t1 claim s = (Inl e, recover_claims t1 s)"
    "\<And>k. \<not> claim_current t1 claim k s"
  | (held) k rcd where "required_claim t1 claim s = (Inr (k, rcd), recover_claims t1 s)"
    "claim_current t1 claim k s" "dict_get (sd_records s) k = Some rcd"
proof -
  let ?s1 = "recover_claims t1 s"
  obtain r s1 where req: "required_claim t1 claim s = (r, s1)" by fastforce
  then have s1: "s1 = ?s1"
    by (auto simp: required_claim_def checked_def Let_def split: sum.splits option.splits if_splits)
  show thesis
  proof (cases r)
    case (Inr p)
    obtain k rcd where p: "p = (k, rcd)" by fastforce
    have "claim_current t1 claim k s \<and> dict_get (sd_records s) k = Some rcd"
      using req recover_claims_get [OF assms, of t1 k] unfolding Inr p
      by (auto simp: required_claim_def checked_def Let_def claim_current_def
          simp del: map_of_eq_Some_iff split: sum.splits option.splits if_splits)
    then show thesis using held req s1 Inr p by blast
  next
    case (Inl e)
    have "\<not> claim_current t1 claim k s" for k
    proof
      assume cur: "claim_current t1 claim k s"
      then obtain st where st: "dict_get (sd_claims s) k = Some st" "\<not> cs_expires_at st \<le> t1"
        by (auto simp: claim_current_def split: option.splits)
      then have "dict_get (sd_claims ?s1) k = Some st"
        using recover_claims_get [OF assms, of t1 k] by simp
      moreover obtain rcd where "dict_get (sd_records s) k = Some rcd"
        "sc_revision rcd = cs_revision st"
        using assms st(1) unfolding sched_inv_def by blast
      ultimately have "required_claim t1 claim s = (Inr (k, rcd), ?s1)"
        using cur st(1) by (auto simp: required_claim_def claim_current_def Let_def)
      then show False using req Inl by simp
    qed
    then show thesis using stale req s1 Inl by blast
  qed
qed

text \<open>Writing the successor of a claimed record succeeds and ends the claim.\<close>

lemma store_successor:
  assumes "sched_inv s" and "dict_get (sd_records s) k = Some rcd"
    and "length b \<le> MAX_CACHE_FEATURE_PAYLOAD_BYTES"
  obtains u s2 where "store_record k (sc_identity rcd) b d (sc_interval_seconds rcd) s = (Inr u, s2)"
    "sched_ok s (drop_claim k s2)" "sc_next_due_at u = d" "dict_get (sd_records s2) k = Some u"
proof -
  have ro: "record_ok k rcd" using assms(1,2) by (auto simp: sched_inv_def)
  obtain u s2 where st: "store_record k (sc_identity rcd) b d (sc_interval_seconds rcd) s = (Inr u, s2)"
    "sc_next_due_at u = d" "dict_get (sd_records s2) k = Some u"
    using store_record_eq [of "sc_identity rcd" b "sc_interval_seconds rcd" k d s] ro assms(3)
    by (simp add: record_ok_def del: map_of_eq_Some_iff)
  moreover have "sched_ok s (drop_claim k s2)"
    using store_record_ok [OF assms(1), of k b "sc_interval_seconds rcd" d] ro assms st(1)
    by (simp add: record_ok_def del: map_of_eq_Some_iff)
  ultimately show thesis using that by blast
qed

lemma complete_ok:
  assumes "sched_inv s"
  shows "sched_ok s (snd (complete t1 t2 claim s))"
proof (cases rule: required_claim_cases [OF assms, of t1 claim])
  case (1 e)
  then show ?thesis using recover_claims_ok [OF assms] by (simp add: complete_def)
next
  case (2 k rcd)
  let ?s1 = "recover_claims t1 s"
  have ok1: "sched_ok s ?s1" using recover_claims_ok [OF assms] .
  then have inv1: "sched_inv ?s1" by (simp add: sched_ok_def)
  have len: "length (sc_payload rcd) \<le> MAX_CACHE_FEATURE_PAYLOAD_BYTES"
    using assms 2(3) by (auto simp: sched_inv_def record_ok_def)
  have "sched_ok ?s1 (snd (complete t1 t2 claim s))"
  proof (cases "sc_interval_seconds rcd = None \<or> (\<exists>e. next_due_at rcd t2 = Inl e)")
    case True
    then show ?thesis
      using 2(1) drop_record_ok [OF inv1] sched_ok_refl [OF inv1] by (auto simp: complete_def)
  next
    case False
    then obtain d where d: "next_due_at rcd t2 = Inr d" "sc_interval_seconds rcd \<noteq> None"
      by (cases "next_due_at rcd t2") auto
    obtain u s2 where "store_record k (sc_identity rcd) (sc_payload rcd) d (sc_interval_seconds rcd) ?s1
        = (Inr u, s2)" "sched_ok ?s1 (drop_claim k s2)"
      by (rule store_successor [OF inv1 _ len, where k = k and rcd = rcd and d = d]) (use 2(3) in auto)
    then show ?thesis using 2(1) d by (auto simp: complete_def)
  qed
  then show ?thesis by (rule sched_ok_trans [OF ok1])
qed

lemma advance_ok:
  assumes "sched_inv s"
  shows "sched_ok s (snd (advance t1 claim pl du s))"
proof (cases "validate_schedule_values pl du PyNone")
  case (Inl e)
  then show ?thesis using sched_ok_refl [OF assms] by (simp add: advance_def)
next
  case (Inr v)
  obtain b d iv where v: "v = (b, d, iv)" by (metis prod_cases3)
  note len = validate_schedule_values_Inr(1) [OF Inr [unfolded v]]
  have ok1: "sched_ok s (recover_claims t1 s)" using recover_claims_ok [OF assms] .
  then have inv1: "sched_inv (recover_claims t1 s)" by (simp add: sched_ok_def)
  show ?thesis
  proof (cases rule: required_claim_cases [OF assms, of t1 claim])
    case (1 e)
    then show ?thesis using ok1 Inr v by (simp add: advance_def)
  next
    case (2 k rcd)
    obtain u s2 where "store_record k (sc_identity rcd) b d (sc_interval_seconds rcd) (recover_claims t1 s)
        = (Inr u, s2)" "sched_ok (recover_claims t1 s) (drop_claim k s2)"
      by (rule store_successor [OF inv1 _ len, where k = k and rcd = rcd and d = d]) (use 2(3) in auto)
    then show ?thesis using 2(1) Inr v sched_ok_trans [OF ok1] by (simp add: advance_def)
  qed
qed

lemma update_schedule_ok:
  assumes "sched_inv s"
  shows "sched_ok s (snd (update_schedule t1 ow idn expd pl du iv s))"
proof (cases "schedule_key ow idn")
  case (Inl e)
  then show ?thesis using sched_ok_refl [OF assms] by (simp add: update_schedule_def)
next
  case (Inr k)
  show ?thesis
  proof (cases "validate_schedule_values pl du iv")
    case (Inl e)
    then show ?thesis using \<open>schedule_key ow idn = Inr k\<close> sched_ok_refl [OF assms]
      by (simp add: update_schedule_def)
  next
    case (Inr v)
    obtain b d i where v: "v = (b, d, i)" by (metis prod_cases3)
    note vals = validate_schedule_values_Inr [OF Inr [unfolded v]]
    let ?s1 = "recover_claims t1 s"
    have ok1: "sched_ok s ?s1" using recover_claims_ok [OF assms] .
    then have inv1: "sched_inv ?s1" by (simp add: sched_ok_def)
    obtain u s2 where st: "store_record k (snd k) b d i ?s1 = (Inr u, s2)" "sd_claims s2 = sd_claims ?s1"
      using store_record_eq [of "snd k" b i k d ?s1] vals schedule_key_Inr [OF \<open>schedule_key ow idn = Inr k\<close>]
      by simp
    have "sched_ok ?s1 s2" if "dict_get (sd_records s) k \<noteq> None" "dict_get (sd_claims ?s1) k = None"
    proof -
      have "sched_ok ?s1 (drop_claim k s2)"
        using store_record_ok [OF inv1, of k b i d] vals st(1) that(1)
          schedule_key_Inr [OF \<open>schedule_key ow idn = Inr k\<close>] by simp
      moreover have "drop_claim k s2 = s2"
        using dict_pop_absent [OF that(2)] st(2) by (simp add: drop_claim_def)
      ultimately show ?thesis by simp
    qed
    then have "sched_ok ?s1 (snd (update_schedule t1 ow idn expd pl du iv s))"
      using \<open>schedule_key ow idn = Inr k\<close> Inr v st(1) sched_ok_refl [OF inv1]
      by (auto simp: update_schedule_def Let_def simp del: map_of_eq_Some_iff split: option.splits)
    then show ?thesis by (rule sched_ok_trans [OF ok1])
  qed
qed

lemma create_schedule_ok:
  assumes "sched_inv s"
  shows "sched_ok s (snd (create_schedule ow idn pl du iv s))"
proof (cases "\<exists>k v. schedule_key ow idn = Inr k \<and> validate_schedule_values pl du iv = Inr v")
  case False
  then show ?thesis using sched_ok_refl [OF assms]
    by (auto simp: create_schedule_def checked_def split: sum.splits)
next
  case True
  then obtain k b d i where k: "schedule_key ow idn = Inr k"
    and v: "validate_schedule_values pl du iv = Inr (b, d, i)" by auto
  note vals = validate_schedule_values_Inr [OF v]
  obtain u s2 where st: "store_record k (snd k) b d i s = (Inr u, s2)" "sd_claims s2 = sd_claims s"
    using store_record_eq [of "snd k" b i k d s] vals schedule_key_Inr [OF k] by simp
  have "sched_ok s s2"
    if new: "dict_get (sd_records s) k = None" and room: "int (length (sd_records s)) < sd_max_records s"
  proof -
    have "dict_get (sd_claims s) k = None"
      using new assms unfolding sched_inv_def by (metis option.exhaust option.simps(3))
    then have "dict_pop k (sd_claims s2) = sd_claims s2"
      using dict_pop_absent [of "sd_claims s2" k] st(2) by simp
    then have "drop_claim k s2 = s2" by (simp add: drop_claim_def)
    then show ?thesis
      using store_record_ok [OF assms, of k b i d] vals st(1) room schedule_key_Inr [OF k] by simp
  qed
  then show ?thesis
    using k v st(1) sched_ok_refl [OF assms]
    by (simp add: create_schedule_def)
qed

lemma claim_schedule_cases:
  assumes "sched_inv s"
  obtains (refused) r s' where "claim_schedule t1 t2 t3 uid ow idn ct ttl s = (r, s')" "sched_ok s s'"
    "\<And>c. r \<noteq> Inr (Some c)" "sd_records s' = sd_records s"
    "sd_next_fencing_token s' = sd_next_fencing_token s"
  | (granted) k h d rcd st where "schedule_key ow idn = Inr k" "validate_resource ct = Inr h"
    "validate_positive_finite ttl = Inr d" "dict_get (sd_records s) k = Some rcd"
    "\<not> t2 < Fin (sc_next_due_at rcd)" "dict_get (sd_claims (recover_claims t1 s)) k = None"
    "st = \<lparr>cs_claimant = h, cs_fencing_token = FencingToken (int (Suc (sd_next_fencing_token s))),
           cs_expires_at = t3 + Fin d, cs_token = uid, cs_revision = sc_revision rcd\<rparr>"
    "claim_schedule t1 t2 t3 uid ow idn ct ttl s =
       (map_sum id Some (claim_value (fst k) rcd st),
        (recover_claims t1 s)\<lparr>sd_next_fencing_token := Suc (sd_next_fencing_token s),
          sd_claims := dict_set k st (sd_claims (recover_claims t1 s))\<rparr>)"
    "sched_ok s (snd (claim_schedule t1 t2 t3 uid ow idn ct ttl s))"
proof -
  let ?s1 = "recover_claims t1 s"
  have ok1: "sched_ok s ?s1" using recover_claims_ok [OF assms] .
  then have inv1: "sched_inv ?s1" by (simp add: sched_ok_def)
  have fence: "sd_next_fencing_token ?s1 = sd_next_fencing_token s"
    by (simp add: recover_claims_def Let_def)
  show thesis
  proof (cases "\<exists>k h d rcd. schedule_key ow idn = Inr k \<and> validate_resource ct = Inr h
      \<and> validate_positive_finite ttl = Inr d \<and> dict_get (sd_records s) k = Some rcd
      \<and> \<not> t2 < Fin (sc_next_due_at rcd) \<and> dict_get (sd_claims ?s1) k = None")
    case False
    obtain r s' where c: "claim_schedule t1 t2 t3 uid ow idn ct ttl s = (r, s')" by fastforce
    have "(s' = s \<or> s' = ?s1) \<and> (\<forall>c. r \<noteq> Inr (Some c))"
      using c False
      by (auto simp: claim_schedule_def checked_def Let_def simp del: map_of_eq_Some_iff
          split: sum.splits option.splits if_splits)
    then show thesis using refused [OF c] ok1 sched_ok_refl [OF assms] fence by auto
  next
    case True
    then obtain k h d rcd where g: "schedule_key ow idn = Inr k" "validate_resource ct = Inr h"
      "validate_positive_finite ttl = Inr d" "dict_get (sd_records s) k = Some rcd"
      "\<not> t2 < Fin (sc_next_due_at rcd)" "dict_get (sd_claims ?s1) k = None" by blast
    define st where "st = \<lparr>cs_claimant = h,
      cs_fencing_token = FencingToken (int (Suc (sd_next_fencing_token s))),
      cs_expires_at = t3 + Fin d, cs_token = uid, cs_revision = sc_revision rcd\<rparr>"
    have eq: "claim_schedule t1 t2 t3 uid ow idn ct ttl s =
       (map_sum id Some (claim_value (fst k) rcd st),
        ?s1\<lparr>sd_next_fencing_token := Suc (sd_next_fencing_token s),
            sd_claims := dict_set k st (sd_claims ?s1)\<rparr>)"
      using g by (simp add: claim_schedule_def Let_def fence st_def checked_def
          del: of_nat_Suc validate_resource_Inr_iff map_of_eq_Some_iff split: sum.splits)
    have "sched_ok ?s1 (?s1\<lparr>sd_next_fencing_token := Suc (sd_next_fencing_token ?s1),
        sd_claims := dict_set k st (sd_claims ?s1)\<rparr>)"
      by (rule claim_stored_ok [OF inv1, of k rcd]) (use g(4) in \<open>simp_all add: st_def fence\<close>)
    then have "sched_ok s (snd (claim_schedule t1 t2 t3 uid ow idn ct ttl s))"
      using sched_ok_trans [OF ok1] by (simp add: eq fence)
    then show thesis using granted [OF g st_def eq] by blast
  qed
qed

lemma schedule_step_ok:
  assumes "sched_inv s"
  shows "sched_ok s (schedule_step c s)"
proof -
  have rec: "sched_ok s (recover_claims t s)" for t using recover_claims_ok [OF assms] .
  have inv1: "sched_inv (recover_claims t s)" for t using rec [of t] by (simp add: sched_ok_def)
  show ?thesis
  proof (cases c)
    case (DDelete ow idn)
    then show ?thesis using drop_record_ok [OF assms] sched_ok_refl [OF assms]
      by (auto simp: delete_schedule_def checked_def split: sum.splits)
  next
    case (DDue t1 ow be n af)
    then show ?thesis using rec sched_ok_refl [OF assms]
      by (auto simp: due_def checked_def Let_def split: sum.splits)
  next
    case (DClaim t1 t2 t3 uid ow idn ct ttl)
    show ?thesis
      by (cases rule: claim_schedule_cases [OF assms, of t1 t2 t3 uid ow idn ct ttl])
         (use DClaim in simp_all)
  next
    case (DDiscard t1 cl)
    show ?thesis
      by (cases rule: required_claim_cases [OF assms, of t1 cl])
         (use DDiscard rec sched_ok_trans [OF rec drop_record_ok [OF inv1]] in
          \<open>simp_all add: discard_claim_def\<close>)
  next
    case (DHeld t1 cl)
    then show ?thesis
      by (cases rule: required_claim_cases [OF assms, of t1 cl])
         (use rec in \<open>auto simp: held_claim_def split: exn.splits\<close>)
  next
    case (DRelease t1 cl)
    show ?thesis
      by (cases rule: required_claim_cases [OF assms, of t1 cl])
         (use DRelease rec sched_ok_trans [OF rec drop_claim_ok [OF inv1]] in
          \<open>simp_all add: release_claim_def\<close>)
  qed (use create_schedule_ok update_schedule_ok complete_ok advance_ok assms in simp_all)
qed

definition record_entry ::
    "InMemoryScheduleCache \<Rightarrow> ScheduleKey \<Rightarrow> (int \<times> string \<times> bytes \<times> rat \<times> rat option) option" where
  "record_entry s k = map_option (\<lambda>r. (record_stamp r, sc_identity r, sc_payload r, sc_next_due_at r,
     sc_interval_seconds r)) (dict_get (sd_records s) k)"

definition claim_entry ::
    "InMemoryScheduleCache \<Rightarrow> ScheduleKey \<Rightarrow> (int \<times> string \<times> string \<times> pyfloat \<times> CacheRevision) option" where
  "claim_entry s k = map_option (\<lambda>st. (claim_stamp st, cs_claimant st, cs_token st, cs_expires_at st,
     cs_revision st)) (dict_get (sd_claims s) k)"

interpretation schedule_records: ticketed_store schedule_step sched_inv sd_next_revision record_entry
proof unfold_locales
  fix s c k n v
  assume inv: "sched_inv s"
  note ok = schedule_step_ok [OF inv, of c]
  show "sched_inv (schedule_step c s)" "sd_next_revision s \<le> sd_next_revision (schedule_step c s)"
    using ok by (simp_all add: sched_ok_def sched_evolves_def)
  show "n \<le> int (sd_next_revision s)" if "record_entry s k = Some (n, v)"
    using that inv stamped_bound [of record_stamp] by (fastforce simp: record_entry_def sched_inv_def)
  show "record_entry s k = Some (n, v) \<or> int (sd_next_revision s) < n"
    if "record_entry (schedule_step c s) k = Some (n, v)"
    using that ok unfolding sched_ok_def sched_evolves_def only_fresh_def record_entry_def by fastforce
qed

interpretation schedule_claims: ticketed_store schedule_step sched_inv sd_next_fencing_token claim_entry
proof unfold_locales
  fix s c k n v
  assume inv: "sched_inv s"
  note ok = schedule_step_ok [OF inv, of c]
  show "sd_next_fencing_token s \<le> sd_next_fencing_token (schedule_step c s)"
    using ok by (simp add: sched_ok_def sched_evolves_def)
  show "n \<le> int (sd_next_fencing_token s)" if "claim_entry s k = Some (n, v)"
    using that inv stamped_bound [of claim_stamp] by (fastforce simp: claim_entry_def sched_inv_def)
  show "claim_entry s k = Some (n, v) \<or> int (sd_next_fencing_token s) < n"
    if "claim_entry (schedule_step c s) k = Some (n, v)"
    using that ok unfolding sched_ok_def sched_evolves_def only_fresh_def claim_entry_def by fastforce
qed

section \<open>Due records\<close>

definition due_candidates :: "string \<Rightarrow> rat \<Rightarrow> InMemoryScheduleCache \<Rightarrow> ScheduleRecord list" where
  "due_candidates owner before s =
     [r. (k, r) \<leftarrow> sd_records s,
        fst k = owner \<and> sc_next_due_at r \<le> before \<and> dict_get (sd_claims s) k = None]"

definition after_cursor :: "ScheduleCursor option \<Rightarrow> ScheduleRecord \<Rightarrow> bool" where
  "after_cursor after r =
     (case after of None \<Rightarrow> True | Some c \<Rightarrow> (cu_next_due_at c, cu_identity c) < due_order r)"

lemma due_records_filter:
  "due_records owner before after s
     = filter (after_cursor after) (sort_key due_order (due_candidates owner before s))"
proof -
  have "[r. (k, r) \<leftarrow> d, fst k = owner \<and> sc_next_due_at r \<le> before \<and> P k
        \<and> (case after of None \<Rightarrow> True | Some c \<Rightarrow> (cu_next_due_at c, cu_identity c) < due_order r)]
      = filter (after_cursor after) [r. (k, r) \<leftarrow> d, fst k = owner \<and> sc_next_due_at r \<le> before \<and> P k]"
    for d :: "(ScheduleKey, ScheduleRecord) dict" and P
    by (induction d) (auto simp: after_cursor_def)
  then show ?thesis
    by (simp add: due_records_def due_candidates_def filter_sort)
qed

lemma due_candidates_distinct:
  assumes "sched_inv s"
  shows "distinct (map sc_identity (due_candidates owner before s))"
proof -
  define F where "F = filter (\<lambda>p. fst (fst p) = owner \<and> sc_next_due_at (snd p) \<le> before
      \<and> dict_get (sd_claims s) (fst p) = None) (sd_records s)"
  have comp: "[r. (k, r) \<leftarrow> d, fst k = owner \<and> sc_next_due_at r \<le> before \<and> P k]
      = map snd (filter (\<lambda>p. fst (fst p) = owner \<and> sc_next_due_at (snd p) \<le> before \<and> P (fst p)) d)"
    for d :: "(ScheduleKey, ScheduleRecord) dict" and P
    by (induction d) auto
  have "sc_identity (snd p) = snd (fst p)" if "p \<in> set F" for p
  proof -
    have "dict_get (sd_records s) (fst p) = Some (snd p)"
      using that map_of_eq_Some_iff [OF sched_inv_distinct(1) [OF assms]] by (simp add: F_def)
    then have "record_ok (fst p) (snd p)" using assms unfolding sched_inv_def by blast
    then show ?thesis by (simp add: record_ok_def)
  qed
  then have "map sc_identity (map snd F) = map snd (map fst F)" by simp
  moreover have "distinct (map fst F)"
    using sched_inv_distinct(1) [OF assms] by (simp add: F_def distinct_map_filter)
  then have "distinct (map snd (map fst F))"
    unfolding distinct_map [of snd] by (auto simp: F_def inj_on_def)
  ultimately show ?thesis
    by (simp only: due_candidates_def comp [where P = "\<lambda>k. dict_get (sd_claims s) k = None"] F_def)
qed

lemma sort_key_strict:
  assumes "distinct (map sc_identity rs)"
  shows "sorted_wrt (\<lambda>a b. due_order a < due_order b) (sort_key due_order rs)"
proof -
  let ?L = "sort_key due_order rs"
  have sorted: "sorted_wrt (\<lambda>a b. due_order a \<le> due_order b) ?L"
    using sorted_sort_key [of due_order rs] by (simp add: sorted_map)
  have "distinct (map sc_identity ?L)"
    using assms by (metis distinct_map mset_map mset_sort mset_eq_imp_distinct_iff)
  then have neq: "sc_identity (?L ! i) \<noteq> sc_identity (?L ! j)" if "i < j" "j < length ?L" for i j
    using that by (auto simp: distinct_conv_nth)
  show ?thesis
    unfolding sorted_wrt_iff_nth_less
  proof (intro allI impI)
    fix i j
    assume "i < j" "j < length ?L"
    then have "due_order (?L ! i) \<le> due_order (?L ! j)" "sc_identity (?L ! i) \<noteq> sc_identity (?L ! j)"
      using sorted neq unfolding sorted_wrt_iff_nth_less by simp_all
    then show "due_order (?L ! i) < due_order (?L ! j)" by (auto simp: order_less_le)
  qed
qed

text \<open>In a strictly sorted list, what comes after an element is the rest of the list.\<close>

lemma filter_after_element:
  assumes "sorted_wrt (\<lambda>a b. f a < (f b :: 'o :: linorder)) L" and "i < length L"
  shows "filter (\<lambda>r. f (L ! i) < f r) L = drop (Suc i) L"
proof -
  have "L = take (Suc i) L @ drop (Suc i) L" by simp
  moreover have "filter (\<lambda>r. f (L ! i) < f r) (take (Suc i) L) = []"
  proof -
    have "\<not> f (L ! i) < f r" if r: "r \<in> set (take (Suc i) L)" for r
    proof -
      obtain j where "j < length (take (Suc i) L)" "take (Suc i) L ! j = r"
        using r [unfolded in_set_conv_nth] by blast
      then have "j \<le> i" "r = L ! j" by simp_all
      then have "j = i \<or> f (L ! j) < f (L ! i)"
        using assms by (auto simp: sorted_wrt_iff_nth_less le_less)
      then show ?thesis using \<open>r = L ! j\<close> by auto
    qed
    then show ?thesis by (simp add: filter_empty_conv)
  qed
  moreover have "filter (\<lambda>r. f (L ! i) < f r) (drop (Suc i) L) = drop (Suc i) L"
  proof -
    have "f (L ! i) < f r" if "r \<in> set (drop (Suc i) L)" for r
      using that assms by (auto simp: in_set_conv_nth sorted_wrt_iff_nth_less)
    then show ?thesis by (simp add: filter_id_conv)
  qed
  ultimately show ?thesis by (metis append_Nil filter_append)
qed

section \<open>Recurrence\<close>

text \<open>The exact remainder of integer-valued times.\<close>

lemma fmod_fin_int:
  assumes "0 < i" and "0 \<le> x"
  shows "fmod_fin (of_int x) (of_int i) = of_int (x mod i)"
proof -
  have "\<lfloor>(of_int x :: rat) / of_int i\<rfloor> = x div i" by (rule floor_divide_of_int_eq)
  moreover have "(0 :: rat) \<le> of_int x / of_int i" using assms by simp
  ultimately have "fmod_fin (of_int x) (of_int i) = of_int (x - i * (x div i))"
    by (simp add: fmod_fin_def)
  then show ?thesis by (simp add: minus_mult_div_eq_mod)
qed

lemma next_due_at_future:
  assumes "next_due_at r now = Inr x" and "\<not> is_nan now"
  shows "now < Fin x"
proof -
  obtain i where i: "sc_interval_seconds r = Some i"
    using assms(1) by (auto simp: next_due_at_def split: option.splits)
  define first where "first = Fin (sc_next_due_at r) + Fin i"
  define aligned where "aligned = (case now - Fin (sc_next_due_at r) of
      Fin y \<Rightarrow> now + (Fin i - Fin (fmod_fin y i)) | _ \<Rightarrow> first)"
  define later where "later = (if first \<le> now
      then if aligned \<le> now \<or> \<not> is_finite aligned then next_up now else aligned else first)"
  have later: "later = Fin x"
    using assms(1) i unfolding next_due_at_def later_def aligned_def first_def
    by (auto simp: Let_def split: pyfloat.splits)
  consider (first) "\<not> first \<le> now" "later = first"
    | (up) "later = next_up now" | (aligned) "\<not> aligned \<le> now" "later = aligned"
    using later_def by (cases "first \<le> now"; cases "aligned \<le> now \<or> \<not> is_finite aligned") auto
  then show ?thesis
  proof cases
    case up
    then show ?thesis using later assms(2) next_up_greater by (cases now) (auto split: if_splits)
  qed (use later assms(2) in \<open>cases now; auto\<close>)+
qed

lemma next_due_at_int:
  assumes "sc_next_due_at r = of_int a" and "sc_interval_seconds r = Some (of_int i)" and "0 < i"
    and "\<bar>a\<bar> \<le> 2 ^ 50" and "i \<le> 2 ^ 50" and "\<bar>n\<bar> \<le> 2 ^ 50"
  shows "next_due_at r (Fin (of_int n)) =
    Inr (of_int (if n < a + i then a + i else a + ((n - a) div i + 1) * i))"
proof -
  have sum: "Fin (of_int x) + Fin (of_int y) = Fin (of_int (x + y))" if "\<bar>x + y\<bar> \<le> 2 ^ 53" for x y
    using fl_int [OF that] by simp
  have diff: "Fin (of_int x) - Fin (of_int y) = Fin (of_int (x - y))" if "\<bar>x - y\<bar> \<le> 2 ^ 53" for x y
    using fl_int [OF that] by simp
  have first: "Fin (of_int a) + Fin (of_int i) = Fin (of_int (a + i))"
    using assms by (intro sum) simp
  have elapsed: "Fin (of_int n) - Fin (of_int a) = Fin (of_int (n - a))"
    using assms by (intro diff) simp
  show ?thesis
  proof (cases "n < a + i")
    case True
    then show ?thesis using assms(1,2) first by (simp add: next_due_at_def)
  next
    case False
    let ?m = "(n - a) mod i"
    have "0 \<le> n - a" using False assms(3) by simp
    then have fmod: "fmod_fin (of_int (n - a)) (of_int i) = of_int ?m"
      by (rule fmod_fin_int [OF assms(3)])
    have m: "0 \<le> ?m" "?m < i" using assms(3) by simp_all
    have rest: "Fin (of_int i) - Fin (of_int ?m) = Fin (of_int (i - ?m))"
      using assms m by (intro diff) simp
    have aligned: "Fin (of_int n) + Fin (of_int (i - ?m)) = Fin (of_int (n + (i - ?m)))"
      using assms m by (intro sum) simp
    have "n < n + (i - ?m)" using m by simp
    moreover have "n + (i - ?m) = a + ((n - a) div i + 1) * i"
      using div_mult_mod_eq [of "n - a" i] by (simp add: algebra_simps)
    moreover have "Fin (of_int (a + i)) \<le> Fin (of_int n)" using False by simp
    ultimately show ?thesis
      using False assms(1,2)
      by (simp only: next_due_at_def option.case Let_def first elapsed fmod rest aligned pyfloat.case
          if_True if_False is_finite.simps less_eq_pyfloat.simps of_int_le_iff not_le) simp
  qed
qed

section \<open>Properties\<close>

lemma claim_current_entry:
  "claim_current t claim k s \<Longrightarrow> \<exists>v. claim_entry s k = Some (fencing_value (cl_fencing_token claim), v)"
  by (auto simp: claim_current_def claim_entry_def simp del: map_of_eq_Some_iff split: option.splits)

lemma complete_settles:
  assumes "sched_inv s" and "fst (complete t1 t2 claim s) = Inr x"
  obtains k where "claim_current t1 claim k s" "claim_entry (snd (complete t1 t2 claim s)) k = None"
proof (cases rule: required_claim_cases [OF assms(1), of t1 claim])
  case (1 e)
  then show thesis using assms(2) by (simp add: complete_def)
next
  case (2 k rcd)
  have "dict_get (sd_claims (snd (complete t1 t2 claim s))) k = None"
    using assms(2) 2(1)
    by (auto simp: complete_def py_bind_def checked_def drop_claim_def drop_record_def
        split: sum.splits prod.splits)
  then show thesis using that 2(2) by (simp add: claim_entry_def)
qed

definition demo_schedules :: InMemoryScheduleCache where
  "demo_schedules = projr (new_schedule_cache (PyInt 5))"

definition demo_scheduled :: InMemoryScheduleCache where
  "demo_scheduled = run schedule_step
     [DCreate (PyStr ''o'') (PyStr ''a'') (PyBytes [1]) (PyInt 5) (PyInt 10),
      DCreate (PyStr ''o'') (PyStr ''b'') (PyBytes [2]) (PyInt 3) PyNone] demo_schedules"

definition demo_claiming :: "ScheduleClaim option result \<times> InMemoryScheduleCache" where
  "demo_claiming = claim_schedule (Fin 6) (Fin 6) (Fin 6) ''u'' (PyStr ''o'') (PyStr ''a'')
     (PyStr ''w'') (PyInt 20) demo_scheduled"

definition demo_claim :: ScheduleClaim where
  "demo_claim = \<lparr>cl_owner = ''o'', cl_record = \<lparr>sc_identity = ''a'', sc_revision = CacheRevision 1,
     sc_payload = [1], sc_next_due_at = 5, sc_interval_seconds = Some 10\<rparr>, cl_claimant = ''w'',
     cl_fencing_token = FencingToken 1, cl_expires_at = 26, cl_token = ''u''\<rparr>"

lemma demo_scheduled_inv: "sched_inv demo_scheduled"
  unfolding demo_scheduled_def
  by (rule schedule_records.run_inv, rule new_schedule_cache_inv [of "PyInt 5"])
     (simp add: demo_schedules_def new_schedule_cache_def feature_limits)

lemma demo_claimed_inv: "sched_inv (snd demo_claiming)"
  using schedule_records.step_inv [OF demo_scheduled_inv, of "DClaim (Fin 6) (Fin 6) (Fin 6) ''u''
      (PyStr ''o'') (PyStr ''a'') (PyStr ''w'') (PyInt 20)"]
  by (simp add: demo_claiming_def)

text \<open>C15: A live claim is exclusive. While a claim on a schedule is current, no \<open>claim\<close> call for that
  schedule, by any claimant and with any time to live, is granted, and the records do not change.\<close>

theorem schedule_claim_exclusive:
  assumes "sched_inv s" and "claim_current t1 claim k s" and "schedule_key ow idn = Inr k"
  shows "fst (claim_schedule t1 t2 t3 uid ow idn ct ttl s) \<noteq> Inr (Some c)
    \<and> sd_records (snd (claim_schedule t1 t2 t3 uid ow idn ct ttl s)) = sd_records s"
proof (cases rule: claim_schedule_cases [OF assms(1), of t1 t2 t3 uid ow idn ct ttl])
  case (1 r s')
  then show ?thesis by simp
next
  case (2 k' h d rcd st)
  have "dict_get (sd_claims (recover_claims t1 s)) k \<noteq> None"
    using assms(2) recover_claims_get [OF assms(1), of t1 k]
    by (auto simp: claim_current_def simp del: map_of_eq_Some_iff split: option.splits)
  then show ?thesis using 2(1,6) assms(3) by simp
qed

theorem schedule_claim_exclusive_witness:
  "sd_records (snd (claim_schedule (Fin 7) (Fin 7) (Fin 7) ''v'' (PyStr ''o'') (PyStr ''a'')
     (PyStr ''w2'') (PyInt 20) (snd demo_claiming))) = sd_records (snd demo_claiming)"
proof -
  have cur: "claim_current (Fin 7) demo_claim (''o'', ''a'') (snd demo_claiming)" by code_simp
  have key: "schedule_key (PyStr ''o'') (PyStr ''a'') = Inr (''o'', ''a'')" by code_simp
  from schedule_claim_exclusive [OF demo_claimed_inv cur key] show ?thesis by blast
qed

text \<open>C16: A claim is completed at most once. After \<open>complete\<close> has succeeded for a claim, no later
  \<open>complete\<close> with this claim succeeds, whatever happens in between, even if the same claimant
  has claimed the schedule again.\<close>

theorem schedule_completed_once:
  assumes "sched_inv s" and "fst (complete t1 t2 claim s) = Inr x"
  shows "fst (complete u1 u2 claim (run schedule_step cs (snd (complete t1 t2 claim s)))) \<noteq> Inr y"
proof
  let ?s1 = "snd (complete t1 t2 claim s)"
  assume again: "fst (complete u1 u2 claim (run schedule_step cs ?s1)) = Inr y"
  have inv1: "sched_inv ?s1" using schedule_records.step_inv [OF assms(1), of "DComplete t1 t2 claim"] by simp
  have mono: "sd_next_fencing_token s \<le> sd_next_fencing_token ?s1"
    using schedule_claims.counter_mono [OF assms(1), of "DComplete t1 t2 claim"] by simp
  obtain k where cur: "claim_current t1 claim k s" and gone: "claim_entry ?s1 k = None"
    using complete_settles [OF assms] by blast
  obtain k' where cur': "claim_current u1 claim k' (run schedule_step cs ?s1)"
    using complete_settles [OF schedule_records.run_inv [OF inv1] again] by blast
  have "k' = k" using cur cur' by (auto simp: claim_current_def)
  let ?n = "fencing_value (cl_fencing_token claim)"
  have "?n \<le> int (sd_next_fencing_token s)"
    using claim_current_entry [OF cur] schedule_claims.stamp_bound [OF assms(1)] by blast
  then have "?n \<le> int (sd_next_fencing_token ?s1)" using mono by simp
  then have "claim_entry (run schedule_step cs ?s1) k \<noteq> Some (?n, v)" for v
    by (rule schedule_claims.stamp_never_reused [OF inv1]) (simp add: gone)
  then show False using claim_current_entry [OF cur'] \<open>k' = k\<close> by blast
qed

theorem schedule_completed_once_witness:
  "\<forall>y. fst (complete (Fin 8) (Fin 8) demo_claim
     (run schedule_step [] (snd (complete (Fin 7) (Fin 7) demo_claim (snd demo_claiming))))) \<noteq> Inr y"
proof -
  have "fst (complete (Fin 7) (Fin 7) demo_claim (snd demo_claiming)) =
      Inr (Some \<lparr>sc_identity = ''a'', sc_revision = CacheRevision 3, sc_payload = [1],
        sc_next_due_at = 15, sc_interval_seconds = Some 10\<rparr>)"
    by code_simp
  from schedule_completed_once [OF demo_claimed_inv this] show ?thesis by blast
qed

text \<open>C17: A recurring schedule moves into the future. The next due time that \<open>complete\<close> computes is
  strictly later than the clock, for every clock value but NaN, so a completed schedule is never
  due again at once.\<close>

theorem next_due_strictly_future:
  assumes "next_due_at r now = Inr x" and "\<not> is_nan now"
  shows "now < Fin x"
  using next_due_at_future [OF assms] .

theorem next_due_strictly_future_witness: "Fin 37 < Fin 45"
proof -
  have "next_due_at \<lparr>sc_identity = ''a'', sc_revision = CacheRevision 1, sc_payload = [1],
      sc_next_due_at = 5, sc_interval_seconds = Some 10\<rparr> (Fin 37) = Inr 45"
    by code_simp
  from next_due_strictly_future [OF this] show ?thesis by simp
qed

text \<open>C18: A recurring schedule keeps its phase. For whole-second times the next due time is the first
  one after the clock that is a whole number of intervals after the last due time; missed
  occurrences are skipped, not repeated.\<close>

theorem recurrence_keeps_phase:
  assumes "sc_next_due_at r = of_int a" and "sc_interval_seconds r = Some (of_int i)" and "0 < i"
    and "\<bar>a\<bar> \<le> 2 ^ 50" and "i \<le> 2 ^ 50" and "\<bar>n\<bar> \<le> 2 ^ 50"
  shows "next_due_at r (Fin (of_int n)) =
    Inr (of_int (if n < a + i then a + i else a + ((n - a) div i + 1) * i))"
  using next_due_at_int [OF assms] .

theorem recurrence_keeps_phase_witness:
  "next_due_at \<lparr>sc_identity = ''a'', sc_revision = CacheRevision 1, sc_payload = [1],
      sc_next_due_at = of_int 5, sc_interval_seconds = Some (of_int 10)\<rparr> (Fin (of_int 37))
   = Inr (of_int (if 37 < 5 + (10 :: int) then 5 + 10 else 5 + ((37 - 5) div 10 + 1) * 10))"
  by (rule recurrence_keeps_phase) simp_all

text \<open>C19: Due records come in pages. Reading a page of \<open>n\<close> due records and then the page of \<open>m\<close>
  records after the cursor of its last one gives exactly the first \<open>n + m\<close> due records, in order of
  due time and identity: no record is skipped or repeated at the boundary.\<close>

theorem due_pages_join:
  assumes "sched_inv s" and "fst (due t ow be (PyInt n) None s) = Inr p1" and "p1 \<noteq> []"
    and "fst (due t ow be (PyInt m) (Some \<lparr>cu_next_due_at = sc_next_due_at (last p1),
           cu_identity = sc_identity (last p1)\<rparr>) s) = Inr p2"
    and "fst (due t ow be (PyInt (n + m)) None s) = Inr p"
  shows "p = p1 @ p2"
proof -
  let ?s1 = "recover_claims t s"
  have inv1: "sched_inv ?s1" using recover_claims_ok [OF assms(1)] by (simp add: sched_ok_def)
  obtain o' b where v: "ow = PyStr o'" "validate_finite be = Inr b" "0 < n" "0 < m"
    and p1: "p1 = take (nat n) (due_records o' b None ?s1)"
    and p2: "p2 = take (nat m) (due_records o' b (Some \<lparr>cu_next_due_at = sc_next_due_at (last p1),
           cu_identity = sc_identity (last p1)\<rparr>) ?s1)"
    and p: "p = take (nat (n + m)) (due_records o' b None ?s1)"
    using assms(2,4,5) by (auto simp: due_def checked_def Let_def split: sum.splits)
  define L where "L = sort_key due_order (due_candidates o' b ?s1)"
  have all: "due_records o' b None ?s1 = L"
    by (simp add: due_records_filter after_cursor_def L_def)
  have strict: "sorted_wrt (\<lambda>x y. due_order x < due_order y) L"
    unfolding L_def by (rule sort_key_strict [OF due_candidates_distinct [OF inv1]])
  let ?i = "length p1 - 1"
  have len: "length p1 = min (nat n) (length L)" by (simp add: p1 all)
  have "0 < length p1" using assms(3) by simp
  moreover have "length p1 \<le> length L" by (simp add: len)
  ultimately have i: "?i < length L" "Suc ?i = length p1" by linarith+
  have "?i < nat n" using len i(2) by linarith
  then have last: "last p1 = L ! ?i"
    using last_conv_nth [OF assms(3)] by (simp only: p1 all nth_take)
  have "due_records o' b (Some \<lparr>cu_next_due_at = sc_next_due_at (last p1),
      cu_identity = sc_identity (last p1)\<rparr>) ?s1 = filter (\<lambda>r. due_order (L ! ?i) < due_order r) L"
    unfolding due_records_filter L_def [symmetric]
    by (rule filter_cong) (simp_all only: after_cursor_def option.case ScheduleCursor.simps last)
  also have "\<dots> = drop (length p1) L" using filter_after_element [OF strict i(1)] i(2) by simp
  finally have "p2 = take (nat m) (drop (length p1) L)" by (simp add: p2)
  moreover have "drop (length p1) L = drop (nat n) L" by (simp add: len min_def)
  moreover have "take (nat n + nat m) L = take (nat n) L @ take (nat m) (drop (nat n) L)"
    by (rule take_add)
  ultimately show ?thesis using v(3,4) by (simp add: p p1 all nat_add_distrib)
qed

theorem due_pages_join_witness:
  "[\<lparr>sc_identity = ''b'', sc_revision = CacheRevision 2, sc_payload = [2], sc_next_due_at = 3,
     sc_interval_seconds = None\<rparr>,
    \<lparr>sc_identity = ''a'', sc_revision = CacheRevision 1, sc_payload = [1], sc_next_due_at = 5,
     sc_interval_seconds = Some 10\<rparr>]
   = [\<lparr>sc_identity = ''b'', sc_revision = CacheRevision 2, sc_payload = [2], sc_next_due_at = 3,
       sc_interval_seconds = None\<rparr>]
   @ [\<lparr>sc_identity = ''a'', sc_revision = CacheRevision 1, sc_payload = [1], sc_next_due_at = 5,
     sc_interval_seconds = Some 10\<rparr>]"
  by (rule due_pages_join [OF demo_scheduled_inv, of "Fin 6" "PyStr ''o''" "PyInt 6" 1 _ 1])
     code_simp+

text \<open>From a new schedule cache, any sequence of calls keeps: at most \<open>max_records\<close> records, one per
  key and with distinct issued revisions, and at most one claim per record, taken on the revision the
  record still has, with distinct issued fencing tokens.\<close>

theorem schedule_cache_invariant:
  assumes "new_schedule_cache m = Inr s"
  shows "sched_inv (run schedule_step cs s)"
  using schedule_records.run_inv [OF new_schedule_cache_inv [OF assms]] .

theorem schedule_cache_invariant_witness:
  "sched_inv (run schedule_step [DDelete (PyStr ''o'') (PyStr ''a'')] demo_schedules)"
  by (rule schedule_cache_invariant [of "PyInt 5"])
     (simp add: demo_schedules_def new_schedule_cache_def feature_limits)

text \<open>Updates do not overwrite each other. Once an \<open>update\<close> with an expected revision has
  succeeded, no later \<open>update\<close> of the schedule with the same expected revision succeeds.\<close>

theorem schedule_update_single_winner:
  assumes "sched_inv s" and "fst (update_schedule t1 ow idn expd pl du iv s) = Inr (Some r)"
  shows "fst (update_schedule u1 ow idn expd pl' du' iv'
      (run schedule_step cs (snd (update_schedule t1 ow idn expd pl du iv s)))) \<noteq> Inr (Some r')"
proof
  let ?s1 = "snd (update_schedule t1 ow idn expd pl du iv s)"
  let ?n = "revision_value expd"
  assume again: "fst (update_schedule u1 ow idn expd pl' du' iv' (run schedule_step cs ?s1)) = Inr (Some r')"
  have inv1: "sched_inv ?s1"
    using schedule_records.step_inv [OF assms(1), of "DUpdate t1 ow idn expd pl du iv"] by simp
  have before: "\<exists>k v. schedule_key ow idn = Inr k \<and> record_entry z k = Some (?n, v)"
    if "fst (update_schedule t ow idn expd p d i z) = Inr (Some x)" for t p d i z x
    using that by (auto simp: update_schedule_def checked_def Let_def record_entry_def
        simp del: map_of_eq_Some_iff split: sum.splits option.splits if_splits)
  obtain k v where k: "schedule_key ow idn = Inr k" and old: "record_entry s k = Some (?n, v)"
    using before [OF assms(2)] by blast
  have bound: "?n \<le> int (sd_next_revision s)"
    by (rule schedule_records.stamp_bound [OF assms(1) old])
  obtain b d i where vals: "validate_schedule_values pl du iv = Inr (b, d, i)"
    using assms(2) k by (auto simp: update_schedule_def checked_def split: sum.splits)
  have "?s1 = snd (store_record k (snd k) b d i (recover_claims t1 s))"
    using assms(2) k vals
    by (auto simp: update_schedule_def Let_def py_bind_def simp del: map_of_eq_Some_iff
        split: sum.splits option.splits if_splits prod.splits)
  then have "record_entry ?s1 k \<noteq> Some (?n, w)" "?n \<le> int (sd_next_revision ?s1)" for w
    using store_record_eq [of "snd k" b i k d "recover_claims t1 s"] schedule_key_Inr [OF k]
      validate_schedule_values_Inr [OF vals] bound
    by (simp_all add: record_entry_def recover_claims_def Let_def)
  then have "record_entry (run schedule_step cs ?s1) k \<noteq> Some (?n, w)" for w
    using schedule_records.stamp_never_reused [OF inv1] by blast
  then show False using before [OF again] k by auto
qed

theorem schedule_update_single_winner_witness:
  "\<forall>r'. fst (update_schedule (Fin 2) (PyStr ''o'') (PyStr ''a'') (CacheRevision 1) (PyBytes [9]) (PyInt 9)
      PyNone (run schedule_step [] (snd (update_schedule (Fin 1) (PyStr ''o'') (PyStr ''a'')
        (CacheRevision 1) (PyBytes [8]) (PyInt 8) PyNone demo_scheduled)))) \<noteq> Inr (Some r')"
proof -
  have "fst (update_schedule (Fin 1) (PyStr ''o'') (PyStr ''a'') (CacheRevision 1) (PyBytes [8]) (PyInt 8)
      PyNone demo_scheduled) = Inr (Some \<lparr>sc_identity = ''a'', sc_revision = CacheRevision 3,
        sc_payload = [8], sc_next_due_at = 8, sc_interval_seconds = None\<rparr>)"
    by code_simp
  from schedule_update_single_winner [OF demo_scheduled_inv this] show ?thesis by blast
qed

end
