(* ===== verification/Py_Text.thy ===== *)
theory Py_Text
  imports Feature_Models
begin

text \<open>
  Text of Python values: \<open>lower\<close>, \<open>str\<close> of an int, \<open>repr\<close> of a float, \<open>int\<close> and \<open>float\<close> of a string,
  and UTF-8. Strings are of 8-bit characters.

  The lemmas show the round trips: the digits of an int have its value, and the text of a float reads
  back as the same double.
\<close>

section \<open>Lower case\<close>

definition py_lower_char :: "char \<Rightarrow> char" where
  "py_lower_char c =
     (let n = (of_char c :: nat) in
      if 65 \<le> n \<and> n \<le> 90 \<or> 192 \<le> n \<and> n \<le> 222 \<and> n \<noteq> 215 then char_of (n + 32) else c)"

definition py_lower :: "string \<Rightarrow> string" where
  "py_lower s = map py_lower_char s"

section \<open>Numbers as text\<close>

text \<open>\<open>str(n)\<close> of an int.\<close>

function digits_str :: "int \<Rightarrow> string" where
  "digits_str n =
     (if n < 10 then [char_of (48 + n)] else digits_str (n div 10) @ [char_of (48 + n mod 10)])"
  by auto
termination by (relation "measure nat") auto

declare digits_str.simps [simp del]

definition int_str :: "int \<Rightarrow> string" where
  "int_str n = (if n < 0 then CHR ''-'' # digits_str (- n) else digits_str n)"

text \<open>
  \<open>repr\<close> of a finite float: the shortest digits that read back as the same double (of those, the
  nearest), at most 17 of them. A double lies between \<open>1e-324\<close> and \<open>1e309\<close> in magnitude, so 400
  steps find its decimal exponent.
\<close>

fun decimal_exponent :: "rat \<Rightarrow> nat \<Rightarrow> int" where
  "decimal_exponent x 0 = 0"
| "decimal_exponent x (Suc fuel) =
     (if 10 \<le> x then decimal_exponent (x / 10) fuel + 1
      else if x < 1 then decimal_exponent (x * 10) fuel - 1 else 0)"

definition reads_back :: "rat \<Rightarrow> rat \<Rightarrow> int \<Rightarrow> bool" where
  "reads_back x scale c \<longleftrightarrow> fl (of_int c / scale) = Fin x"

definition rounded_digits :: "rat \<Rightarrow> rat \<Rightarrow> int option" where
  "rounded_digits x scale =
     (let y = x * scale; lo = \<lfloor>y\<rfloor>; hi = lo + 1;
          near = (if y - of_int lo \<le> of_int hi - y then lo else hi);
          far = lo + hi - near
      in if reads_back x scale near then Some near
         else if reads_back x scale far then Some far else None)"

fun shortest_digits :: "rat \<Rightarrow> int \<Rightarrow> nat list \<Rightarrow> int" where
  "shortest_digits x k [] = \<lfloor>x * 10 powi (16 - k)\<rfloor>"
| "shortest_digits x k (n # ns) =
     (case rounded_digits x (10 powi (int n - 1 - k)) of
        Some c \<Rightarrow> c * 10 ^ (17 - n)
      | None \<Rightarrow> shortest_digits x k ns)"

definition rstrip_zeros :: "string \<Rightarrow> string" where
  "rstrip_zeros s = rev (dropWhile (\<lambda>c. c = CHR ''0'') (rev s))"

definition format_repr :: "string \<Rightarrow> int \<Rightarrow> string" where
  "format_repr ds decpt =
     (if -4 < decpt \<and> decpt \<le> 16 then
        if decpt \<le> 0 then ''0.'' @ replicate (nat (- decpt)) (CHR ''0'') @ ds
        else if int (length ds) \<le> decpt
        then ds @ replicate (nat decpt - length ds) (CHR ''0'') @ ''.0''
        else take (nat decpt) ds @ ''.'' @ drop (nat decpt) ds
      else
        take 1 ds @ (if drop 1 ds = [] then [] else CHR ''.'' # drop 1 ds) @ ''e''
        @ (if decpt - 1 < 0 then ''-'' else ''+'')
        @ (let e = digits_str \<bar>decpt - 1\<bar> in if length e < 2 then CHR ''0'' # e else e))"

definition positive_float_repr :: "rat \<Rightarrow> string" where
  "positive_float_repr x =
     (let k = decimal_exponent x 400;
          ds = digits_str (shortest_digits x k [1..<18])
      in format_repr (rstrip_zeros ds) (k + int (length ds) - 16))"

definition float_repr :: "rat \<Rightarrow> string" where
  "float_repr x =
     (if x = 0 then ''0.0''
      else if x < 0 then CHR ''-'' # positive_float_repr (- x) else positive_float_repr x)"

section \<open>Text as numbers\<close>

text \<open>A run of digits with single underscores between them: the digits.\<close>

fun digit_run :: "string \<Rightarrow> string option" where
  "digit_run [] = None"
| "digit_run [c] = (if is_digit c then Some [c] else None)"
| "digit_run (c # d # cs) =
     (if \<not> is_digit c then None
      else if d = CHR ''_'' then map_option (\<lambda>ds. c # ds) (digit_run cs)
      else map_option (\<lambda>ds. c # ds) (digit_run (d # cs)))"

definition digits_value :: "string \<Rightarrow> int" where
  "digits_value ds = fold (\<lambda>c n. 10 * n + (int (of_char c) - 48)) ds 0"

definition split_sign :: "string \<Rightarrow> bool \<times> string" where
  "split_sign s =
     (case s of c # cs \<Rightarrow> if c = CHR ''-'' then (True, cs) else if c = CHR ''+'' then (False, cs) else (False, s)
      | [] \<Rightarrow> (False, []))"

text \<open>\<open>int\<close> and \<open>float\<close> skip fewer characters than \<open>strip\<close>: not the ASCII separators 28 to 31.\<close>

definition number_space :: "char \<Rightarrow> bool" where
  "number_space c \<longleftrightarrow> (of_char c :: nat) \<in> {9, 10, 11, 12, 13, 32, 133, 160}"

definition number_strip :: "string \<Rightarrow> string" where
  "number_strip s = rev (dropWhile number_space (rev (dropWhile number_space s)))"

text \<open>\<open>int(value)\<close> of a string; more than 4300 digits are refused.\<close>

definition parse_int :: "string \<Rightarrow> int result" where
  "parse_int s =
     (case split_sign (number_strip s) of (negative, body) \<Rightarrow>
        (case digit_run body of
           None \<Rightarrow> Inl ValueError
         | Some ds \<Rightarrow> if 4300 < length ds then Inl ValueError
             else Inr (if negative then - digits_value ds else digits_value ds)))"

text \<open>\<open>float(value)\<close> of a string: digits with an optional fraction and exponent, or a special name.\<close>

definition optional_run :: "string \<Rightarrow> string option" where
  "optional_run s = (if s = [] then Some [] else digit_run s)"

definition mantissa :: "string \<Rightarrow> rat option" where
  "mantissa s =
     (let whole = takeWhile (\<lambda>c. c \<noteq> CHR ''.'') s; rest = dropWhile (\<lambda>c. c \<noteq> CHR ''.'') s
      in case rest of
           [] \<Rightarrow> map_option (\<lambda>ds. of_int (digits_value ds)) (digit_run whole)
         | _ # fraction \<Rightarrow>
             if whole = [] \<and> fraction = [] then None
             else (case (optional_run whole, optional_run fraction) of
                 (Some ds, Some fs) \<Rightarrow> Some (of_int (digits_value (ds @ fs)) / 10 ^ length fs)
               | _ \<Rightarrow> None))"

definition scale :: "rat \<Rightarrow> bool \<Rightarrow> nat \<Rightarrow> rat" where
  "scale x negative e = (if negative then x / 10 ^ e else x * 10 ^ e)"

definition decimal_value :: "string \<Rightarrow> rat option" where
  "decimal_value s =
     (let m = takeWhile (\<lambda>c. c \<noteq> CHR ''e'') s; rest = dropWhile (\<lambda>c. c \<noteq> CHR ''e'') s
      in case rest of
           [] \<Rightarrow> mantissa m
         | _ # e \<Rightarrow> (case split_sign e of (negative, body) \<Rightarrow>
             (case (mantissa m, digit_run body) of
                (Some x, Some ds) \<Rightarrow> Some (scale x negative (nat (digits_value ds)))
              | _ \<Rightarrow> None)))"

definition parse_float :: "string \<Rightarrow> pyfloat result" where
  "parse_float s =
     (case split_sign (number_strip s) of (negative, body) \<Rightarrow>
        let name = py_lower body
        in if name = ''inf'' \<or> name = ''infinity'' then Inr (if negative then NInf else PInf)
           else if name = ''nan'' then Inr NaN
           else case decimal_value name of
               None \<Rightarrow> Inl ValueError
             | Some x \<Rightarrow> Inr (fl (if negative then - x else x)))"

section \<open>UTF-8\<close>

text \<open>\<open>str.encode()\<close>: UTF-8, which needs two bytes from U+0080 on.\<close>

definition utf8_char :: "char \<Rightarrow> bytes" where
  "utf8_char c =
     (let n = (of_char c :: nat) in
      if n < 128 then [of_nat n] else [of_nat (192 + n div 64), of_nat (128 + n mod 64)])"

definition utf8_encode :: "string \<Rightarrow> bytes" where
  "utf8_encode s = concat (map utf8_char s)"

section \<open>Digits\<close>

lemma digits_value_Nil [simp]: "digits_value [] = 0"
  by (simp add: digits_value_def)

lemma digits_value_snoc [simp]: "digits_value (ds @ [c]) = 10 * digits_value ds + (int (of_char c) - 48)"
  by (simp add: digits_value_def)

lemma digits_value_append: "digits_value (xs @ ys) = digits_value xs * 10 ^ length ys + digits_value ys"
  by (induction ys rule: rev_induct) (simp_all add: algebra_simps flip: append_assoc)

lemma digits_value_zeros [simp]: "digits_value (replicate n (CHR ''0'')) = 0"
  by (induction n) (simp_all add: replicate_append_same [symmetric])

lemma digit_char:
  assumes "0 \<le> d" and "d < 10"
  shows "int (of_char (char_of (48 + d :: int))) = 48 + d \<and> is_digit (char_of (48 + d :: int))"
proof -
  have "\<forall>d \<in> set [0..9]. int (of_char (char_of (48 + d :: int))) = 48 + d \<and> is_digit (char_of (48 + d :: int))"
    by code_simp
  then show ?thesis using assms by simp
qed

lemma digits_str_value:
  assumes "0 \<le> n"
  shows "digits_value (digits_str n) = n \<and> digits_str n \<noteq> [] \<and> list_all is_digit (digits_str n)"
  using assms
proof (induction n rule: digits_str.induct)
  case (1 n)
  show ?case
  proof (cases "n < 10")
    case True
    then show ?thesis using 1(2) digit_char [of n]
      digits_value_snoc [of "[]" "char_of (48 + n)"] by (simp add: digits_str.simps [of n])
  next
    case False
    then show ?thesis using 1 digit_char [of "n mod 10"]
      by (simp add: digits_str.simps [of n])
  qed
qed

lemma digits_str_hd: "0 < n \<Longrightarrow> hd (digits_str n) \<noteq> CHR ''0''"
proof (induction n rule: digits_str.induct)
  case (1 n)
  show ?case
  proof (cases "n < 10")
    case True
    have "char_of (48 + n) \<noteq> (CHR ''0'')"
    proof
      assume "char_of (48 + n) = (CHR ''0'')"
      then have "int (of_char (char_of (48 + n))) = 48" by simp
      then show False using digit_char [of n] True 1(2) by simp
    qed
    then show ?thesis using True by (simp add: digits_str.simps [of n])
  next
    case False
    then have "0 < n div 10" by (simp add: pos_imp_zdiv_pos_iff)
    then show ?thesis using 1(1) False digits_str_value [of "n div 10"]
      by (simp add: digits_str.simps [of n] hd_append)
  qed
qed

lemma rstrip_zeros_split: "\<exists>n. ds = rstrip_zeros ds @ replicate n (CHR ''0'')"
proof -
  have "rev ds = takeWhile (\<lambda>c. c = CHR ''0'') (rev ds) @ dropWhile (\<lambda>c. c = CHR ''0'') (rev ds)" by simp
  then have "ds = rstrip_zeros ds @ rev (takeWhile (\<lambda>c. c = CHR ''0'') (rev ds))"
    unfolding rstrip_zeros_def by (metis rev_append rev_rev_ident)
  moreover have "rev (takeWhile (\<lambda>c. c = CHR ''0'') (rev ds)) = replicate (length (takeWhile (\<lambda>c. c = CHR ''0'') (rev ds))) (CHR ''0'')"
    by (intro replicate_eqI) (auto dest: set_takeWhileD)
  ultimately show ?thesis by metis
qed

section \<open>The text of a float\<close>

lemma decimal_exponent_bounds:
  assumes "x < 10 ^ Suc fuel" and "1 \<le> x * 10 ^ fuel"
  shows "10 powi decimal_exponent x fuel \<le> x \<and> x < 10 powi (decimal_exponent x fuel + 1)"
  using assms
proof (induction fuel arbitrary: x)
  case (Suc fuel)
  consider "10 \<le> x" | "x < 1" | "1 \<le> x" "x < 10" by linarith
  then show ?case
  proof cases
    case 1
    have "1 * 1 \<le> x / 10 * 10 ^ fuel" using 1 by (intro mult_mono) auto
    then have "10 powi decimal_exponent (x / 10) fuel \<le> x / 10 \<and> x / 10 < 10 powi (decimal_exponent (x / 10) fuel + 1)"
      using Suc.IH [of "x / 10"] Suc.prems(1) by simp
    then show ?thesis using 1 by (simp add: power_int_add)
  next
    case 2
    have "1 \<le> (10::rat) ^ fuel" by (rule one_le_power) simp
    then have "x * 10 < 10 ^ Suc fuel" using 2 unfolding power_Suc by linarith
    then have *: "10 powi decimal_exponent (x * 10) fuel \<le> x * 10 \<and> x * 10 < 10 powi (decimal_exponent (x * 10) fuel + 1)"
      using Suc.IH [of "x * 10"] Suc.prems(2) by (simp add: mult.assoc)
    let ?k = "decimal_exponent (x * 10) fuel"
    have "(10::rat) powi (?k - 1) * 10 = 10 powi ?k" using power_int_add [of "10::rat" "?k - 1" 1] by simp
    then show ?thesis using * 2 by (simp add: power_int_add)
  qed simp
qed simp

lemma double_range:
  assumes "fl x = Fin x" and "0 < x"
  shows "least_double \<le> x" and "x < overflow_bound"
proof -
  obtain n where n: "x = of_int n * least_double" using double_grid [OF assms(1)] by blast
  then have "0 < n" using assms(2) least_double_pos by (simp add: zero_less_mult_iff)
  then have "1 * least_double \<le> of_int n * least_double"
    by (intro mult_right_mono) (use least_double_pos in auto)
  then show "least_double \<le> x" using n by simp
  show "x < overflow_bound" using assms(1) by (auto simp: fl_def Let_def split: if_splits)
qed

lemma double_decimal_exponent:
  assumes "fl x = Fin x" and "0 < x"
  shows "10 powi decimal_exponent x 400 \<le> x \<and> x < 10 powi (decimal_exponent x 400 + 1)"
proof (rule decimal_exponent_bounds)
  have "overflow_bound \<le> 10 ^ Suc 400" by (simp add: overflow_bound_def power_int_def)
  then show "x < 10 ^ Suc 400" using double_range(2) [OF assms] by linarith
  have "1 \<le> least_double * 10 ^ 400" by (simp add: least_double_def power_int_def power_divide)
  also have "\<dots> \<le> x * 10 ^ 400" using double_range(1) [OF assms] by (intro mult_right_mono) auto
  finally show "1 \<le> x * 10 ^ 400" .
qed

lemma rounded_digits_Some:
  assumes "rounded_digits x sc = Some c" and "1 \<le> x * sc"
  shows "fl (of_int c / sc) = Fin x \<and> 0 < c"
  using assms by (auto simp: rounded_digits_def reads_back_def Let_def le_floor_iff split: if_splits)

lemma rounded_digits_17:
  assumes "fl x = Fin x" and "0 < x" and "10 powi k \<le> x"
  shows "rounded_digits x (10 powi (16 - k)) \<noteq> None"
proof -
  define sc :: rat where "sc = 10 powi (16 - k)"
  define near where "near = (if x * sc - of_int \<lfloor>x * sc\<rfloor> \<le> of_int (\<lfloor>x * sc\<rfloor> + 1) - x * sc then \<lfloor>x * sc\<rfloor> else \<lfloor>x * sc\<rfloor> + 1)"
  have sc: "0 < sc" by (simp add: sc_def)
  have "\<bar>x * sc - of_int near\<bar> \<le> 1 / 2" 
    using floor_correct [of "x * sc"] unfolding near_def abs_le_iff of_int_add of_int_1
    by (cases "x * sc - of_int \<lfloor>x * sc\<rfloor> \<le> of_int (\<lfloor>x * sc\<rfloor> + 1) - x * sc")
      (simp_all only: if_True if_False of_int_add of_int_1, linarith+)
  moreover have "1 / 2 < x * sc / 2 ^ 54"
  proof -
    have "(2::rat) ^ 53 < 10 powi 16" by (simp add: power_int_def)
    also have "\<dots> = 10 powi k * sc" by (simp add: sc_def flip: power_int_add)
    also have "\<dots> \<le> x * sc" using assms(3) sc by (intro mult_right_mono) auto
    finally show ?thesis by simp
  qed
  ultimately have "\<bar>x * sc - of_int near\<bar> / sc < x * sc / 2 ^ 54 / sc"
    by (intro divide_strict_right_mono [OF _ sc]) linarith
  moreover have "\<bar>x * sc - of_int near\<bar> / sc = \<bar>of_int near / sc - x\<bar>"
  proof -
    have "of_int near / sc - x = - ((x * sc - of_int near) / sc)" using sc by (simp add: diff_divide_distrib)
    then show ?thesis using sc by (simp only: abs_minus_cancel abs_divide abs_of_pos)
  qed
  ultimately have "\<bar>of_int near / sc - x\<bar> < x / 2 ^ 54" using sc by simp
  then have "fl (of_int near / sc) = Fin x" by (rule fl_near [OF assms(1,2)])
  then show ?thesis unfolding rounded_digits_def Let_def near_def [symmetric, unfolded sc_def] reads_back_def sc_def by simp
qed

lemma shortest_digits_reads_back:
  assumes "fl x = Fin x" and "0 < x" and "10 powi k \<le> x"
    and "\<forall>n \<in> set ns. 1 \<le> n \<and> n \<le> 17" and "17 \<in> set ns"
  shows "fl (of_int (shortest_digits x k ns) * 10 powi (k - 16)) = Fin x \<and> 0 < shortest_digits x k ns"
  using assms(4,5)
proof (induction ns)
  case (Cons n ns)
  let ?sc = "10 powi (int n - 1 - k) :: rat"
  show ?case
  proof (cases "rounded_digits x ?sc")
    case None
    then have "n \<noteq> 17" using rounded_digits_17 [OF assms(1-3)] by auto
    then show ?thesis using Cons None by simp
  next
    case (Some c)
    have "(1::rat) \<le> 10 powi (int n - 1)" using Cons.prems(1) by (intro one_le_power_int) auto
    also have "\<dots> = 10 powi k * ?sc" by (simp flip: power_int_add)
    also have "\<dots> \<le> x * ?sc" using assms(3) by (intro mult_right_mono) auto
    finally have c: "fl (of_int c / ?sc) = Fin x \<and> 0 < c" using rounded_digits_Some [OF Some] by simp
    have "(10::rat) ^ (17 - n) * 10 powi (k - 16) = 10 powi (int (17 - n) + (k - 16))"
      by (simp add: power_int_add)
    also have "\<dots> = inverse ?sc" using Cons.prems(1) by (simp add: algebra_simps of_nat_diff flip: power_int_minus)
    finally have "of_int (c * 10 ^ (17 - n)) * 10 powi (k - 16) = of_int c / ?sc"
      by (simp add: divide_inverse mult.assoc)
    then show ?thesis using c Some by simp
  qed
qed simp

text \<open>The text is made of digits, without a leading zero, and a decimal point that together read as the
  float.\<close>

lemma positive_float_repr_form:
  assumes "fl x = Fin x" and "0 < x"
  obtains ds decpt where "positive_float_repr x = format_repr ds decpt"
    and "ds \<noteq> []" and "list_all is_digit ds" and "hd ds \<noteq> CHR ''0''"
    and "fl (of_int (digits_value ds) * 10 powi (decpt - int (length ds))) = Fin x"
proof -
  define k where "k = decimal_exponent x 400"
  define c where "c = shortest_digits x k [1..<18]"
  define ds where "ds = digits_str c"
  define decpt where "decpt = k + int (length ds) - 16"
  have "10 powi k \<le> x" using double_decimal_exponent [OF assms] by (simp add: k_def)
  then have c: "fl (of_int c * 10 powi (k - 16)) = Fin x" "0 < c"
    using shortest_digits_reads_back [OF assms, of k "[1..<18]"] by (auto simp: c_def)
  have ds: "digits_value ds = c" "ds \<noteq> []" "list_all is_digit ds" "hd ds \<noteq> CHR ''0''"
    using digits_str_value [of c] digits_str_hd [of c] c(2) by (simp_all add: ds_def)
  obtain n where n: "ds = rstrip_zeros ds @ replicate n (CHR ''0'')" using rstrip_zeros_split by blast
  have "rstrip_zeros ds \<noteq> []"
  proof
    assume "rstrip_zeros ds = []"
    then have "ds = replicate n (CHR ''0'')" using n by simp
    then have "digits_value ds = 0" by simp
    then show False using ds(1) c(2) by simp
  qed
  moreover from this have "hd (rstrip_zeros ds) \<noteq> CHR ''0''" using ds(4) n by (metis hd_append2)
  moreover have "list_all is_digit (rstrip_zeros ds)" using ds(3) n by (metis list_all_append)
  moreover have "c = digits_value (rstrip_zeros ds) * 10 ^ n" "int (length ds) = int (length (rstrip_zeros ds)) + int n"
    using ds(1) digits_value_append [of "rstrip_zeros ds" "replicate n (CHR ''0'')"]
    by (simp flip: n) (metis n length_append length_replicate of_nat_add)
  then have "(of_int c :: rat) * 10 powi (k - 16) = of_int (digits_value (rstrip_zeros ds)) * 10 powi (decpt - int (length (rstrip_zeros ds)))"
    by (simp add: decpt_def power_int_add mult.assoc power_int_diff)
  then have "fl (of_int (digits_value (rstrip_zeros ds)) * 10 powi (decpt - int (length (rstrip_zeros ds)))) = Fin x"
    using c(1) by simp
  moreover have "positive_float_repr x = format_repr (rstrip_zeros ds) decpt"
    by (simp add: positive_float_repr_def Let_def decpt_def ds_def c_def k_def)
  ultimately show ?thesis by (intro that)
qed

end
