(* ===== verification/Json_Text.thy ===== *)
theory Json_Text
  imports Py_Text
begin

text \<open>
  JSON as the \<open>json\<close> module of the standard library writes and reads it.
\<close>

datatype pyvalue =
    PyAtom pyobj
  | PyDict "(pyobj \<times> pyvalue) list"
  | PySeq "pyvalue list"

datatype json =
    JNull
  | JBool bool
  | JInt int
  | JFloat rat
  | JNonFinite pyfloat
  | JStr string
  | JList "json list"
  | JDict "(string \<times> json) list"

section \<open>Writing\<close>

text \<open>Strings with \<open>ensure_ascii=False\<close>: quotes, backslashes and control characters are escaped.\<close>

definition hex_digit :: "nat \<Rightarrow> char" where
  "hex_digit d = char_of (if d < 10 then 48 + d else 87 + d)"

definition json_char :: "char \<Rightarrow> string" where
  "json_char c =
     (let n = (of_char c :: nat) in
      if n = 34 then [CHR 0x5C, CHR 0x22]
      else if n = 92 then [CHR 0x5C, CHR 0x5C]
      else if n = 8 then CHR 0x5C # ''b''
      else if n = 9 then CHR 0x5C # ''t''
      else if n = 10 then CHR 0x5C # ''n''
      else if n = 12 then CHR 0x5C # ''f''
      else if n = 13 then CHR 0x5C # ''r''
      else if n < 32 then CHR 0x5C # ''u00'' @ [hex_digit (n div 16), hex_digit (n mod 16)]
      else [c])"

text \<open>Strings with \<open>ensure_ascii=True\<close>: so is everything but the printable ASCII characters.\<close>

definition ascii_char :: "char \<Rightarrow> string" where
  "ascii_char c =
     (let n = (of_char c :: nat) in
      if n < 127 then json_char c else CHR 0x5C # ''u00'' @ [hex_digit (n div 16), hex_digit (n mod 16)])"

definition json_string :: "(char \<Rightarrow> string) \<Rightarrow> string \<Rightarrow> string" where
  "json_string esc s = CHR 0x22 # concat (map esc s) @ [CHR 0x22]"

fun joined :: "string list \<Rightarrow> string" where
  "joined [] = []"
| "joined [x] = x"
| "joined (x # y # zs) = x @ CHR '','' # joined (y # zs)"

text \<open>An int of more than 4300 digits has no decimal string.\<close>

definition json_int :: "int \<Rightarrow> string result" where
  "json_int n = (if 4300 < length (digits_str \<bar>n\<bar>) then Inl ValueError else Inr (int_str n))"

text \<open>Numbers that are not finite, which \<open>allow_nan=False\<close> refuses.\<close>

fun non_finite_text :: "pyfloat \<Rightarrow> string" where
  "non_finite_text PInf = ''Infinity''"
| "non_finite_text NInf = ''-Infinity''"
| "non_finite_text _ = ''NaN''"

text \<open>
  \<open>json.dumps\<close> with compact separators and sorted keys. Keys are sorted after the values have been
  encoded, which gives the same text.
\<close>

fun json_text :: "bool \<Rightarrow> (char \<Rightarrow> string) \<Rightarrow> json \<Rightarrow> string result" where
  "json_text allow_nan esc JNull = Inr ''null''"
| "json_text allow_nan esc (JBool b) = Inr (if b then ''true'' else ''false'')"
| "json_text allow_nan esc (JInt n) = json_int n"
| "json_text allow_nan esc (JFloat x) = Inr (float_repr x)"
| "json_text allow_nan esc (JNonFinite f) = (if allow_nan then Inr (non_finite_text f) else Inl ValueError)"
| "json_text allow_nan esc (JStr s) = Inr (json_string esc s)"
| "json_text allow_nan esc (JList js) =
     res_bind (all_results (map (json_text allow_nan esc) js)) (\<lambda>ss. Inr (''['' @ joined ss @ '']''))"
| "json_text allow_nan esc (JDict d) =
     res_bind (all_results (map (\<lambda>(k, j). res_bind (json_text allow_nan esc j) (\<lambda>s. Inr (k, s))) d)) (\<lambda>kss.
       Inr (''{'' @ joined (map (\<lambda>(k, s). json_string esc k @ CHR '':'' # s) (sort_key fst kss)) @ ''}''))"

definition json_dumps :: "json \<Rightarrow> string result" where
  "json_dumps = json_text False json_char"

definition json_dumps_ascii :: "json \<Rightarrow> string result" where
  "json_dumps_ascii = json_text True ascii_char"

section \<open>Reading\<close>

text \<open>The text of bytes that are the UTF-8 of characters up to U+00FF.\<close>

fun utf8_decode :: "bytes \<Rightarrow> string option" where
  "utf8_decode [] = Some []"
| "utf8_decode [a] = (if a < 128 then Some [char_of (unat a)] else None)"
| "utf8_decode (a # b # cs) =
     (if a < 128 then map_option (\<lambda>s. char_of (unat a) # s) (utf8_decode (b # cs))
      else if (a = 194 \<or> a = 195) \<and> 128 \<le> b \<and> b < 192
      then map_option (\<lambda>s. char_of (64 * (unat a - 192) + (unat b - 128)) # s) (utf8_decode cs)
      else None)"

text \<open>A scanner returns what it has read and the rest of the text. \<open>Bad\<close> is an error of the text;
  \<open>Wide\<close> says that it has met an escape for a character beyond U+00FF.\<close>

datatype 'a scan = Scanned 'a string | Bad | Wide

fun scan_bind :: "'a scan \<Rightarrow> ('a \<Rightarrow> string \<Rightarrow> 'b scan) \<Rightarrow> 'b scan" where
  "scan_bind (Scanned x r) f = f x r"
| "scan_bind Bad f = Bad"
| "scan_bind Wide f = Wide"

definition skip_ws :: "string \<Rightarrow> string" where
  "skip_ws s = dropWhile (\<lambda>c. c = CHR '' '' \<or> c = CHR 0x09 \<or> c = CHR 0x0A \<or> c = CHR 0x0D) s"

definition hex_value :: "char \<Rightarrow> nat option" where
  "hex_value c =
     (let n = (of_char c :: nat) in
      if 48 \<le> n \<and> n \<le> 57 then Some (n - 48)
      else if 65 \<le> n \<and> n \<le> 70 then Some (n - 55)
      else if 97 \<le> n \<and> n \<le> 102 then Some (n - 87) else None)"

fun hex4 :: "string \<Rightarrow> nat option" where
  "hex4 (a # b # c # d # _) =
     (case (hex_value a, hex_value b, hex_value c, hex_value d) of
        (Some p, Some q, Some r, Some s) \<Rightarrow> Some (4096 * p + 256 * q + 16 * r + s)
      | _ \<Rightarrow> None)"
| "hex4 _ = None"

definition simple_escape :: "char \<Rightarrow> char option" where
  "simple_escape c =
     (let n = (of_char c :: nat) in
      if n = 34 \<or> n = 92 \<or> n = 47 then Some c
      else if c = CHR ''b'' then Some (CHR 0x08)
      else if c = CHR ''f'' then Some (CHR 0x0C)
      else if c = CHR ''n'' then Some (CHR 0x0A)
      else if c = CHR ''r'' then Some (CHR 0x0D)
      else if c = CHR ''t'' then Some (CHR 0x09)
      else None)"

text \<open>\<open>py_scanstring\<close> with \<open>strict\<close>, from behind the opening quote.\<close>

fun scan_string :: "string \<Rightarrow> string scan" where
  "scan_string [] = Bad"
| "scan_string [c] = (if c = CHR 0x22 then Scanned [] [] else Bad)"
| "scan_string (c # e # cs) =
     (if c = CHR 0x22 then Scanned [] (e # cs)
      else if c = CHR 0x5C then
        if e = CHR ''u'' then
          (case hex4 cs of
             None \<Rightarrow> Bad
           | Some n \<Rightarrow> if 256 \<le> n then Wide
                       else scan_bind (scan_string (drop 4 cs)) (\<lambda>s. Scanned (char_of n # s)))
        else (case simple_escape e of
             None \<Rightarrow> Bad
           | Some x \<Rightarrow> scan_bind (scan_string cs) (\<lambda>s. Scanned (x # s)))
      else if of_char c < (32 :: nat) then Bad
      else scan_bind (scan_string (e # cs)) (\<lambda>s. Scanned (c # s)))"

text \<open>\<open>NUMBER_RE\<close> and the conversions: a fraction or an exponent makes a float.\<close>

definition scan_digits :: "string \<Rightarrow> string \<times> string" where
  "scan_digits s = (takeWhile is_digit s, dropWhile is_digit s)"

fun scan_integer :: "string \<Rightarrow> (string \<times> string) option" where
  "scan_integer [] = None"
| "scan_integer (c # cs) =
     (if c = CHR ''0'' then Some ([c], cs)
      else if is_digit c then (case scan_digits cs of (ds, r) \<Rightarrow> Some (c # ds, r)) else None)"

fun scan_fraction :: "string \<Rightarrow> string \<times> string" where
  "scan_fraction [] = ([], [])"
| "scan_fraction (c # cs) =
     (if c = CHR ''.'' \<and> fst (scan_digits cs) \<noteq> [] then scan_digits cs else ([], c # cs))"

fun scan_exponent :: "string \<Rightarrow> int option \<times> string" where
  "scan_exponent [] = (None, [])"
| "scan_exponent (c # cs) =
     (if c = CHR ''e'' \<or> c = CHR ''E'' then
        (case split_sign cs of (negative, body) \<Rightarrow>
         (case scan_digits body of (ds, r) \<Rightarrow>
            if ds = [] then (None, c # cs)
            else (Some (if negative then - digits_value ds else digits_value ds), r)))
      else (None, c # cs))"

definition number_value :: "bool \<Rightarrow> string \<Rightarrow> string \<Rightarrow> int option \<Rightarrow> pyobj option" where
  "number_value negative ip fp ex =
     (let sign = (if negative then - 1 else 1)
      in if fp = [] \<and> ex = None
         then if 4300 < length ip then None else Some (PyInt (sign * digits_value ip))
         else Some (PyFloat (fl (of_int (sign * digits_value (ip @ fp))
                * 10 powi ((case ex of None \<Rightarrow> 0 | Some e \<Rightarrow> e) - int (length fp))))))"

definition scan_number :: "string \<Rightarrow> pyvalue scan" where
  "scan_number s =
     (let (negative, body) = (case s of c # cs \<Rightarrow> if c = CHR ''-'' then (True, cs) else (False, s) | [] \<Rightarrow> (False, []))
      in case scan_integer body of
           None \<Rightarrow> Bad
         | Some (ip, r1) \<Rightarrow>
             (case scan_fraction r1 of (fp, r2) \<Rightarrow>
             (case scan_exponent r2 of (ex, r3) \<Rightarrow>
             (case number_value negative ip fp ex of
                None \<Rightarrow> Bad
              | Some v \<Rightarrow> Scanned (PyAtom v) r3))))"

definition scan_word :: "string \<Rightarrow> pyvalue scan" where
  "scan_word s =
     (if py_startswith s ''null'' then Scanned (PyAtom PyNone) (drop 4 s)
      else if py_startswith s ''true'' then Scanned (PyAtom (PyBool True)) (drop 4 s)
      else if py_startswith s ''false'' then Scanned (PyAtom (PyBool False)) (drop 5 s)
      else if py_startswith s ''NaN'' then Scanned (PyAtom (PyFloat NaN)) (drop 3 s)
      else if py_startswith s ''Infinity'' then Scanned (PyAtom (PyFloat PInf)) (drop 8 s)
      else if py_startswith s ''-Infinity'' then Scanned (PyAtom (PyFloat NInf)) (drop 9 s)
      else scan_number s)"

text \<open>
  \<open>scan_once\<close>, \<open>JSONArray\<close> and \<open>JSONObject\<close>, the latter two from the first item or key on. Every call
  for a part of the text has one unit of fuel less; a bracket or a comma is read at every other call, so
  that twice the number of characters is enough (lemma \<open>scan_value_fuel\<close>). A key that is repeated
  keeps its place and takes the last value.
\<close>

fun scan_value :: "nat \<Rightarrow> string \<Rightarrow> pyvalue scan"
  and scan_items :: "nat \<Rightarrow> string \<Rightarrow> pyvalue list scan"
  and scan_members :: "nat \<Rightarrow> string \<Rightarrow> (string \<times> pyvalue) list scan"
where
  "scan_value 0 s = Bad"
| "scan_value (Suc n) [] = Bad"
| "scan_value (Suc n) (c # cs) =
     (if c = CHR 0x22 then scan_bind (scan_string cs) (\<lambda>s. Scanned (PyAtom (PyStr s)))
      else if c = CHR 0x7B then
        (case skip_ws cs of
           [] \<Rightarrow> Bad
         | d # ds \<Rightarrow>
             if d = CHR 0x7D then Scanned (PyDict []) ds
             else scan_bind (scan_members n (d # ds)) (\<lambda>kvs.
               Scanned (PyDict (fold (\<lambda>(k, v). dict_set (PyStr k) v) kvs []))))
      else if c = CHR 0x5B then
        (case skip_ws cs of
           [] \<Rightarrow> Bad
         | d # ds \<Rightarrow>
             if d = CHR 0x5D then Scanned (PySeq []) ds
             else scan_bind (scan_items n (d # ds)) (\<lambda>vs. Scanned (PySeq vs)))
      else scan_word (c # cs))"
| "scan_items 0 s = Bad"
| "scan_items (Suc n) s =
     scan_bind (scan_value n s) (\<lambda>v r.
       case skip_ws r of
         [] \<Rightarrow> Bad
       | d # ds \<Rightarrow>
           if d = CHR 0x2C then scan_bind (scan_items n (skip_ws ds)) (\<lambda>vs. Scanned (v # vs))
           else if d = CHR 0x5D then Scanned [v] ds else Bad)"
| "scan_members 0 s = Bad"
| "scan_members (Suc n) [] = Bad"
| "scan_members (Suc n) (c # cs) =
     (if c \<noteq> CHR 0x22 then Bad
      else scan_bind (scan_string cs) (\<lambda>k r.
        case skip_ws r of
          [] \<Rightarrow> Bad
        | d # ds \<Rightarrow>
            if d \<noteq> CHR 0x3A then Bad
            else scan_bind (scan_value n (skip_ws ds)) (\<lambda>v r'.
              case skip_ws r' of
                [] \<Rightarrow> Bad
              | x # xs \<Rightarrow>
                  if x = CHR 0x2C then scan_bind (scan_members n (skip_ws xs)) (\<lambda>kvs. Scanned ((k, v) # kvs))
                  else if x = CHR 0x7D then Scanned [(k, v)] xs else Bad)))"

text \<open>\<open>detect_encoding\<close> takes bytes that begin with a zero, or have one second, for UTF-16 or UTF-32.\<close>

fun null_led :: "bytes \<Rightarrow> bool" where
  "null_led (a # b # cs) \<longleftrightarrow> (a = 0 \<or> b = 0) \<and> length cs \<noteq> 1"
| "null_led _ \<longleftrightarrow> False"

text \<open>
  \<open>json.loads\<close> of bytes. Characters beyond U+00FF and other encodings than UTF-8 are outside of the
  model: \<open>wide\<close> stands for what \<open>json.loads\<close> makes of bytes that need them.
\<close>

definition json_loads :: "(bytes \<Rightarrow> pyvalue result) \<Rightarrow> bytes \<Rightarrow> pyvalue result" where
  "json_loads wide b =
     (case (if null_led b then None else utf8_decode b) of
        None \<Rightarrow> wide b
      | Some s \<Rightarrow>
          (case scan_value (2 * length s) (skip_ws s) of
             Wide \<Rightarrow> wide b
           | Bad \<Rightarrow> Inl ValueError
           | Scanned v r \<Rightarrow> if skip_ws r = [] then Inr v else Inl ValueError))"

section \<open>The reader ends\<close>

lemma skip_ws_length: "length (skip_ws s) \<le> length s"
  by (simp add: skip_ws_def length_dropWhile_le)

lemma scan_bind_Scanned:
  "scan_bind m f = Scanned y r \<longleftrightarrow> (\<exists>x q. m = Scanned x q \<and> f x q = Scanned y r)"
  by (cases m) auto

lemma scan_string_consumes: "scan_string s = Scanned x r \<Longrightarrow> length r < length s"
proof (induction s arbitrary: x r rule: scan_string.induct)
  case (3 c e cs)
  then show ?case by (fastforce simp: scan_bind_Scanned split: if_splits option.splits)
qed (auto split: if_splits)

lemma scan_digits_rest: "scan_digits s = (ds, r) \<Longrightarrow> length r \<le> length s"
  by (auto simp: scan_digits_def length_dropWhile_le)

lemma scan_integer_consumes: "scan_integer s = Some (ip, r) \<Longrightarrow> length r < length s"
  by (cases s) (auto split: if_splits prod.splits dest: scan_digits_rest)

lemma scan_fraction_rest: "scan_fraction s = (fp, r) \<Longrightarrow> length r \<le> length s"
  by (cases s) (auto split: if_splits dest: scan_digits_rest)

lemma scan_exponent_rest: "scan_exponent s = (ex, r) \<Longrightarrow> length r \<le> length s"
  by (cases s) (auto simp: split_sign_def split: if_splits prod.splits list.splits dest!: scan_digits_rest)

lemma scan_number_consumes: "scan_number s = Scanned v r \<Longrightarrow> length r < length s"
  by (auto simp: scan_number_def Let_def split: if_splits list.splits option.splits prod.splits
      dest!: scan_digits_rest scan_integer_consumes scan_fraction_rest scan_exponent_rest)

lemma scan_word_consumes: "scan_word s = Scanned v r \<Longrightarrow> length r < length s"
  by (auto simp: scan_word_def py_startswith_iff scan_number_consumes split: if_splits)

lemma skip_ws_Cons: "skip_ws s = d # ds \<Longrightarrow> length ds < length s"
  using skip_ws_length [of s] by simp

lemma scan_consumes:
  "scan_value n s = Scanned v r \<Longrightarrow> length r < length s"
  "scan_items n s = Scanned vs r \<Longrightarrow> length r < length s"
  "scan_members n s = Scanned kvs r \<Longrightarrow> length r < length s"
proof (induction n s and n s and n s arbitrary: v r and vs r and kvs r
    rule: scan_value_scan_items_scan_members.induct)
  case (3 n c cs)
  note outer = 3
  consider "c = CHR 0x22" | "c = CHR 0x7B" | "c = CHR 0x5B" | "c \<noteq> CHR 0x22" "c \<noteq> CHR 0x7B" "c \<noteq> CHR 0x5B" by blast
  then show ?case
  proof cases
    case 1
    then show ?thesis using outer(3) scan_string_consumes by (fastforce simp: scan_bind_Scanned)
  next
    case 2
    then obtain d ds where d: "skip_ws cs = d # ds" using outer(3) by (auto split: list.splits)
    show ?thesis
    proof (cases "d = CHR 0x7D")
      case False
      then obtain kvs where "scan_members n (d # ds) = Scanned kvs r" using outer(3) 2 d by (auto simp: scan_bind_Scanned)
      then show ?thesis using outer(1) [of d ds kvs r] 2 False d skip_ws_length [of cs] by simp
    qed (use outer(3) 2 d skip_ws_Cons [OF d] in simp)
  next
    case 3
    then obtain d ds where d: "skip_ws cs = d # ds" using outer(3) by (auto split: list.splits)
    show ?thesis
    proof (cases "d = CHR 0x5D")
      case False
      then obtain vs where "scan_items n (d # ds) = Scanned vs r" using outer(3) 3 d by (auto simp: scan_bind_Scanned)
      then show ?thesis using outer(2) [of d ds vs r] 3 False d skip_ws_length [of cs] by simp
    qed (use outer(3) 3 d skip_ws_Cons [OF d] in simp)
  next
    case 4
    then show ?thesis using outer(3) scan_word_consumes [of "c # cs"] by simp
  qed
next
  case (5 n s)
  obtain v q where v: "scan_value n s = Scanned v q" using 5(3) by (auto simp: scan_bind_Scanned)
  then obtain d ds where d: "skip_ws q = d # ds" using 5(3) by (auto split: list.splits)
  have q: "length ds < length q" "length q < length s" using skip_ws_Cons [OF d] 5(1) [OF v] .
  show ?case
  proof (cases "d = CHR 0x2C")
    case True
    then obtain ws where "scan_items n (skip_ws ds) = Scanned ws r" using 5(3) v d by (auto simp: scan_bind_Scanned)
    then show ?thesis using 5(2) [OF d True, of ws r] skip_ws_length [of ds] q by simp
  qed (use 5(3) v d q in \<open>simp split: if_splits\<close>)
next
  case (8 n c cs)
  obtain k q where k: "scan_string cs = Scanned k q" using 8(3) by (auto simp: scan_bind_Scanned split: if_splits)
  then obtain d ds where d: "skip_ws q = d # ds" "d = CHR 0x3A" "c = CHR 0x22"
    using 8(3) by (auto split: list.splits if_splits)
  obtain v q' where v: "scan_value n (skip_ws ds) = Scanned v q'" using 8(3) k d by (auto simp: scan_bind_Scanned)
  then obtain x xs where x: "skip_ws q' = x # xs" using 8(3) k d by (auto split: list.splits)
  have q: "length q < length cs" "length ds < length q" "length q' < length (skip_ws ds)" "length xs < length q'"
    using scan_string_consumes [OF k] skip_ws_Cons [OF d(1)] 8(1) [of q d ds v q'] skip_ws_Cons [OF x] v d k by simp_all
  show ?case
  proof (cases "x = CHR 0x2C")
    case True
    then obtain ws where "scan_members n (skip_ws xs) = Scanned ws r" using 8(3) k d v x by (auto simp: scan_bind_Scanned)
    then show ?thesis
      using 8(2) [of q d ds q' x xs ws r] skip_ws_length [of xs] skip_ws_length [of ds] q k d x True by simp
  qed (use 8(3) k d v x q skip_ws_length [of ds] in \<open>simp split: if_splits\<close>)
qed simp_all

text \<open>More fuel makes no difference.\<close>

lemma scan_bind_cong_Scanned:
  "(\<And>x r. m = Scanned x r \<Longrightarrow> f x r = g x r) \<Longrightarrow> scan_bind m f = scan_bind m g"
  by (cases m) auto

lemma scan_fuel:
  "2 * length s \<le> n \<Longrightarrow> scan_value n s = scan_value (Suc n) s"
  "2 * length s + 1 \<le> n \<Longrightarrow> scan_items n s = scan_items (Suc n) s"
  "2 * length s + 1 \<le> n \<Longrightarrow> scan_members n s = scan_members (Suc n) s"
proof (induction n arbitrary: s)
  case 0
  {
    case 1
    then show ?case by simp
  next
    case 2
    then show ?case by simp
  next
    case 3
    then show ?case by simp
  }
next
  case (Suc n)
  {
    case 1
    show ?case
    proof (cases s)
      case (Cons c cs)
      have "scan_members n (skip_ws cs) = scan_members (Suc n) (skip_ws cs)" "scan_items n (skip_ws cs) = scan_items (Suc n) (skip_ws cs)"
        using 1 Cons skip_ws_length [of cs] Suc.IH(2,3) [of "skip_ws cs"] by simp_all
      then show ?thesis unfolding Cons by (cases "skip_ws cs") (simp_all only: scan_value.simps list.case)
    qed simp
  next
    case 2
    have "scan_items n (skip_ws ds) = scan_items (Suc n) (skip_ws ds)"
      if "scan_value (Suc n) s = Scanned v r" "skip_ws r = d # ds" for v r d ds
      using 2 scan_consumes(1) [OF that(1)] skip_ws_Cons [OF that(2)] skip_ws_length [of ds]
      by (intro Suc.IH(2)) simp
    moreover have "scan_value n s = scan_value (Suc n) s" using 2 by (intro Suc.IH(1)) simp
    ultimately show ?case unfolding scan_items.simps
      by (auto intro!: scan_bind_cong_Scanned split: list.split simp del: scan_items.simps scan_value.simps)
  next
    case 3
    show ?case
    proof (cases s)
      case (Cons c cs)
      have vals: "scan_value n (skip_ws ds) = scan_value (Suc n) (skip_ws ds)"
        if "scan_string cs = Scanned k q" "skip_ws q = d # ds" for k q d ds
        using 3 Cons scan_string_consumes [OF that(1)] skip_ws_Cons [OF that(2)] skip_ws_length [of ds]
        by (intro Suc.IH(1)) simp
      have members: "scan_members n (skip_ws xs) = scan_members (Suc n) (skip_ws xs)"
        if "scan_string cs = Scanned k q" "skip_ws q = d # ds" "scan_value (Suc n) (skip_ws ds) = Scanned v q'"
          "skip_ws q' = x # xs" for k q d ds v q' x xs
        using 3 Cons scan_string_consumes [OF that(1)] skip_ws_Cons [OF that(2)] scan_consumes(1) [OF that(3)]
          skip_ws_Cons [OF that(4)] skip_ws_length [of ds] skip_ws_length [of xs]
        by (intro Suc.IH(3)) simp
      show ?thesis unfolding Cons scan_members.simps
        by (auto intro!: scan_bind_cong_Scanned simp: vals members split: list.split
            simp del: scan_items.simps scan_value.simps scan_members.simps)
    qed simp
  }
qed

lemma scan_value_fuel: "2 * length s \<le> n \<Longrightarrow> scan_value n s = scan_value (2 * length s) s"
  by (induction n rule: dec_induct) (simp_all flip: scan_fuel(1))

end
