(* ===== verification/Safe_Metadata.thy ===== *)
theory Safe_Metadata
  imports Contracts Json_Text
begin

text \<open>
  Secret-safe JSON metadata: \<open>src/src/wybra/utils/safety.py\<close>.

  A Python value handed to \<open>safe_json_metadata\<close> is a \<open>pyvalue\<close>: an atom, a mapping (its items in
  insertion order) or a list or tuple. The canonical form is a \<open>json\<close> tree, and the bytes that
  \<open>json.dumps\<close> with sorted keys and compact separators makes of it. The counter of items, a
  one-element list in the code, is passed along.

  The lemmas show that nothing stored under a sensitive name reaches the result, that the result
  does not depend on it, and that the limits on depth, items, strings and bytes hold.
\<close>

section \<open>Sensitive names\<close>

definition SENSITIVE_ATTRIBUTE_PARTS :: "string list" where
  "SENSITIVE_ATTRIBUTE_PARTS =
     [''authorisation'', ''authorization'', ''cookie'', ''credential'', ''csrf'', ''password'',
      ''secret'', ''session'', ''token'']"

definition SENSITIVE_KEY_PARTS :: "string list list" where
  "SENSITIVE_KEY_PARTS =
     [[''access'', ''key''], [''api'', ''key''], [''private'', ''key''], [''secret'', ''key''],
      [''signing'', ''key'']]"

definition SENSITIVE_COMPACT_NAMES :: "string list" where
  "SENSITIVE_COMPACT_NAMES =
     concat (map (\<lambda>parts. [concat parts, concat (butlast parts @ [last parts @ ''s''])])
       SENSITIVE_KEY_PARTS)"

definition SENSITIVE_PLURAL_ATTRIBUTE_PARTS :: "string list" where
  "SENSITIVE_PLURAL_ATTRIBUTE_PARTS =
     map (\<lambda>part. part @ ''s'') (filter (\<lambda>part. part \<noteq> ''csrf'') SENSITIVE_ATTRIBUTE_PARTS)"

definition NON_SENSITIVE_METRIC_SUFFIXES :: "string list" where
  "NON_SENSITIVE_METRIC_SUFFIXES =
     [''changed'', ''checked'', ''count'', ''created'', ''deleted'', ''failed'', ''migrated'',
      ''processed'', ''remaining'', ''succeeded'', ''total'']"

definition MAX_SAFE_STRING_LENGTH :: nat where
  "MAX_SAFE_STRING_LENGTH = 500"

definition MAX_SAFE_METADATA_DEPTH :: nat where
  "MAX_SAFE_METADATA_DEPTH = 8"

definition MAX_SAFE_METADATA_ITEMS :: nat where
  "MAX_SAFE_METADATA_ITEMS = 128"

definition MAX_SAFE_METADATA_BYTES :: nat where
  "MAX_SAFE_METADATA_BYTES = 16384"

definition is_upper :: "char \<Rightarrow> bool" where
  "is_upper c \<longleftrightarrow> CHR ''A'' \<le> c \<and> c \<le> CHR ''Z''"

definition ascii_alnum :: "char \<Rightarrow> bool" where
  "ascii_alnum c \<longleftrightarrow> is_lower c \<or> is_upper c \<or> is_digit c"

definition ascii_lower :: "char \<Rightarrow> char" where
  "ascii_lower c = (if is_upper c then char_of (of_char c + (32 :: nat)) else c)"

text \<open>The zero-width matches of \<open>_CAMEL_CASE_BOUNDARY\<close>: between a lower-case letter or digit and
  an upper-case letter, and between an upper-case letter and one that a lower-case one follows.\<close>

fun camel_boundary :: "char \<Rightarrow> string \<Rightarrow> bool" where
  "camel_boundary a [] = False"
| "camel_boundary a (b # cs) \<longleftrightarrow>
     (is_lower a \<or> is_digit a) \<and> is_upper b
     \<or> is_upper a \<and> is_upper b \<and> (case cs of c # _ \<Rightarrow> is_lower c | [] \<Rightarrow> False)"

fun camel_separated :: "string \<Rightarrow> string" where
  "camel_separated [] = []"
| "camel_separated (a # cs) =
     (if camel_boundary a cs then a # CHR ''_'' # camel_separated cs else a # camel_separated cs)"

text \<open>\<open>_ATTRIBUTE_PART_SEPARATOR.split\<close>, empty parts left out.\<close>

fun alnum_parts :: "string \<Rightarrow> string \<Rightarrow> string list" where
  "alnum_parts acc [] = (if acc = [] then [] else [rev acc])"
| "alnum_parts acc (c # cs) =
     (if ascii_alnum c then alnum_parts (c # acc) cs
      else if acc = [] then alnum_parts [] cs else rev acc # alnum_parts [] cs)"

definition attribute_name_parts :: "string \<Rightarrow> string list" where
  "attribute_name_parts key = map (map ascii_lower) (alnum_parts [] (camel_separated key))"

definition is_plural_metric :: "string list \<Rightarrow> nat \<Rightarrow> bool" where
  "is_plural_metric parts index =
     (let suffix = drop (Suc index) parts
      in suffix \<noteq> [] \<and> list_all (\<lambda>part. part \<in> set NON_SENSITIVE_METRIC_SUFFIXES) suffix)"

definition matches_sensitive_key_parts :: "string list \<Rightarrow> string list \<Rightarrow> bool" where
  "matches_sensitive_key_parts candidate sensitive_parts \<longleftrightarrow>
     butlast candidate = butlast sensitive_parts
     \<and> last candidate \<in> {last sensitive_parts, last sensitive_parts @ ''s''}"

definition rstrip_digits :: "string \<Rightarrow> string" where
  "rstrip_digits s = rev (dropWhile is_digit (rev s))"

definition is_sensitive_attribute_name :: "string \<Rightarrow> bool" where
  "is_sensitive_attribute_name key =
     (let parts = attribute_name_parts key
      in list_ex (\<lambda>index.
             rstrip_digits (parts ! index) \<in> set SENSITIVE_ATTRIBUTE_PARTS
             \<or> parts ! index \<in> set SENSITIVE_PLURAL_ATTRIBUTE_PARTS
               \<and> \<not> is_plural_metric parts index) [0..<length parts]
         \<or> list_ex (\<lambda>sensitive_parts.
             list_ex (\<lambda>index.
               matches_sensitive_key_parts
                 (take (length sensitive_parts) (drop index parts)) sensitive_parts)
               [0..<length parts + 1 - length sensitive_parts]) SENSITIVE_KEY_PARTS
         \<or> concat parts \<in> set SENSITIVE_COMPACT_NAMES)"

definition truncate_safe_string :: "string \<Rightarrow> int \<Rightarrow> string" where
  "truncate_safe_string value maximum_length =
     (if int (length value) \<le> maximum_length then value
      else if maximum_length \<le> 3 then replicate (nat maximum_length) (CHR ''.'')
      else take (nat (maximum_length - 3)) value @ ''...'')"

section \<open>The canonical form\<close>

definition check_depth :: "nat \<Rightarrow> unit result" where
  "check_depth depth = (if MAX_SAFE_METADATA_DEPTH < depth then Inl ValueError else Inr ())"

definition count_item :: "nat \<Rightarrow> nat result" where
  "count_item n = (if MAX_SAFE_METADATA_ITEMS < Suc n then Inl ValueError else Inr (Suc n))"

fun is_str :: "pyobj \<Rightarrow> bool" where
  "is_str (PyStr _) = True"
| "is_str _ = False"

text \<open>The scalar cases of \<open>_safe_value\<close>.\<close>

fun safe_atom :: "pyobj \<Rightarrow> json result" where
  "safe_atom PyNone = Inr JNull"
| "safe_atom (PyBool b) = Inr (JBool b)"
| "safe_atom (PyInt n) = Inr (JInt n)"
| "safe_atom (PyFloat f) = (case f of Fin x \<Rightarrow> Inr (JFloat x) | _ \<Rightarrow> Inl ValueError)"
| "safe_atom (PyStr s) = (if MAX_SAFE_STRING_LENGTH < length s then Inl ValueError else Inr (JStr s))"
| "safe_atom _ = Inl ValueError"

text \<open>\<open>safe_entries\<close> and \<open>safe_items\<close> are the loops of \<open>_safe_mapping\<close> and of the sequence case;
  their depth is that of the values.\<close>

fun safe_value :: "pyvalue \<Rightarrow> nat \<Rightarrow> nat \<Rightarrow> (json \<times> nat) result"
  and safe_mapping ::
    "(pyobj \<times> pyvalue) list \<Rightarrow> nat \<Rightarrow> nat \<Rightarrow> ((string \<times> json) list \<times> nat) result"
  and safe_entries ::
    "(pyobj \<times> pyvalue) list \<Rightarrow> nat \<Rightarrow> nat \<Rightarrow> (string \<times> json) list \<Rightarrow> ((string \<times> json) list \<times> nat) result"
  and safe_items :: "pyvalue list \<Rightarrow> nat \<Rightarrow> nat \<Rightarrow> (json list \<times> nat) result"
where
  "safe_value (PyAtom a) depth n =
     res_bind (check_depth depth) (\<lambda>_. res_bind (safe_atom a) (\<lambda>j. Inr (j, n)))"
| "safe_value (PyDict kvs) depth n =
     res_bind (check_depth depth) (\<lambda>_.
       if list_ex (\<lambda>(k, _). \<not> is_str k) kvs then Inl ValueError
       else res_bind (safe_mapping kvs depth n) (\<lambda>(d, m). Inr (JDict d, m)))"
| "safe_value (PySeq vs) depth n =
     res_bind (check_depth depth) (\<lambda>_.
       res_bind (safe_items vs (Suc depth) n) (\<lambda>(js, m). Inr (JList js, m)))"
| "safe_mapping kvs depth n =
     res_bind (check_depth depth) (\<lambda>_. safe_entries kvs (Suc depth) n [])"
| "safe_entries [] depth n safe = Inr (safe, n)"
| "safe_entries ((k, v) # kvs) depth n safe =
     res_bind (count_item n) (\<lambda>n'.
       let key = (case k of PyStr s \<Rightarrow> s | _ \<Rightarrow> []) in
       if is_sensitive_attribute_name key
       then safe_entries kvs depth n' (dict_set key (JStr ''[redacted]'') safe)
       else res_bind (safe_value v depth n') (\<lambda>(j, m).
              safe_entries kvs depth m (dict_set key j safe)))"
| "safe_items [] depth n = Inr ([], n)"
| "safe_items (v # vs) depth n =
     res_bind (count_item n) (\<lambda>n'.
       res_bind (safe_value v depth n') (\<lambda>(j, m).
         res_bind (safe_items vs depth m) (\<lambda>(js, m'). Inr (j # js, m'))))"

section \<open>The metadata object\<close>

text \<open>The object keeps its encoding only; reading it back parses the bytes.\<close>

datatype SafeJsonMetadata = SafeJsonMetadata (encoded: bytes)

datatype metadata_input = Safe SafeJsonMetadata | Raw pyvalue

definition make_SafeJsonMetadata :: "pyvalue \<Rightarrow> SafeJsonMetadata result" where
  "make_SafeJsonMetadata values =
     (case values of
        PyDict kvs \<Rightarrow>
          if list_ex (\<lambda>(k, _). \<not> is_str k) kvs then Inl ValueError
          else res_bind (safe_mapping kvs 0 0) (\<lambda>(safe, _).
            res_bind (json_dumps (JDict safe)) (\<lambda>doc.
              let enc = utf8_encode doc in
              if MAX_SAFE_METADATA_BYTES < length enc then Inl ValueError
              else Inr (SafeJsonMetadata enc)))
      | _ \<Rightarrow> Inl ValueError)"

fun safe_json_metadata :: "metadata_input \<Rightarrow> SafeJsonMetadata result" where
  "safe_json_metadata (Safe m) = Inr m"
| "safe_json_metadata (Raw values) = make_SafeJsonMetadata values"

section \<open>Redaction and limits\<close>

text \<open>What the canonical form promises: below a sensitive name there is only the mark, at every
  level; strings are short; \<open>json_height\<close> is the number of levels below (the mark that replaces a
  secret is stored without a look at the depth, and is no level), \<open>json_items\<close> the number of members
  and elements.\<close>

fun redacted :: "json \<Rightarrow> bool" where
  "redacted (JList js) \<longleftrightarrow> (\<forall>j \<in> set js. redacted j)"
| "redacted (JDict d) \<longleftrightarrow>
     (\<forall>(k, j) \<in> set d. redacted j \<and> (is_sensitive_attribute_name k \<longrightarrow> j = JStr ''[redacted]''))"
| "redacted _ \<longleftrightarrow> True"

fun short_strings :: "json \<Rightarrow> bool" where
  "short_strings (JStr s) \<longleftrightarrow> length s \<le> MAX_SAFE_STRING_LENGTH"
| "short_strings (JList js) \<longleftrightarrow> (\<forall>j \<in> set js. short_strings j)"
| "short_strings (JDict d) \<longleftrightarrow> (\<forall>(k, j) \<in> set d. short_strings j)"
| "short_strings _ \<longleftrightarrow> True"

fun json_height :: "json \<Rightarrow> nat" where
  "json_height (JList js) = foldr max (map (\<lambda>j. Suc (json_height j)) js) 0"
| "json_height (JDict d) =
     foldr max (map (\<lambda>(k, j). if is_sensitive_attribute_name k then 0 else Suc (json_height j)) d) 0"
| "json_height _ = 0"

fun json_items :: "json \<Rightarrow> nat" where
  "json_items (JList js) = sum_list (map (\<lambda>j. Suc (json_items j)) js)"
| "json_items (JDict d) = sum_list (map (\<lambda>(k, j). Suc (json_items j)) d)"
| "json_items _ = 0"

text \<open>One value of the result, stored at a depth, and one member of a mapping.\<close>

definition good_value :: "nat \<Rightarrow> json \<Rightarrow> bool" where
  "good_value depth j \<longleftrightarrow>
     redacted j \<and> short_strings j \<and> depth + json_height j \<le> MAX_SAFE_METADATA_DEPTH"

definition good_member :: "nat \<Rightarrow> string \<times> json \<Rightarrow> bool" where
  "good_member depth p \<longleftrightarrow>
     (if is_sensitive_attribute_name (fst p) then snd p = JStr ''[redacted]''
      else good_value depth (snd p))"

lemma foldr_max_le: "foldr max ns 0 \<le> (b :: nat) \<longleftrightarrow> (\<forall>n \<in> set ns. n \<le> b)"
  by (induction ns) auto

lemma sum_list_dict_set:
  "sum_list (map (\<lambda>(k, j). Suc (f j)) (dict_set k v d)) \<le> sum_list (map (\<lambda>(k, j). Suc (f j)) d) + Suc (f v)"
  by (induction d) auto

lemma check_depth_Inr [simp]: "check_depth d = Inr u \<longleftrightarrow> d \<le> MAX_SAFE_METADATA_DEPTH"
  by (simp add: check_depth_def not_less)

lemma count_item_Inr [simp]: "count_item n = Inr m \<longleftrightarrow> m = Suc n \<and> m \<le> MAX_SAFE_METADATA_ITEMS"
  by (auto simp: count_item_def)

lemma safe_atom_good:
  "safe_atom a = Inr j \<Longrightarrow> d \<le> MAX_SAFE_METADATA_DEPTH \<Longrightarrow> good_value d j \<and> json_items j = 0"
  by (cases a) (auto simp: good_value_def split: if_splits pyfloat.splits)

lemma good_dict:
  assumes "d \<le> MAX_SAFE_METADATA_DEPTH" and "\<forall>p \<in> set ms. good_member (Suc d) p"
  shows "good_value d (JDict ms)"
proof -
  have *: "redacted (snd p)" "short_strings (snd p)"
    "is_sensitive_attribute_name (fst p) \<Longrightarrow> snd p = JStr ''[redacted]''"
    "\<not> is_sensitive_attribute_name (fst p) \<Longrightarrow> d + Suc (json_height (snd p)) \<le> MAX_SAFE_METADATA_DEPTH"
    if "p \<in> set ms" for p
    using assms that
    by (auto simp: good_member_def good_value_def MAX_SAFE_STRING_LENGTH_def split: if_splits)
  from *(4) have "json_height (JDict ms) \<le> MAX_SAFE_METADATA_DEPTH - d"
    by (fastforce simp: foldr_max_le)
  then show ?thesis using assms(1) * by (fastforce simp: good_value_def)
qed

lemma good_list:
  assumes "d \<le> MAX_SAFE_METADATA_DEPTH" and "\<forall>j \<in> set js. good_value (Suc d) j"
  shows "good_value d (JList js)"
proof -
  have "json_height (JList js) \<le> MAX_SAFE_METADATA_DEPTH - d"
    using assms(2) by (fastforce simp: foldr_max_le good_value_def)
  then show ?thesis using assms by (auto simp: good_value_def)
qed


text \<open>Setting one member: the others stay as they are.\<close>

lemma member_set:
  assumes "\<forall>p \<in> set acc. good_member d p" and "good_member d (k, j)"
  shows "(\<forall>p \<in> set (dict_set k j acc). good_member d p)
    \<and> json_items (JDict (dict_set k j acc)) \<le> json_items (JDict acc) + Suc (json_items j)"
  using assms set_dict_set_subset [of k j acc] sum_list_dict_set [of json_items k j acc] by auto

lemma safe_value_good:
  "safe_value v d n = Inr (j, m) \<Longrightarrow> good_value d j \<and> n + json_items j \<le> m"
  "safe_mapping kvs d n = Inr (r, m) \<Longrightarrow>
     d \<le> MAX_SAFE_METADATA_DEPTH \<and> (\<forall>p \<in> set r. good_member (Suc d) p) \<and> n + json_items (JDict r) \<le> m"
  "safe_entries kvs d n acc = Inr (r, m) \<Longrightarrow> \<forall>p \<in> set acc. good_member d p \<Longrightarrow>
     (\<forall>p \<in> set r. good_member d p) \<and> n + json_items (JDict r) \<le> m + json_items (JDict acc)"
  "safe_items vs d n = Inr (js, m) \<Longrightarrow>
     (\<forall>j \<in> set js. good_value d j) \<and> n + json_items (JList js) \<le> m"
proof (induction v d n and kvs d n and kvs d n acc and vs d n
       arbitrary: j m and r m and r m and js m
       rule: safe_value_safe_mapping_safe_entries_safe_items.induct)
  case (1 a depth n)
  then show ?case by (auto dest!: safe_atom_good)
next
  case (2 kvs depth n)
  then show ?case by (auto split: if_splits intro: good_dict simp del: json_items.simps)
next
  case (3 vs depth n)
  then show ?case by (auto intro: good_list simp del: json_items.simps)
next
  case (4 kvs depth n)
  then show ?case by (auto simp del: json_items.simps simp: json_items.simps(2)[of "[]"])
next
  case (5 depth n safe)
  then show ?case by simp
next
  case (6 k v kvs depth n safe)
  let ?key = "case k of PyStr s \<Rightarrow> s | _ \<Rightarrow> []"
  have n: "count_item n = Inr (Suc n)"
    using 6(4) by (cases "count_item n") auto
  show ?case
  proof (cases "is_sensitive_attribute_name ?key")
    case True
    have "safe_entries kvs depth (Suc n) (dict_set ?key (JStr ''[redacted]'') safe) = Inr (r, m)"
      using 6(4) True by (simp add: n Let_def)
    then show ?thesis
      using 6(1) [OF refl True] member_set [of safe depth ?key "JStr ''[redacted]''"] 6(5) True
      by (fastforce simp: good_member_def)
  next
    case False
    obtain j m' where j: "safe_value v depth (Suc n) = Inr (j, m')"
      and rest: "safe_entries kvs depth m' (dict_set ?key j safe) = Inr (r, m)"
      using 6(4) False by (auto simp: n Let_def)
    show ?thesis
      using 6(2) [OF refl False j] 6(3) [OF refl False rest]
        member_set [of safe depth ?key j] 6(5) False
      by (fastforce simp: good_member_def)
  qed
next
  case (7 depth n)
  then show ?case by simp
next
  case (8 v vs depth n)
  then show ?case by fastforce
qed

text \<open>The counter never passes its limit.\<close>

lemma safe_value_count:
  "safe_value v d n = Inr (j, m) \<Longrightarrow> n \<le> MAX_SAFE_METADATA_ITEMS \<Longrightarrow> m \<le> MAX_SAFE_METADATA_ITEMS"
  "safe_mapping kvs d n = Inr (r, m) \<Longrightarrow> n \<le> MAX_SAFE_METADATA_ITEMS \<Longrightarrow> m \<le> MAX_SAFE_METADATA_ITEMS"
  "safe_entries kvs d n acc = Inr (r, m) \<Longrightarrow> n \<le> MAX_SAFE_METADATA_ITEMS \<Longrightarrow> m \<le> MAX_SAFE_METADATA_ITEMS"
  "safe_items vs d n = Inr (js, m) \<Longrightarrow> n \<le> MAX_SAFE_METADATA_ITEMS \<Longrightarrow> m \<le> MAX_SAFE_METADATA_ITEMS"
  by (induction v d n and kvs d n and kvs d n acc and vs d n
      arbitrary: j m and r m and r m and js m
      rule: safe_value_safe_mapping_safe_entries_safe_items.induct)
     (auto simp: Let_def split: if_splits)

lemma safe_mapping_count: "safe_mapping kvs d 0 = Inr (r, m) \<Longrightarrow> m \<le> MAX_SAFE_METADATA_ITEMS"
  by (rule safe_value_count(2)) (assumption, rule le0)

section \<open>Secrets do not matter\<close>

text \<open>\<open>erase_secrets\<close> forgets what is stored under a sensitive name, at every level.\<close>

fun secret_key :: "pyobj \<Rightarrow> bool" where
  "secret_key (PyStr s) \<longleftrightarrow> is_sensitive_attribute_name s"
| "secret_key _ \<longleftrightarrow> is_sensitive_attribute_name []"

fun erase_secrets :: "pyvalue \<Rightarrow> pyvalue" where
  "erase_secrets (PyAtom a) = PyAtom a"
| "erase_secrets (PyDict kvs) =
     PyDict (map (\<lambda>(k, v). (k, if secret_key k then PyAtom PyNone else erase_secrets v)) kvs)"
| "erase_secrets (PySeq vs) = PySeq (map erase_secrets vs)"

definition erase_entries :: "(pyobj \<times> pyvalue) list \<Rightarrow> (pyobj \<times> pyvalue) list" where
  "erase_entries = map (\<lambda>(k, v). (k, if secret_key k then PyAtom PyNone else erase_secrets v))"

lemma erase_entries_simps [simp]:
  "erase_entries [] = []"
  "erase_entries ((k, v) # kvs) =
     (k, if secret_key k then PyAtom PyNone else erase_secrets v) # erase_entries kvs"
  "erase_secrets (PyDict kvs) = PyDict (erase_entries kvs)"
  by (simp_all add: erase_entries_def)

declare erase_secrets.simps(2) [simp del]

lemma secret_key_eq: "secret_key k = is_sensitive_attribute_name (case k of PyStr s \<Rightarrow> s | _ \<Rightarrow> [])"
  by (cases k) auto

lemma erase_entries_keys [simp]:
  "list_ex (\<lambda>(k, _). P k) (erase_entries kvs) = list_ex (\<lambda>(k, _). P k) kvs"
  by (induction kvs) auto

lemma res_bind_cong: "r = r' \<Longrightarrow> (\<And>x. r' = Inr x \<Longrightarrow> f x = g x) \<Longrightarrow> res_bind r f = res_bind r' g"
  by (cases r') simp_all

lemma safe_value_erased:
  "safe_value (erase_secrets v) d n = safe_value v d n"
  "safe_mapping (erase_entries kvs) d n = safe_mapping kvs d n"
  "safe_entries (erase_entries kvs) d n acc = safe_entries kvs d n acc"
  "safe_items (map erase_secrets vs) d n = safe_items vs d n"
proof (induction v d n and kvs d n and kvs d n acc and vs d n
       rule: safe_value_safe_mapping_safe_entries_safe_items.induct)
  case (2 kvs depth n)
  then show ?case by (simp del: safe_mapping.simps cong: res_bind_cong)
next
  case (6 k v kvs depth n safe)
  then show ?case
    by (cases "secret_key k") (simp_all add: secret_key_eq Let_def split_beta)
qed (simp_all cong: res_bind_cong)

lemma make_metadata_erased: "make_SafeJsonMetadata (erase_secrets v) = make_SafeJsonMetadata v"
  by (cases v) (simp_all add: make_SafeJsonMetadata_def safe_value_erased
      del: safe_mapping.simps)

section \<open>Properties\<close>

lemma truncate_safe_string_length:
  "int (length (truncate_safe_string s n)) \<le> max 0 n"
  by (auto simp: truncate_safe_string_def)

text \<open>C20: What \<open>safe_json_metadata\<close> accepts, it has cleaned: in the canonical tree behind the
  encoding every member with a sensitive name, at any level, holds the mark and nothing else; no
  value lies deeper than eight levels, there are at most 128 members and elements, no string value
  is longer than 500 characters, and the encoding has at most 16384 bytes.\<close>

theorem metadata_clean_and_bounded:
  assumes "safe_json_metadata (Raw values) = Inr m"
  shows "\<exists>tree doc. json_dumps tree = Inr doc \<and> encoded m = utf8_encode doc
    \<and> redacted tree \<and> short_strings tree
    \<and> json_height tree \<le> MAX_SAFE_METADATA_DEPTH \<and> json_items tree \<le> MAX_SAFE_METADATA_ITEMS
    \<and> length (encoded m) \<le> MAX_SAFE_METADATA_BYTES"
proof -
  obtain kvs safe n doc where *: "values = PyDict kvs" "safe_mapping kvs 0 0 = Inr (safe, n)"
    "json_dumps (JDict safe) = Inr doc" "m = SafeJsonMetadata (utf8_encode doc)"
    "length (utf8_encode doc) \<le> MAX_SAFE_METADATA_BYTES"
    using assms
    by (auto simp: make_SafeJsonMetadata_def Let_def split: pyvalue.splits if_splits
        simp del: safe_mapping.simps)
  have "good_value 0 (JDict safe)" and "json_items (JDict safe) \<le> n"
    using safe_value_good(2) [OF *(2)] by (auto intro: good_dict)
  moreover have "n \<le> MAX_SAFE_METADATA_ITEMS" by (rule safe_mapping_count [OF *(2)])
  ultimately show ?thesis using *(3-5) by (intro exI [of _ "JDict safe"]) (auto simp: good_value_def)
qed

theorem metadata_clean_and_bounded_witness:
  "\<exists>m tree doc. safe_json_metadata (Raw (PyDict [(PyStr ''step'', PyAtom (PyInt 3)),
      (PyStr ''apiKey'', PyAtom (PyStr ''s3cr3t''))])) = Inr m
    \<and> json_dumps tree = Inr doc \<and> encoded m = utf8_encode doc \<and> redacted tree"
proof -
  let ?v = "PyDict [(PyStr ''step'', PyAtom (PyInt 3)), (PyStr ''apiKey'', PyAtom (PyStr ''s3cr3t''))]"
  have "\<not> isl (safe_json_metadata (Raw ?v))" by code_simp
  then obtain m where "safe_json_metadata (Raw ?v) = Inr m" by (auto simp: isl_def sum.split_asm) (metis sum.exhaust)
  with metadata_clean_and_bounded [OF this] show ?thesis by blast
qed

text \<open>C21: Secrets do not leak through the metadata, not even through its size or through an error:
  two inputs that differ only in what they store under sensitive names have the same outcome.\<close>

theorem metadata_hides_secrets:
  assumes "erase_secrets v = erase_secrets w"
  shows "safe_json_metadata (Raw v) = safe_json_metadata (Raw w)"
  using make_metadata_erased [of v] make_metadata_erased [of w] assms by simp

theorem metadata_hides_secrets_witness:
  "safe_json_metadata (Raw (PyDict [(PyStr ''userTokens'', PySeq [PyAtom (PyBytes [])])]))
   = safe_json_metadata (Raw (PyDict [(PyStr ''userTokens'', PyAtom (PyStr ''abc''))]))"
  by (rule metadata_hides_secrets) code_simp

end
