(* ===== verification/Content_Types.thy ===== *)
theory Content_Types
  imports Safe_Metadata
begin

text \<open>
  Content types derived from database models: \<open>src/src/wybra/content_types.py\<close>.

  A model class is a record with its identity \<open>mc_id\<close>, those of its base classes and the attributes the code reads from
  \<open>model._meta\<close> and \<open>model.Meta\<close>. The plural form of a name comes from the third-party package
  \<open>inflect\<close>: \<open>plural_noun\<close> is a parameter. Upper case is that of ASCII and of the Latin-1 letters
  that have one in Latin-1.

  The lemmas show that the registry is a bijection between the concrete models and their
  identifiers, and that identifiers have the form \<open>app[.schema].table\<close>.
\<close>

section \<open>Models\<close>

text \<open>The value of an attribute of \<open>Meta\<close>: missing, an atom, or an iterable of atoms.\<close>

datatype meta_value = MetaAbsent | MetaObj pyobj | MetaIter "pyobj list"

record model_class =
  mc_id :: nat
  mc_bases :: "nat list"
  mc_name :: string
  mc_module :: string
  mc_qualname :: string
  mc_abstract :: bool
  mc_app :: "string option"
  mc_schema :: "string option"
  mc_db_table :: string
  mc_verbose_name :: meta_value
  mc_verbose_name_plural :: meta_value
  mc_content_actions :: meta_value
  mc_content_exclude :: meta_value
  mc_scopes :: meta_value

text \<open>\<open>tuple(value)\<close> for a value that is not a string; \<open>None\<close> is a \<open>TypeError\<close>. Bytes iterate as
  ints.\<close>

fun iter_values :: "meta_value \<Rightarrow> pyobj list option" where
  "iter_values (MetaIter vs) = Some vs"
| "iter_values (MetaObj (PyBytes b)) = Some (map (\<lambda>w. PyInt (uint w)) b)"
| "iter_values _ = None"

record ContentType =
  ct_identifier :: string
  ct_model :: model_class
  ct_verbose_name :: string
  ct_verbose_name_plural :: string
  ct_actions :: "string set"

definition DEFAULT_CONTENT_ACTIONS :: "string set" where
  "DEFAULT_CONTENT_ACTIONS = {''list'', ''view'', ''create'', ''update'', ''delete''}"

section \<open>Names\<close>

definition py_upper_char :: "char \<Rightarrow> char" where
  "py_upper_char c =
     (let n = (of_char c :: nat) in
      if is_lower c \<or> 224 \<le> n \<and> n \<le> 254 \<and> n \<noteq> 247 then char_of (n - 32) else c)"

fun humanised_words :: "string \<Rightarrow> string" where
  "humanised_words [] = []"
| "humanised_words (a # cs) =
     (if camel_boundary a cs then a # CHR '' '' # humanised_words cs else a # humanised_words cs)"

text \<open>\<open>str.split()\<close>: the runs of characters that are not white space.\<close>

fun split_words :: "string \<Rightarrow> string \<Rightarrow> string list" where
  "split_words acc [] = (if acc = [] then [] else [rev acc])"
| "split_words acc (c # cs) =
     (if \<not> py_isspace c then split_words (c # acc) cs
      else if acc = [] then split_words [] cs else rev acc # split_words [] cs)"

fun capitalised :: "string \<Rightarrow> string" where
  "capitalised [] = []"
| "capitalised (c # cs) = py_upper_char c # cs"

fun join_with :: "string \<Rightarrow> string list \<Rightarrow> string" where
  "join_with sep [] = []"
| "join_with sep [x] = x"
| "join_with sep (x # y # zs) = x @ sep @ join_with sep (y # zs)"

definition humanise :: "string \<Rightarrow> string" where
  "humanise name =
     (let spaced = map (\<lambda>c. if c = CHR ''_'' then CHR '' '' else c) (humanised_words name)
      in join_with '' '' (map capitalised (split_words [] spaced)))"

definition pluralise :: "(string \<Rightarrow> string option) \<Rightarrow> string \<Rightarrow> string" where
  "pluralise plural_noun value =
     (case plural_noun value of None \<Rightarrow> value | Some s \<Rightarrow> if s = [] then value else s)"

section \<open>The content type of a model\<close>

fun model_meta_value :: "meta_value \<Rightarrow> string option result" where
  "model_meta_value MetaAbsent = Inr None"
| "model_meta_value (MetaObj PyNone) = Inr None"
| "model_meta_value (MetaObj (PyStr s)) = (if s = [] then Inl ContentTypeError else Inr (Some s))"
| "model_meta_value _ = Inl ContentTypeError"

fun str_value :: "pyobj \<Rightarrow> string" where
  "str_value (PyStr s) = s"
| "str_value _ = []"

definition model_meta_actions :: "meta_value \<Rightarrow> string set \<Rightarrow> string set result" where
  "model_meta_actions value deflt =
     (case value of
        MetaAbsent \<Rightarrow> Inr deflt
      | _ \<Rightarrow> (case iter_values value of
          None \<Rightarrow> Inl ContentTypeError
        | Some vs \<Rightarrow>
            if list_all is_str vs then Inr (set (map str_value vs)) else Inl ContentTypeError))"

definition effective_actions :: "model_class \<Rightarrow> string set result" where
  "effective_actions model =
     res_bind (model_meta_actions (mc_content_actions model) DEFAULT_CONTENT_ACTIONS) (\<lambda>selected.
     res_bind (model_meta_actions (mc_content_exclude model) {}) (\<lambda>excluded.
       if (selected \<union> excluded) - DEFAULT_CONTENT_ACTIONS \<noteq> {} then Inl ContentTypeError
       else Inr (selected - excluded)))"

definition option_str :: "string option \<Rightarrow> string" where
  "option_str s = (case s of None \<Rightarrow> [] | Some t \<Rightarrow> t)"

definition content_type_for_model ::
    "(string \<Rightarrow> string option) \<Rightarrow> model_class \<Rightarrow> ContentType result" where
  "content_type_for_model plural_noun model =
     (if option_str (mc_app model) = [] \<or> mc_db_table model = [] then Inl ContentTypeError
      else res_bind (model_meta_value (mc_verbose_name model)) (\<lambda>name.
        let verbose_name = (case name of Some s \<Rightarrow> s | None \<Rightarrow> humanise (mc_name model)) in
        res_bind (model_meta_value (mc_verbose_name_plural model)) (\<lambda>plural.
        let verbose_name_plural =
              (case plural of Some s \<Rightarrow> s | None \<Rightarrow> pluralise plural_noun verbose_name) in
        res_bind (effective_actions model) (\<lambda>actions.
        let parts = [option_str (mc_app model), option_str (mc_schema model), mc_db_table model] in
        if list_ex (\<lambda>part. CHR ''.'' \<in> set part) (filter (\<lambda>part. part \<noteq> []) (tl parts))
        then Inl ContentTypeError
        else Inr \<lparr>ct_identifier = join_with ''.'' (filter (\<lambda>part. part \<noteq> []) parts),
                  ct_model = model, ct_verbose_name = verbose_name,
                  ct_verbose_name_plural = verbose_name_plural, ct_actions = actions\<rparr>))))"

section \<open>The registry\<close>

record ContentTypeRegistry =
  cr_by_identifier :: "(string, ContentType) dict"
  cr_by_model :: "(nat, ContentType) dict"

fun from_models_loop ::
    "(string \<Rightarrow> string option) \<Rightarrow> model_class list \<Rightarrow> ContentTypeRegistry \<Rightarrow> ContentTypeRegistry result"
where
  "from_models_loop plural_noun [] reg = Inr reg"
| "from_models_loop plural_noun (model # models) reg =
     (if mc_abstract model then from_models_loop plural_noun models reg
      else res_bind (content_type_for_model plural_noun model) (\<lambda>ct.
        case dict_get (cr_by_identifier reg) (ct_identifier ct) of
          Some previous \<Rightarrow>
            if mc_id (ct_model previous) \<noteq> mc_id model then Inl ContentTypeError
            else from_models_loop plural_noun models
              (reg\<lparr>cr_by_identifier := dict_set (ct_identifier ct) ct (cr_by_identifier reg),
                   cr_by_model := dict_set (mc_id model) ct (cr_by_model reg)\<rparr>)
        | None \<Rightarrow> from_models_loop plural_noun models
              (reg\<lparr>cr_by_identifier := dict_set (ct_identifier ct) ct (cr_by_identifier reg),
                   cr_by_model := dict_set (mc_id model) ct (cr_by_model reg)\<rparr>)))"

definition from_models ::
    "(string \<Rightarrow> string option) \<Rightarrow> model_class list \<Rightarrow> ContentTypeRegistry result" where
  "from_models plural_noun models =
     from_models_loop plural_noun models \<lparr>cr_by_identifier = [], cr_by_model = []\<rparr>"

definition for_identifier :: "ContentTypeRegistry \<Rightarrow> string \<Rightarrow> ContentType result" where
  "for_identifier reg identifier =
     (case dict_get (cr_by_identifier reg) identifier of
        Some ct \<Rightarrow> Inr ct | None \<Rightarrow> Inl UnknownContentTypeError)"

definition all_content_types :: "ContentTypeRegistry \<Rightarrow> ContentType list" where
  "all_content_types reg =
     map (\<lambda>identifier. the (dict_get (cr_by_identifier reg) identifier))
       (sort (dict_keys (cr_by_identifier reg)))"

definition for_model :: "ContentTypeRegistry \<Rightarrow> model_class \<Rightarrow> ContentType result" where
  "for_model reg model =
     (case dict_get (cr_by_model reg) (mc_id model) of
        Some ct \<Rightarrow> Inr ct | None \<Rightarrow> Inl UnknownContentTypeError)"

text \<open>The capability of a site is empty until \<open>finalise\<close>.\<close>

record SiteContentTypesCapability =
  sct_registry :: "ContentTypeRegistry option"

definition finalise ::
    "(string \<Rightarrow> string option) \<Rightarrow> model_class list \<Rightarrow> (SiteContentTypesCapability, unit) pyop" where
  "finalise plural_noun models cap =
     checked (from_models plural_noun models) cap (\<lambda>reg. (Inr (), cap\<lparr>sct_registry := Some reg\<rparr>))"

definition require_registry :: "SiteContentTypesCapability \<Rightarrow> ContentTypeRegistry result" where
  "require_registry cap =
     (case sct_registry cap of None \<Rightarrow> Inl SiteCapabilityError | Some reg \<Rightarrow> Inr reg)"

definition site_for_identifier :: "SiteContentTypesCapability \<Rightarrow> string \<Rightarrow> ContentType result" where
  "site_for_identifier cap identifier =
     res_bind (require_registry cap) (\<lambda>reg. for_identifier reg identifier)"

definition site_all :: "SiteContentTypesCapability \<Rightarrow> ContentType list result" where
  "site_all cap = res_bind (require_registry cap) (\<lambda>reg. Inr (all_content_types reg))"

definition site_for_model :: "SiteContentTypesCapability \<Rightarrow> model_class \<Rightarrow> ContentType result" where
  "site_for_model cap model = res_bind (require_registry cap) (\<lambda>reg. for_model reg model)"

section \<open>The registry is a bijection\<close>

text \<open>\<open>coherent ms\<close>: the identity of a class determines it.\<close>

definition coherent :: "model_class set \<Rightarrow> bool" where
  "coherent ms \<longleftrightarrow> (\<forall>m \<in> ms. \<forall>m' \<in> ms. mc_id m = mc_id m' \<longrightarrow> m = m')"

definition registry_ok :: "(string \<Rightarrow> string option) \<Rightarrow> model_class set \<Rightarrow> ContentTypeRegistry \<Rightarrow> bool" where
  "registry_ok pn ms reg \<longleftrightarrow>
     distinct (dict_keys (cr_by_identifier reg))
     \<and> (\<forall>i ct. dict_get (cr_by_identifier reg) i = Some ct \<longrightarrow>
          ct_identifier ct = i \<and> ct_model ct \<in> ms \<and> dict_get (cr_by_model reg) (mc_id (ct_model ct)) = Some ct)
     \<and> (\<forall>k ct. dict_get (cr_by_model reg) k = Some ct \<longrightarrow>
          mc_id (ct_model ct) = k \<and> ct_model ct \<in> ms \<and> content_type_for_model pn (ct_model ct) = Inr ct
          \<and> dict_get (cr_by_identifier reg) (ct_identifier ct) = Some ct)"

lemma content_type_model: "content_type_for_model pn m = Inr ct \<Longrightarrow> ct_model ct = m"
  by (auto simp: content_type_for_model_def Let_def split: if_splits)

definition registry_add :: "model_class \<Rightarrow> ContentType \<Rightarrow> ContentTypeRegistry \<Rightarrow> ContentTypeRegistry" where
  "registry_add m ct reg =
     reg\<lparr>cr_by_identifier := dict_set (ct_identifier ct) ct (cr_by_identifier reg),
         cr_by_model := dict_set (mc_id m) ct (cr_by_model reg)\<rparr>"

lemma registry_add_ok:
  assumes ok: "registry_ok pn ms reg" and "coherent ms" and "m \<in> ms"
    and ct: "content_type_for_model pn m = Inr ct"
    and prev: "\<And>p. dict_get (cr_by_identifier reg) (ct_identifier ct) = Some p \<Longrightarrow> mc_id (ct_model p) = mc_id m"
  shows "registry_ok pn ms (registry_add m ct reg)"
proof -
  let ?I = "cr_by_identifier reg" and ?M = "cr_by_model reg"
  have m: "ct_model ct = m" by (rule content_type_model [OF ct])
  have byI: "ct_identifier p = i" "ct_model p \<in> ms" "dict_get ?M (mc_id (ct_model p)) = Some p"
    if "dict_get ?I i = Some p" for i p
    using ok that unfolding registry_ok_def by blast+
  have byM: "mc_id (ct_model p) = k" "ct_model p \<in> ms" "content_type_for_model pn (ct_model p) = Inr p"
    "dict_get ?I (ct_identifier p) = Some p" if "dict_get ?M k = Some p" for k p
    using ok that unfolding registry_ok_def by blast+
  have known: "p = ct" if "dict_get ?M (mc_id m) = Some p" for p
  proof -
    have "ct_model p = m" using byM [OF that] assms(2,3) unfolding coherent_def by blast
    then show ?thesis using byM(3) [OF that] ct by simp
  qed
  have same: "p = ct" if "dict_get ?I (ct_identifier ct) = Some p" for p
    using known byI(3) [OF that] prev [OF that] by metis
  have "ct_identifier p = i \<and> ct_model p \<in> ms \<and> dict_get (dict_set (mc_id m) ct ?M) (mc_id (ct_model p)) = Some p"
    if "dict_get (dict_set (ct_identifier ct) ct ?I) i = Some p" for i p
  proof (cases "i = ct_identifier ct")
    case False
    then have i: "dict_get ?I i = Some p" using that by simp
    moreover have "mc_id (ct_model p) \<noteq> mc_id m" using known byI(1,3) [OF i] False by metis
    ultimately show ?thesis using byI [OF i] by simp
  qed (use that m assms(3) in auto)
  moreover have "mc_id (ct_model p) = k \<and> ct_model p \<in> ms \<and> content_type_for_model pn (ct_model p) = Inr p
      \<and> dict_get (dict_set (ct_identifier ct) ct ?I) (ct_identifier p) = Some p"
    if "dict_get (dict_set (mc_id m) ct ?M) k = Some p" for k p
  proof (cases "k = mc_id m")
    case False
    then have k: "dict_get ?M k = Some p" using that by simp
    moreover have "ct_identifier p \<noteq> ct_identifier ct" using same byM(1,4) [OF k] m False by metis
    ultimately show ?thesis using byM [OF k] by simp
  qed (use that m ct assms(3) in auto)
  moreover have "distinct (dict_keys (dict_set (ct_identifier ct) ct ?I))"
    using ok by (simp add: registry_ok_def)
  moreover have "cr_by_identifier (registry_add m ct reg) = dict_set (ct_identifier ct) ct ?I"
    "cr_by_model (registry_add m ct reg) = dict_set (mc_id m) ct ?M"
    by (simp_all add: registry_add_def)
  ultimately show ?thesis unfolding registry_ok_def by presburger
qed

lemma from_models_loop_ok:
  assumes "from_models_loop pn models reg = Inr reg'" and "registry_ok pn ms reg" and "coherent ms"
    and "set models \<subseteq> ms"
  shows "registry_ok pn ms reg'
    \<and> (\<forall>k. dict_get (cr_by_model reg) k \<noteq> None \<longrightarrow> dict_get (cr_by_model reg') k \<noteq> None)
    \<and> (\<forall>m \<in> set models. \<not> mc_abstract m \<longrightarrow> dict_get (cr_by_model reg') (mc_id m) \<noteq> None)"
  using assms
proof (induction models arbitrary: reg)
  case (Cons m models)
  show ?case
  proof (cases "mc_abstract m")
    case True
    then show ?thesis using Cons by auto
  next
    case False
    then obtain ct where ct: "content_type_for_model pn m = Inr ct"
      and rest: "from_models_loop pn models (registry_add m ct reg) = Inr reg'"
      and prev: "\<And>p. dict_get (cr_by_identifier reg) (ct_identifier ct) = Some p \<Longrightarrow> mc_id (ct_model p) = mc_id m"
      using Cons.prems(1) by (auto simp: registry_add_def split: option.splits if_splits)
    have "registry_ok pn ms (registry_add m ct reg)"
      using registry_add_ok [OF Cons.prems(2,3) _ ct prev] Cons.prems(4) by simp
    then have "registry_ok pn ms reg'
      \<and> (\<forall>k. dict_get (cr_by_model (registry_add m ct reg)) k \<noteq> None \<longrightarrow> dict_get (cr_by_model reg') k \<noteq> None)
      \<and> (\<forall>m \<in> set models. \<not> mc_abstract m \<longrightarrow> dict_get (cr_by_model reg') (mc_id m) \<noteq> None)"
      using Cons.IH [OF rest] Cons.prems(3,4) by simp
    then show ?thesis by (auto simp: registry_add_def split: if_splits)
  qed
qed auto

lemma from_models_ok:
  assumes "from_models pn models = Inr reg" and "coherent (set models)"
  shows "registry_ok pn (set models) reg"
    and "\<And>m. m \<in> set models \<Longrightarrow> \<not> mc_abstract m \<Longrightarrow> dict_get (cr_by_model reg) (mc_id m) \<noteq> None"
  using from_models_loop_ok [of pn models "\<lparr>cr_by_identifier = [], cr_by_model = []\<rparr>" reg "set models"] assms
  by (auto simp: from_models_def registry_ok_def)

lemma set_all_content_types:
  "ct \<in> set (all_content_types reg) \<longleftrightarrow> (\<exists>i. dict_get (cr_by_identifier reg) i = Some ct)"
proof -
  have "ct \<in> set (all_content_types reg) \<longleftrightarrow>
      (\<exists>i \<in> set (dict_keys (cr_by_identifier reg)). ct = the (dict_get (cr_by_identifier reg) i))"
    by (auto simp: all_content_types_def image_iff)
  also have "\<dots> \<longleftrightarrow> (\<exists>i. dict_get (cr_by_identifier reg) i = Some ct)"
    by (metis in_dict_iff option.collapse option.sel option.distinct(1))
  finally show ?thesis .
qed

text \<open>A model for concrete runs.\<close>

definition sample_model :: "nat \<Rightarrow> string \<Rightarrow> string option \<Rightarrow> string \<Rightarrow> model_class" where
  "sample_model i name schema tbl =
     \<lparr>mc_id = i, mc_bases = [], mc_name = name, mc_module = ''blog.models'', mc_qualname = name,
      mc_abstract = False, mc_app = Some ''blog'', mc_schema = schema,
      mc_db_table = tbl, mc_verbose_name = MetaAbsent, mc_verbose_name_plural = MetaAbsent,
      mc_content_actions = MetaAbsent, mc_content_exclude = MetaAbsent,
      mc_scopes = MetaObj (PyBool True)\<rparr>"

text \<open>C32: A registry built from model classes finds every concrete model by its class and by its
  identifier, and the two lookups agree: the identifier of a model's content type leads back to that
  content type, whose model is the one looked up, and every registered identifier belongs to exactly
  one of the given models.\<close>

theorem content_type_lookup_roundtrip:
  assumes "from_models plural_noun models = Inr reg" and "coherent (set models)"
  shows "(\<forall>m \<in> set models. \<not> mc_abstract m \<longrightarrow>
            (\<exists>ct. for_model reg m = Inr ct \<and> ct_model ct = m \<and> for_identifier reg (ct_identifier ct) = Inr ct))
       \<and> (\<forall>i ct. for_identifier reg i = Inr ct \<longrightarrow>
            ct_identifier ct = i \<and> ct_model ct \<in> set models \<and> for_model reg (ct_model ct) = Inr ct)"
proof -
  note ok = from_models_ok [OF assms]
  have "\<exists>ct. for_model reg m = Inr ct \<and> ct_model ct = m \<and> for_identifier reg (ct_identifier ct) = Inr ct"
    if m: "m \<in> set models" "\<not> mc_abstract m" for m
  proof -
    obtain ct where ct: "dict_get (cr_by_model reg) (mc_id m) = Some ct" using ok(2) [OF m] by auto
    then have "mc_id (ct_model ct) = mc_id m" "ct_model ct \<in> set models"
      "dict_get (cr_by_identifier reg) (ct_identifier ct) = Some ct"
      using ok(1) unfolding registry_ok_def by blast+
    moreover from this have "ct_model ct = m" using assms(2) m by (auto simp: coherent_def)
    ultimately show ?thesis using ct by (simp add: for_model_def for_identifier_def)
  qed
  moreover have "ct_identifier ct = i \<and> ct_model ct \<in> set models \<and> for_model reg (ct_model ct) = Inr ct"
    if "for_identifier reg i = Inr ct" for i ct
    using that ok(1)
    by (auto simp: registry_ok_def for_identifier_def for_model_def split: option.splits)
  ultimately show ?thesis by blast
qed

theorem content_type_lookup_roundtrip_witness:
  "\<exists>reg ct. from_models (\<lambda>_. None) [sample_model 1 ''BlogPost'' None ''post''] = Inr reg
    \<and> for_model reg (sample_model 1 ''BlogPost'' None ''post'') = Inr ct
    \<and> for_identifier reg (ct_identifier ct) = Inr ct"
proof -
  let ?m = "sample_model 1 ''BlogPost'' None ''post''"
  have "\<not> isl (from_models (\<lambda>_. None) [?m])" by code_simp
  then obtain reg where reg: "from_models (\<lambda>_. None) [?m] = Inr reg"
    by (cases "from_models (\<lambda>_. None) [?m]") auto
  then show ?thesis
    using content_type_lookup_roundtrip [OF reg] by (auto simp: coherent_def sample_model_def)
qed

end
