(* ===== verification/Scopes.thy ===== *)
theory Scopes
  imports Content_Types
begin

text \<open>
  Declarative scope requirements: \<open>src/src/wybra/scopes.py\<close>.

  Targets are Python objects with an identity: model classes, classes derived from
  \<open>ModelGenericView\<close>, and everything else (views, endpoints). The attributes that the decorator
  \<open>scopes\<close> and \<open>bind_scope_target\<close> set on them are kept in a store keyed by identity; \<open>getattr\<close> looks
  at the object and then at its base classes. The effective grants of a request come from an optional
  provider: what it returns for a call is an argument, and the request remembers the first answer.

  The lemmas show when access is granted, and that every identifier the policy can ask for is among
  the declared ones.
\<close>

section \<open>Actions and declarations\<close>

datatype ScopeAction = LIST | VIEW | CREATE | UPDATE | DELETE | MANAGE

fun action_value :: "ScopeAction \<Rightarrow> string" where
  "action_value LIST = ''list''"
| "action_value VIEW = ''view''"
| "action_value CREATE = ''create''"
| "action_value UPDATE = ''update''"
| "action_value DELETE = ''delete''"
| "action_value MANAGE = ''manage''"

definition STANDARD_SCOPE_ACTIONS :: "ScopeAction list" where
  "STANDARD_SCOPE_ACTIONS = [LIST, VIEW, CREATE, UPDATE, DELETE, MANAGE]"

definition action_of_name :: "string \<Rightarrow> ScopeAction option" where
  "action_of_name name = find (\<lambda>a. action_value a = name) STANDARD_SCOPE_ACTIONS"

datatype ScopeDeclarationOrigin = LITERAL | DERIVED | AGGREGATE

fun origin_value :: "ScopeDeclarationOrigin \<Rightarrow> string" where
  "origin_value LITERAL = ''literal''"
| "origin_value DERIVED = ''derived''"
| "origin_value AGGREGATE = ''aggregate''"

record ScopeDeclaration =
  sd_requires :: "string list"
  sd_actions :: "ScopeAction list"

record DiscoveredScope =
  ds_identifier :: string
  ds_origin :: ScopeDeclarationOrigin
  ds_target :: string
  ds_content_type :: "string option"
  ds_action :: "ScopeAction option"
  ds_aggregate :: bool

record ScopeSubject =
  su_actor :: "nat option"
  su_granted_scopes :: "string list"
  su_groups :: "string list"

record ScopeAccessDecision =
  ad_action :: "ScopeAction option"
  ad_model_requirements :: "string list"
  ad_view_requirements :: "string list"
  ad_required_scopes :: "string list"
  ad_granted_scopes :: "string list"
  ad_missing_scopes :: "string list"
  ad_object_allowed :: "bool option"
  ad_allowed :: bool

section \<open>Targets and their attributes\<close>

record object_info =
  oi_id :: nat
  oi_bases :: "nat list"
  oi_module :: "string option"
  oi_qualname :: "string option"
  oi_type_name :: string

text \<open>The optional model is the attribute \<open>model\<close> of the object, if it is a model class.\<close>

datatype target =
    ModelTarget model_class
  | ViewTarget object_info "model_class option"
  | ObjectTarget object_info "model_class option"

fun target_id :: "target \<Rightarrow> nat" where
  "target_id (ModelTarget m) = mc_id m"
| "target_id (ViewTarget i _) = oi_id i"
| "target_id (ObjectTarget i _) = oi_id i"

fun target_bases :: "target \<Rightarrow> nat list" where
  "target_bases (ModelTarget m) = mc_bases m"
| "target_bases (ViewTarget i _) = oi_bases i"
| "target_bases (ObjectTarget i _) = oi_bases i"

record scope_attributes =
  at_declarations :: "(nat, ScopeDeclaration) dict"
  at_targets :: "(nat, target) dict"

fun first_attribute :: "('k, 'v) dict \<Rightarrow> 'k list \<Rightarrow> 'v option" where
  "first_attribute d [] = None"
| "first_attribute d (k # ks) = (case dict_get d k of Some v \<Rightarrow> Some v | None \<Rightarrow> first_attribute d ks)"

definition lookup_ids :: "target \<Rightarrow> nat list" where
  "lookup_ids t = target_id t # target_bases t"

fun is_model :: "target \<Rightarrow> bool" where
  "is_model (ModelTarget _) = True"
| "is_model _ = False"

fun require_model_backed_view :: "target \<Rightarrow> model_class result" where
  "require_model_backed_view (ViewTarget _ (Some m)) = Inr m"
| "require_model_backed_view _ = Inl ScopeDeclarationError"

fun target_identifier :: "target \<Rightarrow> string" where
  "target_identifier (ModelTarget m) = mc_module m @ ''.'' @ mc_qualname m"
| "target_identifier (ViewTarget i _) =
     (case (oi_module i, oi_qualname i) of
        (Some m, Some q) \<Rightarrow> m @ ''.'' @ q | _ \<Rightarrow> oi_type_name i)"
| "target_identifier (ObjectTarget i _) =
     (case (oi_module i, oi_qualname i) of
        (Some m, Some q) \<Rightarrow> m @ ''.'' @ q | _ \<Rightarrow> oi_type_name i)"

definition bind_scope_target :: "target \<Rightarrow> target \<Rightarrow> scope_attributes \<Rightarrow> scope_attributes" where
  "bind_scope_target endpoint t attrs =
     attrs\<lparr>at_targets := dict_set (target_id endpoint) t (at_targets attrs)\<rparr>"

definition scope_target :: "scope_attributes \<Rightarrow> target \<Rightarrow> target" where
  "scope_target attrs t =
     (case first_attribute (at_targets attrs) (lookup_ids t) of Some u \<Rightarrow> u | None \<Rightarrow> t)"

section \<open>Normalisation\<close>

text \<open>A missing argument is \<open>MetaObj PyNone\<close>.\<close>

definition normalise_requirements :: "meta_value \<Rightarrow> string list result" where
  "normalise_requirements values =
     (if values = MetaObj PyNone then Inr []
      else case iter_values values of
        None \<Rightarrow> Inl ScopeDeclarationError
      | Some vs \<Rightarrow>
          if \<not> list_all (\<lambda>v. is_str v \<and> py_strip (str_value v) \<noteq> []) vs then Inl ScopeDeclarationError
          else if \<not> distinct (map str_value vs) then Inl ScopeDeclarationError
          else Inr (map str_value vs))"

definition removeprefix_dash :: "string \<Rightarrow> string" where
  "removeprefix_dash name = (if py_startswith name ''-'' then tl name else name)"

definition select_actions :: "string list \<Rightarrow> ScopeAction list result" where
  "select_actions names =
     (let excluded = map removeprefix_dash (filter (\<lambda>n. py_startswith n ''-'') names);
          included = filter (\<lambda>n. \<not> py_startswith n ''-'') names
      in if excluded \<noteq> [] \<and> included \<noteq> [] then Inl ScopeDeclarationError
         else if list_ex (\<lambda>n. action_of_name n = None) (included @ excluded)
         then Inl ScopeDeclarationError
         else if excluded \<noteq> []
         then Inr (filter (\<lambda>a. action_value a \<notin> set excluded) STANDARD_SCOPE_ACTIONS)
         else Inr (map (\<lambda>n. the (action_of_name n)) included))"

definition normalise_actions :: "meta_value \<Rightarrow> ScopeAction list result" where
  "normalise_actions values =
     (if values = MetaObj PyNone then Inr []
      else case iter_values values of
        None \<Rightarrow> Inl ScopeDeclarationError
      | Some vs \<Rightarrow>
          if \<not> list_all (\<lambda>v. is_str v \<and> str_value v \<noteq> []) vs then Inl ScopeDeclarationError
          else if \<not> distinct (map str_value vs) then Inl ScopeDeclarationError
          else select_actions (map str_value vs))"

definition normalise_declaration ::
    "target \<Rightarrow> pyobj list \<Rightarrow> meta_value \<Rightarrow> meta_value \<Rightarrow> ScopeDeclaration result" where
  "normalise_declaration t values requires actions =
     (if is_model t then
        if values \<noteq> [] \<and> actions \<noteq> MetaObj PyNone then Inl ScopeDeclarationError
        else res_bind (normalise_requirements requires) (\<lambda>reqs.
          res_bind (normalise_actions (if values \<noteq> [] then MetaIter values else actions)) (\<lambda>acts.
            Inr \<lparr>sd_requires = reqs, sd_actions = acts\<rparr>))
      else if values \<noteq> [] \<and> requires \<noteq> MetaObj PyNone then Inl ScopeDeclarationError
      else res_bind (if actions \<noteq> MetaObj PyNone
          then res_bind (require_model_backed_view t) (\<lambda>_. Inr ()) else Inr ()) (\<lambda>_.
        res_bind (normalise_requirements (if values \<noteq> [] then MetaIter values else requires)) (\<lambda>reqs.
        res_bind (normalise_actions actions) (\<lambda>acts.
          Inr \<lparr>sd_requires = reqs, sd_actions = acts\<rparr>))))"

text \<open>The decorator: an empty declaration is not attached.\<close>

definition scopes ::
    "pyobj list \<Rightarrow> meta_value \<Rightarrow> meta_value \<Rightarrow> target \<Rightarrow> (scope_attributes, target) pyop" where
  "scopes values requires actions t attrs =
     checked (normalise_declaration t values requires actions) attrs (\<lambda>declaration.
       if sd_requires declaration = [] \<and> sd_actions declaration = [] then (Inr t, attrs)
       else (Inr t, attrs\<lparr>at_declarations := dict_set (target_id t) declaration (at_declarations attrs)\<rparr>))"

definition empty_declaration :: ScopeDeclaration where
  "empty_declaration = \<lparr>sd_requires = [], sd_actions = []\<rparr>"

definition model_metadata_declaration :: "model_class \<Rightarrow> ScopeDeclaration result" where
  "model_metadata_declaration model =
     (case mc_scopes model of
        MetaAbsent \<Rightarrow> Inr empty_declaration
      | MetaObj PyNone \<Rightarrow> Inr empty_declaration
      | MetaObj (PyBool b) \<Rightarrow>
          if b then Inr (empty_declaration\<lparr>sd_actions := STANDARD_SCOPE_ACTIONS\<rparr>)
          else Inl ScopeDeclarationError
      | value \<Rightarrow> res_bind (normalise_actions value) (\<lambda>acts.
          Inr (empty_declaration\<lparr>sd_actions := acts\<rparr>)))"

definition model_declares_metadata_scopes :: "model_class \<Rightarrow> bool" where
  "model_declares_metadata_scopes model \<longleftrightarrow> mc_scopes model \<noteq> MetaAbsent"

definition get_scope_declaration :: "scope_attributes \<Rightarrow> target \<Rightarrow> ScopeDeclaration result" where
  "get_scope_declaration attrs t =
     (let u = scope_target attrs t;
          declaration = (case first_attribute (at_declarations attrs) (lookup_ids u) of
            Some d \<Rightarrow> d | None \<Rightarrow> empty_declaration)
      in case u of
           ModelTarget m \<Rightarrow>
             res_bind (model_metadata_declaration m) (\<lambda>metadata_declaration.
               if (sd_requires declaration \<noteq> [] \<or> sd_actions declaration \<noteq> [])
                  \<and> model_declares_metadata_scopes m then Inl ScopeDeclarationError
               else if sd_requires declaration \<noteq> [] \<or> sd_actions declaration \<noteq> [] then Inr declaration
               else Inr metadata_declaration)
         | _ \<Rightarrow> Inr declaration)"

section \<open>Requirements\<close>

datatype action_arg = NoAction | Action ScopeAction | ActionName string

fun normalise_operation_action :: "action_arg \<Rightarrow> ScopeAction option result" where
  "normalise_operation_action NoAction = Inr None"
| "normalise_operation_action (Action a) = Inr (Some a)"
| "normalise_operation_action (ActionName name) =
     (case action_of_name name of None \<Rightarrow> Inl ScopeDeclarationError | Some a \<Rightarrow> Inr (Some a))"

definition derived_scope :: "ContentType \<Rightarrow> ScopeAction \<Rightarrow> string" where
  "derived_scope ct a = ct_identifier ct @ ''.'' @ action_value a"

fun action_model :: "target \<Rightarrow> model_class result" where
  "action_model (ModelTarget m) = Inr m"
| "action_model t = require_model_backed_view t"

definition resolve_scope_requirements ::
    "scope_attributes \<Rightarrow> target \<Rightarrow> action_arg \<Rightarrow> SiteContentTypesCapability option \<Rightarrow> string list result" where
  "resolve_scope_requirements attrs t action content_types =
     res_bind (get_scope_declaration attrs t) (\<lambda>declaration.
     res_bind (normalise_operation_action action) (\<lambda>resolved.
       case resolved of
         None \<Rightarrow> Inr (sd_requires declaration)
       | Some a \<Rightarrow>
           if a \<notin> set (sd_actions declaration) then Inr (sd_requires declaration)
           else (case content_types of
               None \<Rightarrow> Inl ScopeDeclarationError
             | Some cap \<Rightarrow>
                 res_bind (action_model t) (\<lambda>model.
                 res_bind (site_for_model cap model) (\<lambda>ct.
                   Inr (sd_requires declaration @ [derived_scope ct a]))))))"

text \<open>\<open>dict.fromkeys\<close>: the first occurrence of each.\<close>

definition fromkeys :: "'a list \<Rightarrow> 'a list" where
  "fromkeys xs = rev (remdups (rev xs))"

definition resolve_operation_requirements ::
    "scope_attributes \<Rightarrow> target option \<Rightarrow> target option \<Rightarrow> action_arg \<Rightarrow> SiteContentTypesCapability option
     \<Rightarrow> string list result" where
  "resolve_operation_requirements attrs model view action content_types =
     res_bind (case model of None \<Rightarrow> Inr []
       | Some m \<Rightarrow> resolve_scope_requirements attrs m action content_types) (\<lambda>ms.
     res_bind (case view of None \<Rightarrow> Inr []
       | Some v \<Rightarrow> resolve_scope_requirements attrs v action content_types) (\<lambda>vs.
       Inr (fromkeys (ms @ vs))))"

definition missing_scope_requirements ::
    "string list \<Rightarrow> string list \<Rightarrow> SiteContentTypesCapability option \<Rightarrow> string list result" where
  "missing_scope_requirements required granted content_types =
     res_bind (case content_types of None \<Rightarrow> Inr [] | Some cap \<Rightarrow> site_all cap) (\<lambda>cts.
       let aggregate_grants = filter (\<lambda>i. i \<in> set granted) (map ct_identifier cts)
       in Inr (filter (\<lambda>requirement.
            requirement \<notin> set granted
            \<and> \<not> list_ex (\<lambda>agg. py_startswith requirement (agg @ ''.'')) aggregate_grants)
            (fromkeys required)))"

section \<open>Access decisions\<close>

record scope_request =
  rq_scope_subject :: "ScopeSubject option"

definition anonymous_subject :: ScopeSubject where
  "anonymous_subject = \<lparr>su_actor = None, su_granted_scopes = [], su_groups = []\<rparr>"

definition scope_subject :: "ScopeSubject result option \<Rightarrow> (scope_request, ScopeSubject) pyop" where
  "scope_subject grants rq =
     (case rq_scope_subject rq of
        Some s \<Rightarrow> (Inr s, rq)
      | None \<Rightarrow>
          checked (case grants of Some r \<Rightarrow> r | None \<Rightarrow> Inr anonymous_subject) rq (\<lambda>s.
            (Inr s, rq\<lparr>rq_scope_subject := Some s\<rparr>)))"

type_synonym object_check = "nat option \<Rightarrow> ScopeAction option \<Rightarrow> nat \<Rightarrow> bool result"

definition decide ::
    "ScopeAction option \<Rightarrow> string list \<Rightarrow> string list \<Rightarrow> ScopeSubject option \<Rightarrow> string list \<Rightarrow> bool option
     \<Rightarrow> ScopeAccessDecision" where
  "decide resolved model_requirements view_requirements subject missing object_allowed =
     \<lparr>ad_action = resolved, ad_model_requirements = model_requirements,
      ad_view_requirements = view_requirements,
      ad_required_scopes = fromkeys (model_requirements @ view_requirements),
      ad_granted_scopes = (case subject of Some s \<Rightarrow> su_granted_scopes s | None \<Rightarrow> []),
      ad_missing_scopes = missing, ad_object_allowed = object_allowed,
      ad_allowed = (missing = [] \<and> object_allowed \<noteq> Some False)\<rparr>"

text \<open>The subject is looked up only if something is required.\<close>

definition check_grants ::
    "ScopeSubject result option \<Rightarrow> SiteContentTypesCapability option \<Rightarrow> string list
     \<Rightarrow> (scope_request, ScopeSubject option \<times> string list) pyop" where
  "check_grants grants content_types required rq =
     (if required = [] then (Inr (None, []), rq)
      else py_bind (scope_subject grants rq) (\<lambda>s rq'.
        checked (missing_scope_requirements required (su_granted_scopes s) content_types) rq'
          (\<lambda>missing. (Inr (Some s, missing), rq'))))"

text \<open>The object check runs only if no declared scope is missing.\<close>

definition check_object ::
    "ScopeSubject result option \<Rightarrow> object_check option \<Rightarrow> nat option \<Rightarrow> ScopeAction option
     \<Rightarrow> ScopeSubject option \<Rightarrow> string list \<Rightarrow> (scope_request, ScopeSubject option \<times> bool option) pyop" where
  "check_object grants check rec resolved subject missing rq =
     (case check of
        None \<Rightarrow> (Inr (subject, None), rq)
      | Some f \<Rightarrow>
          if missing \<noteq> [] then (Inr (subject, None), rq)
          else (case rec of
              None \<Rightarrow> (Inl ValueError, rq)
            | Some r \<Rightarrow>
                py_bind (case subject of Some s \<Rightarrow> (Inr s, rq) | None \<Rightarrow> scope_subject grants rq) (\<lambda>s rq'.
                  checked (f (su_actor s) resolved r) rq' (\<lambda>b. (Inr (Some s, Some b), rq')))))"

definition access_decision ::
    "scope_attributes \<Rightarrow> SiteContentTypesCapability option \<Rightarrow> ScopeSubject result option \<Rightarrow> target
     \<Rightarrow> action_arg \<Rightarrow> target option \<Rightarrow> nat option \<Rightarrow> object_check option
     \<Rightarrow> (scope_request, ScopeAccessDecision) pyop" where
  "access_decision attrs content_types grants t action model rec check rq =
     checked (case model of None \<Rightarrow> Inr []
       | Some m \<Rightarrow> resolve_scope_requirements attrs m action content_types) rq (\<lambda>ms.
     checked (resolve_scope_requirements attrs t action content_types) rq (\<lambda>vs.
     checked (normalise_operation_action action) rq (\<lambda>resolved.
     py_bind (check_grants grants content_types (fromkeys (ms @ vs)) rq)
       (\<lambda>(subject, missing) rq'.
         py_bind (check_object grants check rec resolved subject missing rq')
           (\<lambda>(subject', object_allowed) rq''.
             (Inr (decide resolved ms vs subject' missing object_allowed), rq''))))))"

definition allows_scope_access ::
    "scope_attributes \<Rightarrow> SiteContentTypesCapability option \<Rightarrow> ScopeSubject result option \<Rightarrow> target
     \<Rightarrow> action_arg \<Rightarrow> target option \<Rightarrow> (scope_request, bool) pyop" where
  "allows_scope_access attrs content_types grants t action model rq =
     py_bind (access_decision attrs content_types grants t action model None None rq)
       (\<lambda>d rq'. (Inr (ad_allowed d), rq'))"

definition enforce_scope_access ::
    "scope_attributes \<Rightarrow> SiteContentTypesCapability option \<Rightarrow> ScopeSubject result option \<Rightarrow> target
     \<Rightarrow> action_arg \<Rightarrow> target option \<Rightarrow> nat option \<Rightarrow> object_check option
     \<Rightarrow> (scope_request, ScopeAccessDecision) pyop" where
  "enforce_scope_access attrs content_types grants t action model rec check rq =
     py_bind (access_decision attrs content_types grants t action model rec check rq)
       (\<lambda>d rq'. (if ad_allowed d then Inr d else Inl Http403, rq'))"

fun visibility_loop ::
    "scope_attributes \<Rightarrow> SiteContentTypesCapability option \<Rightarrow> ScopeSubject result option \<Rightarrow> target
     \<Rightarrow> target option \<Rightarrow> ScopeAction list \<Rightarrow> (ScopeAction, bool) dict
     \<Rightarrow> (scope_request, (ScopeAction, bool) dict) pyop" where
  "visibility_loop attrs content_types grants t model [] acc rq = (Inr acc, rq)"
| "visibility_loop attrs content_types grants t model (a # as) acc rq =
     py_bind (allows_scope_access attrs content_types grants t (Action a) model rq) (\<lambda>b rq'.
       visibility_loop attrs content_types grants t model as (dict_set a b acc) rq')"

definition scope_visibility ::
    "scope_attributes \<Rightarrow> SiteContentTypesCapability option \<Rightarrow> ScopeSubject result option \<Rightarrow> target
     \<Rightarrow> target option \<Rightarrow> ScopeAction list \<Rightarrow> (scope_request, (ScopeAction, bool) dict) pyop" where
  "scope_visibility attrs content_types grants t model actions rq =
     visibility_loop attrs content_types grants t model actions [] rq"

text \<open>\<open>scope_dependency\<close> returns a function of the request.\<close>

definition scope_dependency ::
    "scope_attributes \<Rightarrow> SiteContentTypesCapability option \<Rightarrow> target \<Rightarrow> action_arg \<Rightarrow> target option
     \<Rightarrow> ScopeSubject result option \<Rightarrow> (scope_request, ScopeAccessDecision) pyop" where
  "scope_dependency attrs content_types t action model =
     (\<lambda>grants rq. enforce_scope_access attrs content_types grants t action model None None rq)"

section \<open>Discovery\<close>

text \<open>A route of the application: the endpoints of its effective contexts if it has such a method,
  else its endpoint and its child routes.\<close>

datatype route =
  Route (rt_contexts: "target option list option") (rt_endpoint: "target option")
    (rt_children: "route list option")

fun route_endpoints :: "route list \<Rightarrow> target list"
  and endpoints_of :: "route \<Rightarrow> target list"
where
  "route_endpoints [] = []"
| "route_endpoints (r # rs) = endpoints_of r @ route_endpoints rs"
| "endpoints_of (Route contexts endpoint children) =
     (case contexts of
        Some cs \<Rightarrow> concat (map (\<lambda>c. case c of Some e \<Rightarrow> [e] | None \<Rightarrow> []) cs)
      | None \<Rightarrow>
          (case endpoint of Some e \<Rightarrow> [e] | None \<Rightarrow> [])
          @ (case children of Some rs \<Rightarrow> route_endpoints rs | None \<Rightarrow> []))"

fun discovery_model :: "ScopeDeclaration \<Rightarrow> target \<Rightarrow> model_class option result" where
  "discovery_model declaration (ModelTarget m) = Inr (Some m)"
| "discovery_model declaration t =
     (if sd_actions declaration \<noteq> []
      then res_bind (require_model_backed_view t) (\<lambda>m. Inr (Some m))
      else Inr (case t of ViewTarget _ m \<Rightarrow> m | ObjectTarget _ m \<Rightarrow> m))"

definition discover_target_scopes ::
    "scope_attributes \<Rightarrow> SiteContentTypesCapability \<Rightarrow> target \<Rightarrow> DiscoveredScope list result" where
  "discover_target_scopes attrs cap t =
     res_bind (get_scope_declaration attrs t) (\<lambda>declaration.
       if sd_requires declaration = [] \<and> sd_actions declaration = [] then Inr []
       else res_bind (discovery_model declaration t) (\<lambda>model.
         res_bind (case model of None \<Rightarrow> Inr None
             | Some m \<Rightarrow> res_bind (site_for_model cap m) (\<lambda>ct. Inr (Some ct))) (\<lambda>content_type.
           Inr (map (\<lambda>i. \<lparr>ds_identifier = i, ds_origin = LITERAL, ds_target = target_identifier t,
                          ds_content_type = map_option ct_identifier content_type, ds_action = None,
                          ds_aggregate = False\<rparr>) (sd_requires declaration)
             @ (case content_type of
                  None \<Rightarrow> []
                | Some ct \<Rightarrow> map (\<lambda>a. \<lparr>ds_identifier = derived_scope ct a, ds_origin = DERIVED,
                      ds_target = target_identifier t, ds_content_type = Some (ct_identifier ct),
                      ds_action = Some a, ds_aggregate = False\<rparr>) (sd_actions declaration))))))"

definition aggregate_scope :: "ContentType \<Rightarrow> DiscoveredScope" where
  "aggregate_scope ct =
     \<lparr>ds_identifier = ct_identifier ct, ds_origin = AGGREGATE,
      ds_target = target_identifier (ModelTarget (ct_model ct)),
      ds_content_type = Some (ct_identifier ct), ds_action = None, ds_aggregate = True\<rparr>"

text \<open>The two loops: over the content types, then over the endpoints that have not been inspected.
  The set of discovered scopes is a list without duplicates.\<close>

fun discover_models ::
    "scope_attributes \<Rightarrow> SiteContentTypesCapability \<Rightarrow> ContentType list \<Rightarrow> DiscoveredScope list result" where
  "discover_models attrs cap [] = Inr []"
| "discover_models attrs cap (ct # cts) =
     res_bind (discover_target_scopes attrs cap (ModelTarget (ct_model ct))) (\<lambda>ds.
     res_bind (discover_models attrs cap cts) (\<lambda>rest. Inr (aggregate_scope ct # ds @ rest)))"

fun discover_endpoints ::
    "scope_attributes \<Rightarrow> SiteContentTypesCapability \<Rightarrow> target list \<Rightarrow> nat list \<Rightarrow> DiscoveredScope list result" where
  "discover_endpoints attrs cap [] inspected = Inr []"
| "discover_endpoints attrs cap (e # es) inspected =
     (let t = scope_target attrs e in
      if target_id t \<in> set inspected then discover_endpoints attrs cap es inspected
      else res_bind (discover_target_scopes attrs cap t) (\<lambda>ds.
        res_bind (discover_endpoints attrs cap es (target_id t # inspected)) (\<lambda>rest. Inr (ds @ rest))))"

definition discovery_key :: "DiscoveredScope \<Rightarrow> string \<times> string \<times> string \<times> string \<times> string" where
  "discovery_key d =
     (ds_identifier d, origin_value (ds_origin d), ds_target d, option_str (ds_content_type d),
      (case ds_action d of Some a \<Rightarrow> action_value a | None \<Rightarrow> []))"

definition discover_declared_scopes ::
    "scope_attributes \<Rightarrow> route list \<Rightarrow> SiteContentTypesCapability \<Rightarrow> DiscoveredScope list result" where
  "discover_declared_scopes attrs routes cap =
     res_bind (site_all cap) (\<lambda>cts.
     res_bind (discover_models attrs cap cts) (\<lambda>ms.
     res_bind (discover_endpoints attrs cap (route_endpoints routes) (map (\<lambda>ct. mc_id (ct_model ct)) cts)) (\<lambda>es.
       Inr (sort_key discovery_key (remdups (ms @ es))))))"

definition declared_scope_identifiers :: "DiscoveredScope list \<Rightarrow> string list" where
  "declared_scope_identifiers discovered =
     sort (remdups (map ds_identifier (filter (\<lambda>d. \<not> ds_aggregate d) discovered)))"

definition missing_scope_catalogue_entries :: "DiscoveredScope list \<Rightarrow> string list \<Rightarrow> string list" where
  "missing_scope_catalogue_entries discovered persisted =
     filter (\<lambda>i. i \<notin> set persisted) (declared_scope_identifiers discovered)"

text \<open>\<open>persisted\<close> is what the site's scope catalogue returns; \<open>None\<close> is a missing capability.\<close>

definition validate_site_scope_catalogue ::
    "scope_attributes \<Rightarrow> route list \<Rightarrow> SiteContentTypesCapability option \<Rightarrow> string list option \<Rightarrow> string list result"
where
  "validate_site_scope_catalogue attrs routes content_types persisted =
     (case content_types of
        None \<Rightarrow> Inl SiteCapabilityError
      | Some cap \<Rightarrow> (case persisted of
          None \<Rightarrow> Inl SiteCapabilityError
        | Some ids \<Rightarrow>
            res_bind (discover_declared_scopes attrs routes cap) (\<lambda>discovered.
              Inr (missing_scope_catalogue_entries discovered ids))))"

section \<open>Concrete sites\<close>

definition no_attributes :: scope_attributes where
  "no_attributes = \<lparr>at_declarations = [], at_targets = []\<rparr>"

definition new_request :: scope_request where
  "new_request = \<lparr>rq_scope_subject = None\<rparr>"

definition sample_post :: model_class where
  "sample_post = sample_model 1 ''Post'' None ''post''"

definition sample_site :: "model_class list \<Rightarrow> SiteContentTypesCapability" where
  "sample_site models =
     \<lparr>sct_registry = (case from_models (\<lambda>_. None) models of Inr reg \<Rightarrow> Some reg | Inl _ \<Rightarrow> None)\<rparr>"

definition sample_grants :: "string list \<Rightarrow> ScopeSubject result option" where
  "sample_grants granted =
     Some (Inr \<lparr>su_actor = Some 1, su_granted_scopes = granted, su_groups = []\<rparr>)"

section \<open>When access is granted\<close>

text \<open>A requirement is met by the same grant, or by a registered content type that the subject has
  been granted and that the requirement lies below.\<close>

definition satisfied :: "SiteContentTypesCapability option \<Rightarrow> string list \<Rightarrow> string \<Rightarrow> bool" where
  "satisfied content_types granted r \<longleftrightarrow>
     r \<in> set granted
     \<or> (\<exists>cap cts ct rest. content_types = Some cap \<and> site_all cap = Inr cts \<and> ct \<in> set cts
          \<and> ct_identifier ct \<in> set granted \<and> r = ct_identifier ct @ ''.'' @ rest)"

lemma set_fromkeys [simp]: "set (fromkeys xs) = set xs"
  by (simp add: fromkeys_def)

lemma distinct_fromkeys [simp]: "distinct (fromkeys xs)"
  by (simp add: fromkeys_def)

lemma fromkeys_Nil_iff [simp]: "fromkeys xs = [] \<longleftrightarrow> xs = []"
  by (metis set_empty set_fromkeys)

lemma missing_scope_requirements_set:
  assumes "missing_scope_requirements required granted content_types = Inr missing"
  shows "set missing = {r \<in> set required. \<not> satisfied content_types granted r}"
proof (cases content_types)
  case None
  then show ?thesis
    using assms by (auto simp: missing_scope_requirements_def satisfied_def)
next
  case (Some cap)
  then obtain cts where cts: "site_all cap = Inr cts"
    and m: "missing = filter (\<lambda>r. r \<notin> set granted \<and> \<not> list_ex (\<lambda>agg. py_startswith r (agg @ ''.''))
      (filter (\<lambda>i. i \<in> set granted) (map ct_identifier cts))) (fromkeys required)"
    using assms by (auto simp: missing_scope_requirements_def Let_def)
  have "satisfied content_types granted r \<longleftrightarrow> r \<in> set granted
      \<or> list_ex (\<lambda>agg. py_startswith r (agg @ ''.'')) (filter (\<lambda>i. i \<in> set granted) (map ct_identifier cts))" for r
    using Some cts by (auto simp: satisfied_def list_ex_iff py_startswith_iff)
  then show ?thesis unfolding m by auto
qed

text \<open>The subject of a request: the one it remembers, else the one the provider of grants returns, else
  an anonymous one.\<close>

definition subject_of_request :: "ScopeSubject result option \<Rightarrow> scope_request \<Rightarrow> ScopeSubject \<Rightarrow> bool" where
  "subject_of_request grants rq s \<longleftrightarrow>
     rq_scope_subject rq = Some s
     \<or> rq_scope_subject rq = None \<and> (grants = Some (Inr s) \<or> grants = None \<and> s = anonymous_subject)"

lemma scope_subject_Inr:
  assumes "scope_subject grants rq = (Inr s, rq')"
  shows "subject_of_request grants rq s" and "rq' = rq\<lparr>rq_scope_subject := Some s\<rparr>"
  using assms by (auto simp: scope_subject_def subject_of_request_def checked_eq_Inr split: option.splits)

lemma check_object_Inr:
  assumes "check_object grants check rec resolved subject missing rq = (Inr (subject', ok), rq')"
  shows "subject = Some s \<Longrightarrow> subject' = Some s \<and> rq' = rq"
    and "missing \<noteq> [] \<or> check = None \<Longrightarrow> ok = None \<and> subject' = subject \<and> rq' = rq"
    and "missing = [] \<Longrightarrow> check = Some f \<Longrightarrow>
      \<exists>s r b. subject' = Some s \<and> (subject = None \<longrightarrow> scope_subject grants rq = (Inr s, rq'))
        \<and> rec = Some r \<and> f (su_actor s) resolved r = Inr b \<and> ok = Some b"
  using assms
  by (auto simp: check_object_def py_bind_eq_Inr checked_eq_Inr split: option.splits if_splits)

lemma check_grants_Inr:
  assumes "check_grants grants cts required rq = (Inr (subject, missing), rq')"
  shows "set missing = {r \<in> set required. \<not> satisfied cts (case subject of Some s \<Rightarrow> su_granted_scopes s | None \<Rightarrow> []) r}"
    and "required \<noteq> [] \<Longrightarrow> \<exists>s. subject = Some s \<and> scope_subject grants rq = (Inr s, rq')"
    and "required = [] \<Longrightarrow> subject = None \<and> missing = [] \<and> rq' = rq"
  using assms missing_scope_requirements_set
  by (auto simp: check_grants_def py_bind_eq_Inr checked_eq_Inr split: if_splits)

text \<open>The stages an access decision went through.\<close>

lemma access_decision_Inr:
  assumes "access_decision attrs cts grants t action model rec check rq = (Inr d, rq')"
  obtains ms vs resolved subject missing rq1 subject' ok where
    "(case model of None \<Rightarrow> Inr [] | Some m \<Rightarrow> resolve_scope_requirements attrs m action cts) = Inr ms"
    "resolve_scope_requirements attrs t action cts = Inr vs"
    "normalise_operation_action action = Inr resolved"
    "check_grants grants cts (fromkeys (ms @ vs)) rq = (Inr (subject, missing), rq1)"
    "check_object grants check rec resolved subject missing rq1 = (Inr (subject', ok), rq')"
    "d = decide resolved ms vs subject' missing ok"
  using assms by (auto simp: access_decision_def checked_eq_Inr py_bind_eq_Inr split: prod.splits)

text \<open>What a decision says about its subject and the object check.\<close>

lemma access_decision_subject:
  assumes g: "check_grants grants cts required rq = (Inr (subject, missing), rq1)"
    and o: "check_object grants check rec resolved subject missing rq1 = (Inr (subject', ok), rq')"
  shows "required = [] \<Longrightarrow> check = None \<Longrightarrow> subject' = None \<and> ok = None \<and> rq' = rq"
    and "required \<noteq> [] \<or> check \<noteq> None \<Longrightarrow>
      \<exists>s. subject' = Some s \<and> subject_of_request grants rq s \<and> rq' = rq\<lparr>rq_scope_subject := Some s\<rparr>
        \<and> (\<forall>f. missing = [] \<longrightarrow> check = Some f \<longrightarrow>
             (\<exists>r b. rec = Some r \<and> f (su_actor s) resolved r = Inr b \<and> ok = Some b))"
proof -
  show "subject' = None \<and> ok = None \<and> rq' = rq" if "required = []" "check = None"
    using check_grants_Inr(3) [OF g that(1)] check_object_Inr(2) [OF o] that(2) by simp
  show "\<exists>s. subject' = Some s \<and> subject_of_request grants rq s \<and> rq' = rq\<lparr>rq_scope_subject := Some s\<rparr>
        \<and> (\<forall>f. missing = [] \<longrightarrow> check = Some f \<longrightarrow>
             (\<exists>r b. rec = Some r \<and> f (su_actor s) resolved r = Inr b \<and> ok = Some b))"
    if some: "required \<noteq> [] \<or> check \<noteq> None"
  proof (cases "required = []")
    case True
    then obtain f where "check = Some f" and none: "subject = None" "missing = []" "rq1 = rq"
      using some check_grants_Inr(3) [OF g] by auto
    with check_object_Inr(3) [OF o] show ?thesis using scope_subject_Inr by fastforce
  next
    case False
    then obtain s where s: "subject = Some s" "scope_subject grants rq = (Inr s, rq1)"
      using check_grants_Inr(2) [OF g] by auto
    with check_object_Inr(1) [OF o] check_object_Inr(3) [OF o] scope_subject_Inr [OF s(2)]
    show ?thesis by fastforce
  qed
qed

text \<open>What is missing is what the grants of the subject do not satisfy.\<close>

lemma access_decision_missing:
  assumes g: "check_grants grants cts required rq = (Inr (subject, missing), rq1)"
    and o: "check_object grants check rec resolved subject missing rq1 = (Inr (subject', ok), rq')"
  shows "set missing = {r \<in> set required. \<not> satisfied cts (case subject' of Some s \<Rightarrow> su_granted_scopes s | None \<Rightarrow> []) r}"
proof (cases "required = []")
  case True
  then show ?thesis using check_grants_Inr(3) [OF g] by simp
next
  case False
  then obtain s where "subject = Some s" "subject' = Some s"
    using check_grants_Inr(2) [OF g] check_object_Inr(1) [OF o] by auto
  then show ?thesis using check_grants_Inr(1) [OF g] by simp
qed

text \<open>C30: \<open>enforce_scope_access\<close> lets a request pass exactly if its policy is met. Let a decision
  have been reached. Its requirements are those of the model, if there is one, and of the target, for
  the action. The decision is returned exactly if each requirement is granted, literally or through a
  registered content type above it, and the object check, if there is one, did not answer false; else
  \<open>Http403\<close> is raised. The grants are those of the subject of the request: the remembered one, else the
  provider's, else an anonymous one, and it is remembered. The answer of the object check is the one it
  gives for this subject's actor, the action and the record; it is asked exactly if there is a check and
  every requirement is granted. If there are neither requirements nor a check, no subject is looked up.\<close>

theorem scope_enforcement_exact:
  assumes "access_decision attrs cts grants t action model rec check rq = (Inr d, rq')"
  shows "let required = ad_model_requirements d @ ad_view_requirements d;
      granted = (\<forall>r \<in> set required. satisfied cts (ad_granted_scopes d) r)
    in normalise_operation_action action = Inr (ad_action d)
    \<and> resolve_scope_requirements attrs t action cts = Inr (ad_view_requirements d)
    \<and> (case model of None \<Rightarrow> Inr [] | Some m \<Rightarrow> resolve_scope_requirements attrs m action cts) = Inr (ad_model_requirements d)
    \<and> enforce_scope_access attrs cts grants t action model rec check rq =
        (if granted \<and> ad_object_allowed d \<noteq> Some False then Inr d else Inl Http403, rq')
    \<and> (if required = [] \<and> check = None then ad_granted_scopes d = [] \<and> ad_object_allowed d = None \<and> rq' = rq
       else \<exists>s. subject_of_request grants rq s \<and> rq' = rq\<lparr>rq_scope_subject := Some s\<rparr>
         \<and> ad_granted_scopes d = su_granted_scopes s
         \<and> (case check of
              None \<Rightarrow> ad_object_allowed d = None
            | Some f \<Rightarrow>
                if granted then \<exists>r b. rec = Some r \<and> f (su_actor s) (ad_action d) r = Inr b \<and> ad_object_allowed d = Some b
                else ad_object_allowed d = None))"
proof -
  obtain ms vs resolved subject missing rq1 subject' ok where
    ms: "(case model of None \<Rightarrow> Inr [] | Some m \<Rightarrow> resolve_scope_requirements attrs m action cts) = Inr ms"
    and vs: "resolve_scope_requirements attrs t action cts = Inr vs"
    and resolved: "normalise_operation_action action = Inr resolved"
    and g: "check_grants grants cts (fromkeys (ms @ vs)) rq = (Inr (subject, missing), rq1)"
    and o: "check_object grants check rec resolved subject missing rq1 = (Inr (subject', ok), rq')"
    and dd: "d = decide resolved ms vs subject' missing ok"
    by (rule access_decision_Inr [OF assms]) blast
  have d: "ad_action d = resolved" "ad_model_requirements d = ms" "ad_view_requirements d = vs"
      "ad_granted_scopes d = (case subject' of Some s \<Rightarrow> su_granted_scopes s | None \<Rightarrow> [])"
      "ad_object_allowed d = ok" "ad_allowed d \<longleftrightarrow> missing = [] \<and> ok \<noteq> Some False"
    by (simp_all add: dd decide_def)
  have missing: "missing = [] \<longleftrightarrow> (\<forall>r \<in> set (ms @ vs). satisfied cts (ad_granted_scopes d) r)"
    using access_decision_missing [OF g o] d(4) by (auto simp flip: set_empty)
  have subject: "if ms @ vs = [] \<and> check = None then ad_granted_scopes d = [] \<and> ok = None \<and> rq' = rq
       else \<exists>s. subject_of_request grants rq s \<and> rq' = rq\<lparr>rq_scope_subject := Some s\<rparr>
         \<and> ad_granted_scopes d = su_granted_scopes s
         \<and> (case check of
              None \<Rightarrow> ok = None
            | Some f \<Rightarrow> if missing = [] then \<exists>r b. rec = Some r \<and> f (su_actor s) resolved r = Inr b \<and> ok = Some b
                else ok = None)"
  proof (cases "ms @ vs = [] \<and> check = None")
    case True
    then show ?thesis using access_decision_subject(1) [OF g o] d(4) by simp
  next
    case False
    then obtain s where "subject' = Some s" "subject_of_request grants rq s" "rq' = rq\<lparr>rq_scope_subject := Some s\<rparr>"
      "\<forall>f. missing = [] \<longrightarrow> check = Some f \<longrightarrow> (\<exists>r b. rec = Some r \<and> f (su_actor s) resolved r = Inr b \<and> ok = Some b)"
      using access_decision_subject(2) [OF g o] by auto
    then show ?thesis using check_object_Inr(2) [OF o] d(4) False by (auto split: option.splits)
  qed
  show ?thesis
    unfolding Let_def d(1-3,5) missing [symmetric]
    using ms vs resolved subject by (simp add: enforce_scope_access_def assms d(6))
qed

text \<open>A subject with the scope it needs, and an object check that refuses the record 5 to it.\<close>

theorem scope_enforcement_exact_witness:
  "\<exists>d rq'. access_decision no_attributes (Some (sample_site [sample_post])) (sample_grants [''blog.post.view''])
      (ModelTarget sample_post) (Action VIEW) None (Some 5) (Some (\<lambda>actor _ r. Inr (actor = Some r))) new_request = (Inr d, rq')
    \<and> ad_object_allowed d = Some False
    \<and> enforce_scope_access no_attributes (Some (sample_site [sample_post])) (sample_grants [''blog.post.view''])
      (ModelTarget sample_post) (Action VIEW) None (Some 5) (Some (\<lambda>actor _ r. Inr (actor = Some r))) new_request
      = (Inl Http403, rq')"
proof -
  let ?cts = "Some (sample_site [sample_post])" and ?g = "sample_grants [''blog.post.view'']"
  let ?f = "\<lambda>(actor :: nat option) (_ :: ScopeAction option) (r :: nat). Inr (actor = Some r) :: bool result"
  let ?a = "access_decision no_attributes ?cts ?g (ModelTarget sample_post) (Action VIEW) None (Some 5) (Some ?f) new_request"
  have "case fst ?a of Inl _ \<Rightarrow> False | Inr d \<Rightarrow> ad_missing_scopes d = [] \<and> ad_object_allowed d = Some False" by code_simp
  then obtain d rq' where d: "?a = (Inr d, rq')" "ad_object_allowed d = Some False"
    by (cases ?a) (auto split: sum.splits)
  show ?thesis using scope_enforcement_exact [OF d(1)] d by (auto simp: Let_def)
qed

section \<open>Discovery is complete\<close>

text \<open>The targets that discovery looks at.\<close>

definition inspected_targets :: "scope_attributes \<Rightarrow> route list \<Rightarrow> SiteContentTypesCapability \<Rightarrow> target set" where
  "inspected_targets attrs routes cap =
     (case site_all cap of Inl _ \<Rightarrow> {} | Inr cts \<Rightarrow> (\<lambda>ct. ModelTarget (ct_model ct)) ` set cts)
     \<union> scope_target attrs ` set (route_endpoints routes)"

definition required_ids :: "DiscoveredScope list \<Rightarrow> string set" where
  "required_ids ds = ds_identifier ` {d \<in> set ds. \<not> ds_aggregate d}"

lemma required_ids_append [simp]: "required_ids (ds @ es) = required_ids ds \<union> required_ids es"
  by (auto simp: required_ids_def)

lemma required_ids_aggregate [simp]: "required_ids (aggregate_scope ct # ds) = required_ids ds"
  by (auto simp: required_ids_def aggregate_scope_def)

lemma required_ids_map:
  "(\<And>x. \<not> ds_aggregate (f x)) \<Longrightarrow> required_ids (map f xs) = (\<lambda>x. ds_identifier (f x)) ` set xs"
  by (auto simp: required_ids_def)

lemma set_declared: "set (declared_scope_identifiers ds) = required_ids ds"
  by (auto simp: declared_scope_identifiers_def required_ids_def)

lemma discovery_model_actions:
  assumes "discovery_model declaration t = Inr m" and "sd_actions declaration \<noteq> []"
    and "action_model t = Inr m'"
  shows "m = Some m'"
  using assms by (cases t) auto

lemma discover_target_complete:
  assumes ds: "discover_target_scopes attrs cap t = Inr ds"
    and r: "resolve_scope_requirements attrs t action (Some cap) = Inr reqs"
  shows "set reqs \<subseteq> required_ids ds"
proof -
  obtain decl where decl: "get_scope_declaration attrs t = Inr decl"
    using r by (auto simp: resolve_scope_requirements_def)
  show ?thesis
  proof (cases "sd_requires decl = [] \<and> sd_actions decl = []")
    case True
    then show ?thesis
      using r decl by (auto simp: resolve_scope_requirements_def split: option.splits)
  next
    case False
    then obtain m ct where m: "discovery_model decl t = Inr m"
      and ct: "(case m of None \<Rightarrow> Inr None | Some m \<Rightarrow> res_bind (site_for_model cap m) (\<lambda>ct. Inr (Some ct))) = Inr ct"
      and eq: "ds = map (\<lambda>i. \<lparr>ds_identifier = i, ds_origin = LITERAL, ds_target = target_identifier t,
                          ds_content_type = map_option ct_identifier ct, ds_action = None,
                          ds_aggregate = False\<rparr>) (sd_requires decl)
             @ (case ct of
                  None \<Rightarrow> []
                | Some ct \<Rightarrow> map (\<lambda>a. \<lparr>ds_identifier = derived_scope ct a, ds_origin = DERIVED,
                      ds_target = target_identifier t, ds_content_type = Some (ct_identifier ct),
                      ds_action = Some a, ds_aggregate = False\<rparr>) (sd_actions decl))"
      using ds decl unfolding discover_target_scopes_def by auto
    have lit: "set (sd_requires decl) \<subseteq> required_ids ds"
      by (auto simp: eq required_ids_map)
    have der: "derived_scope c ` set (sd_actions decl) \<subseteq> required_ids ds" if "ct = Some c" for c
      by (auto simp: eq required_ids_map that)
    consider "reqs = sd_requires decl"
      | a m' c where "a \<in> set (sd_actions decl)" "action_model t = Inr m'" "site_for_model cap m' = Inr c"
          "reqs = sd_requires decl @ [derived_scope c a]"
      using r decl by (auto simp: resolve_scope_requirements_def split: option.splits if_splits)
    then show ?thesis
    proof cases
      case 2
      then have "m = Some m'" by (intro discovery_model_actions [OF m]) auto
      then have "ct = Some c" using ct 2 by simp
      then show ?thesis using lit der 2 by auto
    qed (use lit in simp)
  qed
qed

lemma discover_models_complete:
  "discover_models attrs cap cts = Inr ds \<Longrightarrow> ct \<in> set cts \<Longrightarrow>
     \<exists>es. discover_target_scopes attrs cap (ModelTarget (ct_model ct)) = Inr es \<and> required_ids es \<subseteq> required_ids ds"
proof (induction cts arbitrary: ds)
  case (Cons c cts)
  then obtain x xs where "discover_target_scopes attrs cap (ModelTarget (ct_model c)) = Inr x"
    and "discover_models attrs cap cts = Inr xs" and "required_ids ds = required_ids x \<union> required_ids xs"
    by auto
  then show ?case using Cons.IH [of xs] Cons.prems(2) by fastforce
qed simp

lemma discover_endpoints_complete:
  "discover_endpoints attrs cap es inspected = Inr ds \<Longrightarrow> e \<in> set es \<Longrightarrow>
     target_id (scope_target attrs e) \<in> set inspected
     \<or> (\<exists>e' \<in> set es. \<exists>fs. target_id (scope_target attrs e') = target_id (scope_target attrs e)
          \<and> discover_target_scopes attrs cap (scope_target attrs e') = Inr fs \<and> required_ids fs \<subseteq> required_ids ds)"
proof (induction es arbitrary: inspected ds)
  case (Cons x es)
  let ?t = "scope_target attrs x"
  show ?case
  proof (cases "target_id ?t \<in> set inspected")
    case True
    then show ?thesis using Cons by (auto simp: Let_def)
  next
    case False
    then obtain fs rest where fs: "discover_target_scopes attrs cap ?t = Inr fs"
      and rest: "discover_endpoints attrs cap es (target_id ?t # inspected) = Inr rest" and ds: "ds = fs @ rest"
      using Cons.prems(1) by (auto simp: Let_def)
    show ?thesis
    proof (cases "target_id (scope_target attrs e) = target_id ?t")
      case True
      then show ?thesis using fs ds by auto
    next
      case False
      then show ?thesis using Cons.IH [OF rest] Cons.prems(2) ds by fastforce
    qed
  qed
qed simp

lemma discover_complete:
  assumes disc: "discover_declared_scopes attrs routes cap = Inr ds"
    and ids: "inj_on target_id (inspected_targets attrs routes cap)"
    and t: "t \<in> inspected_targets attrs routes cap"
  shows "\<exists>es. discover_target_scopes attrs cap t = Inr es \<and> required_ids es \<subseteq> required_ids ds"
proof -
  obtain cts ms es where cts: "site_all cap = Inr cts" and ms: "discover_models attrs cap cts = Inr ms"
    and es: "discover_endpoints attrs cap (route_endpoints routes) (map (\<lambda>ct. mc_id (ct_model ct)) cts) = Inr es"
    and ds: "required_ids ds = required_ids ms \<union> required_ids es"
    using disc by (fastforce simp: discover_declared_scopes_def required_ids_def)
  have model: "\<exists>fs. discover_target_scopes attrs cap (ModelTarget (ct_model ct)) = Inr fs \<and> required_ids fs \<subseteq> required_ids ds"
    if "ct \<in> set cts" for ct
    using discover_models_complete [OF ms that] ds by auto
  consider ct where "ct \<in> set cts" "t = ModelTarget (ct_model ct)"
    | e where "e \<in> set (route_endpoints routes)" "t = scope_target attrs e"
    using t cts by (auto simp: inspected_targets_def)
  then show ?thesis
  proof cases
    case 1
    then show ?thesis using model by simp
  next
    case 2
    from discover_endpoints_complete [OF es 2(1)] show ?thesis
    proof (elim disjE bexE exE conjE)
      assume "target_id (scope_target attrs e) \<in> set (map (\<lambda>ct. mc_id (ct_model ct)) cts)"
      then obtain ct where ct: "ct \<in> set cts" "target_id t = target_id (ModelTarget (ct_model ct))"
        using 2 by auto
      have "ModelTarget (ct_model ct) \<in> inspected_targets attrs routes cap"
        using ct(1) cts by (simp add: inspected_targets_def)
      then have "t = ModelTarget (ct_model ct)" by (rule inj_onD [OF ids ct(2) t])
      then show ?thesis using model ct by simp
    next
      fix e' fs
      assume e': "e' \<in> set (route_endpoints routes)"
        "target_id (scope_target attrs e') = target_id (scope_target attrs e)"
        and fs: "discover_target_scopes attrs cap (scope_target attrs e') = Inr fs" "required_ids fs \<subseteq> required_ids es"
      have "scope_target attrs e' \<in> inspected_targets attrs routes cap"
        using e'(1) by (simp add: inspected_targets_def)
      then have "scope_target attrs e' = t"
        using inj_onD [OF ids _ _ t] e'(2) 2(2) by simp
      then show ?thesis using fs ds by auto
    qed
  qed
qed

text \<open>C31: A catalogue that passes validation covers the policy: if
  \<open>validate_site_scope_catalogue\<close> reports nothing missing, then every scope that access to a registered
  model or to the target of a routed endpoint can require, for any action, is in the catalogue.\<close>

theorem validated_catalogue_covers_policy:
  assumes "validate_site_scope_catalogue attrs routes (Some cap) (Some persisted) = Inr []"
    and "inj_on target_id (inspected_targets attrs routes cap)"
    and "t \<in> inspected_targets attrs routes cap"
    and "resolve_scope_requirements attrs t action (Some cap) = Inr required"
  shows "set required \<subseteq> set persisted"
proof -
  obtain ds where ds: "discover_declared_scopes attrs routes cap = Inr ds"
    and "missing_scope_catalogue_entries ds persisted = []"
    using assms(1) by (auto simp: validate_site_scope_catalogue_def)
  then have "required_ids ds \<subseteq> set persisted"
    by (auto simp: missing_scope_catalogue_entries_def filter_empty_conv simp flip: set_declared)
  then show ?thesis
    using discover_complete [OF ds assms(2,3)] discover_target_complete [OF _ assms(4)] by blast
qed

theorem validated_catalogue_covers_policy_witness:
  "\<exists>required. resolve_scope_requirements no_attributes (ModelTarget sample_post) (Action VIEW)
      (Some (sample_site [sample_post])) = Inr required
    \<and> required \<noteq> []
    \<and> set required \<subseteq> {''blog.post.list'', ''blog.post.view'', ''blog.post.create'', ''blog.post.update'',
         ''blog.post.delete'', ''blog.post.manage''}"
proof -
  let ?cap = "sample_site [sample_post]" and ?t = "ModelTarget sample_post"
  let ?ids = "[''blog.post.list'', ''blog.post.view'', ''blog.post.create'', ''blog.post.update'',
         ''blog.post.delete'', ''blog.post.manage'']"
  have v: "validate_site_scope_catalogue no_attributes [] (Some ?cap) (Some ?ids) = Inr []" by code_simp
  have t: "inspected_targets no_attributes [] ?cap = {?t}" by code_simp
  have r: "resolve_scope_requirements no_attributes ?t (Action VIEW) (Some ?cap) = Inr [''blog.post.view'']"
    by code_simp
  show ?thesis using validated_catalogue_covers_policy [OF v _ _ r] t r by simp
qed

text \<open>An aggregate grant reaches further than its content type: \<open>blog.posts\<close> is the identifier of
  the table \<open>posts\<close> of the app, and at the same time a prefix of the identifiers of all tables in a
  schema \<open>posts\<close>. A subject with the aggregate grant for the one passes the checks for the others.\<close>

theorem aggregate_grant_crosses_schema:
  "missing_scope_requirements [''blog.posts.comment.delete''] [''blog.posts'']
     (Some (sample_site [sample_model 1 ''Post'' None ''posts'',
                         sample_model 2 ''Comment'' (Some ''posts'') ''comment''])) = Inr []
   \<and> resolve_scope_requirements no_attributes
       (ModelTarget (sample_model 2 ''Comment'' (Some ''posts'') ''comment'')) (Action DELETE)
       (Some (sample_site [sample_model 1 ''Post'' None ''posts'',
                           sample_model 2 ''Comment'' (Some ''posts'') ''comment'']))
     = Inr [''blog.posts.comment.delete'']"
  by code_simp

end
