(* ===== verification/Byte_Cache.thy ===== *)
theory Byte_Cache
  imports Contracts
begin

text \<open>
  The mandatory byte cache: \<open>_SingleFlightCache\<close> and \<open>InMemoryCache\<close> of
  \<open>src/src/wybra/cache/capabilities.py\<close>.

  The operations on the entries are functions on the cache; a reading of \<open>time.monotonic\<close> is an
  argument. Recording observations (\<open>_record_completed\<close>, \<open>_record_failed\<close>) does not touch the cache
  and is left out. The loop of \<open>get_or_set\<close> suspends: each call is a small machine (\<open>phase\<close>), and
  \<open>fill_step\<close> interleaves any number of them, with factories that return, fail or are cancelled at
  any time. The two locks are never held across a suspension, so taking them does not suspend.
  Fill objects are shared between calls by reference: they live in a store and have identities.

  The lemmas show that entries are found until they expire, that owners do not share keys, that at
  most one factory runs for a key, and that no waiting call is stranded.
\<close>

section \<open>Keys and arguments\<close>

fun cache_key :: "pyobj \<Rightarrow> pyobj \<Rightarrow> string result" where
  "cache_key (PyStr owner) (PyStr key) =
     (if py_strip owner = [] then Inl ValueError
      else if CHR '':'' \<in> set owner then Inl ValueError
      else if py_strip key = [] then Inl ValueError
      else Inr (py_strip owner @ CHR '':'' # key))"
| "cache_key _ _ = Inl ValueError"

definition fill_timeout :: "pyobj \<Rightarrow> pyfloat result" where
  "fill_timeout v =
     (case v of
        PyInt n \<Rightarrow> if n \<le> 0 then Inl ValueError else to_float v
      | PyFloat x \<Rightarrow> if x \<le> 0 then Inl ValueError else Inr x
      | _ \<Rightarrow> Inl ValueError)"

section \<open>The cache\<close>

record CacheFill =
  cf_completed :: bool
  cf_uncached_value :: "bytes option"

record InMemoryCache =
  bc_fills :: "(string, nat) dict"
  bc_fill_objects :: "(nat, CacheFill) dict"
  bc_next_fill :: nat
  bc_entries :: "(string, pyfloat \<times> bytes) dict"

definition new_byte_cache :: InMemoryCache where
  "new_byte_cache = \<lparr>bc_fills = [], bc_fill_objects = [], bc_next_fill = 0, bc_entries = []\<rparr>"

datatype read_outcome = Hit | Miss | Expired

definition get_value :: "pyfloat \<Rightarrow> pyobj \<Rightarrow> pyobj \<Rightarrow> (InMemoryCache, bytes option \<times> read_outcome) pyop" where
  "get_value now owner key c =
     checked (cache_key owner key) c (\<lambda>k.
       case dict_get (bc_entries c) k of
         None \<Rightarrow> (Inr (None, Miss), c)
       | Some (expires_at, value) \<Rightarrow>
           if expires_at \<le> now
           then (Inr (None, Expired), c\<lparr>bc_entries := dict_pop k (bc_entries c)\<rparr>)
           else (Inr (Some value, Hit), c))"

definition set_value :: "pyfloat \<Rightarrow> pyobj \<Rightarrow> pyobj \<Rightarrow> pyobj \<Rightarrow> pyobj \<Rightarrow> (InMemoryCache, unit) pyop" where
  "set_value now owner key value ttl c =
     checked (validate_cache_value value) c (\<lambda>v.
     checked (cache_key owner key) c (\<lambda>k.
     checked (validate_cache_ttl ttl) c (\<lambda>t.
       (Inr (), c\<lparr>bc_entries := dict_set k (now + Fin t, v) (bc_entries c)\<rparr>))))"

definition byte_get :: "pyfloat \<Rightarrow> pyobj \<Rightarrow> pyobj \<Rightarrow> (InMemoryCache, bytes option) pyop" where
  "byte_get now owner key c =
     py_bind (get_value now owner key c) (\<lambda>(value, outcome) c'. (Inr value, c'))"

definition byte_set :: "pyfloat \<Rightarrow> pyobj \<Rightarrow> pyobj \<Rightarrow> pyobj \<Rightarrow> pyobj \<Rightarrow> (InMemoryCache, unit) pyop" where
  "byte_set now owner key value ttl c = set_value now owner key value ttl c"

definition byte_delete :: "pyobj \<Rightarrow> pyobj \<Rightarrow> (InMemoryCache, unit) pyop" where
  "byte_delete owner key c =
     checked (cache_key owner key) c (\<lambda>k.
       (Inr (), c\<lparr>bc_entries := dict_pop k (bc_entries c)\<rparr>))"

section \<open>Filling\<close>

text \<open>The section under the lock that makes a call the filler of its key, or a waiter.\<close>

definition claim_fill :: "string \<Rightarrow> InMemoryCache \<Rightarrow> (nat \<times> bool) \<times> InMemoryCache" where
  "claim_fill k c =
     (case dict_get (bc_fills c) k of
        Some f \<Rightarrow> ((f, False), c)
      | None \<Rightarrow>
          let f = bc_next_fill c
          in ((f, True), c\<lparr>bc_fills := dict_set k f (bc_fills c),
                bc_fill_objects := dict_set f \<lparr>cf_completed = False, cf_uncached_value = None\<rparr>
                  (bc_fill_objects c),
                bc_next_fill := Suc f\<rparr>))"

definition update_fill :: "nat \<Rightarrow> (CacheFill \<Rightarrow> CacheFill) \<Rightarrow> InMemoryCache \<Rightarrow> InMemoryCache" where
  "update_fill f g c =
     (case dict_get (bc_fill_objects c) f of
        None \<Rightarrow> c
      | Some o' \<Rightarrow> c\<lparr>bc_fill_objects := dict_set f (g o') (bc_fill_objects c)\<rparr>)"

definition release_fill :: "string \<Rightarrow> nat \<Rightarrow> InMemoryCache \<Rightarrow> InMemoryCache" where
  "release_fill k f c =
     update_fill f (\<lambda>o'. o'\<lparr>cf_completed := True\<rparr>)
       (if dict_get (bc_fills c) k = Some f then c\<lparr>bc_fills := dict_pop k (bc_fills c)\<rparr> else c)"

text \<open>One call of \<open>get_or_set\<close>: its arguments after validation, and where it is.\<close>

record fill_call =
  fc_owner :: pyobj
  fc_key :: pyobj
  fc_ttl :: pyobj
  fc_cache_key :: string

datatype phase =
    Reading
  | Claiming
  | Waiting nat
  | Filling nat
  | Storing nat pyobj
  | Releasing nat "bytes result"
  | Returned bytes
  | Raised exn

definition start_call :: "pyobj \<Rightarrow> pyobj \<Rightarrow> pyobj \<Rightarrow> pyobj \<Rightarrow> fill_call result" where
  "start_call owner key ttl timeout =
     res_bind (validate_cache_ttl ttl) (\<lambda>t.
     res_bind (cache_key owner key) (\<lambda>k.
     res_bind (fill_timeout timeout) (\<lambda>_.
       Inr \<lparr>fc_owner = owner, fc_key = key, fc_ttl = PyFloat (Fin t), fc_cache_key = k\<rparr>)))"

fun after_read :: "bytes option \<Rightarrow> phase" where
  "after_read (Some v) = Returned v"
| "after_read None = Claiming"

definition after_fill_wait :: "CacheFill \<Rightarrow> phase" where
  "after_fill_wait o' = (case cf_uncached_value o' of Some v \<Rightarrow> Returned v | None \<Rightarrow> Reading)"

text \<open>Storing a factory's value: the value that is returned has been validated as bytes.\<close>

fun stored_value :: "pyobj \<Rightarrow> unit result \<Rightarrow> bytes result" where
  "stored_value v (Inl e) = Inl e"
| "stored_value (PyBytes b) (Inr _) = Inr b"
| "stored_value _ (Inr _) = Inl TypeError"

fun after_release :: "bytes result \<Rightarrow> phase" where
  "after_release (Inl e) = Raised e"
| "after_release (Inr v) = Returned v"

record fill_state =
  fs_cache :: InMemoryCache
  fs_calls :: "(nat, fill_call \<times> phase) dict"

definition move_call :: "nat \<Rightarrow> fill_call \<Rightarrow> phase \<Rightarrow> InMemoryCache \<Rightarrow> fill_state \<Rightarrow> fill_state" where
  "move_call i call ph c s = s\<lparr>fs_cache := c, fs_calls := dict_set i (call, ph) (fs_calls s)\<rparr>"

fun interruptible :: "phase \<Rightarrow> bool" where
  "interruptible Reading = True"
| "interruptible Claiming = True"
| "interruptible (Waiting _) = True"
| "interruptible _ = False"

inductive fill_step :: "fill_state \<Rightarrow> fill_state \<Rightarrow> bool" where
  start: "dict_get (fs_calls s) i = None \<Longrightarrow> start_call owner key ttl timeout = Inr call \<Longrightarrow>
    fill_step s (move_call i call Reading (fs_cache s) s)"
| read: "dict_get (fs_calls s) i = Some (call, Reading) \<Longrightarrow>
    get_value now (fc_owner call) (fc_key call) (fs_cache s) = (Inr (value, outcome), c) \<Longrightarrow>
    fill_step s (move_call i call (after_read value) c s)"
| claim: "dict_get (fs_calls s) i = Some (call, Claiming) \<Longrightarrow>
    claim_fill (fc_cache_key call) (fs_cache s) = ((f, is_filler), c) \<Longrightarrow>
    fill_step s (move_call i call (if is_filler then Filling f else Waiting f) c s)"
| woken: "dict_get (fs_calls s) i = Some (call, Waiting f) \<Longrightarrow>
    dict_get (bc_fill_objects (fs_cache s)) f = Some o' \<Longrightarrow> cf_completed o' \<Longrightarrow>
    fill_step s (move_call i call (after_fill_wait o') (fs_cache s) s)"
| timed_out: "dict_get (fs_calls s) i = Some (call, Waiting f) \<Longrightarrow>
    fill_step s (move_call i call (Raised TimeoutError) (fs_cache s) s)"
| cancelled: "dict_get (fs_calls s) i = Some (call, ph) \<Longrightarrow> interruptible ph \<Longrightarrow>
    fill_step s (move_call i call (Raised CancelledError) (fs_cache s) s)"
| factory_value: "dict_get (fs_calls s) i = Some (call, Filling f) \<Longrightarrow>
    fill_step s (move_call i call (Storing f v) (fs_cache s) s)"
| factory_uncached: "dict_get (fs_calls s) i = Some (call, Filling f) \<Longrightarrow>
    fill_step s (move_call i call (Releasing f (Inr b))
      (update_fill f (\<lambda>o'. o'\<lparr>cf_uncached_value := Some b\<rparr>) (fs_cache s)) s)"
| factory_failed: "dict_get (fs_calls s) i = Some (call, Filling f) \<Longrightarrow>
    fill_step s (move_call i call (Releasing f (Inl e)) (fs_cache s) s)"
| stored: "dict_get (fs_calls s) i = Some (call, Storing f v) \<Longrightarrow>
    set_value now (fc_owner call) (fc_key call) v (fc_ttl call) (fs_cache s) = (r, c) \<Longrightarrow>
    fill_step s (move_call i call (Releasing f (stored_value v r)) c s)"
| released: "dict_get (fs_calls s) i = Some (call, Releasing f r) \<Longrightarrow>
    fill_step s (move_call i call (after_release r) (release_fill (fc_cache_key call) f (fs_cache s)) s)"
| other_get: "get_value now owner key (fs_cache s) = (r, c) \<Longrightarrow> fill_step s (s\<lparr>fs_cache := c\<rparr>)"
| other_set: "set_value now owner key value ttl (fs_cache s) = (r', c) \<Longrightarrow> fill_step s (s\<lparr>fs_cache := c\<rparr>)"
| other_delete: "byte_delete owner key (fs_cache s) = (r', c) \<Longrightarrow> fill_step s (s\<lparr>fs_cache := c\<rparr>)"

definition initial_fill_state :: fill_state where
  "initial_fill_state = \<lparr>fs_cache = new_byte_cache, fs_calls = []\<rparr>"

section \<open>Keys keep owners apart\<close>

lemma set_py_strip: "set (py_strip s) \<subseteq> set s"
  unfolding py_strip_def py_lstrip_def by (metis set_dropWhileD set_rev subsetI)

lemma cache_key_Inr:
  "cache_key (PyStr owner) (PyStr key) = Inr k \<longleftrightarrow>
     py_strip owner \<noteq> [] \<and> CHR '':'' \<notin> set owner \<and> py_strip key \<noteq> [] \<and> k = py_strip owner @ CHR '':'' # key"
  by auto

lemma cache_key_inj:
  assumes "cache_key (PyStr owner) (PyStr key) = Inr k" and "cache_key (PyStr owner') (PyStr key') = Inr k"
  shows "py_strip owner = py_strip owner' \<and> key = key'"
proof (rule append_sep_eq)
  show "CHR '':'' \<notin> set (py_strip owner)" and "CHR '':'' \<notin> set (py_strip owner')"
    using assms set_py_strip by (auto simp: cache_key_Inr simp del: cache_key.simps)
  show "py_strip owner @ CHR '':'' # key = py_strip owner' @ CHR '':'' # key'"
    using assms by (auto simp: cache_key_Inr simp del: cache_key.simps)
qed

lemma byte_get_result:
  assumes "cache_key owner key = Inr k"
  shows "fst (byte_get now owner key c) =
    Inr (case dict_get (bc_entries c) k of
      None \<Rightarrow> None | Some (expires_at, v) \<Rightarrow> if expires_at \<le> now then None else Some v)"
  using assms by (auto simp: byte_get_def get_value_def split: option.splits)

section \<open>What filling keeps\<close>

fun holds :: "phase \<Rightarrow> nat \<Rightarrow> bool" where
  "holds (Filling f) g \<longleftrightarrow> f = g"
| "holds (Storing f _) g \<longleftrightarrow> f = g"
| "holds (Releasing f _) g \<longleftrightarrow> f = g"
| "holds _ _ \<longleftrightarrow> False"

text \<open>A fill of the cache that has not been released is registered under its key.\<close>

definition fill_pending :: "InMemoryCache \<Rightarrow> string \<Rightarrow> nat \<Rightarrow> bool" where
  "fill_pending c k f \<longleftrightarrow>
     dict_get (bc_fills c) k = Some f
     \<and> (\<exists>o'. dict_get (bc_fill_objects c) f = Some o' \<and> \<not> cf_completed o')"

definition fill_completed :: "InMemoryCache \<Rightarrow> nat \<Rightarrow> bool" where
  "fill_completed c f \<longleftrightarrow> (\<exists>o'. dict_get (bc_fill_objects c) f = Some o' \<and> cf_completed o')"

abbreviation call_at :: "fill_state \<Rightarrow> nat \<Rightarrow> fill_call \<Rightarrow> phase \<Rightarrow> bool" where
  "call_at s i call ph \<equiv> dict_get (fs_calls s) i = Some (call, ph)"

definition fill_inv :: "fill_state \<Rightarrow> bool" where
  "fill_inv s \<longleftrightarrow>
     (\<forall>k f. dict_get (bc_fills (fs_cache s)) k = Some f \<longrightarrow>
        f < bc_next_fill (fs_cache s) \<and>
        (\<exists>i call ph. call_at s i call ph \<and> holds ph f \<and> fc_cache_key call = k))
     \<and> (\<forall>i call ph f. call_at s i call ph \<and> holds ph f \<longrightarrow> fill_pending (fs_cache s) (fc_cache_key call) f)
     \<and> (\<forall>i j call call' ph ph' f. call_at s i call ph \<and> call_at s j call' ph' \<and> holds ph f \<and> holds ph' f \<longrightarrow> i = j)
     \<and> (\<forall>i call f. call_at s i call (Waiting f) \<longrightarrow>
          fill_completed (fs_cache s) f \<or> fill_pending (fs_cache s) (fc_cache_key call) f)
     \<and> (\<forall>f. dict_get (bc_fill_objects (fs_cache s)) f \<noteq> None \<longrightarrow> f < bc_next_fill (fs_cache s))"

text \<open>What the invariant says about fills depends on neither the entries nor the uncached values.\<close>

definition same_fills :: "InMemoryCache \<Rightarrow> InMemoryCache \<Rightarrow> bool" where
  "same_fills c c' \<longleftrightarrow> bc_fills c' = bc_fills c \<and> bc_next_fill c' = bc_next_fill c
     \<and> (\<forall>f. map_option cf_completed (dict_get (bc_fill_objects c') f)
            = map_option cf_completed (dict_get (bc_fill_objects c) f))"

lemma pending_map:
  "fill_pending c k f \<longleftrightarrow> dict_get (bc_fills c) k = Some f
     \<and> map_option cf_completed (dict_get (bc_fill_objects c) f) = Some False"
  by (auto simp: fill_pending_def)

lemma completed_map: "fill_completed c f \<longleftrightarrow> map_option cf_completed (dict_get (bc_fill_objects c) f) = Some True"
  by (auto simp: fill_completed_def)

lemma same_fills_refl [simp]: "same_fills c c"
  by (simp add: same_fills_def)

lemma get_value_fills: "get_value now owner key c = (r, c') \<Longrightarrow> same_fills c c'"
  by (auto simp: get_value_def same_fills_def split: checked_splits option.splits if_splits)

lemma set_value_fills: "set_value now owner key v ttl c = (r, c') \<Longrightarrow> same_fills c c'"
  by (auto simp: set_value_def same_fills_def split: checked_splits)

lemma byte_delete_fills: "byte_delete owner key c = (r, c') \<Longrightarrow> same_fills c c'"
  by (auto simp: byte_delete_def same_fills_def split: checked_splits)

lemma move_call_at:
  "call_at (move_call i call ph c s) j call' ph' \<longleftrightarrow>
     (if j = i then call' = call \<and> ph' = ph else call_at s j call' ph')"
  by (auto simp: move_call_def)

lemma move_call_cache [simp]: "fs_cache (move_call i call ph c s) = c"
  by (simp add: move_call_def)

text \<open>A step that leaves the fills alone and keeps what the call holds.\<close>

lemma fill_inv_move:
  assumes inv: "fill_inv s" and at: "call_at s i call ph \<or> (dict_get (fs_calls s) i = None \<and> ph = Reading)"
    and same: "same_fills (fs_cache s) c"
    and holds: "\<And>f. holds ph' f = holds ph f" and waits: "\<And>f. ph' \<noteq> Waiting f"
  shows "fill_inv (move_call i call ph' c s)"
proof -
  have p: "fill_pending c = fill_pending (fs_cache s)" "fill_completed c = fill_completed (fs_cache s)"
    "bc_fills c = bc_fills (fs_cache s)" "bc_next_fill c = bc_next_fill (fs_cache s)"
    using same by (auto simp: pending_map completed_map same_fills_def fun_eq_iff)
  have objs: "dict_get (bc_fill_objects c) f \<noteq> None \<longleftrightarrow> dict_get (bc_fill_objects (fs_cache s)) f \<noteq> None" for f
    using same unfolding same_fills_def by (metis option.map_disc_iff)
  show ?thesis
    unfolding fill_inv_def
  proof (intro conjI allI impI)
    fix k f
    assume "dict_get (bc_fills (fs_cache (move_call i call ph' c s))) k = Some f"
    then have "f < bc_next_fill (fs_cache s)"
      and "\<exists>j call2 ph2. call_at s j call2 ph2 \<and> holds ph2 f \<and> fc_cache_key call2 = k"
      using inv by (simp_all add: fill_inv_def p)
    then obtain j call2 ph2 where j: "call_at s j call2 ph2" "holds ph2 f" "fc_cache_key call2 = k" by blast
    show "f < bc_next_fill (fs_cache (move_call i call ph' c s))"
      using \<open>f < _\<close> by (simp add: p)
    show "\<exists>j call2 ph2. call_at (move_call i call ph' c s) j call2 ph2 \<and> holds ph2 f \<and> fc_cache_key call2 = k"
    proof (cases "j = i")
      case True
      then have "call2 = call" "ph2 = ph" using j at by auto
      then show ?thesis using j holds True by (intro exI [of _ i] exI [of _ call] exI [of _ ph']) (simp add: move_call_at)
    next
      case False
      then show ?thesis using j by (intro exI [of _ j] exI [of _ call2] exI [of _ ph2]) (simp add: move_call_at)
    qed
  next
    fix j call2 ph2 f
    assume "call_at (move_call i call ph' c s) j call2 ph2 \<and> holds ph2 f"
    then show "fill_pending (fs_cache (move_call i call ph' c s)) (fc_cache_key call2) f"
      using inv at holds by (auto simp: fill_inv_def p move_call_at split: if_splits)
  next
    fix j j' call2 call3 ph2 ph3 f
    assume "call_at (move_call i call ph' c s) j call2 ph2 \<and> call_at (move_call i call ph' c s) j' call3 ph3
      \<and> holds ph2 f \<and> holds ph3 f"
    then have "(\<exists>x. call_at s j call2 x \<and> holds x f) \<and> (\<exists>x. call_at s j' call3 x \<and> holds x f)"
      using at holds by (auto simp: move_call_at split: if_splits)
    then show "j = j'" using inv unfolding fill_inv_def by blast
  next
    fix j call2 f
    assume "call_at (move_call i call ph' c s) j call2 (Waiting f)"
    then show "fill_completed (fs_cache (move_call i call ph' c s)) f
      \<or> fill_pending (fs_cache (move_call i call ph' c s)) (fc_cache_key call2) f"
      using inv waits by (auto simp: fill_inv_def p move_call_at split: if_splits)
  next
    fix f
    assume "dict_get (bc_fill_objects (fs_cache (move_call i call ph' c s))) f \<noteq> None"
    then show "f < bc_next_fill (fs_cache (move_call i call ph' c s))"
      using inv objs by (simp add: fill_inv_def p)
  qed
qed

text \<open>The parts of the invariant, as rules.\<close>

lemma fill_inv_registered:
  assumes "fill_inv s" and "dict_get (bc_fills (fs_cache s)) k = Some f"
  obtains i call ph where "call_at s i call ph" "holds ph f" "fc_cache_key call = k"
    "fill_pending (fs_cache s) k f" "f < bc_next_fill (fs_cache s)"
proof -
  have "f < bc_next_fill (fs_cache s)"
    and "\<exists>i call ph. call_at s i call ph \<and> holds ph f \<and> fc_cache_key call = k"
    using assms unfolding fill_inv_def by blast+
  moreover have "fill_pending (fs_cache s) (fc_cache_key call) f" if "call_at s i call ph" "holds ph f" for i call ph
    using assms(1) that unfolding fill_inv_def by blast
  ultimately show thesis using that by blast
qed

lemma fill_inv_holder:
  "fill_inv s \<Longrightarrow> call_at s i call ph \<Longrightarrow> holds ph f \<Longrightarrow> fill_pending (fs_cache s) (fc_cache_key call) f"
  unfolding fill_inv_def by blast

lemma fill_inv_unique:
  "fill_inv s \<Longrightarrow> call_at s i call ph \<Longrightarrow> call_at s j call' ph' \<Longrightarrow> holds ph f \<Longrightarrow> holds ph' f \<Longrightarrow> i = j"
  unfolding fill_inv_def by blast

lemma fill_inv_waiting:
  "fill_inv s \<Longrightarrow> call_at s i call (Waiting f) \<Longrightarrow>
     fill_completed (fs_cache s) f \<or> fill_pending (fs_cache s) (fc_cache_key call) f"
  unfolding fill_inv_def by blast

lemma fill_inv_objects:
  "fill_inv s \<Longrightarrow> dict_get (bc_fill_objects (fs_cache s)) f \<noteq> None \<Longrightarrow> f < bc_next_fill (fs_cache s)"
  unfolding fill_inv_def by blast

lemma holds_inj: "holds ph f \<Longrightarrow> holds ph g \<Longrightarrow> f = g"
  by (cases ph) auto

lemma fill_invI:
  assumes "\<And>k f. dict_get (bc_fills (fs_cache s)) k = Some f \<Longrightarrow>
      f < bc_next_fill (fs_cache s) \<and> (\<exists>i call ph. call_at s i call ph \<and> holds ph f \<and> fc_cache_key call = k)"
    and "\<And>i call ph f. call_at s i call ph \<Longrightarrow> holds ph f \<Longrightarrow> fill_pending (fs_cache s) (fc_cache_key call) f"
    and "\<And>i j call call' ph ph' f. call_at s i call ph \<Longrightarrow> call_at s j call' ph' \<Longrightarrow> holds ph f \<Longrightarrow>
      holds ph' f \<Longrightarrow> i = j"
    and "\<And>i call f. call_at s i call (Waiting f) \<Longrightarrow>
      fill_completed (fs_cache s) f \<or> fill_pending (fs_cache s) (fc_cache_key call) f"
    and "\<And>f. dict_get (bc_fill_objects (fs_cache s)) f \<noteq> None \<Longrightarrow> f < bc_next_fill (fs_cache s)"
  shows "fill_inv s"
  using assms unfolding fill_inv_def by blast

text \<open>A new filler.\<close>

lemma fill_inv_claim:
  assumes inv: "fill_inv s" and at: "call_at s i call Claiming"
    and none: "dict_get (bc_fills (fs_cache s)) (fc_cache_key call) = None"
    and claim: "claim_fill (fc_cache_key call) (fs_cache s) = ((f, b), c)"
  shows "fill_inv (move_call i call (Filling f) c s)"
proof -
  have c: "dict_get (bc_fills c) k = (if k = fc_cache_key call then Some f else dict_get (bc_fills (fs_cache s)) k)"
    "map_option cf_completed (dict_get (bc_fill_objects c) g) =
       (if g = f then Some False else map_option cf_completed (dict_get (bc_fill_objects (fs_cache s)) g))"
    "bc_next_fill c = Suc f" "f = bc_next_fill (fs_cache s)"
    "dict_get (bc_fill_objects c) g \<noteq> None \<longleftrightarrow> g = f \<or> dict_get (bc_fill_objects (fs_cache s)) g \<noteq> None" for k g
    using claim none by (auto simp: claim_fill_def Let_def)
  have new: "\<not> fill_pending (fs_cache s) k f" "\<not> fill_completed (fs_cache s) f" for k
    using fill_inv_objects [OF inv, of f] c(4) by (auto simp: fill_pending_def fill_completed_def)
  have keep: "fill_pending c k g" if "fill_pending (fs_cache s) k g" for k g
    using that new(1) none c(1,2) unfolding pending_map by (metis option.distinct(1))
  have keep': "fill_completed c g" if "fill_completed (fs_cache s) g" for g
    using that new(2) c(2) unfolding completed_map by metis
  have mine: "fill_pending c (fc_cache_key call) f" by (simp add: pending_map c(1,2))
  have nobody: "\<not> holds ph f" if "call_at s j call2 ph" for j call2 ph
    using fill_inv_holder [OF inv that] new(1) by blast
  let ?s = "move_call i call (Filling f) c s"
  show ?thesis
  proof (rule fill_invI)
    fix k g
    assume g: "dict_get (bc_fills (fs_cache ?s)) k = Some g"
    show "g < bc_next_fill (fs_cache ?s) \<and> (\<exists>j call2 ph2. call_at ?s j call2 ph2 \<and> holds ph2 g \<and> fc_cache_key call2 = k)"
    proof (cases "k = fc_cache_key call")
      case True
      then have "g = f" using g c(1) by simp
      moreover have "call_at ?s i call (Filling f)" by (simp add: move_call_at)
      ultimately show ?thesis using True c(3) by fastforce
    next
      case False
      then have "dict_get (bc_fills (fs_cache s)) k = Some g" using g c(1) by simp
      then obtain j call2 ph2 where j: "call_at s j call2 ph2" "holds ph2 g" "fc_cache_key call2 = k"
        and "g < bc_next_fill (fs_cache s)"
        by (rule fill_inv_registered [OF inv])
      moreover have "j \<noteq> i" using at j by auto
      then have "call_at ?s j call2 ph2" using j by (simp add: move_call_at)
      ultimately show ?thesis using c(3,4) by fastforce
    qed
  next
    fix j call2 ph2 g
    assume "call_at ?s j call2 ph2" and "holds ph2 g"
    then show "fill_pending (fs_cache ?s) (fc_cache_key call2) g"
      using mine keep fill_inv_holder [OF inv, of j call2 ph2 g] by (auto simp: move_call_at split: if_splits)
  next
    fix j j' call2 call3 ph2 ph3 g
    assume *: "call_at ?s j call2 ph2" "call_at ?s j' call3 ph3" "holds ph2 g" "holds ph3 g"
    then show "j = j'"
      using nobody [of j call2 ph2] nobody [of j' call3 ph3] fill_inv_unique [OF inv, of j call2 ph2 j' call3 ph3 g]
      by (auto simp: move_call_at split: if_splits)
  next
    fix j call2 g
    assume "call_at ?s j call2 (Waiting g)"
    then show "fill_completed (fs_cache ?s) g \<or> fill_pending (fs_cache ?s) (fc_cache_key call2) g"
      using fill_inv_waiting [OF inv, of j call2 g] keep keep' by (auto simp: move_call_at split: if_splits)
  next
    fix g
    assume "dict_get (bc_fill_objects (fs_cache ?s)) g \<noteq> None"
    then show "g < bc_next_fill (fs_cache ?s)"
      using c(3-5) fill_inv_objects [OF inv, of g] by (auto simp: less_Suc_eq)
  qed
qed

text \<open>A call that joins the waiters of a fill.\<close>

lemma fill_inv_wait:
  assumes inv: "fill_inv s" and at: "call_at s i call Claiming"
    and f: "dict_get (bc_fills (fs_cache s)) (fc_cache_key call) = Some f"
  shows "fill_inv (move_call i call (Waiting f) (fs_cache s) s)"
proof (rule fill_invI)
  let ?s = "move_call i call (Waiting f) (fs_cache s) s"
  show "g < bc_next_fill (fs_cache ?s) \<and> (\<exists>j call2 ph2. call_at ?s j call2 ph2 \<and> holds ph2 g \<and> fc_cache_key call2 = k)"
    if "dict_get (bc_fills (fs_cache ?s)) k = Some g" for k g
  proof -
    have "dict_get (bc_fills (fs_cache s)) k = Some g" using that by simp
    then obtain j call2 ph2 where j: "call_at s j call2 ph2" "holds ph2 g" "fc_cache_key call2 = k"
      and "g < bc_next_fill (fs_cache s)"
      by (rule fill_inv_registered [OF inv])
    moreover have "j \<noteq> i" using at j by auto
    then have "call_at ?s j call2 ph2" using j by (simp add: move_call_at)
    ultimately show ?thesis by auto
  qed
  show "fill_pending (fs_cache ?s) (fc_cache_key call2) g" if "call_at ?s j call2 ph2" "holds ph2 g" for j call2 ph2 g
    using that fill_inv_holder [OF inv, of j call2 ph2 g] by (auto simp: move_call_at split: if_splits)
  show "j = j'" if "call_at ?s j call2 ph2" "call_at ?s j' call3 ph3" "holds ph2 g" "holds ph3 g"
    for j j' call2 call3 ph2 ph3 g
    using that fill_inv_unique [OF inv, of j call2 ph2 j' call3 ph3 g] by (auto simp: move_call_at split: if_splits)
  show "fill_completed (fs_cache ?s) g \<or> fill_pending (fs_cache ?s) (fc_cache_key call2) g"
    if "call_at ?s j call2 (Waiting g)" for j call2 g
    using that fill_inv_waiting [OF inv, of j call2 g] fill_inv_registered [OF inv f]
    by (auto simp: move_call_at split: if_splits)
  show "g < bc_next_fill (fs_cache ?s)" if "dict_get (bc_fill_objects (fs_cache ?s)) g \<noteq> None" for g
    using that fill_inv_objects [OF inv, of g] by simp
qed

text \<open>The filler releases: its fill is complete, everything else stays.\<close>

lemma release_fill_get:
  assumes "fill_pending c k f"
  shows "dict_get (bc_fills (release_fill k f c)) k' = (if k' = k then None else dict_get (bc_fills c) k')"
    and "map_option cf_completed (dict_get (bc_fill_objects (release_fill k f c)) g) =
      (if g = f then Some True else map_option cf_completed (dict_get (bc_fill_objects c) g))"
    and "bc_next_fill (release_fill k f c) = bc_next_fill c"
  using assms by (auto simp: fill_pending_def release_fill_def update_fill_def split: option.splits)

lemma fill_inv_release:
  assumes inv: "fill_inv s" and at: "call_at s i call (Releasing f r)"
    and ph': "\<And>g. \<not> holds ph' g" "\<And>g. ph' \<noteq> Waiting g"
  shows "fill_inv (move_call i call ph' (release_fill (fc_cache_key call) f (fs_cache s)) s)"
proof -
  let ?k = "fc_cache_key call"
  let ?c = "release_fill ?k f (fs_cache s)"
  let ?s = "move_call i call ph' ?c s"
  have p: "fill_pending (fs_cache s) ?k f" using fill_inv_holder [OF inv at] by simp
  note c = release_fill_get [OF p]
  have keep: "fill_pending ?c k g" if "fill_pending (fs_cache s) k g" "g \<noteq> f" for k g
  proof -
    have "k \<noteq> ?k" using that p by (auto simp: fill_pending_def)
    then show ?thesis using that c(1,2) by (simp add: pending_map)
  qed
  have other: "g \<noteq> f" if "call_at s j call2 ph2" "holds ph2 g" "j \<noteq> i" for j call2 ph2 g
    using fill_inv_unique [OF inv at that(1), of f] that by auto
  show ?thesis
  proof (rule fill_invI)
    fix k g
    assume "dict_get (bc_fills (fs_cache ?s)) k = Some g"
    then have g: "dict_get (bc_fills (fs_cache s)) k = Some g" and k: "k \<noteq> ?k"
      using c(1) by (auto split: if_splits)
    obtain j call2 ph2 where j: "call_at s j call2 ph2" "holds ph2 g" "fc_cache_key call2 = k"
      and less: "g < bc_next_fill (fs_cache s)"
      by (rule fill_inv_registered [OF inv g])
    have "j \<noteq> i" using at j k by auto
    then have "call_at ?s j call2 ph2" using j by (simp add: move_call_at)
    then show "g < bc_next_fill (fs_cache ?s) \<and> (\<exists>j call2 ph2. call_at ?s j call2 ph2 \<and> holds ph2 g \<and> fc_cache_key call2 = k)"
      using j less c(3) by auto
  next
    fix j call2 ph2 g
    assume "call_at ?s j call2 ph2" and "holds ph2 g"
    then have "call_at s j call2 ph2" "holds ph2 g" "j \<noteq> i"
      using ph' by (auto simp: move_call_at split: if_splits)
    then show "fill_pending (fs_cache ?s) (fc_cache_key call2) g"
      using keep other fill_inv_holder [OF inv, of j call2 ph2 g] by auto
  next
    fix j j' call2 call3 ph2 ph3 g
    assume "call_at ?s j call2 ph2" "call_at ?s j' call3 ph3" "holds ph2 g" "holds ph3 g"
    then show "j = j'"
      using ph' fill_inv_unique [OF inv, of j call2 ph2 j' call3 ph3 g] by (auto simp: move_call_at split: if_splits)
  next
    fix j call2 g
    assume "call_at ?s j call2 (Waiting g)"
    then have w: "fill_completed (fs_cache s) g \<or> fill_pending (fs_cache s) (fc_cache_key call2) g"
      using ph' fill_inv_waiting [OF inv, of j call2 g] by (auto simp: move_call_at split: if_splits)
    show "fill_completed (fs_cache ?s) g \<or> fill_pending (fs_cache ?s) (fc_cache_key call2) g"
    proof (cases "g = f")
      case True
      then show ?thesis using c(2) by (simp add: completed_map)
    next
      case False
      then show ?thesis using w keep c(2) by (auto simp: completed_map)
    qed
  next
    fix g
    assume "dict_get (bc_fill_objects (fs_cache ?s)) g \<noteq> None"
    then have "map_option cf_completed (dict_get (bc_fill_objects ?c) g) \<noteq> None" by simp
    then have "g = f \<or> dict_get (bc_fill_objects (fs_cache s)) g \<noteq> None" unfolding c(2) by (auto split: if_splits)
    moreover have "dict_get (bc_fill_objects (fs_cache s)) f \<noteq> None" using p by (auto simp: fill_pending_def)
    ultimately show "g < bc_next_fill (fs_cache ?s)"
      using fill_inv_objects [OF inv] c(3) by auto
  qed
qed

lemma update_fill_same: "same_fills c (update_fill f (\<lambda>o'. o'\<lparr>cf_uncached_value := v\<rparr>) c)"
  by (auto simp: same_fills_def update_fill_def split: option.splits)

text \<open>A step that touches no call.\<close>

lemma fill_inv_cache:
  assumes "fill_inv s" and "same_fills (fs_cache s) c"
  shows "fill_inv (s\<lparr>fs_cache := c\<rparr>)"
proof -
  have "fill_pending c = fill_pending (fs_cache s)" "fill_completed c = fill_completed (fs_cache s)"
    "bc_fills c = bc_fills (fs_cache s)" "bc_next_fill c = bc_next_fill (fs_cache s)"
    using assms(2) by (auto simp: pending_map completed_map same_fills_def fun_eq_iff)
  moreover have "dict_get (bc_fill_objects c) f \<noteq> None \<longleftrightarrow> dict_get (bc_fill_objects (fs_cache s)) f \<noteq> None" for f
    using assms(2) unfolding same_fills_def by (metis option.map_disc_iff)
  ultimately show ?thesis using assms(1) by (simp add: fill_inv_def)
qed

lemma fill_step_inv: "fill_step s s' \<Longrightarrow> fill_inv s \<Longrightarrow> fill_inv s'"
proof (induction rule: fill_step.induct)
  case (start s i owner key ttl timeout call)
  then show ?case by (intro fill_inv_move [where ph = Reading]) auto
next
  case (read s i call now v outcome c)
  have "holds (after_read v) f = holds Reading f" "after_read v \<noteq> Waiting f" for f
    by (cases v; simp)+
  then show ?case using read get_value_fills [OF read(2)] by (intro fill_inv_move [where ph = Reading]) auto
next
  case (claim s i call f is_filler c)
  show ?case
  proof (cases "dict_get (bc_fills (fs_cache s)) (fc_cache_key call)")
    case None
    then have "is_filler" using claim(2) by (auto simp: claim_fill_def Let_def)
    then show ?thesis using fill_inv_claim [OF claim(3,1) None claim(2)] by simp
  next
    case (Some g)
    then have "\<not> is_filler" "g = f" "c = fs_cache s" using claim(2) by (auto simp: claim_fill_def)
    then show ?thesis using fill_inv_wait [OF claim(3,1)] Some by simp
  qed
next
  case (woken s i call f o')
  have "holds (after_fill_wait o') g = holds (Waiting f) g" "after_fill_wait o' \<noteq> Waiting g" for g
    by (auto simp: after_fill_wait_def split: option.splits)
  then show ?case using woken by (intro fill_inv_move [where ph = "Waiting f"]) auto
next
  case (timed_out s i call f)
  then show ?case by (intro fill_inv_move [where ph = "Waiting f"]) auto
next
  case (cancelled s i call ph)
  then have "holds (Raised CancelledError) g = holds ph g" for g by (cases ph) auto
  then show ?case using cancelled by (intro fill_inv_move [where ph = ph]) auto
next
  case (factory_value s i call f v)
  then show ?case by (intro fill_inv_move [where ph = "Filling f"]) auto
next
  case (factory_uncached s i call f b)
  then show ?case using update_fill_same by (intro fill_inv_move [where ph = "Filling f"]) auto
next
  case (factory_failed s i call f e)
  then show ?case by (intro fill_inv_move [where ph = "Filling f"]) auto
next
  case (stored s i call f v now r c)
  then show ?case
    using set_value_fills [OF stored(2)] by (intro fill_inv_move [where ph = "Storing f v"]) auto
next
  case (released s i call f r)
  have "\<not> holds (after_release r) g" "after_release r \<noteq> Waiting g" for g by (cases r; simp)+
  then show ?case using fill_inv_release [OF released(2,1)] by blast
next
  case (other_get now owner key s r c)
  then show ?case using get_value_fills fill_inv_cache by blast
next
  case (other_set now owner key v ttl s r' c)
  then show ?case using set_value_fills fill_inv_cache by blast
next
  case (other_delete owner key s r' c)
  then show ?case using byte_delete_fills fill_inv_cache by blast
qed

lemma initial_fill_inv: "fill_inv initial_fill_state"
  by (simp add: fill_inv_def initial_fill_state_def new_byte_cache_def)

lemma reachable_fill_inv: "fill_step\<^sup>*\<^sup>* initial_fill_state s \<Longrightarrow> fill_inv s"
  by (induction rule: rtranclp_induct) (auto intro: initial_fill_inv fill_step_inv)

section \<open>Paths\<close>

lemma move_call_twice [simp]: "move_call i call ph c (move_call i call' ph' c' s) = move_call i call ph c s"
  by (simp add: move_call_def)

text \<open>A call that finds nothing becomes a filler or a waiter.\<close>

lemma path_to_claim:
  assumes new: "dict_get (fs_calls s) i = None" and call: "start_call owner key ttl timeout = Inr call"
    and miss: "dict_get (bc_entries (fs_cache s)) (fc_cache_key call) = None"
    and claim: "claim_fill (fc_cache_key call) (fs_cache s) = ((f, b), c)"
  shows "fill_step\<^sup>*\<^sup>* s (move_call i call (if b then Filling f else Waiting f) c s)"
proof -
  let ?s1 = "move_call i call Reading (fs_cache s) s" and ?s2 = "move_call i call Claiming (fs_cache s) s"
  have k: "cache_key (fc_owner call) (fc_key call) = Inr (fc_cache_key call)"
    using call by (auto simp: start_call_def)
  have "fill_step s ?s1" by (rule fill_step.start [OF new call])
  moreover have "fill_step ?s1 ?s2"
    using fill_step.read [of ?s1 i call 0 None Miss "fs_cache s"] miss k
    by (simp add: move_call_at get_value_def)
  moreover have "fill_step ?s2 (move_call i call (if b then Filling f else Waiting f) c s)"
    using fill_step.claim [of ?s2 i call f b c] claim by (simp add: move_call_at)
  ultimately show ?thesis by (meson converse_rtranclp_into_rtranclp rtranclp.rtrancl_refl)
qed

text \<open>A release wakes the waiters of the fill.\<close>

lemma path_release:
  assumes inv: "fill_inv s" and j: "call_at s j call' (Releasing f r)" and i: "call_at s i call (Waiting f)"
  shows "\<exists>s' ph. fill_step\<^sup>*\<^sup>* s s' \<and> call_at s' i call ph \<and> (ph = Reading \<or> (\<exists>v. ph = Returned v))"
proof -
  let ?c = "release_fill (fc_cache_key call') f (fs_cache s)"
  let ?s1 = "move_call j call' (after_release r) ?c s"
  have "fill_pending (fs_cache s) (fc_cache_key call') f" using fill_inv_holder [OF inv j] by simp
  then have "fill_completed ?c f" using release_fill_get(2) [of "fs_cache s" "fc_cache_key call'" f f] by (simp add: completed_map)
  then obtain o' where o': "dict_get (bc_fill_objects (fs_cache ?s1)) f = Some o'" "cf_completed o'"
    by (auto simp: fill_completed_def)
  have i1: "call_at ?s1 i call (Waiting f)" using i j by (auto simp: move_call_at)
  let ?s2 = "move_call i call (after_fill_wait o') (fs_cache ?s1) ?s1"
  have "fill_step s ?s1" by (rule fill_step.released [OF j])
  moreover have "fill_step ?s1 ?s2" by (rule fill_step.woken [OF i1 o'])
  moreover have "call_at ?s2 i call (after_fill_wait o')" by (simp add: move_call_at)
  moreover have "after_fill_wait o' = Reading \<or> (\<exists>v. after_fill_wait o' = Returned v)"
    by (simp add: after_fill_wait_def split: option.split)
  moreover from calculation have "fill_step\<^sup>*\<^sup>* s ?s2" by simp
  ultimately show ?thesis by blast
qed

lemma path_to_release:
  assumes "call_at s j call' ph" and "holds ph f"
  shows "\<exists>s' r. fill_step\<^sup>*\<^sup>* s s' \<and> call_at s' j call' (Releasing f r)
    \<and> (\<forall>i call ph'. i \<noteq> j \<longrightarrow> call_at s' i call ph' = call_at s i call ph')"
proof -
  have moved: "\<exists>s' r. fill_step\<^sup>*\<^sup>* s s' \<and> call_at s' j call' (Releasing f r)
      \<and> (\<forall>i call ph'. i \<noteq> j \<longrightarrow> call_at s' i call ph' = call_at s i call ph')"
    if "fill_step s (move_call j call' (Releasing f r) c s)" for r c
    using that
    by (intro exI [of _ "move_call j call' (Releasing f r) c s"] exI [of _ r]) (auto simp: move_call_at)
  show ?thesis
  proof (cases ph)
    case (Filling g)
    then have "fill_step s (move_call j call' (Releasing f (Inl CancelledError)) (fs_cache s) s)"
      using assms by (intro fill_step.factory_failed) auto
    then show ?thesis by (rule moved)
  next
    case (Storing g v)
    obtain r c where "set_value 0 (fc_owner call') (fc_key call') v (fc_ttl call') (fs_cache s) = (r, c)" by fastforce
    then have "fill_step s (move_call j call' (Releasing f (stored_value v r)) c s)"
      using assms Storing by (intro fill_step.stored) auto
    then show ?thesis by (rule moved)
  next
    case (Releasing g r)
    then show ?thesis using assms by auto
  qed (use assms in auto)
qed

section \<open>Properties\<close>

text \<open>What is set can be read until it expires and not after, and what other owners or keys hold
  does not change; after a delete there is nothing. Owners that differ in more than surrounding white
  space never share an entry, whatever their keys.\<close>

theorem byte_cache_roundtrip:
  assumes "byte_set now (PyStr owner) (PyStr key) v ttl c = (Inr (), c')"
  shows "\<exists>b t. v = PyBytes b \<and> validate_cache_ttl ttl = Inr t
    \<and> (\<forall>later. fst (byte_get later (PyStr owner) (PyStr key) c') =
          Inr (if now + Fin t \<le> later then None else Some b))
    \<and> (\<forall>later owner' key'. py_strip owner' \<noteq> py_strip owner \<or> key' \<noteq> key \<longrightarrow>
          fst (byte_get later (PyStr owner') (PyStr key') c') = fst (byte_get later (PyStr owner') (PyStr key') c))
    \<and> (\<forall>later. fst (byte_get later (PyStr owner) (PyStr key)
          (snd (byte_delete (PyStr owner) (PyStr key) c'))) = Inr None)"
proof -
  obtain b k t where b: "v = PyBytes b" and k: "cache_key (PyStr owner) (PyStr key) = Inr k"
    and t: "validate_cache_ttl ttl = Inr t"
    and c': "c' = c\<lparr>bc_entries := dict_set k (now + Fin t, b) (bc_entries c)\<rparr>"
    using assms by (auto simp: byte_set_def set_value_def checked_eq_Inr simp del: cache_key.simps)
  have other: "fst (byte_get later (PyStr owner') (PyStr key') c') = fst (byte_get later (PyStr owner') (PyStr key') c)"
    if "py_strip owner' \<noteq> py_strip owner \<or> key' \<noteq> key" for later owner' key'
  proof (cases "cache_key (PyStr owner') (PyStr key')")
    case (Inl e)
    then show ?thesis by (simp add: byte_get_def get_value_def del: cache_key.simps)
  next
    case (Inr k')
    then have "k' \<noteq> k" using cache_key_inj k that by metis
    then show ?thesis by (simp add: byte_get_result [OF Inr] c')
  qed
  have "byte_delete (PyStr owner) (PyStr key) c' = (Inr (), c'\<lparr>bc_entries := dict_pop k (bc_entries c')\<rparr>)"
    by (simp add: byte_delete_def k del: cache_key.simps)
  then have "fst (byte_get later (PyStr owner) (PyStr key) (snd (byte_delete (PyStr owner) (PyStr key) c'))) = Inr None"
    for later by (simp add: byte_get_result [OF k])
  moreover have "fst (byte_get later (PyStr owner) (PyStr key) c') = Inr (if now + Fin t \<le> later then None else Some b)"
    for later by (simp add: byte_get_result [OF k] c')
  ultimately show ?thesis using b t other by blast
qed

theorem byte_cache_roundtrip_witness:
  "\<exists>c'. byte_set (Fin 10) (PyStr ''app'') (PyStr ''k'') (PyBytes [1]) (PyInt 5) new_byte_cache = (Inr (), c')
    \<and> fst (byte_get (Fin 14) (PyStr ''app'') (PyStr ''k'') c') = Inr (Some [1])
    \<and> fst (byte_get (Fin 15) (PyStr ''app'') (PyStr ''k'') c') = Inr None"
proof -
  let ?set = "byte_set (Fin 10) (PyStr ''app'') (PyStr ''k'') (PyBytes [1]) (PyInt 5) new_byte_cache"
  have "fst ?set = Inr ()" by code_simp
  then obtain c' where c': "?set = (Inr (), c')" by (metis prod.collapse)
  have t: "validate_cache_ttl (PyInt 5) = Inr 5" by code_simp
  have "\<not> Fin 10 + Fin 5 \<le> Fin 14" "Fin 10 + Fin 5 \<le> Fin 15" by code_simp+
  then show ?thesis using byte_cache_roundtrip [OF c'] c' t by auto
qed

fun running :: "phase \<Rightarrow> bool" where
  "running (Filling _) = True"
| "running (Storing _ _) = True"
| "running (Releasing _ _) = True"
| "running _ = False"

lemma running_holds: "running ph \<longleftrightarrow> (\<exists>f. holds ph f)"
  by (cases ph) auto

definition sample_call :: fill_call where
  "sample_call = \<lparr>fc_owner = PyStr ''app'', fc_key = PyStr ''k'', fc_ttl = PyFloat (Fin 5),
     fc_cache_key = ''app:k''\<rparr>"

lemma sample_filler_and_waiter:
  "\<exists>s. fill_step\<^sup>*\<^sup>* initial_fill_state s \<and> call_at s 0 sample_call (Filling 0) \<and> call_at s 1 sample_call (Waiting 0)"
proof -
  have call: "start_call (PyStr ''app'') (PyStr ''k'') (PyInt 5) (PyInt 30) = Inr sample_call" by code_simp
  obtain c where c: "claim_fill ''app:k'' new_byte_cache = ((0, True), c)" "dict_get (bc_entries c) ''app:k'' = None"
    "claim_fill ''app:k'' c = ((0, False), c)"
    by (simp add: claim_fill_def new_byte_cache_def Let_def)
  let ?s1 = "move_call 0 sample_call (Filling 0) c initial_fill_state"
  let ?s2 = "move_call 1 sample_call (Waiting 0) c ?s1"
  have "fill_step\<^sup>*\<^sup>* initial_fill_state ?s1"
    using path_to_claim [OF _ call, of initial_fill_state 0 0 True c] c(1)
    by (simp add: initial_fill_state_def sample_call_def new_byte_cache_def)
  moreover have "fill_step\<^sup>*\<^sup>* ?s1 ?s2"
    using path_to_claim [OF _ call, of ?s1 1 0 False c] c
    by (simp add: initial_fill_state_def sample_call_def move_call_def)
  ultimately show ?thesis by (intro exI [of _ ?s2]) (auto simp: move_call_at)
qed

text \<open>C33: Single flight: in every interleaving of \<open>get_or_set\<close> calls, reads, writes and deletes, at
  most one call is between claiming a key and releasing it, so that two factories never run for the
  same key at the same time.\<close>

theorem single_flight_exclusive:
  assumes "fill_step\<^sup>*\<^sup>* initial_fill_state s"
    and "call_at s i call ph" and "running ph" and "call_at s j call' ph'" and "running ph'"
    and "fc_cache_key call = fc_cache_key call'"
  shows "i = j"
proof -
  note inv = reachable_fill_inv [OF assms(1)]
  obtain f g where "holds ph f" "holds ph' g" using assms(3,5) by (auto simp: running_holds)
  moreover from this have "f = g"
    using fill_inv_holder [OF inv assms(2)] fill_inv_holder [OF inv assms(4)] assms(6) by (auto simp: fill_pending_def)
  ultimately show ?thesis using fill_inv_unique [OF inv assms(2,4)] by blast
qed

theorem single_flight_exclusive_witness:
  "\<exists>s. fill_step\<^sup>*\<^sup>* initial_fill_state s \<and> call_at s 0 sample_call (Filling 0)
     \<and> (\<forall>j ph. call_at s j sample_call ph \<longrightarrow> running ph \<longrightarrow> 0 = j)"
proof -
  obtain s where s: "fill_step\<^sup>*\<^sup>* initial_fill_state s" "call_at s 0 sample_call (Filling 0)"
    using sample_filler_and_waiter by blast
  then show ?thesis using single_flight_exclusive [OF s] by (intro exI [of _ s]) auto
qed

text \<open>C34: No waiting call is stranded: from every reachable state in which a call waits for another
  call's fill, the calls can go on, without a timeout or a cancellation of the waiter, to a state in
  which it has the uncached value or reads the cache again.\<close>

theorem waiter_can_always_proceed:
  assumes "fill_step\<^sup>*\<^sup>* initial_fill_state s" and "call_at s i call (Waiting f)"
  shows "\<exists>s' ph. fill_step\<^sup>*\<^sup>* s s' \<and> call_at s' i call ph \<and> (ph = Reading \<or> (\<exists>v. ph = Returned v))"
proof -
  note inv = reachable_fill_inv [OF assms(1)]
  from fill_inv_waiting [OF inv assms(2)] show ?thesis
  proof
    assume "fill_completed (fs_cache s) f"
    then obtain o' where "dict_get (bc_fill_objects (fs_cache s)) f = Some o'" "cf_completed o'"
      by (auto simp: fill_completed_def)
    then have "fill_step s (move_call i call (after_fill_wait o') (fs_cache s) s)" by (rule fill_step.woken [OF assms(2)])
    moreover have "after_fill_wait o' = Reading \<or> (\<exists>v. after_fill_wait o' = Returned v)"
      by (simp add: after_fill_wait_def split: option.split)
    ultimately show ?thesis by (meson move_call_at r_into_rtranclp)
  next
    assume "fill_pending (fs_cache s) (fc_cache_key call) f"
    then have reg: "dict_get (bc_fills (fs_cache s)) (fc_cache_key call) = Some f" by (simp add: fill_pending_def)
    obtain j call' ph where j: "call_at s j call' ph" "holds ph f" by (rule fill_inv_registered [OF inv reg])
    then have "i \<noteq> j" using assms(2) by auto
    obtain s1 r where s1: "fill_step\<^sup>*\<^sup>* s s1" "call_at s1 j call' (Releasing f r)" "call_at s1 i call (Waiting f)"
      using path_to_release [OF j] assms(2) \<open>i \<noteq> j\<close> by blast
    have "fill_inv s1" using reachable_fill_inv assms(1) s1(1) by (meson rtranclp_trans)
    from path_release [OF this s1(2,3)] obtain s' ph where "fill_step\<^sup>*\<^sup>* s1 s'" "call_at s' i call ph"
      "ph = Reading \<or> (\<exists>v. ph = Returned v)" by blast
    moreover from this have "fill_step\<^sup>*\<^sup>* s s'" using s1(1) by simp
    ultimately show ?thesis by blast
  qed
qed

theorem waiter_can_always_proceed_witness:
  "\<exists>s s' ph. fill_step\<^sup>*\<^sup>* initial_fill_state s \<and> call_at s 1 sample_call (Waiting 0)
     \<and> fill_step\<^sup>*\<^sup>* s s' \<and> call_at s' 1 sample_call ph \<and> (ph = Reading \<or> (\<exists>v. ph = Returned v))"
proof -
  obtain s where s: "fill_step\<^sup>*\<^sup>* initial_fill_state s" "call_at s 1 sample_call (Waiting 0)"
    using sample_filler_and_waiter by blast
  then show ?thesis using waiter_can_always_proceed [OF s] by blast
qed

end
