(* ===== verification/Cache_Registry.thy ===== *)
theory Cache_Registry
  imports Contracts
begin

text \<open>
  Named caches: their construction, the features they offer and their shutdown.
  \<open>src/src/wybra/cache/registry.py\<close>, \<open>lifecycle.py\<close> and the name check of \<open>config.py\<close>.

  A closer or a backend factory is code that acts on a world the registry knows nothing about: a
  function on a type \<open>'w\<close>. Of the exceptions outside \<open>Exception\<close> only \<open>CancelledError\<close> is
  considered. Protocols are classes with a name; whether an object satisfies one is recorded with the
  object. The backends themselves are in \<open>Cache_Backends\<close>.

  The lemmas show that an instance offers exactly the configured features, that a failed start closes
  what it had opened, and that shutting down retries what failed and nothing else.
\<close>

type_synonym 'w closer = "('w, unit) pyop"

section \<open>Closing\<close>

fun close_loop :: "'w closer list \<Rightarrow> exn list \<Rightarrow> bool \<Rightarrow> 'w \<Rightarrow> (exn list \<times> bool) \<times> 'w" where
  "close_loop [] errors cancelled w = ((errors, cancelled), w)"
| "close_loop (close # closers) errors cancelled w =
     (case close w of
        (Inr _, w') \<Rightarrow> close_loop closers errors cancelled w'
      | (Inl e, w') \<Rightarrow>
          if e = CancelledError then close_loop closers errors True w'
          else close_loop closers (errors @ [e]) cancelled w')"

text \<open>A cancellation is raised once all closers have run.\<close>

definition close_all :: "'w closer list \<Rightarrow> ('w, exn list) pyop" where
  "close_all closers w =
     (case close_loop closers [] False w of
        ((errors, cancelled), w') \<Rightarrow> (if cancelled then Inl CancelledError else Inr errors, w'))"

definition raise_cleanup_errors :: "exn list \<Rightarrow> unit result" where
  "raise_cleanup_errors errors = (if errors \<noteq> [] then Inl (ExceptionGroup errors) else Inr ())"

section \<open>Features\<close>

record protocol =
  pr_name :: string
  pr_runtime_checkable :: bool

record implementation =
  im_id :: nat
  im_satisfies :: "string list"

record CacheFeatureRegistration =
  rg_protocol :: protocol
  rg_implementation :: implementation
  rg_metadata :: CacheFeatureMetadata

text \<open>The validated settings of a cache. \<open>cs_partition\<close> and \<open>cs_requires_secret_resolution\<close> are the values
  of the properties of these names.\<close>

record CacheSettings =
  cs_name :: string
  cs_backend :: string
  cs_servers :: "string list option"
  cs_url :: "string option"
  cs_namespace :: "string option"
  cs_features :: "string list option"
  cs_partition :: string
  cs_requires_secret_resolution :: bool

record CacheInstance =
  ci_name :: string
  ci_backend :: string
  ci_partition :: string
  ci_features :: "string list"
  ci_feature_metadata :: "CacheFeatureMetadata list"
  ci_feature_implementations :: "(protocol, implementation) dict"

definition make_CacheInstance :: "CacheInstance \<Rightarrow> CacheInstance result" where
  "make_CacheInstance inst =
     (if ci_features inst \<noteq> map fm_name (ci_feature_metadata inst) then Inl ValueError else Inr inst)"

definition instance_optional :: "CacheInstance \<Rightarrow> protocol \<Rightarrow> implementation option" where
  "instance_optional inst feature = dict_get (ci_feature_implementations inst) feature"

definition instance_require :: "CacheInstance \<Rightarrow> protocol \<Rightarrow> implementation result" where
  "instance_require inst feature =
     (case instance_optional inst feature of
        Some im \<Rightarrow> Inr im | None \<Rightarrow> Inl CacheFeatureUnavailableError)"

text \<open>\<open>isinstance(implementation, protocol)\<close>; a protocol without runtime checks raises.\<close>

definition implementation_matches :: "CacheFeatureRegistration \<Rightarrow> bool result" where
  "implementation_matches r =
     (if \<not> pr_runtime_checkable (rg_protocol r) then Inl TypeError
      else Inr (pr_name (rg_protocol r) \<in> set (im_satisfies (rg_implementation r))))"

definition selected_feature :: "CacheSettings \<Rightarrow> CacheFeatureRegistration \<Rightarrow> bool" where
  "selected_feature settings r =
     (case cs_features settings of None \<Rightarrow> True | Some fs \<Rightarrow> fm_name (rg_metadata r) \<in> set fs)"

fun register_loop ::
    "CacheSettings \<Rightarrow> CacheFeatureRegistration list \<Rightarrow> (protocol, implementation) dict
     \<Rightarrow> (string, CacheFeatureMetadata) dict
     \<Rightarrow> ((protocol, implementation) dict \<times> (string, CacheFeatureMetadata) dict) result" where
  "register_loop settings [] impls metas = Inr (impls, metas)"
| "register_loop settings (r # rs) impls metas =
     (if \<not> selected_feature settings r then register_loop settings rs impls metas
      else if dict_get impls (rg_protocol r) \<noteq> None then Inl ConfigurationError
      else if dict_get metas (fm_name (rg_metadata r)) \<noteq> None then Inl ConfigurationError
      else case implementation_matches r of
          Inl _ \<Rightarrow> Inl ConfigurationError
        | Inr b \<Rightarrow>
            if \<not> b then Inl ConfigurationError
            else register_loop settings rs
              (dict_set (rg_protocol r) (rg_implementation r) impls)
              (dict_set (fm_name (rg_metadata r)) (rg_metadata r) metas))"

definition registered_features ::
    "CacheSettings \<Rightarrow> CacheFeatureRegistration list
     \<Rightarrow> ((protocol, implementation) dict \<times> CacheFeatureMetadata list) result" where
  "registered_features settings regs =
     res_bind (register_loop settings regs [] []) (\<lambda>(impls, metas).
       if (case cs_features settings of None \<Rightarrow> False
           | Some fs \<Rightarrow> list_ex (\<lambda>f. f \<notin> set (dict_keys metas)) fs)
       then Inl ConfigurationError
       else Inr (impls, map (\<lambda>name. the (dict_get metas name)) (sort (dict_keys metas))))"

section \<open>The named caches\<close>

definition cache_name_match :: "string \<Rightarrow> bool" where
  "cache_name_match s =
     (case s of [] \<Rightarrow> False
      | c # cs \<Rightarrow> is_lower c \<and> list_all (\<lambda>d. is_lower d \<or> is_digit d \<or> d = CHR ''_'') cs)"

definition to_cache_name :: "pyobj \<Rightarrow> bool \<Rightarrow> string result" where
  "to_cache_name v nested =
     (case v of
        PyStr s \<Rightarrow>
          if s \<noteq> py_strip s then Inl ValueError
          else if nested \<and> s = ''default'' then Inl ValueError
          else if \<not> cache_name_match s then Inl ValueError
          else Inr s
      | _ \<Rightarrow> Inl ValueError)"

record CacheConfigurationDiagnostic =
  cd_name :: string
  cd_backend :: string
  cd_partition :: string
  cd_features :: "string list"
  cd_health :: string

record 'w DefaultCachesCapability =
  dc_instances :: "(string, CacheInstance) dict"
  dc_closers :: "'w closer list"
  dc_closed :: bool

definition caches_require :: "pyobj \<Rightarrow> 'w DefaultCachesCapability \<Rightarrow> CacheInstance result" where
  "caches_require name cap =
     (case to_cache_name name False of
        Inl _ \<Rightarrow> Inl CacheNotFoundError
      | Inr requested \<Rightarrow> (case dict_get (dc_instances cap) requested of
          Some inst \<Rightarrow> Inr inst | None \<Rightarrow> Inl CacheNotFoundError))"

definition caches_optional :: "pyobj \<Rightarrow> 'w DefaultCachesCapability \<Rightarrow> CacheInstance option" where
  "caches_optional name cap =
     (case to_cache_name name False of
        Inl _ \<Rightarrow> None | Inr requested \<Rightarrow> dict_get (dc_instances cap) requested)"

definition diagnostics :: "'w DefaultCachesCapability \<Rightarrow> CacheConfigurationDiagnostic list" where
  "diagnostics cap =
     map (\<lambda>inst. \<lparr>cd_name = ci_name inst, cd_backend = ci_backend inst, cd_partition = ci_partition inst,
           cd_features = ci_features inst, cd_health = ''ready''\<rparr>) (dict_values (dc_instances cap))"

text \<open>\<open>tracked_close\<close>: the world is paired with the set of indices that are done.\<close>

definition tracked_close :: "nat \<Rightarrow> 'w closer \<Rightarrow> ('w \<times> nat set) closer" where
  "tracked_close index close = (\<lambda>(w, completed).
     case close w of
       (Inl e, w') \<Rightarrow> (Inl e, (w', completed))
     | (Inr _, w') \<Rightarrow> (Inr (), (w', insert index completed)))"

definition remaining_closers :: "'w closer list \<Rightarrow> nat set \<Rightarrow> 'w closer list" where
  "remaining_closers closers completed =
     map snd (filter (\<lambda>(index, close). index \<notin> completed) (enumerate 0 closers))"

definition close_caches :: "'w DefaultCachesCapability \<Rightarrow> 'w \<Rightarrow> unit result \<times> 'w DefaultCachesCapability \<times> 'w" where
  "close_caches cap w =
     (if dc_closed cap then (Inr (), cap, w)
      else
        case close_all (map (\<lambda>(index, close). tracked_close index close)
               (rev (enumerate 0 (dc_closers cap)))) (w, {}) of
          (r, (w', completed)) \<Rightarrow>
            let left = remaining_closers (dc_closers cap) completed;
                cap' = cap\<lparr>dc_closers := left, dc_closed := (left = [])\<rparr>
            in (case r of
                  Inl e \<Rightarrow> (Inl e, cap', w')
                | Inr errors \<Rightarrow>
                    (if errors \<noteq> [] then Inl (ExceptionGroup errors) else Inr (), cap', w')))"

section \<open>Construction\<close>

text \<open>A closer of a backend comes with its identity.\<close>

record 'w CacheBackend =
  cb_values_provided :: bool
  cb_close :: "(nat \<times> 'w closer) option"
  cb_lifecycle_owner :: "nat option"
  cb_features :: "CacheFeatureRegistration list"

type_synonym 'w factory = "CacheSettings \<Rightarrow> ('w, 'w CacheBackend) pyop"

definition register_backend_closer ::
    "'w CacheBackend \<Rightarrow> nat list \<Rightarrow> 'w closer list \<Rightarrow> nat list \<times> 'w closer list" where
  "register_backend_closer backend owners closers =
     (case cb_close backend of
        None \<Rightarrow> (owners, closers)
      | Some (close_id, close) \<Rightarrow>
          let owner = (case cb_lifecycle_owner backend of Some i \<Rightarrow> i | None \<Rightarrow> close_id)
          in if owner \<in> set owners then (owners, closers) else (owners @ [owner], closers @ [close]))"

text \<open>The factory of an instance. \<open>None\<close> for \<open>factories\<close> means the default ones, with the Redis
  factory applied to the resolved URL.\<close>

definition instance_factory ::
    "(string, 'w factory) dict option \<Rightarrow> (string, 'w factory) dict \<Rightarrow> (string option \<Rightarrow> 'w factory)
     \<Rightarrow> (string, string) dict option \<Rightarrow> CacheSettings \<Rightarrow> 'w factory result" where
  "instance_factory factories defaults redis redis_urls settings =
     (if cs_backend settings = ''redis'' \<and> cs_requires_secret_resolution settings
         \<and> (case redis_urls of None \<Rightarrow> True | Some urls \<Rightarrow> dict_get urls (cs_name settings) = None)
      then Inl ConfigurationError
      else if factories = None \<and> cs_backend settings = ''redis''
      then Inr (redis (case redis_urls of None \<Rightarrow> None | Some urls \<Rightarrow> dict_get urls (cs_name settings)))
      else case dict_get (case factories of None \<Rightarrow> defaults | Some fs \<Rightarrow> fs) (cs_backend settings) of
          Some f \<Rightarrow> Inr f | None \<Rightarrow> Inl ConfigurationError)"

definition wrap_factory_error :: "exn \<Rightarrow> exn" where
  "wrap_factory_error e = (if e = ConfigurationError \<or> e = ValueError then ConfigurationError else e)"

definition build_instance :: "CacheSettings \<Rightarrow> 'w CacheBackend \<Rightarrow> CacheInstance result" where
  "build_instance settings backend =
     (if \<not> cb_values_provided backend then Inl ConfigurationError
      else res_bind (registered_features settings (cb_features backend)) (\<lambda>(impls, metadata).
        make_CacheInstance \<lparr>ci_name = cs_name settings, ci_backend = cs_backend settings,
          ci_partition = cs_partition settings, ci_features = map fm_name metadata,
          ci_feature_metadata = metadata, ci_feature_implementations = impls\<rparr>))"

text \<open>The loop of \<open>build_caches\<close>: the instances and closers it has when it ends or an exception
  leaves it.\<close>

fun build_loop ::
    "(CacheSettings \<Rightarrow> 'w factory result) \<Rightarrow> CacheSettings list \<Rightarrow> (string, CacheInstance) dict
     \<Rightarrow> nat list \<Rightarrow> 'w closer list \<Rightarrow> 'w
     \<Rightarrow> (exn option \<times> (string, CacheInstance) dict \<times> 'w closer list) \<times> 'w" where
  "build_loop pick [] instances owners closers w = ((None, instances, closers), w)"
| "build_loop pick (settings # rest) instances owners closers w =
     (case pick settings of
        Inl e \<Rightarrow> ((Some e, instances, closers), w)
      | Inr f \<Rightarrow> (case f settings w of
          (Inl e, w') \<Rightarrow> ((Some (wrap_factory_error e), instances, closers), w')
        | (Inr backend, w') \<Rightarrow>
            (case register_backend_closer backend owners closers of
              (owners', closers') \<Rightarrow>
                (case build_instance settings backend of
                  Inl e \<Rightarrow> ((Some e, instances, closers'), w')
                | Inr inst \<Rightarrow>
                    build_loop pick rest (dict_set (cs_name settings) inst instances) owners' closers' w'))))"

definition build_caches ::
    "CacheSettings list \<Rightarrow> (string, 'w factory) dict option \<Rightarrow> (string, 'w factory) dict
     \<Rightarrow> (string option \<Rightarrow> 'w factory) \<Rightarrow> (string, string) dict option
     \<Rightarrow> ('w, 'w DefaultCachesCapability) pyop" where
  "build_caches settings factories defaults redis redis_urls w =
     (case build_loop (instance_factory factories defaults redis redis_urls) settings [] [] [] w of
        ((None, instances, closers), w') \<Rightarrow>
          (Inr \<lparr>dc_instances = instances, dc_closers = closers, dc_closed = False\<rparr>, w')
      | ((Some startup_error, instances, closers), w') \<Rightarrow>
          py_bind (close_all (rev closers) w') (\<lambda>errors w''.
            (if errors \<noteq> [] then Inl (ExceptionGroup (startup_error # errors)) else Inl startup_error, w'')))"

section \<open>Shutting down\<close>

text \<open>Closers that leave a trace: the closer \<open>i\<close> appends its number to the trace; how its \<open>k\<close>-th call
  ends is up to \<open>outcome i k\<close>.\<close>

definition logged :: "(nat \<Rightarrow> nat \<Rightarrow> unit result) \<Rightarrow> nat \<Rightarrow> nat list closer" where
  "logged outcome i w = (outcome i (count_list w i), w @ [i])"

definition ends_well :: "(nat \<Rightarrow> nat \<Rightarrow> unit result) \<Rightarrow> nat list \<Rightarrow> nat \<Rightarrow> bool" where
  "ends_well outcome w i \<longleftrightarrow> outcome i (count_list w i) = Inr ()"

lemma close_loop_logged:
  assumes "distinct (map snd ps)"
  shows "\<exists>errors' cancelled'. close_loop (map (\<lambda>(n, i). tracked_close n (logged outcome i)) ps) errors cancelled (w, done)
      = ((errors', cancelled'), (w @ map snd ps, done \<union> fst ` {p \<in> set ps. ends_well outcome w (snd p)}))
    \<and> (errors' = [] \<and> \<not> cancelled' \<longleftrightarrow>
        errors = [] \<and> \<not> cancelled \<and> (\<forall>p \<in> set ps. ends_well outcome w (snd p)))"
  using assms
proof (induction ps arbitrary: errors cancelled w "done")
  case (Cons p ps)
  obtain n i where p: "p = (n, i)" by fastforce
  have i: "i \<notin> snd ` set ps" using Cons.prems p by auto
  have same: "ends_well outcome (w @ [i]) (snd q) = ends_well outcome w (snd q)" if "q \<in> set ps" for q
    using i that by (auto simp: ends_well_def)
  then have sets: "{q \<in> set ps. ends_well outcome (w @ [i]) (snd q)} = {q \<in> set ps. ends_well outcome w (snd q)}"
    and all: "(\<forall>q \<in> set ps. ends_well outcome (w @ [i]) (snd q)) \<longleftrightarrow> (\<forall>q \<in> set ps. ends_well outcome w (snd q))"
    by auto
  note IH = Cons.IH [where w = "w @ [i]", unfolded sets all]
  have good: "{q \<in> set (p # ps). ends_well outcome w (snd q)} =
      (if ends_well outcome w i then insert p {q \<in> set ps. ends_well outcome w (snd q)}
       else {q \<in> set ps. ends_well outcome w (snd q)})"
    by (auto simp: p)
  have d: "distinct (map snd ps)" using Cons.prems by simp
  show ?case
  proof (cases "outcome i (count_list w i)")
    case (Inl e)
    then have bad: "\<not> ends_well outcome w i"
      and step: "tracked_close n (logged outcome i) (w, done) = (Inl e, (w @ [i], done))"
      by (simp_all add: ends_well_def tracked_close_def logged_def)
    show ?thesis
      unfolding good using IH [OF d, of errors True "done"] IH [OF d, of "errors @ [e]" cancelled "done"]
      by (cases "e = CancelledError") (auto simp: p step bad)
  next
    case (Inr u)
    then have well: "ends_well outcome w i"
      and step: "tracked_close n (logged outcome i) (w, done) = (Inr (), (w @ [i], insert n done))"
      by (simp_all add: ends_well_def tracked_close_def logged_def)
    show ?thesis
      unfolding good using IH [OF d, of errors cancelled "insert n done"] by (auto simp: p step well)
  qed
qed auto

lemma remaining_logged:
  "remaining_closers (map f ids) (fst ` {p \<in> set (enumerate 0 ids). P (snd p)}) = map f (filter (\<lambda>i. \<not> P i) ids)"
proof -
  have "fst q \<in> fst ` {p \<in> set (enumerate n ids). P (snd p)} \<longleftrightarrow> P (snd q)" if "q \<in> set (enumerate n ids)" for q n
    using that by (auto simp: in_set_enumerate_eq)
  then have eq: "filter (\<lambda>q. fst q \<notin> fst ` {p \<in> set (enumerate 0 ids). P (snd p)}) (enumerate 0 ids)
      = filter (\<lambda>q. \<not> P (snd q)) (enumerate 0 ids)"
    by (intro filter_cong) auto
  have "enumerate 0 (map f ids) = map (\<lambda>q. (fst q, f (snd q))) (enumerate 0 ids)"
    by (simp add: enumerate_map_upt zip_map2 enumerate_eq_zip split_beta)
  then have "remaining_closers (map f ids) (fst ` {p \<in> set (enumerate 0 ids). P (snd p)})
      = map (\<lambda>q. f (snd q)) (filter (\<lambda>q. \<not> P (snd q)) (enumerate 0 ids))"
    by (simp add: remaining_closers_def filter_map split_beta o_def eq)
  also have "\<dots> = map f (map snd (filter (\<lambda>q. \<not> P (snd q)) (enumerate 0 ids)))"
    by simp
  also have "map snd (filter (\<lambda>q. \<not> P (snd q)) (enumerate 0 ids)) = filter (\<lambda>i. \<not> P i) (map snd (enumerate 0 ids))"
    by (simp only: filter_map o_def)
  finally show ?thesis by simp
qed

lemma close_caches_logged:
  assumes "dc_closers cap = map (logged outcome) ids" and "distinct ids" and "\<not> dc_closed cap"
  shows "snd (close_caches cap w) =
      (cap\<lparr>dc_closers := map (logged outcome) (filter (\<lambda>i. \<not> ends_well outcome w i) ids),
           dc_closed := (\<forall>i \<in> set ids. ends_well outcome w i)\<rparr>, w @ rev ids)"
    and "fst (close_caches cap w) = Inr () \<longleftrightarrow> (\<forall>i \<in> set ids. ends_well outcome w i)"
proof -
  let ?ps = "rev (enumerate 0 ids)"
  have ps: "map (\<lambda>(n, c). tracked_close n c) (rev (enumerate 0 (map (logged outcome) ids)))
      = map (\<lambda>(n, i). tracked_close n (logged outcome i)) ?ps"
    by (simp add: rev_map [symmetric] enumerate_eq_zip zip_map2 split_beta o_def)
  have "distinct (map snd ?ps)" using assms(2) by (simp add: rev_map [symmetric])
  then obtain errors' cancelled' where loop:
    "close_loop (map (\<lambda>(n, i). tracked_close n (logged outcome i)) ?ps) [] False (w, {})
      = ((errors', cancelled'), (w @ rev ids, fst ` {p \<in> set (enumerate 0 ids). ends_well outcome w (snd p)}))"
    and ok: "errors' = [] \<and> \<not> cancelled' \<longleftrightarrow> (\<forall>p \<in> set (enumerate 0 ids). ends_well outcome w (snd p))"
    using close_loop_logged [of ?ps outcome "[]" False w "{}"] by (auto simp: rev_map [symmetric])
  have all: "(\<forall>p \<in> set (enumerate 0 ids). ends_well outcome w (snd p)) \<longleftrightarrow> (\<forall>i \<in> set ids. ends_well outcome w i)"
    by (metis (no_types, lifting) image_iff list.set_map map_snd_enumerate)
  show "snd (close_caches cap w) =
      (cap\<lparr>dc_closers := map (logged outcome) (filter (\<lambda>i. \<not> ends_well outcome w i) ids),
           dc_closed := (\<forall>i \<in> set ids. ends_well outcome w i)\<rparr>, w @ rev ids)"
    using assms(3) by (auto simp: close_caches_def close_all_def assms(1) ps loop remaining_logged Let_def filter_empty_conv)
  show "fst (close_caches cap w) = Inr () \<longleftrightarrow> (\<forall>i \<in> set ids. ends_well outcome w i)"
    using assms(3) ok all by (auto simp: close_caches_def close_all_def assms(1) ps loop Let_def)
qed

text \<open>Any number of shutdowns, one after the other.\<close>

definition shutdowns :: "nat \<Rightarrow> 'w DefaultCachesCapability \<times> 'w \<Rightarrow> 'w DefaultCachesCapability \<times> 'w" where
  "shutdowns n = run (\<lambda>_ (cap, w). snd (close_caches cap w)) (replicate n ())"

definition succeeded :: "(nat \<Rightarrow> nat \<Rightarrow> unit result) \<Rightarrow> nat list \<Rightarrow> nat \<Rightarrow> bool" where
  "succeeded outcome w i \<longleftrightarrow> (\<exists>k < count_list w i. outcome i k = Inr ())"

definition shutdown_inv ::
    "(nat \<Rightarrow> nat \<Rightarrow> unit result) \<Rightarrow> nat list \<Rightarrow> nat \<Rightarrow> nat list DefaultCachesCapability \<times> nat list \<Rightarrow> bool" where
  "shutdown_inv outcome ids n = (\<lambda>(cap, w).
     dc_closers cap = map (logged outcome) (filter (\<lambda>i. \<not> succeeded outcome w i) ids)
     \<and> (dc_closed cap \<longleftrightarrow> 0 < n \<and> (\<forall>i \<in> set ids. succeeded outcome w i))
     \<and> (\<forall>i \<in> set ids. (\<forall>k. Suc k < count_list w i \<longrightarrow> outcome i k \<noteq> Inr ())
          \<and> (\<not> succeeded outcome w i \<longrightarrow> count_list w i = n)))"

lemma count_list_rev_filter:
  "distinct ids \<Longrightarrow> count_list (w @ rev (filter P ids)) i = count_list w i + (if i \<in> set ids \<and> P i then 1 else 0)"
  by (induction ids) auto

lemma shutdown_step:
  assumes "shutdown_inv outcome ids n (cap, w)" and "distinct ids"
  shows "shutdown_inv outcome ids (Suc n) (snd (close_caches cap w))"
proof (cases "dc_closed cap")
  case True
  then show ?thesis using assms(1) by (auto simp: shutdown_inv_def close_caches_def)
next
  case False
  let ?rem = "filter (\<lambda>i. \<not> succeeded outcome w i) ids"
  let ?w = "w @ rev ?rem"
  have count: "count_list ?w i = count_list w i + (if i \<in> set ids \<and> \<not> succeeded outcome w i then 1 else 0)" for i
    by (rule count_list_rev_filter [OF assms(2)])
  have succ: "succeeded outcome ?w i \<longleftrightarrow> succeeded outcome w i \<or> ends_well outcome w i" if "i \<in> set ids" for i
  proof (cases "succeeded outcome w i")
    case True
    then have "count_list ?w i = count_list w i" using count by simp
    then show ?thesis using True by (simp add: succeeded_def del: count_list_append)
  next
    case False
    then have "count_list ?w i = Suc (count_list w i)" using count that by simp
    then have "succeeded outcome ?w i \<longleftrightarrow> (\<exists>k < Suc (count_list w i). outcome i k = Inr ())"
      by (simp only: succeeded_def)
    then show ?thesis by (auto simp: less_Suc_eq ends_well_def succeeded_def)
  qed
  have filt: "filter (\<lambda>i. \<not> ends_well outcome w i) ?rem = filter (\<lambda>i. \<not> succeeded outcome ?w i) ids"
    using succ by (auto intro!: filter_cong)
  have all: "(\<forall>i \<in> set ?rem. ends_well outcome w i) \<longleftrightarrow> (\<forall>i \<in> set ids. succeeded outcome ?w i)"
    using succ by auto
  have "snd (close_caches cap w) =
      (cap\<lparr>dc_closers := map (logged outcome) (filter (\<lambda>i. \<not> ends_well outcome w i) ?rem),
           dc_closed := (\<forall>i \<in> set ?rem. ends_well outcome w i)\<rparr>, ?w)"
    by (rule close_caches_logged) (use assms False in \<open>auto simp: shutdown_inv_def\<close>)
  then have eq: "snd (close_caches cap w) =
      (cap\<lparr>dc_closers := map (logged outcome) (filter (\<lambda>i. \<not> succeeded outcome ?w i) ids),
           dc_closed := (\<forall>i \<in> set ids. succeeded outcome ?w i)\<rparr>, ?w)"
    unfolding filt using all by simp
  have "(\<forall>k. Suc k < count_list ?w i \<longrightarrow> outcome i k \<noteq> Inr ())
      \<and> (\<not> succeeded outcome ?w i \<longrightarrow> count_list ?w i = Suc n)" if i: "i \<in> set ids" for i
  proof (cases "succeeded outcome w i")
    case True
    then show ?thesis using assms(1) i succ [OF i] by (auto simp: shutdown_inv_def count)
  next
    case False
    then have "count_list w i = n" and "\<forall>k < n. outcome i k \<noteq> Inr ()"
      using assms(1) i by (auto simp: shutdown_inv_def succeeded_def)
    moreover from this have "count_list ?w i = Suc n" using count [of i] False i by simp
    ultimately show ?thesis by (simp del: count_list_append)
  qed
  then show ?thesis by (simp add: eq shutdown_inv_def)
qed

lemma shutdowns_inv:
  assumes "distinct ids" and "dc_closers cap = map (logged outcome) ids" and "\<not> dc_closed cap"
  shows "shutdown_inv outcome ids n (shutdowns n (cap, []))"
proof (induction n)
  case 0
  then show ?case using assms by (simp add: shutdowns_def shutdown_inv_def succeeded_def)
next
  case (Suc n)
  obtain cap' w where s: "shutdowns n (cap, []) = (cap', w)" by fastforce
  have "replicate (Suc n) () = replicate n () @ [()]" by (simp add: replicate_append_same)
  then have "shutdowns (Suc n) (cap, []) = snd (close_caches cap' w)"
    using s by (simp add: shutdowns_def)
  then show ?case using shutdown_step [OF _ assms(1)] Suc.IH s by simp
qed

text \<open>All closers run, whatever the others do.\<close>

lemma close_loop_world: "snd (close_loop cs errors cancelled w) = fold (\<lambda>close w. snd (close w)) cs w"
  by (induction cs errors cancelled w rule: close_loop.induct) (auto split: prod.splits sum.splits)

lemma close_all_world: "snd (close_all cs w) = fold (\<lambda>close w. snd (close w)) cs w"
  using close_loop_world [of cs "[]" False w] by (auto simp: close_all_def split: prod.splits)

lemma build_caches_cleanup:
  assumes "build_loop (instance_factory factories defaults redis urls) settings [] [] [] w = ((Some e, instances, closers), w')"
  shows "isl (fst (build_caches settings factories defaults redis urls w))"
    and "snd (build_caches settings factories defaults redis urls w) = fold (\<lambda>close w. snd (close w)) (rev closers) w'"
  using close_all_world [of "rev closers" w'] assms
  by (cases "close_all (rev closers) w'"; cases "fst (close_all (rev closers) w')";
      auto simp: build_caches_def py_bind_def split: prod.splits)+

section \<open>What is registered\<close>

lemma register_loop_exact:
  assumes "register_loop settings rs impls metas = Inr (impls', metas')"
    and "distinct (dict_keys metas)" and "\<forall>(n, m) \<in> set metas. n = fm_name m"
  shows "distinct (dict_keys metas') \<and> (\<forall>(n, m) \<in> set metas'. n = fm_name m)
    \<and> snd ` set metas' = snd ` set metas \<union> rg_metadata ` {r \<in> set rs. selected_feature settings r}
    \<and> (\<forall>p im. dict_get impls' p = Some im \<longleftrightarrow> dict_get impls p = Some im
          \<or> (\<exists>r \<in> set rs. selected_feature settings r \<and> rg_protocol r = p \<and> rg_implementation r = im))
    \<and> (\<forall>r \<in> set rs. selected_feature settings r \<longrightarrow> implementation_matches r = Inr True)"
  using assms
proof (induction settings rs impls metas rule: register_loop.induct)
  case (2 settings r rs impls metas)
  show ?case
  proof (cases "selected_feature settings r")
    case False
    then show ?thesis using 2 by auto
  next
    case True
    let ?p = "rg_protocol r" and ?n = "fm_name (rg_metadata r)"
    have free: "dict_get impls ?p = None" "dict_get metas ?n = None"
      and ok: "implementation_matches r = Inr True"
      and rest: "register_loop settings rs (dict_set ?p (rg_implementation r) impls)
        (dict_set ?n (rg_metadata r) metas) = Inr (impls', metas')"
      using 2(3) True by (auto split: if_splits sum.splits)
    let ?impls = "dict_set ?p (rg_implementation r) impls" and ?metas = "dict_set ?n (rg_metadata r) metas"
    have metas: "set ?metas = insert (?n, rg_metadata r) (set metas)"
      using free by (simp add: dict_set_new)
    have IH: "distinct (dict_keys metas') \<and> (\<forall>(n, m) \<in> set metas'. n = fm_name m)
      \<and> snd ` set metas' = snd ` set ?metas \<union> rg_metadata ` {r \<in> set rs. selected_feature settings r}
      \<and> (\<forall>p im. dict_get impls' p = Some im \<longleftrightarrow> dict_get ?impls p = Some im
            \<or> (\<exists>r \<in> set rs. selected_feature settings r \<and> rg_protocol r = p \<and> rg_implementation r = im))
      \<and> (\<forall>r \<in> set rs. selected_feature settings r \<longrightarrow> implementation_matches r = Inr True)"
      by (rule 2(2) [OF _ _ _ ok _ rest]) (use True free ok 2(4,5) metas in auto)
    then show ?thesis using True ok free metas by auto
  qed
qed auto

lemma registered_features_set:
  assumes "registered_features settings regs = Inr (impls, metas)"
  shows "sorted (map fm_name metas) \<and> distinct (map fm_name metas)"
    and "set metas = rg_metadata ` {r \<in> set regs. selected_feature settings r}"
    and "dict_get impls p = Some im \<longleftrightarrow>
      (\<exists>r \<in> set regs. selected_feature settings r \<and> rg_protocol r = p \<and> rg_implementation r = im)"
    and "r \<in> set regs \<Longrightarrow> selected_feature settings r \<Longrightarrow> implementation_matches r = Inr True"
    and "cs_features settings = Some fs \<Longrightarrow> set fs \<subseteq> fm_name ` set metas"
proof -
  obtain ms where loop: "register_loop settings regs [] [] = Inr (impls, ms)"
    and metas: "metas = map (\<lambda>name. the (dict_get ms name)) (sort (dict_keys ms))"
    and known: "\<forall>fs. cs_features settings = Some fs \<longrightarrow> set fs \<subseteq> set (dict_keys ms)"
    using assms by (force simp: registered_features_def list_ex_iff split: if_splits option.splits)
  note exact = register_loop_exact [OF loop]
  have dist: "distinct (dict_keys ms)" and name: "\<And>n m. (n, m) \<in> set ms \<Longrightarrow> n = fm_name m"
    using exact by auto
  have get: "(n, the (dict_get ms n)) \<in> set ms" if "n \<in> set (dict_keys ms)" for n
    using that dist by force
  have names: "map fm_name metas = sort (dict_keys ms)"
    unfolding metas map_map by (rule map_idI) (use name [OF get] in simp)
  show "sorted (map fm_name metas) \<and> distinct (map fm_name metas)"
    unfolding names using dist by simp
  have "set metas = snd ` set ms"
  proof -
    have "the (dict_get ms (fst q)) = snd q" if "q \<in> set ms" for q
      using that map_of_is_SomeI [OF dist, of "fst q" "snd q"] by simp
    then show ?thesis unfolding metas by (simp add: image_image cong: image_cong)
  qed
  then show "set metas = rg_metadata ` {r \<in> set regs. selected_feature settings r}"
    using exact by simp
  show "dict_get impls p = Some im \<longleftrightarrow>
      (\<exists>r \<in> set regs. selected_feature settings r \<and> rg_protocol r = p \<and> rg_implementation r = im)"
    using exact by simp
  show "r \<in> set regs \<Longrightarrow> selected_feature settings r \<Longrightarrow> implementation_matches r = Inr True"
    using exact by simp
  show "cs_features settings = Some fs \<Longrightarrow> set fs \<subseteq> fm_name ` set metas"
    using known names by (metis list.set_map set_sort)
qed

lemma register_loop_ok:
  assumes "distinct (map rg_protocol rs)" and "distinct (map (\<lambda>r. fm_name (rg_metadata r)) rs)"
    and "\<forall>r \<in> set rs. implementation_matches r = Inr True"
    and "\<forall>r \<in> set rs. dict_get impls (rg_protocol r) = None \<and> dict_get metas (fm_name (rg_metadata r)) = None"
  shows "\<exists>impls' metas'. register_loop settings rs impls metas = Inr (impls', metas')"
  using assms
proof (induction rs arbitrary: impls metas)
  case (Cons r rs)
  show ?case
  proof (cases "selected_feature settings r")
    case True
    have "\<exists>impls' metas'. register_loop settings rs (dict_set (rg_protocol r) (rg_implementation r) impls)
        (dict_set (fm_name (rg_metadata r)) (rg_metadata r) metas) = Inr (impls', metas')"
      by (rule Cons.IH) (use Cons.prems in \<open>auto simp: image_iff\<close>)
    then show ?thesis using True Cons.prems by auto
  qed (use Cons in auto)
qed simp

text \<open>A backend that registers each protocol and each name once, with implementations that match,
  can be configured for any of its features.\<close>

lemma registered_features_ok:
  assumes "distinct (map rg_protocol regs)" and "distinct (map (\<lambda>r. fm_name (rg_metadata r)) regs)"
    and "\<forall>r \<in> set regs. implementation_matches r = Inr True"
    and "\<And>fs. cs_features settings = Some fs \<Longrightarrow> set fs \<subseteq> (\<lambda>r. fm_name (rg_metadata r)) ` set regs"
  shows "\<exists>impls metas. registered_features settings regs = Inr (impls, metas)"
proof -
  obtain impls ms where loop: "register_loop settings regs [] [] = Inr (impls, ms)"
    using register_loop_ok [OF assms(1-3)] by fastforce
  have exact: "distinct (dict_keys ms) \<and> (\<forall>(n, m) \<in> set ms. n = fm_name m)
    \<and> snd ` set ms = rg_metadata ` {r \<in> set regs. selected_feature settings r}"
    using register_loop_exact [OF loop] by simp
  have "f \<in> set (dict_keys ms)" if fs: "cs_features settings = Some fs" and f: "f \<in> set fs" for fs f
  proof -
    obtain r where r: "r \<in> set regs" and name: "f = fm_name (rg_metadata r)" using assms(4) [OF fs] f by auto
    then have "selected_feature settings r" using fs f by (simp add: selected_feature_def)
    with exact r have "rg_metadata r \<in> snd ` set ms" by simp
    then obtain n where "(n, rg_metadata r) \<in> set ms" by auto
    then show ?thesis using bspec [OF exact [THEN conjunct2, THEN conjunct1]] name by force
  qed
  then show ?thesis by (auto simp: registered_features_def loop list_ex_iff split: option.splits)
qed

text \<open>A backend with two features, for the examples.\<close>

definition demo_guarantees :: CacheFeatureGuarantees where
  "demo_guarantees = \<lparr>fg_scope = ''process'', fg_durable = False, fg_restart_recovery = False,
     fg_horizontal_consumers = False, fg_ordering_scope = None, fg_replay = False, fg_retention = False,
     fg_acknowledgement = False, fg_redelivery = False, fg_scheduling = False\<rparr>"

definition demo_backend :: "'w CacheBackend" where
  "demo_backend = \<lparr>cb_values_provided = True, cb_close = None, cb_lifecycle_owner = None, cb_features =
     [\<lparr>rg_protocol = \<lparr>pr_name = ''L'', pr_runtime_checkable = True\<rparr>,
       rg_implementation = \<lparr>im_id = 1, im_satisfies = [''L'']\<rparr>,
       rg_metadata = \<lparr>fm_name = ''lease'', fm_guarantees = demo_guarantees\<rparr>\<rparr>,
      \<lparr>rg_protocol = \<lparr>pr_name = ''A'', pr_runtime_checkable = True\<rparr>,
       rg_implementation = \<lparr>im_id = 2, im_satisfies = [''A'']\<rparr>,
       rg_metadata = \<lparr>fm_name = ''atomic'', fm_guarantees = demo_guarantees\<rparr>\<rparr>]\<rparr>"

text \<open>The names of an instance are the configured ones.\<close>

lemma build_instance_names:
  assumes "build_instance settings backend = Inr inst"
  shows "set (ci_features inst) = (case cs_features settings of
      None \<Rightarrow> (\<lambda>r. fm_name (rg_metadata r)) ` set (cb_features backend) | Some fs \<Rightarrow> set fs)"
proof -
  obtain impls metas where reg: "registered_features settings (cb_features backend) = Inr (impls, metas)"
    and inst: "ci_features inst = map fm_name metas"
    using assms by (auto simp: build_instance_def make_CacheInstance_def split: if_splits)
  note facts = registered_features_set [OF reg]
  show ?thesis
    unfolding inst list.set_map facts(2) using facts(2,5) by (auto simp: selected_feature_def split: option.splits)
qed

section \<open>Properties of the registry\<close>

text \<open>C35: A cache offers exactly what its configuration selects from its backend. When the instance is
  built, its feature names are sorted, without repetition, and are the configured ones, or all that the
  backend registers when none are configured. A feature is found under a protocol exactly when one of
  the selected registrations carries it, and what is found satisfies the protocol; for every other
  protocol \<open>require\<close> raises.\<close>

theorem registered_features_exact:
  assumes "build_instance settings backend = Inr inst"
  shows "sorted (ci_features inst) \<and> distinct (ci_features inst)
    \<and> set (ci_features inst) = (case cs_features settings of
          None \<Rightarrow> (\<lambda>r. fm_name (rg_metadata r)) ` set (cb_features backend) | Some fs \<Rightarrow> set fs)
    \<and> (\<forall>p im. instance_require inst p = Inr im \<longleftrightarrow>
          (\<exists>r \<in> set (cb_features backend). selected_feature settings r \<and> rg_protocol r = p
             \<and> rg_implementation r = im))
    \<and> (\<forall>p im. instance_require inst p = Inr im \<longrightarrow> pr_name p \<in> set (im_satisfies im))
    \<and> (\<forall>p. (\<forall>im. instance_require inst p \<noteq> Inr im)
          \<longrightarrow> instance_require inst p = Inl CacheFeatureUnavailableError)"
proof -
  obtain impls metas where reg: "registered_features settings (cb_features backend) = Inr (impls, metas)"
    and inst: "ci_features inst = map fm_name metas" "ci_feature_implementations inst = impls"
    using assms by (auto simp: build_instance_def make_CacheInstance_def split: if_splits)
  note facts = registered_features_set [OF reg]
  have found: "instance_require inst p = Inr im \<longleftrightarrow>
      (\<exists>r \<in> set (cb_features backend). selected_feature settings r \<and> rg_protocol r = p \<and> rg_implementation r = im)" for p im
    using facts(3) [of p im] by (auto simp: instance_require_def instance_optional_def inst split: option.splits)
  note names = build_instance_names [OF assms, unfolded inst(1) list.set_map]
  have sat: "pr_name p \<in> set (im_satisfies im)" if req: "instance_require inst p = Inr im" for p im
  proof -
    obtain r where "r \<in> set (cb_features backend)" "selected_feature settings r"
      "rg_protocol r = p" "rg_implementation r = im"
      using iffD1 [OF found req] by blast
    with facts(4) [of r] show ?thesis by (auto simp: implementation_matches_def split: if_splits)
  qed
  have none: "instance_require inst p = Inl CacheFeatureUnavailableError" if "\<forall>im. instance_require inst p \<noteq> Inr im" for p
    using that by (auto simp: instance_require_def split: option.splits)
  show ?thesis
    unfolding inst(1) list.set_map names
    by (intro conjI facts(1) [THEN conjunct1] facts(1) [THEN conjunct2] refl allI;
        (rule found | rule impI, erule sat | rule impI, erule none))
qed

theorem registered_features_exact_witness:
  "\<exists>inst. build_instance \<lparr>cs_name = ''default'', cs_backend = ''memory'', cs_servers = None,
        cs_url = None, cs_namespace = None, cs_features = Some [''lease''], cs_partition = ''process:default'',
        cs_requires_secret_resolution = False\<rparr>
      (demo_backend :: unit CacheBackend) = Inr inst
    \<and> ci_features inst = [''lease'']
    \<and> instance_require inst \<lparr>pr_name = ''L'', pr_runtime_checkable = True\<rparr> = Inr \<lparr>im_id = 1, im_satisfies = [''L'']\<rparr>
    \<and> instance_require inst \<lparr>pr_name = ''A'', pr_runtime_checkable = True\<rparr> = Inl CacheFeatureUnavailableError"
proof -
  let ?s = "\<lparr>cs_name = ''default'', cs_backend = ''memory'', cs_servers = None,
        cs_url = None, cs_namespace = None, cs_features = Some [''lease''], cs_partition = ''process:default'',
        cs_requires_secret_resolution = False\<rparr>"
  have ok: "case build_instance ?s (demo_backend :: unit CacheBackend) of Inl _ \<Rightarrow> False
    | Inr i \<Rightarrow> ci_features i = [''lease'']
      \<and> instance_require i \<lparr>pr_name = ''A'', pr_runtime_checkable = True\<rparr> = Inl CacheFeatureUnavailableError"
    by code_simp
  then obtain inst where inst: "build_instance ?s (demo_backend :: unit CacheBackend) = Inr inst"
    by (auto split: sum.splits)
  have "instance_require inst \<lparr>pr_name = ''L'', pr_runtime_checkable = True\<rparr> = Inr \<lparr>im_id = 1, im_satisfies = [''L'']\<rparr>"
    using registered_features_exact [OF inst] by (simp add: demo_backend_def selected_feature_def)
  then show ?thesis using inst ok by simp
qed

text \<open>C40: Shutting down never closes a backend twice and never gives up on one. Let there be any
  number of shutdowns and let each closer fail as often as it likes. No closer is called again after
  it has succeeded; a closer that has not succeeded has been called in every shutdown, whatever the
  other closers did; and the capability counts as closed exactly when all have succeeded.\<close>

theorem shutdown_retries_only_failures:
  assumes "distinct ids" and "dc_closers cap = map (logged outcome) ids" and "\<not> dc_closed cap"
    and "shutdowns n (cap, []) = (cap', trace)" and "0 < n"
  shows "(\<forall>i \<in> set ids. \<forall>k. Suc k < count_list trace i \<longrightarrow> outcome i k \<noteq> Inr ())
    \<and> (\<forall>i \<in> set ids. (\<exists>k < count_list trace i. outcome i k = Inr ()) \<or> count_list trace i = n)
    \<and> (dc_closed cap' \<longleftrightarrow> (\<forall>i \<in> set ids. \<exists>k < count_list trace i. outcome i k = Inr ()))"
  using shutdowns_inv [OF assms(1-3), of n] assms(4,5)
  by (auto simp: shutdown_inv_def succeeded_def)

theorem shutdown_retries_only_failures_witness:
  "\<exists>cap trace. shutdowns 2 (\<lparr>dc_instances = [],
        dc_closers = map (logged (\<lambda>i k. if i = 1 \<and> k = 0 then Inl ValueError else Inr ())) [0, 1],
        dc_closed = False\<rparr>, [])
      = (cap, trace)
    \<and> dc_closed cap \<and> trace = [1, 0, 1]
    \<and> (\<forall>i \<in> {0, 1}. \<forall>k. Suc k < count_list trace i \<longrightarrow> (if i = 1 \<and> k = 0 then Inl ValueError else Inr ()) \<noteq> Inr ())"
proof -
  let ?o = "\<lambda>i k :: nat. if i = (1 :: nat) \<and> k = 0 then Inl ValueError else Inr ()"
  let ?cap = "\<lparr>dc_instances = [], dc_closers = map (logged ?o) [0, 1], dc_closed = False\<rparr>"
  obtain cap trace where s: "shutdowns 2 (?cap, []) = (cap, trace)" by fastforce
  have "dc_closed (fst (shutdowns 2 (?cap, []))) \<and> snd (shutdowns 2 (?cap, [])) = [1, 0, 1]" by code_simp
  then show ?thesis
    using shutdown_retries_only_failures [of "[0, 1]" ?cap ?o 2 cap trace] s by auto
qed

end
