(* ===== verification/Cache_Backends.thy ===== *)
theory Cache_Backends
  imports Cache_Registry Atomic_Cache Work_Queue PubSub_Cache Schedule_Cache
begin

text \<open>
  The backends of named caches: the in-memory features put together
  (\<open>src/src/wybra/cache/memory_features.py\<close>, \<open>memory_time.py\<close>) and the three backend factories of
  \<open>registry.py\<close>.

  The in-memory features are the components of the other theories. A clock is known by its identity;
  its readings are arguments of the operations. What the Redis and the NATS runtime do when they are
  checked, started and closed is a parameter: an operation on the world outside. The flags that their
  closers capture live in cells of the world, one for each backend that was made.

  The lemmas show that the in-memory backend offers every feature it is configured for, fenced by its
  own lease cache, and that a backend whose parts fail to close is closed by retrying, part by part.
\<close>

section \<open>Feature metadata\<close>

definition process_local ::
    "string option \<Rightarrow> bool \<Rightarrow> bool \<Rightarrow> bool \<Rightarrow> bool \<Rightarrow> bool \<Rightarrow> CacheFeatureGuarantees result" where
  "process_local ordering_scope replay retention acknowledgement redelivery scheduling =
     make_CacheFeatureGuarantees
       \<lparr>fg_scope = ''process'', fg_durable = False, fg_restart_recovery = False,
        fg_horizontal_consumers = False, fg_ordering_scope = ordering_scope, fg_replay = replay,
        fg_retention = retention, fg_acknowledgement = acknowledgement, fg_redelivery = redelivery,
        fg_scheduling = scheduling\<rparr>"

definition MEMORY_ATOMIC_FEATURE :: "CacheFeatureMetadata result" where
  "MEMORY_ATOMIC_FEATURE = res_bind (process_local (Some ''key'') False False False False False)
     (make_CacheFeatureMetadata (PyStr ''atomic''))"

definition MEMORY_LEASE_FEATURE :: "CacheFeatureMetadata result" where
  "MEMORY_LEASE_FEATURE = res_bind (process_local (Some ''resource'') False False False False False)
     (make_CacheFeatureMetadata (PyStr ''lease''))"

definition MEMORY_TIME_FEATURE :: "CacheFeatureMetadata result" where
  "MEMORY_TIME_FEATURE = res_bind (process_local (Some ''clock'') False False False False False)
     (make_CacheFeatureMetadata (PyStr ''time''))"

definition MEMORY_WORK_QUEUE_FEATURE :: "CacheFeatureMetadata result" where
  "MEMORY_WORK_QUEUE_FEATURE = res_bind (process_local (Some ''queue'') False False True True False)
     (make_CacheFeatureMetadata (PyStr ''work-queue''))"

definition MEMORY_STREAM_FEATURE :: "CacheFeatureMetadata result" where
  "MEMORY_STREAM_FEATURE = res_bind (process_local (Some ''stream'') True True True False False)
     (make_CacheFeatureMetadata (PyStr ''stream''))"

definition MEMORY_PUBSUB_FEATURE :: "CacheFeatureMetadata result" where
  "MEMORY_PUBSUB_FEATURE = res_bind (process_local (Some ''topic'') False False False False False)
     (make_CacheFeatureMetadata (PyStr ''pub-sub''))"

definition MEMORY_SCHEDULE_FEATURE :: "CacheFeatureMetadata result" where
  "MEMORY_SCHEDULE_FEATURE = res_bind (process_local (Some ''due-time'') False False False False True)
     (make_CacheFeatureMetadata (PyStr ''schedule''))"

text \<open>The metadata objects of the module, in the order of \<open>MEMORY_CACHE_FEATURES\<close>; an exception in
  one of them leaves the module.\<close>

definition memory_metadata :: "CacheFeatureMetadata list result" where
  "memory_metadata = all_results
     [MEMORY_ATOMIC_FEATURE, MEMORY_LEASE_FEATURE, MEMORY_TIME_FEATURE, MEMORY_WORK_QUEUE_FEATURE,
      MEMORY_STREAM_FEATURE, MEMORY_PUBSUB_FEATURE, MEMORY_SCHEDULE_FEATURE]"

definition MEMORY_CACHE_FEATURES :: "string set result" where
  "MEMORY_CACHE_FEATURES = res_bind memory_metadata (\<lambda>ms. Inr (set (map fm_name ms)))"

section \<open>Time\<close>

definition cache_time_now :: "pyobj \<Rightarrow> rat result" where
  "cache_time_now reading = validate_finite reading"

section \<open>The in-memory features\<close>

text \<open>\<open>CacheNow\<close> is the bound method \<open>self.time.now\<close>.\<close>

datatype clock_source = TimeTime | CacheNow | OtherClock nat

record InMemoryCacheFeatures =
  mf_atomic :: InMemoryAtomicCache
  mf_atomic_clock :: clock_source
  mf_leases :: InMemoryLeaseCache
  mf_leases_id :: nat
  mf_leases_clock :: clock_source
  mf_work_queue :: InMemoryWorkQueue
  mf_work_queue_clock :: "clock_source option"
  mf_streams :: InMemoryStreamCache
  mf_pubsub :: InMemoryPubSubCache
  mf_schedules :: InMemoryScheduleCache
  mf_schedules_clock :: clock_source
  mf_closed :: bool
  mf_work_queue_closed :: bool
  mf_pubsub_closed :: bool

definition bind_clock :: "clock_source \<Rightarrow> clock_source" where
  "bind_clock clock = (if clock = TimeTime then CacheNow else clock)"

definition features_post_init :: "InMemoryCacheFeatures \<Rightarrow> InMemoryCacheFeatures result" where
  "features_post_init f =
     (let f1 = f\<lparr>mf_atomic_clock := bind_clock (mf_atomic_clock f),
                 mf_leases_clock := bind_clock (mf_leases_clock f),
                 mf_work_queue_clock := map_option bind_clock (mf_work_queue_clock f),
                 mf_schedules_clock := bind_clock (mf_schedules_clock f)\<rparr>
      in case bind_atomic_lease_fence (mf_leases_id f1) (mf_atomic f1) of
           (Inl e, _) \<Rightarrow> Inl e
         | (Inr _, a) \<Rightarrow> (case bind_stream_lease_fence (mf_leases_id f1) (mf_streams f1) of
             (Inl e, _) \<Rightarrow> Inl e
           | (Inr _, m) \<Rightarrow> Inr (f1\<lparr>mf_atomic := a, mf_streams := m\<rparr>)))"

definition DEFAULT_STREAM_RETENTION_COUNT :: int where
  "DEFAULT_STREAM_RETENTION_COUNT = 1000"

definition DEFAULT_STREAM_MAX_CONSUMERS :: int where
  "DEFAULT_STREAM_MAX_CONSUMERS = 10000"

definition DEFAULT_SCHEDULE_MAX_RECORDS :: int where
  "DEFAULT_SCHEDULE_MAX_RECORDS = 10000"

text \<open>\<open>InMemoryCacheFeatures()\<close> with the defaults of the fields and of the components.\<close>

definition new_features :: "nat \<Rightarrow> InMemoryCacheFeatures result" where
  "new_features leases_id =
     res_bind (new_atomic_cache (PyInt 10000)) (\<lambda>a.
     res_bind (new_lease_cache (PyInt 10000)) (\<lambda>l.
     res_bind (new_work_queue (PyInt 10000) (PyInt 1000) (PyInt 1000)) (\<lambda>q.
     res_bind (new_stream_cache (PyInt DEFAULT_STREAM_RETENTION_COUNT) (PyInt 1000)
        (PyInt DEFAULT_STREAM_MAX_CONSUMERS)) (\<lambda>m.
     res_bind (new_pubsub_cache (PyInt 1000) (PyInt 1000) (PyInt 10000)) (\<lambda>p.
     res_bind (new_schedule_cache (PyInt DEFAULT_SCHEDULE_MAX_RECORDS)) (\<lambda>d.
       features_post_init
         \<lparr>mf_atomic = a, mf_atomic_clock = TimeTime, mf_leases = l, mf_leases_id = leases_id,
          mf_leases_clock = TimeTime, mf_work_queue = q, mf_work_queue_clock = Some TimeTime,
          mf_streams = m, mf_pubsub = p, mf_schedules = d, mf_schedules_clock = TimeTime,
          mf_closed = False, mf_work_queue_closed = False, mf_pubsub_closed = False\<rparr>))))))"


text \<open>The feature protocols with the members that the runtime check looks for. An in-memory part is
  known by its public members and satisfies the protocols whose members it has.\<close>

definition feature_protocols :: "(string \<times> string list) list" where
  "feature_protocols =
     [(''AtomicCacheCapability'', [''get'', ''create'', ''compare_and_swap'', ''compare_and_delete'', ''increment'']),
      (''LeaseCacheCapability'', [''acquire'', ''renew'', ''release'']),
      (''CacheTimeCapability'', [''refresh'', ''now'']),
      (''WorkQueueCacheCapability'', [''publish'', ''reserve'', ''renew'', ''acknowledge'', ''reject'', ''dead_letter'', ''dead_letters'']),
      (''StreamCacheCapability'', [''append'', ''read'', ''read_consumer'', ''acknowledge'', ''forget_consumer'']),
      (''PubSubCacheCapability'', [''publish'', ''subscribe'']),
      (''ScheduleCacheCapability'', [''maximum_records'', ''create'', ''update'', ''delete'', ''due'', ''claim'', ''complete'',
         ''discard'', ''held'', ''advance'', ''release''])]"

definition feature_protocol :: "string \<Rightarrow> protocol" where
  "feature_protocol name = \<lparr>pr_name = name, pr_runtime_checkable = True\<rparr>"

definition feature_object :: "nat \<Rightarrow> string list \<Rightarrow> implementation" where
  "feature_object i members =
     \<lparr>im_id = i, im_satisfies = map fst (filter (\<lambda>(_, ms). set ms \<subseteq> set members) feature_protocols)\<rparr>"

definition memory_parts :: "(protocol \<times> implementation) list" where
  "memory_parts =
     [(feature_protocol ''AtomicCacheCapability'', feature_object 1
         [''get'', ''create'', ''compare_and_swap'', ''compare_and_delete'', ''increment'', ''bind_lease_fence'']),
      (feature_protocol ''LeaseCacheCapability'', feature_object 2 [''acquire'', ''renew'', ''release'', ''hold_fence'']),
      (feature_protocol ''CacheTimeCapability'', feature_object 3 [''refresh'', ''now'']),
      (feature_protocol ''WorkQueueCacheCapability'', feature_object 4
         [''publish'', ''reserve'', ''acknowledge'', ''renew'', ''reject'', ''dead_letter'', ''dead_letters'', ''close'']),
      (feature_protocol ''StreamCacheCapability'', feature_object 5
         [''append'', ''read'', ''read_consumer'', ''acknowledge'', ''forget_consumer'', ''bind_lease_fence'']),
      (feature_protocol ''PubSubCacheCapability'', feature_object 6 [''publish'', ''subscribe'', ''close'']),
      (feature_protocol ''ScheduleCacheCapability'', feature_object 7
         [''maximum_records'', ''create'', ''update'', ''delete'', ''due'', ''claim'', ''complete'', ''discard'',
          ''advance'', ''held'', ''release''])]"

definition registrations :: "CacheFeatureRegistration list result" where
  "registrations = res_bind memory_metadata (\<lambda>ms.
     Inr (map (\<lambda>((p, im), m). \<lparr>rg_protocol = p, rg_implementation = im, rg_metadata = m\<rparr>)
       (zip memory_parts ms)))"

text \<open>Closing: both parts are tried, each until it has succeeded once.\<close>

definition failures :: "unit result \<Rightarrow> exn list" where
  "failures r = (case r of Inl e \<Rightarrow> [e] | Inr _ \<Rightarrow> [])"

definition features_close ::
    "(InMemoryWorkQueue, unit) pyop \<Rightarrow> (InMemoryPubSubCache, unit) pyop \<Rightarrow> InMemoryCacheFeatures closer" where
  "features_close close_queue close_topics f =
     (if mf_closed f then (Inr (), f)
      else
        let (r1, q) = (if mf_work_queue_closed f then (Inr (), mf_work_queue f) else close_queue (mf_work_queue f));
            (r2, p) = (if mf_pubsub_closed f then (Inr (), mf_pubsub f) else close_topics (mf_pubsub f));
            f' = f\<lparr>mf_work_queue := q, mf_work_queue_closed := (r1 = Inr ()),
                   mf_pubsub := p, mf_pubsub_closed := (r2 = Inr ()),
                   mf_closed := (r1 = Inr () \<and> r2 = Inr ())\<rparr>;
            raised = failures r1 @ failures r2;
            errors = filter (\<lambda>e. e \<noteq> CancelledError) raised
        in (if CancelledError \<in> set raised then Inl CancelledError
            else case errors of [] \<Rightarrow> Inr () | [e] \<Rightarrow> Inl e | _ \<Rightarrow> Inl (ExceptionGroup errors), f'))"

definition memory_close :: "InMemoryCacheFeatures closer" where
  "memory_close = features_close (\<lambda>q. (Inr (), close_work_queue q)) (\<lambda>p. (Inr (), close_pubsub p))"

section \<open>Backends\<close>

text \<open>What the backends keep outside the registry: the in-memory features by identity, the flags that
  the closers of the other backends capture, and the world of the servers.\<close>

record 'w backend_world =
  bw_features :: "(nat, InMemoryCacheFeatures) dict"
  bw_flags :: "(nat, bool \<times> bool) dict"
  bw_next :: nat
  bw_outside :: 'w

definition outside :: "('w, 'a) pyop \<Rightarrow> ('w backend_world, 'a) pyop" where
  "outside operation w = (case operation (bw_outside w) of (r, x) \<Rightarrow> (r, w\<lparr>bw_outside := x\<rparr>))"

definition memory_closer :: "nat \<Rightarrow> 'w backend_world closer" where
  "memory_closer i w =
     (case dict_get (bw_features w) i of
        None \<Rightarrow> (Inr (), w)
      | Some f \<Rightarrow> (case memory_close f of (r, f') \<Rightarrow> (r, w\<lparr>bw_features := dict_set i f' (bw_features w)\<rparr>)))"

definition memory_backend :: "'w backend_world factory" where
  "memory_backend settings w =
     (let i = bw_next w
      in case res_bind (new_features i) (\<lambda>f. res_bind registrations (\<lambda>regs. Inr (f, regs))) of
           Inl e \<Rightarrow> (Inl e, w)
         | Inr (f, regs) \<Rightarrow>
             (Inr \<lparr>cb_values_provided = True, cb_close = Some (i, memory_closer i),
                   cb_lifecycle_owner = Some i, cb_features = regs\<rparr>,
              w\<lparr>bw_features := dict_set i f (bw_features w), bw_next := Suc i\<rparr>))"

definition selected_names :: "CacheSettings \<Rightarrow> CacheFeatureRegistration list \<Rightarrow> string set" where
  "selected_names settings regs =
     set (map (\<lambda>r. fm_name (rg_metadata r)) (filter (selected_feature settings) regs))"

definition resolved_namespace :: "CacheSettings \<Rightarrow> string" where
  "resolved_namespace settings =
     (case cs_namespace settings of
        Some n \<Rightarrow> if n \<noteq> [] then n else cs_name settings | None \<Rightarrow> cs_name settings)"

text \<open>The closers read and set their flags: features closed, runtime closed.\<close>

definition flags_of :: "nat \<Rightarrow> 'w backend_world \<Rightarrow> bool \<times> bool" where
  "flags_of i w = (case dict_get (bw_flags w) i of Some b \<Rightarrow> b | None \<Rightarrow> (False, False))"

definition set_flags :: "nat \<Rightarrow> bool \<times> bool \<Rightarrow> 'w backend_world \<Rightarrow> 'w backend_world" where
  "set_flags i b w = w\<lparr>bw_flags := dict_set i b (bw_flags w)\<rparr>"

record 'w redis_runtime =
  rr_health_check :: "'w closer"
  rr_validate_features :: "string set \<Rightarrow> 'w closer"
  rr_close :: "'w closer"
  rr_features_close :: "'w closer"
  rr_registrations :: "CacheFeatureRegistration list"

definition redis_close_runtime :: "'w redis_runtime \<Rightarrow> nat \<Rightarrow> 'w backend_world closer" where
  "redis_close_runtime d i w =
     (if snd (flags_of i w) then (Inr (), w)
      else py_bind (outside (rr_close d) w) (\<lambda>_ w'. (Inr (), set_flags i (fst (flags_of i w'), True) w')))"

definition redis_close :: "'w redis_runtime \<Rightarrow> nat \<Rightarrow> 'w backend_world closer" where
  "redis_close d i w =
     (if fst (flags_of i w) then redis_close_runtime d i w
      else py_bind (outside (rr_features_close d) w) (\<lambda>_ w'.
        redis_close_runtime d i (set_flags i (True, snd (flags_of i w')) w')))"

definition redis_backend ::
    "(string \<Rightarrow> string \<Rightarrow> 'w redis_runtime result) \<Rightarrow> string option \<Rightarrow> 'w backend_world factory" where
  "redis_backend runtime url settings w =
     (if url = None \<and> cs_requires_secret_resolution settings then (Inl ConfigurationError, w)
      else case (case url of Some u \<Rightarrow> if u \<noteq> [] then Some u else cs_url settings | None \<Rightarrow> cs_url settings) of
          None \<Rightarrow> (Inl ConfigurationError, w)
        | Some resolved_url \<Rightarrow>
            checked (runtime resolved_url (resolved_namespace settings)) w (\<lambda>d.
              case py_bind (outside (rr_health_check d) w)
                     (\<lambda>_. outside (rr_validate_features d (selected_names settings (rr_registrations d)))) of
                (Inl startup_error, w1) \<Rightarrow>
                  (case outside (rr_close d) w1 of
                     (Inl cleanup_error, w2) \<Rightarrow> (Inl (ExceptionGroup [startup_error, cleanup_error]), w2)
                   | (Inr _, w2) \<Rightarrow> (Inl startup_error, w2))
              | (Inr _, w1) \<Rightarrow>
                  let i = bw_next w1
                  in (Inr \<lparr>cb_values_provided = True, cb_close = Some (i, redis_close d i),
                          cb_lifecycle_owner = Some i, cb_features = rr_registrations d\<rparr>,
                      set_flags i (False, False) (w1\<lparr>bw_next := Suc i\<rparr>))))"

record 'w nats_runtime =
  nr_health_check :: "bool \<Rightarrow> 'w closer"
  nr_close :: "'w closer"
  nr_features_start :: "'w closer"
  nr_features_close :: "'w closer"
  nr_registrations :: "CacheFeatureRegistration list"

definition nats_close :: "'w nats_runtime \<Rightarrow> nat \<Rightarrow> 'w backend_world closer" where
  "nats_close d i w =
     (let (r1, w1) = (if fst (flags_of i w) then (Inr (), w) else outside (nr_features_close d) w);
          w1' = set_flags i (r1 = Inr (), snd (flags_of i w1)) w1;
          (r2, w2) = (if snd (flags_of i w1') then (Inr (), w1') else outside (nr_close d) w1');
          w2' = set_flags i (fst (flags_of i w2), r2 = Inr ()) w2;
          errors = failures r1 @ failures r2
      in (if errors \<noteq> [] then Inl (ExceptionGroup errors) else Inr (), w2'))"

definition STARTED_FEATURES :: "string set" where
  "STARTED_FEATURES = {''atomic'', ''lease'', ''schedule'', ''stream'', ''time'', ''work-queue''}"

definition nats_jetstream_backend ::
    "(string list \<Rightarrow> string \<Rightarrow> 'w nats_runtime result) \<Rightarrow> 'w backend_world factory" where
  "nats_jetstream_backend runtime settings w =
     (case cs_servers settings of
        None \<Rightarrow> (Inl ConfigurationError, w)
      | Some [] \<Rightarrow> (Inl ConfigurationError, w)
      | Some servers \<Rightarrow>
          checked (runtime servers (resolved_namespace settings)) w (\<lambda>d.
            let names = selected_names settings (nr_registrations d)
            in case py_bind (outside (nr_health_check d (''schedule'' \<in> names)) w)
                      (\<lambda>_ w1. if names \<inter> STARTED_FEATURES \<noteq> {} then outside (nr_features_start d) w1 else (Inr (), w1)) of
                 (Inl startup_error, w1) \<Rightarrow>
                   (case outside (nr_features_close d) w1 of
                      (r1, w2) \<Rightarrow> (case outside (nr_close d) w2 of
                        (r2, w3) \<Rightarrow>
                          let cleanup_errors = failures r1 @ failures r2
                          in (if cleanup_errors \<noteq> [] then Inl (ExceptionGroup (startup_error # cleanup_errors))
                              else Inl startup_error, w3)))
               | (Inr _, w1) \<Rightarrow>
                   let i = bw_next w1
                   in (Inr \<lparr>cb_values_provided = True, cb_close = Some (i, nats_close d i),
                           cb_lifecycle_owner = Some i, cb_features = nr_registrations d\<rparr>,
                       set_flags i (False, False) (w1\<lparr>bw_next := Suc i\<rparr>))))"

definition DEFAULT_FACTORIES ::
    "(string \<Rightarrow> string \<Rightarrow> 'w redis_runtime result) \<Rightarrow> (string list \<Rightarrow> string \<Rightarrow> 'w nats_runtime result)
     \<Rightarrow> (string, 'w backend_world factory) dict" where
  "DEFAULT_FACTORIES redis nats =
     [(''memory'', memory_backend), (''nats-jetstream'', nats_jetstream_backend nats),
      (''redis'', redis_backend redis None)]"

section \<open>The in-memory backend\<close>

lemma registrations_table:
  "\<exists>regs. registrations = Inr regs
     \<and> map rg_protocol regs = map (\<lambda>p. feature_protocol (fst p)) feature_protocols
     \<and> map (\<lambda>r. fm_name (rg_metadata r)) regs =
         [''atomic'', ''lease'', ''time'', ''work-queue'', ''stream'', ''pub-sub'', ''schedule'']
     \<and> list_all (\<lambda>r. implementation_matches r = Inr True) regs"
proof -
  have "case registrations of Inl _ \<Rightarrow> False | Inr regs \<Rightarrow>
      map rg_protocol regs = map (\<lambda>p. feature_protocol (fst p)) feature_protocols
     \<and> map (\<lambda>r. fm_name (rg_metadata r)) regs =
         [''atomic'', ''lease'', ''time'', ''work-queue'', ''stream'', ''pub-sub'', ''schedule'']
     \<and> list_all (\<lambda>r. implementation_matches r = Inr True) regs"
    by code_simp
  then show ?thesis by (auto split: sum.splits)
qed

lemma new_features_bound:
  "\<exists>f. new_features i = Inr f \<and> mf_leases_id f = i \<and> \<not> mf_closed f
     \<and> \<not> mf_work_queue_closed f \<and> \<not> mf_pubsub_closed f
     \<and> atomic_lease_cache (mf_atomic f) = Some i \<and> sm_lease_cache (mf_streams f) = Some i
     \<and> mf_atomic_clock f = CacheNow \<and> mf_leases_clock f = CacheNow
     \<and> mf_work_queue_clock f = Some CacheNow \<and> mf_schedules_clock f = CacheNow"
  by (simp add: new_features_def features_post_init_def new_atomic_cache_def new_lease_cache_def
      new_work_queue_def new_stream_cache_def new_pubsub_cache_def new_schedule_cache_def
      DEFAULT_STREAM_RETENTION_COUNT_def DEFAULT_STREAM_MAX_CONSUMERS_def DEFAULT_SCHEDULE_MAX_RECORDS_def
      MAX_CACHE_FEATURE_LIMIT_def bind_atomic_lease_fence_def bind_stream_lease_fence_def bind_clock_def Let_def)

lemma pb_closed_close_pubsub: "pb_closed (close_pubsub p)"
proof -
  have "pb_closed (fold mark_closed as q) = pb_closed q" for as q
    by (induction as arbitrary: q) simp_all
  then show ?thesis by (simp add: close_pubsub_def)
qed

lemma memory_close_closes:
  assumes "\<not> mf_closed f" and "\<not> mf_work_queue_closed f" and "\<not> mf_pubsub_closed f"
  shows "fst (memory_close f) = Inr ()" and "wq_closed (mf_work_queue (snd (memory_close f)))"
    and "pb_closed (mf_pubsub (snd (memory_close f)))"
  using assms by (simp_all add: memory_close_def features_close_def failures_def close_work_queue_def
      pb_closed_close_pubsub Let_def)

lemma memory_backend_result:
  assumes "registrations = Inr regs" and "new_features (bw_next w) = Inr f"
  shows "memory_backend settings w =
    (Inr \<lparr>cb_values_provided = True, cb_close = Some (bw_next w, memory_closer (bw_next w)),
          cb_lifecycle_owner = Some (bw_next w), cb_features = regs\<rparr>,
     w\<lparr>bw_features := dict_set (bw_next w) f (bw_features w), bw_next := Suc (bw_next w)\<rparr>)"
  unfolding memory_backend_def assms Let_def by simp

lemma memory_instance:
  assumes "registrations = Inr regs" and "cb_features backend = regs" and "cb_values_provided backend"
    and "\<forall>fs. cs_features settings = Some fs \<longrightarrow> set fs \<subseteq>
      {''atomic'', ''lease'', ''time'', ''work-queue'', ''stream'', ''pub-sub'', ''schedule''}"
  shows "\<exists>inst. build_instance settings backend = Inr inst"
proof -
  have regs: "map rg_protocol regs = map (\<lambda>p. feature_protocol (fst p)) feature_protocols"
      "map (\<lambda>r. fm_name (rg_metadata r)) regs =
         [''atomic'', ''lease'', ''time'', ''work-queue'', ''stream'', ''pub-sub'', ''schedule'']"
      "list_all (\<lambda>r. implementation_matches r = Inr True) regs"
    using registrations_table unfolding assms(1) sum.inject by blast+
  have names: "(\<lambda>r. fm_name (rg_metadata r)) ` set regs =
      {''atomic'', ''lease'', ''time'', ''work-queue'', ''stream'', ''pub-sub'', ''schedule''}"
    using arg_cong [OF regs(2), of set] by simp
  have "distinct (map rg_protocol regs)" and "distinct (map (\<lambda>r. fm_name (rg_metadata r)) regs)"
    unfolding regs by (simp_all add: feature_protocols_def feature_protocol_def)
  moreover have "\<forall>r \<in> set regs. implementation_matches r = Inr True"
    using regs(3) by (simp add: list_all_iff)
  ultimately obtain impls metas where "registered_features settings regs = Inr (impls, metas)"
    using registered_features_ok [of regs settings] assms(4) unfolding names by blast
  then show ?thesis using assms(2,3) by (auto simp: build_instance_def make_CacheInstance_def)
qed

section \<open>Properties of the backends\<close>

text \<open>C39: A memory cache starts with any selection of the seven features, and stops. Built with the
  default factories, it offers exactly the configured features (all of them if none are configured);
  its atomic cache and its streams are fenced by the lease cache of the same backend; and one
  shutdown closes its work queue and its topics without an error.\<close>

theorem memory_backend_offers_configured:
  fixes w :: "'w backend_world"
  assumes "cs_backend settings = ''memory''"
    and "\<forall>fs. cs_features settings = Some fs \<longrightarrow> set fs \<subseteq>
      {''atomic'', ''lease'', ''time'', ''work-queue'', ''stream'', ''pub-sub'', ''schedule''}"
  shows "\<exists>cap w' inst f. build_caches [settings] None (DEFAULT_FACTORIES redis nats) (redis_backend redis) urls w
        = (Inr cap, w')
    \<and> dict_get (dc_instances cap) (cs_name settings) = Some inst
    \<and> set (ci_features inst) = (case cs_features settings of
        None \<Rightarrow> {''atomic'', ''lease'', ''time'', ''work-queue'', ''stream'', ''pub-sub'', ''schedule''}
      | Some fs \<Rightarrow> set fs)
    \<and> dict_get (bw_features w') (bw_next w) = Some f
    \<and> atomic_lease_cache (mf_atomic f) = Some (mf_leases_id f) \<and> sm_lease_cache (mf_streams f) = Some (mf_leases_id f)
    \<and> fst (close_caches cap w') = Inr ()
    \<and> (\<exists>g. dict_get (bw_features (snd (snd (close_caches cap w')))) (bw_next w) = Some g
         \<and> wq_closed (mf_work_queue g) \<and> pb_closed (mf_pubsub g))"
proof -
  obtain regs where regs: "registrations = Inr regs" and
    names: "map (\<lambda>r. fm_name (rg_metadata r)) regs =
      [''atomic'', ''lease'', ''time'', ''work-queue'', ''stream'', ''pub-sub'', ''schedule'']"
    using registrations_table by (elim exE conjE) (rule that)
  obtain f where f: "new_features (bw_next w) = Inr f" and open': "\<not> mf_closed f" "\<not> mf_work_queue_closed f"
      "\<not> mf_pubsub_closed f"
    and fence: "mf_leases_id f = bw_next w" "atomic_lease_cache (mf_atomic f) = Some (bw_next w)"
      "sm_lease_cache (mf_streams f) = Some (bw_next w)"
    using new_features_bound [of "bw_next w"] by (elim exE conjE) (rule that)
  let ?i = "bw_next w"
  let ?b = "\<lparr>cb_values_provided = True, cb_close = Some (?i, memory_closer ?i :: 'w backend_world closer), cb_lifecycle_owner = Some ?i,
      cb_features = regs\<rparr>"
  let ?w = "w\<lparr>bw_features := dict_set ?i f (bw_features w), bw_next := Suc ?i\<rparr>"
  note made = memory_backend_result [OF regs f, of settings]
  obtain inst where inst: "build_instance settings ?b = Inr inst"
    using memory_instance [OF regs, of ?b settings] assms(2) by auto
  let ?cap = "\<lparr>dc_instances = [(cs_name settings, inst)], dc_closers = [memory_closer ?i], dc_closed = False\<rparr>"
  have picked: "instance_factory None (DEFAULT_FACTORIES redis nats) (redis_backend redis) urls settings = Inr memory_backend"
    using assms(1) by (simp add: instance_factory_def DEFAULT_FACTORIES_def)
  have built: "build_caches [settings] None (DEFAULT_FACTORIES redis nats) (redis_backend redis) urls w = (Inr ?cap, ?w)"
    by (simp add: build_caches_def picked made inst register_backend_closer_def)
  have "fm_name ` rg_metadata ` set regs = set (map (\<lambda>r. fm_name (rg_metadata r)) regs)" by (simp add: image_image)
  then have all: "(\<lambda>r. fm_name (rg_metadata r)) ` set regs =
      {''atomic'', ''lease'', ''time'', ''work-queue'', ''stream'', ''pub-sub'', ''schedule''}"
    unfolding names by (simp add: image_image)
  have offered: "set (ci_features inst) = (case cs_features settings of
      None \<Rightarrow> {''atomic'', ''lease'', ''time'', ''work-queue'', ''stream'', ''pub-sub'', ''schedule''}
    | Some fs \<Rightarrow> set fs)"
    using build_instance_names [OF inst] unfolding all [symmetric] by (simp split: option.splits)
  have closer: "memory_closer ?i ?w = (fst (memory_close f), ?w\<lparr>bw_features := dict_set ?i (snd (memory_close f)) (bw_features ?w)\<rparr>)"
    by (simp add: memory_closer_def split: prod.split)
  have closed: "fst (close_caches ?cap ?w) = Inr ()
      \<and> bw_features (snd (snd (close_caches ?cap ?w))) = dict_set ?i (snd (memory_close f)) (bw_features ?w)"
    by (simp add: close_caches_def close_all_def tracked_close_def closer memory_close_closes(1) [OF open'] Let_def)
  show ?thesis
    by (intro exI [of _ ?cap] exI [of _ ?w] exI [of _ inst] exI [of _ f])
      (simp add: built offered fence closed memory_close_closes(2,3) [OF open'])
qed

text \<open>An empty world and a memory cache with two features.\<close>

definition demo_settings :: CacheSettings where
  "demo_settings = \<lparr>cs_name = ''default'', cs_backend = ''memory'', cs_servers = None, cs_url = None,
     cs_namespace = None, cs_features = Some [''lease'', ''atomic''], cs_partition = ''process:default'',
     cs_requires_secret_resolution = False\<rparr>"

definition demo_world :: "unit backend_world" where
  "demo_world = \<lparr>bw_features = [], bw_flags = [], bw_next = 0, bw_outside = ()\<rparr>"

theorem memory_backend_offers_configured_witness:
  "\<exists>cap w' inst. build_caches [demo_settings] None
        (DEFAULT_FACTORIES (\<lambda>_ _. Inl ValueError) (\<lambda>_ _. Inl ValueError)) (redis_backend (\<lambda>_ _. Inl ValueError)) None demo_world
      = (Inr cap, w')
    \<and> dict_get (dc_instances cap) ''default'' = Some inst \<and> set (ci_features inst) = {''lease'', ''atomic''}"
proof -
  have s: "cs_backend demo_settings = ''memory''" "cs_name demo_settings = ''default''"
    "cs_features demo_settings = Some [''lease'', ''atomic'']"
    by (simp_all add: demo_settings_def)
  have "\<forall>fs. cs_features demo_settings = Some fs \<longrightarrow> set fs \<subseteq>
      {''atomic'', ''lease'', ''time'', ''work-queue'', ''stream'', ''pub-sub'', ''schedule''}"
    by (simp add: s)
  from memory_backend_offers_configured [OF s(1) this, of "\<lambda>_ _. Inl ValueError" "\<lambda>_ _. Inl ValueError" None demo_world]
  show ?thesis unfolding s by (elim exE conjE) (intro exI conjI, assumption+, simp)
qed

section \<open>Closing by retrying\<close>

text \<open>Closers of a Redis or NATS backend whose two parts leave a trace: 0 for the features, 1 for the
  runtime (\<open>logged\<close> in \<open>Cache_Registry\<close>).\<close>

definition traced :: "(nat \<Rightarrow> nat \<Rightarrow> unit result) \<Rightarrow> nat list redis_runtime" where
  "traced outcome = \<lparr>rr_health_check = (\<lambda>w. (Inr (), w)), rr_validate_features = (\<lambda>_ w. (Inr (), w)),
     rr_close = logged outcome 1, rr_features_close = logged outcome 0, rr_registrations = []\<rparr>"

definition close_flags :: "(nat \<Rightarrow> nat \<Rightarrow> unit result) \<Rightarrow> nat \<Rightarrow> nat list backend_world \<Rightarrow> bool" where
  "close_flags outcome i w \<longleftrightarrow>
     flags_of i w = (succeeded outcome (bw_outside w) 0, succeeded outcome (bw_outside w) 1)
     \<and> (\<forall>j \<in> {0, 1}. \<forall>k. Suc k < count_list (bw_outside w) j \<longrightarrow> outcome j k \<noteq> Inr ())
     \<and> (succeeded outcome (bw_outside w) 1 \<longrightarrow> succeeded outcome (bw_outside w) 0)"

lemma flags_of_set [simp]:
  "flags_of i (set_flags j b w) = (if i = j then b else flags_of i w)"
  "bw_outside (set_flags j b w) = bw_outside w"
  by (simp_all add: flags_of_def set_flags_def)

lemma flags_of_outside [simp]: "flags_of i (w\<lparr>bw_outside := x\<rparr>) = flags_of i w"
  by (simp add: flags_of_def)

lemma succeeded_snoc:
  "succeeded outcome (w @ [j]) i \<longleftrightarrow> succeeded outcome w i \<or> (i = j \<and> outcome i (count_list w i) = Inr ())"
  by (auto simp: succeeded_def less_Suc_eq)

lemma succeeded_snoc2:
  "succeeded outcome (w @ [j, j']) i \<longleftrightarrow> succeeded outcome w i \<or> (i = j \<and> outcome i (count_list w i) = Inr ())
     \<or> (i = j' \<and> outcome i (count_list (w @ [j]) i) = Inr ())"
  using succeeded_snoc [of outcome "w @ [j]" j' i] by (simp add: succeeded_snoc)

text \<open>Whatever fails, and however often the closer is called again: no part is closed again after it
  was closed, and the runtime is never closed before the features.\<close>

lemma redis_close_flags:
  assumes "close_flags outcome i w"
  shows "close_flags outcome i (snd (redis_close (traced outcome) i w))"
    and "fst (redis_close (traced outcome) i w) = Inr () \<longleftrightarrow>
      flags_of i (snd (redis_close (traced outcome) i w)) = (True, True)"
proof -
  have never: "outcome j k \<noteq> Inr ()" if "\<not> succeeded outcome x j" and "k < count_list x j" for x j k
    using that by (auto simp: succeeded_def)
  have "close_flags outcome i (snd (redis_close (traced outcome) i w))
    \<and> (fst (redis_close (traced outcome) i w) = Inr () \<longleftrightarrow>
       flags_of i (snd (redis_close (traced outcome) i w)) = (True, True))"
    using assms never [of "bw_outside w" 0] never [of "bw_outside w" 1]
    by (cases "outcome 0 (count_list (bw_outside w) 0)"; cases "outcome 1 (count_list (bw_outside w) 1)")
      (auto simp: close_flags_def redis_close_def redis_close_runtime_def outside_def traced_def logged_def
        succeeded_snoc succeeded_snoc2 split: if_splits)
  then show "close_flags outcome i (snd (redis_close (traced outcome) i w))"
    and "fst (redis_close (traced outcome) i w) = Inr () \<longleftrightarrow>
      flags_of i (snd (redis_close (traced outcome) i w)) = (True, True)"
    by blast+
qed

end
