(* ===== verification/Config_Types.thy ===== *)
theory Config_Types
  imports Content_Types
begin

text \<open>
  The types of the configuration service: fields, groups, definitions and their merging.
  \<open>src/src/wybra/config/types.py\<close>.

  Transforms and name validators are functions of other modules; a definition holds their identity (a
  number), and two definitions agree when they name the same function. Configured values are of type
  \<open>pyvalue\<close>, in which lists and tuples are one constructor. The \<open>isinstance\<close> checks of the constructors
  hold by typing; freezing the mappings has no counterpart. Two \<open>nan\<close> defaults are equal, as they are in
  Python when they are one object.

  The lemmas show what merging gives: the union of the declarations, or an error when two of them
  conflict.
\<close>

section \<open>Equality of values\<close>

text \<open>\<open>==\<close> of Python: numbers compare by their value, a bool is a number; dictionaries compare without
  regard to order.\<close>

fun number_of :: "pyobj \<Rightarrow> rat option" where
  "number_of (PyBool b) = Some (if b then 1 else 0)"
| "number_of (PyInt n) = Some (of_int n)"
| "number_of (PyFloat (Fin x)) = Some x"
| "number_of _ = None"

definition obj_eq :: "pyobj \<Rightarrow> pyobj \<Rightarrow> bool" where
  "obj_eq a b = (if number_of a \<noteq> None \<and> number_of b \<noteq> None then number_of a = number_of b else a = b)"

fun value_eq :: "pyvalue \<Rightarrow> pyvalue \<Rightarrow> bool"
  and values_eq :: "pyvalue list \<Rightarrow> pyvalue list \<Rightarrow> bool"
  and entries_in :: "(pyobj \<times> pyvalue) list \<Rightarrow> (pyobj \<times> pyvalue) list \<Rightarrow> bool"
  and entry_in :: "pyobj \<Rightarrow> pyvalue \<Rightarrow> (pyobj \<times> pyvalue) list \<Rightarrow> bool" where
  "value_eq (PyAtom a) (PyAtom b) = obj_eq a b"
| "value_eq (PySeq xs) (PySeq ys) = values_eq xs ys"
| "value_eq (PyDict d) (PyDict e) = (length d = length e \<and> entries_in d e)"
| "value_eq _ _ = False"
| "values_eq [] [] = True"
| "values_eq (x # xs) (y # ys) = (value_eq x y \<and> values_eq xs ys)"
| "values_eq _ _ = False"
| "entries_in [] e = True"
| "entries_in ((k, v) # d) e = (entry_in k v e \<and> entries_in d e)"
| "entry_in k v [] = False"
| "entry_in k v ((k', v') # e) = (obj_eq k k' \<and> value_eq v v' \<or> entry_in k v e)"

section \<open>Fields and groups\<close>

datatype env_override = EnvName string | EnvNames "string list"

fun normalise_env_override :: "env_override \<Rightarrow> string list" where
  "normalise_env_override (EnvNames names) = names"
| "normalise_env_override (EnvName name) = [name]"

text \<open>A default of \<open>None\<close> in the model is \<open>NO_DEFAULT\<close>.\<close>

record ConfigField =
  fd_name :: string
  fd_default :: "pyvalue option"
  fd_env :: "string list"
  fd_transform :: "nat option"

definition make_ConfigField ::
    "string \<Rightarrow> pyvalue option \<Rightarrow> env_override \<Rightarrow> nat option \<Rightarrow> ConfigField result" where
  "make_ConfigField name dflt env transform =
     (let field_name = py_strip name
      in if field_name = [] then Inl ConfigDefinitionError
         else Inr \<lparr>fd_name = field_name, fd_default = dflt, fd_env = normalise_env_override env,
                   fd_transform = transform\<rparr>)"

definition has_default :: "ConfigField \<Rightarrow> bool" where
  "has_default f \<longleftrightarrow> fd_default f \<noteq> None"

definition field_eq :: "ConfigField \<Rightarrow> ConfigField \<Rightarrow> bool" where
  "field_eq f g \<longleftrightarrow> fd_name f = fd_name g
     \<and> (case (fd_default f, fd_default g) of
          (None, None) \<Rightarrow> True | (Some v, Some w) \<Rightarrow> value_eq v w | _ \<Rightarrow> False)
     \<and> fd_env f = fd_env g \<and> fd_transform f = fd_transform g"

record ConfigGroup =
  gr_fields :: "ConfigField list"
  gr_field_map :: "(string, ConfigField) dict"

fun field_map_loop :: "ConfigField list \<Rightarrow> (string, ConfigField) dict \<Rightarrow> bool \<Rightarrow> (string, ConfigField) dict \<times> bool" where
  "field_map_loop [] values duplicates = (values, duplicates)"
| "field_map_loop (f # fs) values duplicates =
     field_map_loop fs (dict_set (fd_name f) f values)
       (duplicates \<or> dict_get values (fd_name f) \<noteq> None)"

definition field_map :: "ConfigField list \<Rightarrow> (string, ConfigField) dict result" where
  "field_map fds =
     (case field_map_loop fds [] False of
        (values, duplicates) \<Rightarrow> if duplicates then Inl ConfigDefinitionError else Inr values)"

definition make_ConfigGroup :: "ConfigField list \<Rightarrow> ConfigGroup result" where
  "make_ConfigGroup fds =
     res_bind (field_map fds) (\<lambda>m. Inr \<lparr>gr_fields = fds, gr_field_map = m\<rparr>)"

definition field_names :: "ConfigGroup \<Rightarrow> string set" where
  "field_names g = set (dict_keys (gr_field_map g))"

definition group_defaults :: "ConfigGroup \<Rightarrow> (string, pyvalue) dict" where
  "group_defaults g =
     fold (\<lambda>f d. case fd_default f of None \<Rightarrow> d | Some v \<Rightarrow> dict_set (fd_name f) v d) (gr_fields g) []"

definition group_env :: "ConfigGroup \<Rightarrow> (string, string list) dict" where
  "group_env g = fold (\<lambda>f d. if fd_env f = [] then d else dict_set (fd_name f) (fd_env f) d) (gr_fields g) []"

definition group_eq :: "ConfigGroup \<Rightarrow> ConfigGroup \<Rightarrow> bool" where
  "group_eq g h \<longleftrightarrow> list_all2 field_eq (gr_fields g) (gr_fields h)
     \<and> length (gr_field_map g) = length (gr_field_map h)
     \<and> list_all (\<lambda>(k, f). case dict_get (gr_field_map h) k of None \<Rightarrow> False | Some f' \<Rightarrow> field_eq f f') (gr_field_map g)"

section \<open>Repeated sections and definitions\<close>

record RepeatedConfigSection =
  rs_group :: ConfigGroup
  rs_environment_prefix :: "string option"
  rs_environment_fields :: "string list"
  rs_name_validator :: "nat option"

definition make_RepeatedConfigSection ::
    "ConfigGroup \<Rightarrow> string option \<Rightarrow> string list \<Rightarrow> nat option \<Rightarrow> RepeatedConfigSection result" where
  "make_RepeatedConfigSection grp environment_prefix environment_fields name_validator =
     (if (case environment_prefix of None \<Rightarrow> False | Some p \<Rightarrow> py_strip p = [] \<or> p \<noteq> py_strip p)
      then Inl ConfigDefinitionError
      else if list_ex (\<lambda>f. f \<notin> field_names grp) environment_fields then Inl ConfigDefinitionError
      else Inr \<lparr>rs_group = grp, rs_environment_prefix = environment_prefix,
                rs_environment_fields = remdups environment_fields, rs_name_validator = name_validator\<rparr>)"

definition repeated_eq :: "RepeatedConfigSection \<Rightarrow> RepeatedConfigSection \<Rightarrow> bool" where
  "repeated_eq r q \<longleftrightarrow> group_eq (rs_group r) (rs_group q)
     \<and> rs_environment_prefix r = rs_environment_prefix q
     \<and> set (rs_environment_fields r) = set (rs_environment_fields q)
     \<and> rs_name_validator r = rs_name_validator q"

record ConfigDef =
  df_sections :: "(string, ConfigGroup) dict"
  df_repeated_sections :: "(string, RepeatedConfigSection) dict"

section \<open>Merging\<close>

fun merge_fields_loop ::
    "(string, ConfigField) dict \<Rightarrow> (string, ConfigField) dict \<Rightarrow> (string, ConfigField) dict result" where
  "merge_fields_loop merged [] = Inr merged"
| "merge_fields_loop merged ((field_name, field_def) # rest) =
     (case dict_get merged field_name of
        None \<Rightarrow> merge_fields_loop (dict_set field_name field_def merged) rest
      | Some existing \<Rightarrow>
          if \<not> field_eq existing field_def then Inl ConfigDefinitionError
          else merge_fields_loop merged rest)"

definition merge_fields :: "ConfigGroup \<Rightarrow> ConfigGroup \<Rightarrow> ConfigField list result" where
  "merge_fields first second =
     res_bind (merge_fields_loop (gr_field_map first) (gr_field_map second)) (\<lambda>m. Inr (dict_values m))"

fun merge_sections ::
    "(string, ConfigGroup) dict \<Rightarrow> (string, ConfigGroup) dict \<Rightarrow> (string, ConfigGroup) dict result" where
  "merge_sections sections [] = Inr sections"
| "merge_sections sections ((section_name, section) # rest) =
     (case dict_get sections section_name of
        None \<Rightarrow> merge_sections (dict_set section_name section sections) rest
      | Some existing \<Rightarrow>
          res_bind (merge_fields existing section) (\<lambda>fds.
          res_bind (make_ConfigGroup fds) (\<lambda>g.
            merge_sections (dict_set section_name g sections) rest)))"

fun merge_repeated ::
    "(string, RepeatedConfigSection) dict \<Rightarrow> (string, RepeatedConfigSection) dict
     \<Rightarrow> (string, RepeatedConfigSection) dict result" where
  "merge_repeated repeated_sections [] = Inr repeated_sections"
| "merge_repeated repeated_sections ((section_name, repeated) # rest) =
     (case dict_get repeated_sections section_name of
        None \<Rightarrow> merge_repeated (dict_set section_name repeated repeated_sections) rest
      | Some existing \<Rightarrow>
          if \<not> repeated_eq existing repeated then Inl ConfigDefinitionError
          else merge_repeated repeated_sections rest)"

fun merge_loop ::
    "(string, ConfigGroup) dict \<Rightarrow> (string, RepeatedConfigSection) dict \<Rightarrow> ConfigDef list \<Rightarrow> ConfigDef result" where
  "merge_loop sections repeated [] = Inr \<lparr>df_sections = sections, df_repeated_sections = repeated\<rparr>"
| "merge_loop sections repeated (definition' # rest) =
     res_bind (merge_sections sections (df_sections definition')) (\<lambda>s.
     res_bind (merge_repeated repeated (df_repeated_sections definition')) (\<lambda>r.
       merge_loop s r rest))"

definition merge_config_defs :: "ConfigDef list \<Rightarrow> ConfigDef result" where
  "merge_config_defs definitions = merge_loop [] [] definitions"

section \<open>Groups are indexed by the names of their fields\<close>

lemma field_map_loop_result:
  assumes "distinct (dict_keys vs)"
  shows "field_map_loop fs vs d = (vs', False) \<longleftrightarrow>
     \<not> d \<and> distinct (dict_keys vs') \<and> vs' = vs @ map (\<lambda>f. (fd_name f, f)) fs"
  using assms
proof (induction fs arbitrary: vs d)
  case (Cons f fs)
  show ?case
  proof (cases "dict_get vs (fd_name f)")
    case None
    then have "distinct (dict_keys (dict_set (fd_name f) f vs))" using Cons.prems by blast
    then show ?thesis using Cons.IH [of "dict_set (fd_name f) f vs" d] None
      by (simp add: dict_set_new)
  next
    case (Some g)
    then have "fd_name f \<in> fst ` set vs" by (force dest: dict_get_in_set)
    then have "\<not> distinct (dict_keys (vs @ map (\<lambda>f. (fd_name f, f)) (f # fs)))" by simp
    moreover have "field_map_loop (f # fs) vs d \<noteq> (vs', False)"
      using Cons.IH [of "dict_set (fd_name f) f vs" True] Cons.prems Some by auto
    ultimately show ?thesis by blast
  qed
qed auto

lemma field_map_Inr:
  "field_map fds = Inr m \<longleftrightarrow> distinct (map fd_name fds) \<and> m = map (\<lambda>f. (fd_name f, f)) fds"
  using field_map_loop_result [of "[]" fds False m]
  by (cases "field_map_loop fds [] False") (auto simp: field_map_def o_def)

definition wf_group :: "ConfigGroup \<Rightarrow> bool" where
  "wf_group g \<longleftrightarrow> make_ConfigGroup (gr_fields g) = Inr g"

lemma wf_group_iff:
  "wf_group g \<longleftrightarrow> distinct (map fd_name (gr_fields g)) \<and> gr_field_map g = map (\<lambda>f. (fd_name f, f)) (gr_fields g)"
  by (cases g) (auto simp: wf_group_def make_ConfigGroup_def field_map_Inr)

lemma make_ConfigGroup_wf: "make_ConfigGroup fds = Inr g \<Longrightarrow> wf_group g \<and> gr_field_map g = map (\<lambda>f. (fd_name f, f)) fds"
  by (auto simp: make_ConfigGroup_def wf_group_iff field_map_Inr)

section \<open>What merging gives\<close>

definition declared :: "(string, ConfigGroup) dict \<Rightarrow> string \<Rightarrow> string \<Rightarrow> ConfigField option" where
  "declared sections s f =
     (case dict_get sections s of None \<Rightarrow> None | Some g \<Rightarrow> dict_get (gr_field_map g) f)"

definition wf_sections :: "(string, ConfigGroup) dict \<Rightarrow> bool" where
  "wf_sections sections \<longleftrightarrow> distinct (dict_keys sections) \<and> (\<forall>g \<in> set (dict_values sections). wf_group g)"

definition wf_def :: "ConfigDef \<Rightarrow> bool" where
  "wf_def d \<longleftrightarrow> wf_sections (df_sections d) \<and> distinct (dict_keys (df_repeated_sections d))"

definition agrees :: "ConfigField \<Rightarrow> ConfigField \<Rightarrow> bool" where
  "agrees f g \<longleftrightarrow> f = g \<or> field_eq f g"

lemma declared_set [simp]:
  "declared (dict_set n g sections) s f = (if s = n then dict_get (gr_field_map g) f else declared sections s f)"
  by (simp add: declared_def)

lemma declared_Cons:
  "declared ((n, g) # sections) s f = (if s = n then dict_get (gr_field_map g) f else declared sections s f)"
  by (simp add: declared_def)

lemma wf_sections_set: "wf_sections sections \<Longrightarrow> wf_group g \<Longrightarrow> wf_sections (dict_set n g sections)"
  using set_dict_set_subset [of n g sections] by (fastforce simp: wf_sections_def)

lemma wf_sections_get: "wf_sections sections \<Longrightarrow> dict_get sections n = Some g \<Longrightarrow> wf_group g"
  by (force simp: wf_sections_def dest: dict_get_in_set)

lemma merge_fields_loop_distinct:
  "merge_fields_loop merged fs = Inr m \<Longrightarrow> distinct (dict_keys merged) \<Longrightarrow> distinct (dict_keys m)"
  by (induction merged fs rule: merge_fields_loop.induct) (auto split: option.splits if_splits)

lemma merge_fields_loop_keeps:
  "merge_fields_loop merged fs = Inr m \<Longrightarrow> dict_get merged k = Some f \<Longrightarrow> dict_get m k = Some f"
proof (induction merged fs rule: merge_fields_loop.induct)
  case (2 merged n g rest)
  then show ?case by (cases "k = n") (auto split: option.splits if_splits)
qed simp

lemma merge_fields_loop_adds:
  assumes "merge_fields_loop merged fs = Inr m" and "(k, f) \<in> set fs"
  shows "\<exists>f'. dict_get m k = Some f' \<and> agrees f' f"
  using assms
proof (induction merged fs rule: merge_fields_loop.induct)
  case (2 merged n g rest)
  show ?case
  proof (cases "dict_get merged n")
    case None
    then have rest: "merge_fields_loop (dict_set n g merged) rest = Inr m" using 2 by simp
    show ?thesis
    proof (cases "(k, f) = (n, g)")
      case True
      then show ?thesis using merge_fields_loop_keeps [OF rest, of n g] by (auto simp: agrees_def)
    qed (use 2 None rest in auto)
  next
    case (Some g')
    then have rest: "merge_fields_loop merged rest = Inr m" and eq: "field_eq g' g"
      using 2 by (auto split: if_splits)
    show ?thesis
    proof (cases "(k, f) = (n, g)")
      case True
      then show ?thesis using merge_fields_loop_keeps [OF rest Some] eq by (auto simp: agrees_def)
    qed (use 2 Some rest eq in auto)
  qed
qed simp

lemma merge_fields_loop_only:
  "merge_fields_loop merged fs = Inr m \<Longrightarrow> dict_get m k = Some f \<Longrightarrow>
    dict_get merged k = Some f \<or> (k, f) \<in> set fs"
  by (induction merged fs rule: merge_fields_loop.induct) (auto split: option.splits if_splits)

lemma merge_fields_loop_names:
  assumes "merge_fields_loop merged fs = Inr m" and "\<forall>(k, f) \<in> set merged \<union> set fs. fd_name f = k"
  shows "\<forall>(k, f) \<in> set m. fd_name f = k"
  using assms
proof (induction merged fs rule: merge_fields_loop.induct)
  case (2 merged n f rest)
  then show ?case
    by (auto simp: dict_set_new split: option.splits if_splits)
qed simp

lemma merge_fields_loop_Inl:
  assumes "merge_fields_loop merged fs = Inl e" and "distinct (dict_keys fs)"
  shows "e = ConfigDefinitionError \<and> (\<exists>k f f'. dict_get merged k = Some f \<and> (k, f') \<in> set fs \<and> \<not> field_eq f f')"
  using assms
proof (induction merged fs rule: merge_fields_loop.induct)
  case (2 merged n f rest)
  show ?case
  proof (cases "dict_get merged n")
    case None
    then have "e = ConfigDefinitionError
      \<and> (\<exists>k g g'. dict_get (dict_set n f merged) k = Some g \<and> (k, g') \<in> set rest \<and> \<not> field_eq g g')"
      using 2 by simp
    moreover have "n \<notin> fst ` set rest" using 2 by simp
    ultimately show ?thesis by (force split: if_splits)
  next
    case (Some g)
    then show ?thesis using 2 by (fastforce split: if_splits)
  qed
qed simp

lemma wf_group_entries:
  "wf_group g \<Longrightarrow> (k, f) \<in> set (gr_field_map g) \<longleftrightarrow> dict_get (gr_field_map g) k = Some f"
  "wf_group g \<Longrightarrow> distinct (dict_keys (gr_field_map g))"
  "wf_group g \<Longrightarrow> (k, f) \<in> set (gr_field_map g) \<Longrightarrow> fd_name f = k"
  by (auto simp: wf_group_iff o_def)

text \<open>Merging two groups of a section gives a group again.\<close>

lemma merge_groups:
  assumes "wf_group g" and "wf_group h" and "merge_fields g h = Inr fds"
  shows "\<exists>m. make_ConfigGroup fds = Inr m \<and> wf_group m
    \<and> merge_fields_loop (gr_field_map g) (gr_field_map h) = Inr (gr_field_map m)"
proof -
  obtain d where d: "merge_fields_loop (gr_field_map g) (gr_field_map h) = Inr d" and fds: "fds = dict_values d"
    using assms(3) by (auto simp: merge_fields_def)
  have "\<forall>(k, f) \<in> set d. fd_name f = k"
    by (rule merge_fields_loop_names [OF d]) (use assms wf_group_entries(3) in auto)
  then have names: "map (\<lambda>f. (fd_name f, f)) fds = d" and "map fd_name fds = dict_keys d"
    unfolding fds by (auto intro!: map_idI simp: o_def split_beta)
  moreover have "distinct (dict_keys d)"
    using merge_fields_loop_distinct [OF d] wf_group_entries(2) [OF assms(1)] by simp
  ultimately have "make_ConfigGroup fds = Inr \<lparr>gr_fields = fds, gr_field_map = d\<rparr>"
    by (simp add: make_ConfigGroup_def field_map_Inr)
  then show ?thesis using make_ConfigGroup_wf d by fastforce
qed

lemma wf_sections_Cons:
  assumes "wf_sections ((n, g) # rest)"
  shows "wf_group g" and "wf_sections rest" and "declared rest n f = None"
proof -
  show "wf_group g" and "wf_sections rest" using assms by (auto simp: wf_sections_def)
  have "n \<notin> set (dict_keys rest)" using assms by (simp add: wf_sections_def)
  then have "dict_get rest n = None" by (simp add: map_of_eq_None_iff)
  then show "declared rest n f = None" by (simp add: declared_def)
qed

lemma merge_sections_Inr:
  assumes "merge_sections secs new = Inr m" and "wf_sections secs" and "wf_sections new"
  shows "wf_sections m
    \<and> (\<forall>s f fd. declared secs s f = Some fd \<longrightarrow> declared m s f = Some fd)
    \<and> (\<forall>s f fd. declared new s f = Some fd \<longrightarrow> (\<exists>fd'. declared m s f = Some fd' \<and> agrees fd' fd))
    \<and> (\<forall>s f fd. declared m s f = Some fd \<longrightarrow> declared secs s f = Some fd \<or> declared new s f = Some fd)"
  using assms
proof (induction secs new rule: merge_sections.induct)
  case (2 secs n g rest)
  have g: "wf_group g" and rest: "wf_sections rest" and fresh: "\<And>f. declared rest n f = None"
    using wf_sections_Cons [OF 2(5)] by auto
  have step: ?case
    if IH: "wf_sections m \<and> (\<forall>s f fd. declared (dict_set n u secs) s f = Some fd \<longrightarrow> declared m s f = Some fd)
        \<and> (\<forall>s f fd. declared rest s f = Some fd \<longrightarrow> (\<exists>fd'. declared m s f = Some fd' \<and> agrees fd' fd))
        \<and> (\<forall>s f fd. declared m s f = Some fd \<longrightarrow> declared (dict_set n u secs) s f = Some fd \<or> declared rest s f = Some fd)"
      and keeps: "\<And>f fd. declared secs n f = Some fd \<Longrightarrow> dict_get (gr_field_map u) f = Some fd"
      and adds: "\<And>f fd. dict_get (gr_field_map g) f = Some fd \<Longrightarrow> \<exists>fd'. dict_get (gr_field_map u) f = Some fd' \<and> agrees fd' fd"
      and only: "\<And>f fd. dict_get (gr_field_map u) f = Some fd \<Longrightarrow> declared secs n f = Some fd \<or> dict_get (gr_field_map g) f = Some fd"
    for u
  proof (intro conjI allI impI)
    show "wf_sections m" using IH by blast
    show "declared m s f = Some fd" if "declared secs s f = Some fd" for s f fd
    proof -
      have "declared (dict_set n u secs) s f = Some fd" using that keeps by auto
      then show ?thesis using IH by blast
    qed
    show "\<exists>fd'. declared m s f = Some fd' \<and> agrees fd' fd" if new: "declared ((n, g) # rest) s f = Some fd" for s f fd
    proof (cases "s = n")
      case True
      then obtain fd' where "declared (dict_set n u secs) s f = Some fd'" "agrees fd' fd"
        using adds new by (auto simp: declared_Cons)
      then show ?thesis using IH by blast
    next
      case False
      then have "declared rest s f = Some fd" using new by (simp add: declared_Cons)
      then show ?thesis using IH by blast
    qed
    show "declared secs s f = Some fd \<or> declared ((n, g) # rest) s f = Some fd" if m: "declared m s f = Some fd" for s f fd
    proof -
      have "declared (dict_set n u secs) s f = Some fd \<or> declared rest s f = Some fd" using IH m by blast
      then show ?thesis using only [of f fd] fresh [of f] by (cases "s = n") (auto simp: declared_Cons)
    qed
  qed
  show ?case
  proof (cases "dict_get secs n")
    case None
    then have "merge_sections (dict_set n g secs) rest = Inr m" using 2(3) by simp
    from 2(1) [OF None this wf_sections_set [OF 2(4) g] rest] show ?thesis
      by (rule step) (auto simp: declared_def None agrees_def)
  next
    case (Some h)
    then obtain fds u where fds: "merge_fields h g = Inr fds" and u: "make_ConfigGroup fds = Inr u"
      and m: "merge_sections (dict_set n u secs) rest = Inr m" using 2(3) by auto
    have h: "wf_group h" using wf_sections_get 2(4) Some by blast
    have wf: "wf_group u" and loop: "merge_fields_loop (gr_field_map h) (gr_field_map g) = Inr (gr_field_map u)"
      using merge_groups [OF h g fds] u by auto
    from 2(2) [OF Some m wf_sections_set [OF 2(4) wf] rest] show ?thesis
    proof (rule step)
      show "dict_get (gr_field_map u) f = Some fd" if "declared secs n f = Some fd" for f fd
        using that merge_fields_loop_keeps [OF loop] by (simp add: declared_def Some)
      show "\<exists>fd'. dict_get (gr_field_map u) f = Some fd' \<and> agrees fd' fd"
        if "dict_get (gr_field_map g) f = Some fd" for f fd
        using that merge_fields_loop_adds [OF loop] wf_group_entries(1) [OF g] by blast
      show "declared secs n f = Some fd \<or> dict_get (gr_field_map g) f = Some fd"
        if "dict_get (gr_field_map u) f = Some fd" for f fd
        using merge_fields_loop_only [OF loop that] wf_group_entries(1) [OF g] by (auto simp: declared_def Some)
    qed
  qed
qed (simp add: declared_def)

lemma merge_sections_Inl:
  assumes "merge_sections secs new = Inl e" and "wf_sections secs" and "wf_sections new"
  shows "e = ConfigDefinitionError
    \<and> (\<exists>s f fd fd'. declared secs s f = Some fd \<and> declared new s f = Some fd' \<and> \<not> field_eq fd fd')"
  using assms
proof (induction secs new rule: merge_sections.induct)
  case (2 secs n g rest)
  have g: "wf_group g" and rest: "wf_sections rest" and fresh: "\<And>f. declared rest n f = None"
    using wf_sections_Cons [OF 2(5)] by auto
  have lift: ?case if "e = ConfigDefinitionError \<and> (\<exists>s f fd fd'. declared (dict_set n u secs) s f = Some fd
      \<and> declared rest s f = Some fd' \<and> \<not> field_eq fd fd')" for u
    using that fresh by (auto simp: declared_Cons split: if_splits)
  show ?case
  proof (cases "dict_get secs n")
    case None
    then have "merge_sections (dict_set n g secs) rest = Inl e" using 2 by simp
    from 2(1) [OF None this wf_sections_set [OF 2(4) g] rest] show ?thesis by (rule lift)
  next
    case (Some h)
    have h: "wf_group h" using wf_sections_get 2(4) Some by blast
    show ?thesis
    proof (cases "merge_fields h g")
      case (Inl e')
      then have "merge_fields_loop (gr_field_map h) (gr_field_map g) = Inl e" using 2(3) Some
        by (auto simp: merge_fields_def res_bind_def split: sum.splits)
      from merge_fields_loop_Inl [OF this wf_group_entries(2) [OF g]] show ?thesis
        using Some wf_group_entries(1) [OF g] by (auto simp: declared_def)
    next
      case (Inr fds)
      then obtain u where u: "make_ConfigGroup fds = Inr u" and wf: "wf_group u" using merge_groups [OF h g] by blast
      then have "merge_sections (dict_set n u secs) rest = Inl e" using 2(3) Some Inr by simp
      from 2(2) [OF Some this wf_sections_set [OF 2(4) wf] rest] show ?thesis by (rule lift)
    qed
  qed
qed simp

lemma merge_repeated_Inr:
  assumes "merge_repeated reps new = Inr m"
  shows "(\<forall>s r. dict_get reps s = Some r \<longrightarrow> dict_get m s = Some r)
    \<and> (\<forall>s r. dict_get new s = Some r \<longrightarrow> (\<exists>r'. dict_get m s = Some r' \<and> (r' = r \<or> repeated_eq r' r)))"
  using assms
proof (induction reps new rule: merge_repeated.induct)
  case (2 reps n r rest)
  show ?case
  proof (cases "dict_get reps n")
    case None
    then have IH: "(\<forall>s q. dict_get (dict_set n r reps) s = Some q \<longrightarrow> dict_get m s = Some q)
        \<and> (\<forall>s q. dict_get rest s = Some q \<longrightarrow> (\<exists>r'. dict_get m s = Some r' \<and> (r' = q \<or> repeated_eq r' q)))"
      using 2(1) [OF None] 2(3) by simp
    then have "dict_get m s = Some q" if "dict_get reps s = Some q" for s q
      using that None by (cases "s = n") (simp_all add: update_conv)
    moreover have "dict_get m n = Some r" using IH by (simp add: update_conv)
    ultimately show ?thesis using IH by simp
  next
    case (Some q)
    then show ?thesis using 2(2) [OF Some] 2(3) by (cases "repeated_eq q r") auto
  qed
qed simp

lemma merge_sections_keys:
  "merge_sections secs new = Inr m \<Longrightarrow> set (dict_keys m) = set (dict_keys secs) \<union> set (dict_keys new)"
proof (induction secs new rule: merge_sections.induct)
  case (2 secs n g rest)
  show ?case
  proof (cases "dict_get secs n")
    case None
    then have "set (dict_keys m) = set (dict_keys (dict_set n g secs)) \<union> set (dict_keys rest)"
      using 2(1) [OF None] 2(3) by simp
    then show ?thesis by (simp add: dom_update)
  next
    case (Some h)
    then obtain u where "merge_sections (dict_set n u secs) rest = Inr m" using 2(3) by auto
    from 2(2) [OF Some this] show ?thesis by (simp add: dom_update)
  qed
qed simp

lemma merge_repeated_Inl:
  assumes "merge_repeated reps new = Inl e" and "distinct (dict_keys new)"
  shows "e = ConfigDefinitionError
    \<and> (\<exists>s r r'. dict_get reps s = Some r \<and> dict_get new s = Some r' \<and> \<not> repeated_eq r r')"
  using assms
proof (induction reps new rule: merge_repeated.induct)
  case (2 reps n r rest)
  have fresh: "dict_get rest n = None" using 2(4) by (simp add: map_of_eq_None_iff)
  have dist: "distinct (dict_keys rest)" using 2(4) by simp
  have lift: ?case if conflict: "e = ConfigDefinitionError
      \<and> (\<exists>s r r'. dict_get reps' s = Some r \<and> dict_get rest s = Some r' \<and> \<not> repeated_eq r r')"
    and same: "\<And>s. s \<noteq> n \<Longrightarrow> dict_get reps' s = dict_get reps s" for reps'
  proof -
    obtain s q q' where "dict_get reps' s = Some q" and q': "dict_get rest s = Some q'" and "\<not> repeated_eq q q'"
      using conflict by blast
    moreover have "s \<noteq> n" using q' fresh by auto
    ultimately have "dict_get reps s = Some q \<and> dict_get ((n, r) # rest) s = Some q' \<and> \<not> repeated_eq q q'"
      using same by simp
    then show ?thesis using conflict by blast
  qed
  show ?case
  proof (cases "dict_get reps n")
    case None
    then have "merge_repeated (dict_set n r reps) rest = Inl e" using 2(3) by simp
    from 2(1) [OF None this dist] show ?thesis by (rule lift) simp
  next
    case (Some q)
    show ?thesis
    proof (cases "repeated_eq q r")
      case True
      then have "merge_repeated reps rest = Inl e" using 2(3) Some by simp
      from 2(2) [OF Some _ this dist] True show ?thesis by (intro lift [of reps]) simp_all
    qed (use 2(3) Some in auto)
  qed
qed simp

text \<open>Two definitions conflict when they declare a field or a repeated section differently.\<close>

definition conflicting :: "ConfigDef \<Rightarrow> ConfigDef \<Rightarrow> bool" where
  "conflicting d d' \<longleftrightarrow>
     (\<exists>s f fd fd'. declared (df_sections d) s f = Some fd \<and> declared (df_sections d') s f = Some fd' \<and> \<not> field_eq fd fd')
     \<or> (\<exists>s r r'. dict_get (df_repeated_sections d) s = Some r \<and> dict_get (df_repeated_sections d') s = Some r'
          \<and> \<not> repeated_eq r r')"

text \<open>A definition that stems from others declares what one of them declares.\<close>

definition stems_from :: "ConfigDef set \<Rightarrow> ConfigDef \<Rightarrow> bool" where
  "stems_from D m \<longleftrightarrow>
     (\<forall>s f fd. declared (df_sections m) s f = Some fd \<longrightarrow> (\<exists>d \<in> D. declared (df_sections d) s f = Some fd))
     \<and> (\<forall>s r. dict_get (df_repeated_sections m) s = Some r \<longrightarrow> (\<exists>d \<in> D. dict_get (df_repeated_sections d) s = Some r))"

lemma merge_repeated_only:
  "merge_repeated reps new = Inr m \<Longrightarrow> dict_get m s = Some r \<Longrightarrow> dict_get reps s = Some r \<or> (s, r) \<in> set new"
  by (induction reps new rule: merge_repeated.induct) (auto split: option.splits if_splits)

lemma merge_repeated_distinct:
  "merge_repeated reps new = Inr m \<Longrightarrow> distinct (dict_keys reps) \<Longrightarrow> distinct (dict_keys m)"
  by (induction reps new rule: merge_repeated.induct) (auto split: option.splits if_splits)

lemma merge_loop_result:
  assumes "wf_sections secs" and "distinct (dict_keys reps)" and "\<forall>d \<in> set ds. wf_def d"
    and "stems_from D \<lparr>df_sections = secs, df_repeated_sections = reps\<rparr>"
  shows "case merge_loop secs reps ds of
      Inl e \<Rightarrow> e = ConfigDefinitionError \<and> (\<exists>d \<in> D \<union> set ds. \<exists>d' \<in> set ds. conflicting d d')
    | Inr m \<Rightarrow> wf_def m \<and> stems_from (D \<union> set ds) m
        \<and> (\<forall>s f fd. declared secs s f = Some fd \<longrightarrow> declared (df_sections m) s f = Some fd)
        \<and> (\<forall>d \<in> set ds. \<forall>s f fd. declared (df_sections d) s f = Some fd \<longrightarrow>
             (\<exists>fd'. declared (df_sections m) s f = Some fd' \<and> agrees fd' fd))
        \<and> (\<forall>s r. dict_get reps s = Some r \<longrightarrow> dict_get (df_repeated_sections m) s = Some r)
        \<and> (\<forall>d \<in> set ds. \<forall>s r. dict_get (df_repeated_sections d) s = Some r \<longrightarrow>
             (\<exists>r'. dict_get (df_repeated_sections m) s = Some r' \<and> (r' = r \<or> repeated_eq r' r)))
        \<and> set (dict_keys (df_sections m)) = set (dict_keys secs) \<union> (\<Union>d \<in> set ds. set (dict_keys (df_sections d)))"
  using assms
proof (induction ds arbitrary: secs reps D)
  case Nil
  then show ?case by (simp add: wf_def_def)
next
  case (Cons d ds)
  have d: "wf_sections (df_sections d)" "distinct (dict_keys (df_repeated_sections d))"
    using Cons.prems(3) by (simp_all add: wf_def_def)
  have from_D: "\<exists>d \<in> D. declared (df_sections d) s f = Some fd" if "declared secs s f = Some fd" for s f fd
    using Cons.prems(4) that by (simp add: stems_from_def)
  have reps_D: "\<exists>d \<in> D. dict_get (df_repeated_sections d) s = Some r" if "dict_get reps s = Some r" for s r
    using Cons.prems(4) that by (simp add: stems_from_def)
  show ?case
  proof (cases "merge_sections secs (df_sections d)")
    case (Inl e)
    from merge_sections_Inl [OF this Cons.prems(1) d(1)] obtain s f fd fd' where
      "e = ConfigDefinitionError" and fd: "declared secs s f = Some fd"
      and "declared (df_sections d) s f = Some fd'" "\<not> field_eq fd fd'" by blast
    moreover obtain d0 where "d0 \<in> D" "declared (df_sections d0) s f = Some fd" using from_D [OF fd] by blast
    ultimately have "e = ConfigDefinitionError \<and> (\<exists>d0 \<in> D. conflicting d0 d)"
        unfolding conflicting_def by blast
    then show ?thesis using Inl by auto
  next
    case merged: (Inr s')
    note Inr = merged
    note secs = merge_sections_Inr [OF Inr Cons.prems(1) d(1)]
    show ?thesis
    proof (cases "merge_repeated reps (df_repeated_sections d)")
      case (Inl e)
      from merge_repeated_Inl [OF this d(2)] obtain s r r' where
        "e = ConfigDefinitionError" and r: "dict_get reps s = Some r"
        and "dict_get (df_repeated_sections d) s = Some r'" "\<not> repeated_eq r r'" by blast
      moreover obtain d0 where "d0 \<in> D" "dict_get (df_repeated_sections d0) s = Some r" using reps_D [OF r] by blast
      ultimately have "e = ConfigDefinitionError \<and> (\<exists>d0 \<in> D. conflicting d0 d)"
        unfolding conflicting_def by blast
      then show ?thesis using Inl Inr by auto
    next
      case reps: (Inr r')
      have "dict_get reps s = Some r \<or> dict_get (df_repeated_sections d) s = Some r" if "dict_get r' s = Some r" for s r
        using merge_repeated_only [OF reps that] d(2) by auto
      then have stems: "stems_from (insert d D) \<lparr>df_sections = s', df_repeated_sections = r'\<rparr>"
        using secs from_D reps_D by (simp add: stems_from_def) blast
      have "distinct (dict_keys r')" using merge_repeated_distinct [OF reps Cons.prems(2)] .
      moreover have "wf_sections s'" using secs by blast
      ultimately have IH: "case merge_loop s' r' ds of
          Inl e \<Rightarrow> e = ConfigDefinitionError \<and> (\<exists>d0 \<in> insert d D \<union> set ds. \<exists>d' \<in> set ds. conflicting d0 d')
        | Inr m \<Rightarrow> wf_def m \<and> stems_from (insert d D \<union> set ds) m
            \<and> (\<forall>s f fd. declared s' s f = Some fd \<longrightarrow> declared (df_sections m) s f = Some fd)
            \<and> (\<forall>d \<in> set ds. \<forall>s f fd. declared (df_sections d) s f = Some fd \<longrightarrow>
                 (\<exists>fd'. declared (df_sections m) s f = Some fd' \<and> agrees fd' fd))
            \<and> (\<forall>s r. dict_get r' s = Some r \<longrightarrow> dict_get (df_repeated_sections m) s = Some r)
            \<and> (\<forall>d \<in> set ds. \<forall>s r. dict_get (df_repeated_sections d) s = Some r \<longrightarrow>
                 (\<exists>r'. dict_get (df_repeated_sections m) s = Some r' \<and> (r' = r \<or> repeated_eq r' r)))
            \<and> set (dict_keys (df_sections m)) = set (dict_keys s') \<union> (\<Union>d \<in> set ds. set (dict_keys (df_sections d)))"
        using Cons.IH [OF _ _ _ stems] Cons.prems(3) by simp
      have loop: "merge_loop secs reps (d # ds) = merge_loop s' r' ds" using Inr reps by simp
      show ?thesis
      proof (cases "merge_loop s' r' ds")
        case (Inl e)
        then show ?thesis using IH loop by auto
      next
        case (Inr m)
        note m = IH [unfolded Inr sum.case]
        note reps = merge_repeated_Inr [OF reps]
        have kept: "declared (df_sections m) s f = Some fd" if "declared secs s f = Some fd" for s f fd
          using that m secs by simp
        have added: "\<exists>fd'. declared (df_sections m) s f = Some fd' \<and> agrees fd' fd"
          if "declared (df_sections d) s f = Some fd" for s f fd
          using that m secs by metis
        have kept_reps: "dict_get (df_repeated_sections m) s = Some r" if "dict_get reps s = Some r" for s r
          using that m reps by simp
        have added_reps: "\<exists>r'. dict_get (df_repeated_sections m) s = Some r' \<and> (r' = r \<or> repeated_eq r' r)"
          if "dict_get (df_repeated_sections d) s = Some r" for s r
          using that m reps by metis
        have keys: "set (dict_keys (df_sections m)) =
            set (dict_keys secs) \<union> (\<Union>d \<in> set (d # ds). set (dict_keys (df_sections d)))"
          using m merge_sections_keys [OF merged] by auto
        have "stems_from (D \<union> set (d # ds)) m" using m by simp
        then show ?thesis
          unfolding loop Inr sum.case using m keys
          by (intro conjI) (auto simp: kept added kept_reps added_reps simp del: set_map)
      qed
    qed
  qed
qed

lemma merge_config_defs_stems:
  assumes "\<forall>d \<in> set ds. wf_def d" and "merge_config_defs ds = Inr m"
  shows "wf_def m \<and> stems_from (set ds) m"
proof -
  have "wf_sections []" "stems_from {} \<lparr>df_sections = [], df_repeated_sections = []\<rparr>"
    by (simp_all add: wf_sections_def stems_from_def declared_def)
  from merge_loop_result [OF this(1) _ assms(1) this(2)] assms(2) show ?thesis
    by (simp add: merge_config_defs_def)
qed

section \<open>Properties of definitions\<close>

text \<open>C37: Merging the definitions of all modules either fails, and then two of them declare the same
  field or repeated section differently, or gives exactly the union: every field and every repeated
  section that a definition declares is declared by the result in an equal way, the result has a section
  exactly if some definition has it, and each of its fields and repeated sections is one that some
  definition declares.\<close>

theorem merge_config_defs_union:
  assumes "\<forall>d \<in> set ds. wf_def d"
  shows "case merge_config_defs ds of
      Inl e \<Rightarrow> e = ConfigDefinitionError \<and> (\<exists>d \<in> set ds. \<exists>d' \<in> set ds. conflicting d d')
    | Inr m \<Rightarrow> wf_def m
        \<and> (\<forall>d \<in> set ds. \<forall>s f fd. declared (df_sections d) s f = Some fd \<longrightarrow>
             (\<exists>fd'. declared (df_sections m) s f = Some fd' \<and> agrees fd' fd))
        \<and> (\<forall>s f fd. declared (df_sections m) s f = Some fd \<longrightarrow>
             (\<exists>d \<in> set ds. declared (df_sections d) s f = Some fd))
        \<and> (\<forall>d \<in> set ds. \<forall>s r. dict_get (df_repeated_sections d) s = Some r \<longrightarrow>
             (\<exists>r'. dict_get (df_repeated_sections m) s = Some r' \<and> (r' = r \<or> repeated_eq r' r)))
        \<and> (\<forall>s r. dict_get (df_repeated_sections m) s = Some r \<longrightarrow>
             (\<exists>d \<in> set ds. dict_get (df_repeated_sections d) s = Some r))
        \<and> set (dict_keys (df_sections m)) = (\<Union>d \<in> set ds. set (dict_keys (df_sections d)))"
proof -
  have "wf_sections []" "stems_from {} \<lparr>df_sections = [], df_repeated_sections = []\<rparr>"
    by (simp_all add: wf_sections_def stems_from_def declared_def)
  from merge_loop_result [OF this(1) _ assms this(2)] show ?thesis
    by (auto simp: merge_config_defs_def stems_from_def split: sum.splits)
qed

text \<open>Two modules that share a section and a repeated section.\<close>

definition demo_field :: "string \<Rightarrow> string \<Rightarrow> ConfigField" where
  "demo_field name env = \<lparr>fd_name = name, fd_default = Some (PyAtom PyNone), fd_env = [env], fd_transform = None\<rparr>"

definition demo_group :: "string list \<Rightarrow> string \<Rightarrow> ConfigGroup" where
  "demo_group names env =
     \<lparr>gr_fields = map (\<lambda>n. demo_field n env) names, gr_field_map = map (\<lambda>n. (n, demo_field n env)) names\<rparr>"

definition demo_repeated :: "string \<Rightarrow> RepeatedConfigSection" where
  "demo_repeated prefix =
     \<lparr>rs_group = demo_group [''url''] ''U'', rs_environment_prefix = Some prefix, rs_environment_fields = [''url''],
      rs_name_validator = None\<rparr>"

definition demo_def :: "string list \<Rightarrow> string \<Rightarrow> string \<Rightarrow> ConfigDef" where
  "demo_def names env prefix =
     \<lparr>df_sections = [(''cache'', demo_group names env)], df_repeated_sections = [(''servers'', demo_repeated prefix)]\<rparr>"

theorem merge_config_defs_union_witness:
  "(\<exists>m. merge_config_defs [demo_def [''a'', ''b''] ''E'' ''P'', demo_def [''b'', ''c''] ''E'' ''P''] = Inr m
      \<and> (\<exists>fd. declared (df_sections m) ''cache'' ''c'' = Some fd \<and> agrees fd (demo_field ''c'' ''E''))
      \<and> dict_get (df_repeated_sections m) ''servers'' = Some (demo_repeated ''P''))
   \<and> merge_config_defs [demo_def [''a'', ''b''] ''E'' ''P'', demo_def [''b''] ''F'' ''P''] = Inl ConfigDefinitionError
   \<and> merge_config_defs [demo_def [''a'', ''b''] ''E'' ''P'', demo_def [''b''] ''E'' ''Q''] = Inl ConfigDefinitionError"
proof -
  let ?ds = "[demo_def [''a'', ''b''] ''E'' ''P'', demo_def [''b'', ''c''] ''E'' ''P'']"
  have wf: "\<forall>d \<in> set ?ds. wf_def d" by code_simp
  have ok: "\<not> isl (merge_config_defs ?ds)"
    and bad: "merge_config_defs [demo_def [''a'', ''b''] ''E'' ''P'', demo_def [''b''] ''F'' ''P''] = Inl ConfigDefinitionError"
      "merge_config_defs [demo_def [''a'', ''b''] ''E'' ''P'', demo_def [''b''] ''E'' ''Q''] = Inl ConfigDefinitionError"
    and c: "declared (df_sections (demo_def [''b'', ''c''] ''E'' ''P'')) ''cache'' ''c'' = Some (demo_field ''c'' ''E'')"
    by code_simp+
  obtain m where m: "merge_config_defs ?ds = Inr m" using ok by (cases "merge_config_defs ?ds") auto
  note r = merge_config_defs_union [OF wf, unfolded m sum.case]
  have "\<exists>fd'. declared (df_sections m) ''cache'' ''c'' = Some fd' \<and> agrees fd' (demo_field ''c'' ''E'')"
    using r c by auto
  moreover have "dict_get (df_repeated_sections m) ''servers'' = Some (demo_repeated ''P'')"
  proof -
    have servers: "dict_get (df_repeated_sections d) ''servers'' = Some (demo_repeated ''P'')" if "d \<in> set ?ds" for d
      using that by (auto simp: demo_def_def)
    then obtain q where "dict_get (df_repeated_sections m) ''servers'' = Some q" using r by (meson list.set_intros(1))
    moreover obtain d where "d \<in> set ?ds" "dict_get (df_repeated_sections d) ''servers'' = Some q" using r calculation by meson
    ultimately show ?thesis using servers by simp
  qed
  ultimately show ?thesis using m bad by blast
qed

end
