(* ===== verification/Config_Service.thy ===== *)
theory Config_Service
  imports Config_Types
begin

text \<open>
  The configuration service: layers of values and where each value comes from.
  \<open>src/src/wybra/config/service.py\<close>, with the mapping and environment sources of \<open>sources.py\<close>.

  A source is what its \<open>load\<close> returns or raises. The process environment, read through a third-party
  object, is a function that tells for a name whether it is set and what its value is; modules are
  looked up by a function too. Transforms and validators are given by their identity, with a function
  that says what each does. Of a diagnostic the text is left out, as everywhere.

  The lemmas show which layer wins: the environment over the sources, later sources over earlier ones,
  all sources over the defaults, and that the index names the layer the value came from.
\<close>

section \<open>Sources\<close>

record ConfigSourceMetadata =
  sm_source :: string
  sm_required :: bool

datatype severity = SevError | SevWarning | SevInfo

record ConfigDiagnostic =
  dg_source :: ConfigSourceMetadata
  dg_severity :: severity
  dg_code :: "string option"

type_synonym sections = "(string, (string, pyvalue) dict) dict"

record ConfigSourceResult =
  sr_values :: sections
  sr_diagnostics :: "ConfigDiagnostic list"

record ConfigSource =
  so_metadata :: ConfigSourceMetadata
  so_load :: "ConfigSourceResult result"

record LoadedConfig =
  lc_values :: sections
  lc_sources :: "(string, string) dict"
  lc_diagnostics :: "ConfigDiagnostic list"

definition get_config :: "LoadedConfig \<Rightarrow> string \<Rightarrow> (string, pyvalue) dict option" where
  "get_config c section' = dict_get (lc_values c) section'"

definition has_error_diagnostic :: "ConfigSourceResult \<Rightarrow> bool" where
  "has_error_diagnostic r \<longleftrightarrow> list_ex (\<lambda>d. dg_severity d = SevError) (sr_diagnostics r)"

section \<open>Merging values\<close>

definition index_key :: "string \<Rightarrow> string \<Rightarrow> string" where
  "index_key section' key = section' @ CHR ''.'' # key"

definition dict_update :: "('k, 'v) dict \<Rightarrow> ('k, 'v) dict \<Rightarrow> ('k, 'v) dict" where
  "dict_update target vs = fold (\<lambda>(k, v). dict_set k v) vs target"

definition section_of :: "sections \<Rightarrow> string \<Rightarrow> (string, pyvalue) dict" where
  "section_of d s = (case dict_get d s of None \<Rightarrow> [] | Some m \<Rightarrow> m)"

definition merge_values ::
    "string \<Rightarrow> sections \<Rightarrow> sections \<times> (string, string) dict \<Rightarrow> sections \<times> (string, string) dict" where
  "merge_values source vs = fold (\<lambda>(s, kvs) (target, index).
     (dict_set s (dict_update (section_of target s) kvs) target,
      fold (\<lambda>(k, _). dict_set (index_key s k) source) kvs index)) vs"

definition merge_indexed_values ::
    "(string, string) dict \<Rightarrow> sections \<Rightarrow> sections \<times> (string, string) dict \<Rightarrow> sections \<times> (string, string) dict" where
  "merge_indexed_values source_index vs = fold (\<lambda>(s, kvs) (target, index).
     (dict_set s (dict_update (section_of target s) kvs) target,
      fold (\<lambda>(k, _). dict_set (index_key s k)
        (case dict_get source_index (index_key s k) of None \<Rightarrow> ''source'' | Some n \<Rightarrow> n)) kvs index)) vs"

section \<open>Loading the sources\<close>

fun load_loop ::
    "ConfigSource list \<Rightarrow> sections \<times> (string, string) dict \<Rightarrow> ConfigDiagnostic list
     \<Rightarrow> ((sections \<times> (string, string) dict) \<times> ConfigDiagnostic list) result" where
  "load_loop [] acc diagnostics' = Inr (acc, diagnostics')"
| "load_loop (source # rest) acc diagnostics' =
     (case so_load source of
        Inl e \<Rightarrow>
          if e \<noteq> ConfigSourceError then Inl e
          else if sm_required (so_metadata source) then Inl ConfigSourceError
          else load_loop rest acc (diagnostics' @
            [\<lparr>dg_source = so_metadata source, dg_severity = SevError, dg_code = Some ''source_load_error''\<rparr>])
      | Inr r \<Rightarrow>
          if has_error_diagnostic r
          then if sm_required (so_metadata source) then Inl ConfigSourceError
               else load_loop rest acc (diagnostics' @ sr_diagnostics r)
          else load_loop rest (merge_values (sm_source (so_metadata source)) (sr_values r) acc)
                 (diagnostics' @ sr_diagnostics r))"

section \<open>Repeated sections\<close>

fun match_repeated ::
    "(nat \<Rightarrow> string \<Rightarrow> unit result) \<Rightarrow> string \<Rightarrow> (string \<times> RepeatedConfigSection) list
     \<Rightarrow> (string \<times> RepeatedConfigSection) option result" where
  "match_repeated validate section_name [] = Inr None"
| "match_repeated validate section_name ((prefix, repeated) # rest) =
     (if \<not> py_startswith section_name (prefix @ ''.'') then match_repeated validate section_name rest
      else case rs_name_validator repeated of
          None \<Rightarrow> Inr (Some (prefix, repeated))
        | Some v \<Rightarrow> (case validate v (drop (length prefix + 1) section_name) of
            Inl e \<Rightarrow> Inl (if e = TypeError \<or> e = ValueError then ConfigSourceError else e)
          | Inr _ \<Rightarrow> Inr (Some (prefix, repeated))))"

fun resolved_loop ::
    "(nat \<Rightarrow> string \<Rightarrow> unit result) \<Rightarrow> ConfigDef \<Rightarrow> (string \<times> RepeatedConfigSection) list \<Rightarrow> string list
     \<Rightarrow> (string, string \<times> RepeatedConfigSection) dict \<Rightarrow> (string, string \<times> RepeatedConfigSection) dict result" where
  "resolved_loop validate d repeated_definitions [] resolved = Inr resolved"
| "resolved_loop validate d repeated_definitions (section_name # rest) resolved =
     (if dict_get (df_sections d) section_name \<noteq> None
      then resolved_loop validate d repeated_definitions rest resolved
      else res_bind (match_repeated validate section_name repeated_definitions) (\<lambda>found.
        resolved_loop validate d repeated_definitions rest
          (case found of None \<Rightarrow> resolved | Some pr \<Rightarrow> dict_set section_name pr resolved)))"

text \<open>Longer prefixes are tried first; the sort is stable.\<close>

definition resolved_repeated_sections ::
    "(nat \<Rightarrow> string \<Rightarrow> unit result) \<Rightarrow> ConfigDef \<Rightarrow> sections
     \<Rightarrow> (string, string \<times> RepeatedConfigSection) dict result" where
  "resolved_repeated_sections validate d source_values =
     resolved_loop validate d (sort_key (\<lambda>p. - int (length (fst p))) (df_repeated_sections d))
       (dict_keys source_values) []"

section \<open>Defaults, environment and transforms\<close>

definition default_values :: "ConfigDef \<Rightarrow> (string, string \<times> RepeatedConfigSection) dict \<Rightarrow> sections" where
  "default_values d repeated_sections =
     dict_update
       (map (\<lambda>(s, g). (s, group_defaults g)) (filter (\<lambda>(_, g). group_defaults g \<noteq> []) (df_sections d)))
       (map (\<lambda>(s, (_, r)). (s, group_defaults (rs_group r)))
         (filter (\<lambda>(_, (_, r)). group_defaults (rs_group r) \<noteq> []) repeated_sections))"

text \<open>What the environment object answers for a name: \<open>is_set\<close> and \<open>get\<close>.\<close>

record env_answer =
  ea_is_set :: bool
  ea_get :: "string option"

definition put_value :: "string \<Rightarrow> string \<Rightarrow> string \<Rightarrow> sections \<Rightarrow> sections" where
  "put_value s f v d = dict_set s (dict_set f (PyAtom (PyStr v)) (section_of d s)) d"

definition env_field :: "(string \<Rightarrow> env_answer) \<Rightarrow> string \<Rightarrow> string \<times> string list \<Rightarrow> sections \<Rightarrow> sections" where
  "env_field environ s = (\<lambda>(f, names) d.
     case find (\<lambda>n. ea_is_set (environ n)) names of
       None \<Rightarrow> d
     | Some n \<Rightarrow> (case ea_get (environ n) of None \<Rightarrow> d | Some v \<Rightarrow> put_value s f v d))"

definition repeated_env_name :: "string \<Rightarrow> string \<Rightarrow> string \<Rightarrow> string" where
  "repeated_env_name prefix instance_name field_name =
     prefix @ ''__'' @ map py_upper_char instance_name @ ''__'' @ map py_upper_char field_name"

definition repeated_env_fields ::
    "(string \<Rightarrow> env_answer) \<Rightarrow> string \<times> string \<times> RepeatedConfigSection \<Rightarrow> sections \<Rightarrow> sections" where
  "repeated_env_fields environ = (\<lambda>(s, section_prefix, r) d.
     case rs_environment_prefix r of
       None \<Rightarrow> d
     | Some prefix \<Rightarrow>
         let instance_name = (if py_startswith s (section_prefix @ ''.'') then drop (length section_prefix + 1) s else s)
         in fold (\<lambda>f d.
              let n = repeated_env_name prefix instance_name f
              in if \<not> ea_is_set (environ n) then d
                 else case ea_get (environ n) of None \<Rightarrow> d | Some v \<Rightarrow> put_value s f v d)
              (rs_environment_fields r) d)"

definition env_values ::
    "ConfigDef \<Rightarrow> (string, string \<times> RepeatedConfigSection) dict \<Rightarrow> (string \<Rightarrow> env_answer) \<Rightarrow> sections" where
  "env_values d repeated_sections environ =
     fold (repeated_env_fields environ) repeated_sections
       (fold (\<lambda>(s, g). fold (env_field environ s) (group_env g)) (df_sections d) [])"

text \<open>The transforms of one section, in the order of its fields. Any exception is reported as one of the
  configuration.\<close>

fun transform_fields ::
    "(nat \<Rightarrow> pyvalue \<Rightarrow> pyvalue result) \<Rightarrow> (string \<times> ConfigField) list \<Rightarrow> (string, pyvalue) dict
     \<Rightarrow> (string, pyvalue) dict result" where
  "transform_fields apply' [] vs = Inr vs"
| "transform_fields apply' ((field_name, field_def) # rest) vs =
     (case fd_transform field_def of
        None \<Rightarrow> transform_fields apply' rest vs
      | Some t \<Rightarrow> (case dict_get vs field_name of
          None \<Rightarrow> transform_fields apply' rest vs
        | Some v \<Rightarrow> (case apply' t v of
            Inl _ \<Rightarrow> Inl ConfigSourceError
          | Inr v' \<Rightarrow> transform_fields apply' rest (dict_set field_name v' vs))))"

fun transform_sections ::
    "(nat \<Rightarrow> pyvalue \<Rightarrow> pyvalue result) \<Rightarrow> (string \<times> ConfigGroup) list \<Rightarrow> sections \<Rightarrow> sections result" where
  "transform_sections apply' [] vs = Inr vs"
| "transform_sections apply' ((s, g) # rest) vs =
     (case dict_get vs s of
        None \<Rightarrow> transform_sections apply' rest vs
      | Some m \<Rightarrow> res_bind (transform_fields apply' (gr_field_map g) m) (\<lambda>m'.
          transform_sections apply' rest (dict_set s m' vs)))"

definition all_sections ::
    "ConfigDef \<Rightarrow> (string, string \<times> RepeatedConfigSection) dict \<Rightarrow> (string, ConfigGroup) dict" where
  "all_sections d repeated_sections =
     dict_update (df_sections d) (map (\<lambda>(s, (_, r)). (s, rs_group r)) repeated_sections)"

definition transform_values ::
    "(nat \<Rightarrow> pyvalue \<Rightarrow> pyvalue result) \<Rightarrow> ConfigDef \<Rightarrow> (string, string \<times> RepeatedConfigSection) dict
     \<Rightarrow> sections \<Rightarrow> sections result" where
  "transform_values apply' d repeated_sections vs = transform_sections apply' (all_sections d repeated_sections) vs"

section \<open>The whole service\<close>

definition default_index :: "sections \<Rightarrow> (string, string) dict" where
  "default_index vs = fold (\<lambda>(s, kvs). fold (\<lambda>(k, _). dict_set (index_key s k) ''default'') kvs) vs []"

definition apply_config_defs ::
    "(nat \<Rightarrow> pyvalue \<Rightarrow> pyvalue result) \<Rightarrow> (nat \<Rightarrow> string \<Rightarrow> unit result) \<Rightarrow> ConfigDef list \<Rightarrow> sections
     \<Rightarrow> (string, string) dict \<Rightarrow> (string \<Rightarrow> env_answer) option \<Rightarrow> (sections \<times> (string, string) dict) result" where
  "apply_config_defs apply' validate definitions source_values source_index environ =
     res_bind (merge_config_defs definitions) (\<lambda>merged_def.
     res_bind (resolved_repeated_sections validate merged_def source_values) (\<lambda>repeated_sections.
       let dvs = default_values merged_def repeated_sections;
           acc = merge_indexed_values source_index source_values (dvs, default_index dvs);
           (vs, index) = (case environ of
               None \<Rightarrow> acc
             | Some env \<Rightarrow> merge_values ''environment'' (env_values merged_def repeated_sections env) acc)
       in res_bind (transform_values apply' merged_def repeated_sections vs) (\<lambda>vs'. Inr (vs', index))))"

definition APP_SECTION :: string where
  "APP_SECTION = ''app''"

definition APP_MODULES_KEY :: string where
  "APP_MODULES_KEY = ''modules''"

fun strings_of :: "pyvalue list \<Rightarrow> string list option" where
  "strings_of [] = Some []"
| "strings_of (PyAtom (PyStr s) # vs) = map_option (\<lambda>ss. s # ss) (strings_of vs)"
| "strings_of (_ # _) = None"

definition bootstrap_modules :: "sections \<Rightarrow> string list result" where
  "bootstrap_modules vs =
     (case dict_get (section_of vs APP_SECTION) APP_MODULES_KEY of
        None \<Rightarrow> Inr []
      | Some (PyAtom PyNone) \<Rightarrow> Inr []
      | Some (PySeq ms) \<Rightarrow> (case strings_of ms of Some names \<Rightarrow> Inr names | None \<Rightarrow> Inl ConfigDefinitionError)
      | Some _ \<Rightarrow> Inl ConfigDefinitionError)"

text \<open>What importing a module and reading its \<open>module_config\<close> gives.\<close>

datatype module_answer = ImportFails | NoModuleConfig | NotAConfigDef | ModuleConfig ConfigDef

fun discover_module_config_defs :: "(string \<Rightarrow> module_answer) \<Rightarrow> string list \<Rightarrow> ConfigDef list result" where
  "discover_module_config_defs modules [] = Inr []"
| "discover_module_config_defs modules (name # rest) =
     (case modules name of
        ImportFails \<Rightarrow> Inl ConfigDefinitionError
      | NoModuleConfig \<Rightarrow> discover_module_config_defs modules rest
      | NotAConfigDef \<Rightarrow> Inl ConfigDefinitionError
      | ModuleConfig d \<Rightarrow> res_bind (discover_module_config_defs modules rest) (\<lambda>ds. Inr (d # ds)))"

definition resolved_config_defs ::
    "(string \<Rightarrow> module_answer) \<Rightarrow> bool \<Rightarrow> ConfigDef list \<Rightarrow> sections \<Rightarrow> ConfigDef list result" where
  "resolved_config_defs modules discover config_defs source_values =
     (if \<not> discover then Inr config_defs
      else res_bind (bootstrap_modules source_values) (\<lambda>names.
           res_bind (discover_module_config_defs modules names) (\<lambda>ds. Inr (config_defs @ ds))))"

definition load_sources ::
    "(nat \<Rightarrow> pyvalue \<Rightarrow> pyvalue result) \<Rightarrow> (nat \<Rightarrow> string \<Rightarrow> unit result) \<Rightarrow> (string \<Rightarrow> module_answer)
     \<Rightarrow> (string \<Rightarrow> env_answer) option \<Rightarrow> ConfigSource list \<Rightarrow> ConfigDef list \<Rightarrow> bool \<Rightarrow> LoadedConfig result" where
  "load_sources apply' validate modules environ sources config_defs discover =
     res_bind (load_loop sources ([], []) []) (\<lambda>((source_values, value_sources), diagnostics').
     res_bind (resolved_config_defs modules discover config_defs source_values) (\<lambda>defs.
     res_bind (apply_config_defs apply' validate defs source_values value_sources environ) (\<lambda>(vs, index).
       Inr \<lparr>lc_values = vs, lc_sources = index, lc_diagnostics = diagnostics'\<rparr>)))"

section \<open>Layers\<close>

definition lookup2 :: "sections \<Rightarrow> string \<Rightarrow> string \<Rightarrow> pyvalue option" where
  "lookup2 d s f = dict_get (section_of d s) f"

definition wf_layer :: "sections \<Rightarrow> bool" where
  "wf_layer d \<longleftrightarrow> distinct (dict_keys d) \<and> (\<forall>m \<in> set (dict_values d). distinct (dict_keys m))"

definition dotless :: "sections \<Rightarrow> bool" where
  "dotless d \<longleftrightarrow> (\<forall>m \<in> set (dict_values d). \<forall>k \<in> set (dict_keys m). CHR ''.'' \<notin> set k)"

text \<open>What overwriting by a later layer means, for one value and for its origin: the last layer that
  has the field wins.\<close>

fun winning :: "(string \<times> sections) list \<Rightarrow> string \<Rightarrow> string \<Rightarrow> (string \<times> pyvalue) option" where
  "winning [] s f = None"
| "winning ((n, d) # layers) s f =
     (case winning layers s f of Some x \<Rightarrow> Some x | None \<Rightarrow> map_option (Pair n) (lookup2 d s f))"

lemma winning_append:
  "winning (ls @ ls') s f = (case winning ls' s f of Some x \<Rightarrow> Some x | None \<Rightarrow> winning ls s f)"
  by (induction ls) (auto split: option.splits)

lemma dict_update_Cons: "dict_update target ((k, v) # vs) = dict_update (dict_set k v target) vs"
  by (simp add: dict_update_def)

lemma dict_get_update:
  assumes "distinct (dict_keys vs)"
  shows "dict_get (dict_update target vs) k =
    (case dict_get vs k of Some v \<Rightarrow> Some v | None \<Rightarrow> dict_get target k)"
  using assms
proof (induction vs arbitrary: target)
  case (Cons p vs)
  obtain a b where p: "p = (a, b)" by fastforce
  have "dict_get vs a = None" using Cons.prems p by (simp add: map_of_eq_None_iff)
  then show ?case
    using Cons p by (cases "k = a") (simp_all add: dict_update_Cons split: option.split)
qed (simp add: dict_update_def)

lemma dict_update_distinct: "distinct (dict_keys target) \<Longrightarrow> distinct (dict_keys (dict_update target vs))"
  by (induction vs arbitrary: target) (auto simp: dict_update_def dict_keys_distinct_set)

lemma dict_get_fold_index:
  assumes "\<forall>k \<in> set (dict_keys kvs). g k = q \<longrightarrow> k = f" and "g f = q"
  shows "dict_get (fold (\<lambda>(k, _). dict_set (g k) (h k)) kvs index) q =
    (if f \<in> set (dict_keys kvs) then Some (h f) else dict_get index q)"
  using assms by (induction kvs arbitrary: index) auto

lemma dict_get_fold_index_other:
  assumes "\<forall>k \<in> set (dict_keys kvs). g k \<noteq> q"
  shows "dict_get (fold (\<lambda>(k, _). dict_set (g k) (h k)) kvs index) q = dict_get index q"
  using assms by (induction kvs arbitrary: index) auto

lemma index_key_inj:
  assumes "index_key s k = index_key s' k'" and "CHR ''.'' \<notin> set k" and "CHR ''.'' \<notin> set k'"
  shows "s = s' \<and> k = k'"
proof -
  have "rev k @ CHR ''.'' # rev s = rev k' @ CHR ''.'' # rev s'"
    using arg_cong [OF assms(1), of rev] by (simp add: index_key_def)
  then have "rev k = rev k' \<and> rev s = rev s'"
    using assms(2,3) by (intro append_sep_eq) simp_all
  then show ?thesis by simp
qed

text \<open>Both merges have the same shape: \<open>origin\<close> is what the index receives for a field.\<close>

definition merge_layer ::
    "(string \<Rightarrow> string \<Rightarrow> string) \<Rightarrow> sections \<Rightarrow> sections \<times> (string, string) dict \<Rightarrow> sections \<times> (string, string) dict" where
  "merge_layer origin vs = fold (\<lambda>(s, kvs) (target, index).
     (dict_set s (dict_update (section_of target s) kvs) target,
      fold (\<lambda>(k, _). dict_set (index_key s k) (origin s k)) kvs index)) vs"

lemma merge_values_layer: "merge_values n = merge_layer (\<lambda>_ _. n)"
  by (simp add: fun_eq_iff merge_values_def merge_layer_def)

lemma merge_indexed_layer:
  "merge_indexed_values i =
     merge_layer (\<lambda>s k. case dict_get i (index_key s k) of None \<Rightarrow> ''source'' | Some n \<Rightarrow> n)"
  by (simp add: fun_eq_iff merge_indexed_values_def merge_layer_def)

lemma section_of_set [simp]: "section_of (dict_set s m d) s' = (if s' = s then m else section_of d s')"
  by (simp add: section_of_def)

lemma wf_layer_Cons:
  assumes "wf_layer ((s, kvs) # vs)"
  shows "distinct (dict_keys kvs)" and "wf_layer vs" and "section_of vs s = []"
proof -
  show "distinct (dict_keys kvs)" and "wf_layer vs" using assms by (simp_all add: wf_layer_def)
  have "dict_get vs s = None" using assms by (simp add: wf_layer_def map_of_eq_None_iff)
  then show "section_of vs s = []" by (simp add: section_of_def)
qed

lemma section_of_Cons: "section_of ((s, kvs) # vs) s' = (if s' = s then kvs else section_of vs s')"
  by (simp add: section_of_def)

lemma merge_layer_Cons:
  "merge_layer origin ((s, kvs) # vs) (target, index) =
     merge_layer origin vs (dict_set s (dict_update (section_of target s) kvs) target,
       fold (\<lambda>(k, _). dict_set (index_key s k) (origin s k)) kvs index)"
  by (simp add: merge_layer_def)

lemma merge_layer_values:
  assumes "wf_layer vs"
  shows "lookup2 (fst (merge_layer origin vs (target, index))) s f =
    (case lookup2 vs s f of Some v \<Rightarrow> Some v | None \<Rightarrow> lookup2 target s f)"
  using assms
proof (induction vs arbitrary: target index)
  case (Cons p vs)
  obtain t kvs where p: "p = (t, kvs)" by fastforce
  note wf = wf_layer_Cons [OF Cons.prems [unfolded p]]
  have "lookup2 (fst (merge_layer origin (p # vs) (target, index))) s f =
      (case lookup2 vs s f of Some v \<Rightarrow> Some v
       | None \<Rightarrow> lookup2 (dict_set t (dict_update (section_of target t) kvs) target) s f)"
    unfolding p merge_layer_Cons by (rule Cons.IH [OF wf(2)])
  then show ?case
    using wf by (cases "s = t") (simp_all add: p lookup2_def section_of_Cons dict_get_update split: option.split)
qed (simp add: merge_layer_def lookup2_def section_of_def)

lemma merge_layer_index:
  assumes "wf_layer vs" and "dotless vs" and "CHR ''.'' \<notin> set f"
  shows "dict_get (snd (merge_layer origin vs (target, index))) (index_key s f) =
    (case lookup2 vs s f of Some _ \<Rightarrow> Some (origin s f) | None \<Rightarrow> dict_get index (index_key s f))"
  using assms
proof (induction vs arbitrary: target index)
  case (Cons p vs)
  obtain t kvs where p: "p = (t, kvs)" by fastforce
  note wf = wf_layer_Cons [OF Cons.prems(1) [unfolded p]]
  have dots: "dotless vs" "\<And>k. k \<in> set (dict_keys kvs) \<Longrightarrow> CHR ''.'' \<notin> set k"
    using Cons.prems(2) by (auto simp: dotless_def p)
  let ?i = "fold (\<lambda>(k, _). dict_set (index_key t k) (origin t k)) kvs index"
  have IH: "dict_get (snd (merge_layer origin (p # vs) (target, index))) (index_key s f) =
      (case lookup2 vs s f of Some v \<Rightarrow> Some (origin s f) | None \<Rightarrow> dict_get ?i (index_key s f))"
    unfolding p merge_layer_Cons by (rule Cons.IH [OF wf(2) dots(1) Cons.prems(3)])
  show ?case
  proof (cases "s = t")
    case True
    have "dict_get ?i (index_key s f) = (if f \<in> set (dict_keys kvs) then Some (origin s f) else dict_get index (index_key s f))"
      unfolding True by (rule dict_get_fold_index) (use index_key_inj dots(2) Cons.prems(3) in blast)+
    moreover have "f \<in> set (dict_keys kvs) \<longleftrightarrow> dict_get kvs f \<noteq> None" by (simp only: in_dict_iff)
    ultimately show ?thesis
      using True wf(3) IH by (auto simp: p lookup2_def section_of_Cons split: option.splits)
  next
    case False
    have "dict_get ?i (index_key s f) = dict_get index (index_key s f)"
      by (rule dict_get_fold_index_other) (use index_key_inj dots(2) Cons.prems(3) False in blast)
    then show ?thesis using False IH by (simp add: p lookup2_def section_of_Cons split: option.split)
  qed
qed (simp add: merge_layer_def lookup2_def section_of_def)

lemma dict_values_set: "v' \<in> set (dict_values (dict_set k v d)) \<Longrightarrow> v' = v \<or> v' \<in> set (dict_values d)"
  using set_dict_set_subset [of k v d] by force

lemma wf_layer_set: "wf_layer d \<Longrightarrow> distinct (dict_keys m) \<Longrightarrow> wf_layer (dict_set s m d)"
  unfolding wf_layer_def by (blast dest: dict_values_set)

lemma dotless_set: "dotless d \<Longrightarrow> \<forall>k \<in> set (dict_keys m). CHR ''.'' \<notin> set k \<Longrightarrow> dotless (dict_set s m d)"
  unfolding dotless_def by (blast dest: dict_values_set)

lemma section_of_in: "section_of d s = [] \<or> section_of d s \<in> set (dict_values d)"
  by (cases "dict_get d s") (auto simp: section_of_def simp del: map_of_eq_Some_iff dest!: dict_get_in_set intro: rev_image_eqI)

lemma section_of_wf: "wf_layer d \<Longrightarrow> distinct (dict_keys (section_of d s))"
  using section_of_in [of d s] unfolding wf_layer_def by fastforce

lemma section_of_dotless: "dotless d \<Longrightarrow> k \<in> set (dict_keys (section_of d s)) \<Longrightarrow> CHR ''.'' \<notin> set k"
  using section_of_in [of d s] unfolding dotless_def by fastforce

lemma dict_update_keys: "set (dict_keys (dict_update d vs)) = set (dict_keys d) \<union> set (dict_keys vs)"
proof (induction vs arbitrary: d)
  case (Cons p vs)
  then show ?case by (cases p) (simp add: dict_update_Cons dom_update)
qed (simp add: dict_update_def)

lemma merge_layer_wf: "wf_layer target \<Longrightarrow> wf_layer (fst (merge_layer origin vs (target, index)))"
proof (induction vs arbitrary: target index)
  case (Cons p vs)
  then show ?case
    by (cases p) (simp add: merge_layer_Cons wf_layer_set section_of_wf dict_update_distinct)
qed (simp add: merge_layer_def)

lemma merge_layer_dotless:
  assumes "dotless target" and "dotless vs"
  shows "dotless (fst (merge_layer origin vs (target, index)))"
  using assms
proof (induction vs arbitrary: target index)
  case (Cons p vs)
  obtain s kvs where p: "p = (s, kvs)" by fastforce
  have "dotless vs" and kvs: "\<forall>k \<in> set (dict_keys kvs). CHR ''.'' \<notin> set k"
    using Cons.prems(2) by (auto simp: dotless_def p)
  moreover have "dotless (dict_set s (dict_update (section_of target s) kvs) target)"
    by (rule dotless_set [OF Cons.prems(1)])
      (use kvs section_of_dotless [OF Cons.prems(1)] in \<open>simp only: dict_update_keys, blast\<close>)
  ultimately show ?case using Cons.IH by (simp add: p merge_layer_Cons)
qed (simp add: merge_layer_def)

section \<open>The layers of the sources\<close>

fun loaded :: "ConfigSource list \<Rightarrow> (string \<times> sections) list" where
  "loaded [] = []"
| "loaded (source # rest) =
     (case so_load source of
        Inl _ \<Rightarrow> loaded rest
      | Inr r \<Rightarrow> if has_error_diagnostic r then loaded rest
          else (sm_source (so_metadata source), sr_values r) # loaded rest)"

definition merge_all :: "(string \<times> sections) list \<Rightarrow> sections \<times> (string, string) dict \<Rightarrow> sections \<times> (string, string) dict" where
  "merge_all layers = fold (\<lambda>(n, vs). merge_values n vs) layers"

lemma load_loop_layers: "load_loop sources acc ds = Inr (acc', ds') \<Longrightarrow> acc' = merge_all (loaded sources) acc"
  by (induction sources acc ds rule: load_loop.induct) (auto simp: merge_all_def split: sum.splits if_splits)

lemma merge_all_Cons: "merge_all ((n, vs) # ls) acc = merge_all ls (merge_layer (\<lambda>_ _. n) vs acc)"
  by (simp add: merge_all_def merge_values_layer)

lemma merge_all_result:
  assumes "\<forall>(n, vs) \<in> set ls. wf_layer vs \<and> dotless vs" and "CHR ''.'' \<notin> set f"
  shows "lookup2 (fst (merge_all ls (t, i))) s f =
      (case winning ls s f of Some (n, v) \<Rightarrow> Some v | None \<Rightarrow> lookup2 t s f)"
    and "dict_get (snd (merge_all ls (t, i))) (index_key s f) =
      (case winning ls s f of Some (n, v) \<Rightarrow> Some n | None \<Rightarrow> dict_get i (index_key s f))"
proof -
  have "lookup2 (fst (merge_all ls (t, i))) s f =
        (case winning ls s f of Some (n, v) \<Rightarrow> Some v | None \<Rightarrow> lookup2 t s f)
    \<and> dict_get (snd (merge_all ls (t, i))) (index_key s f) =
        (case winning ls s f of Some (n, v) \<Rightarrow> Some n | None \<Rightarrow> dict_get i (index_key s f))"
    using assms(1)
  proof (induction ls arbitrary: t i)
    case (Cons l ls)
    obtain n vs where l: "l = (n, vs)" by fastforce
    obtain t' i' where m: "merge_layer (\<lambda>_ _. n) vs (t, i) = (t', i')" by fastforce
    have vs: "wf_layer vs" "dotless vs" using Cons.prems l by auto
    have "lookup2 t' s f = (case lookup2 vs s f of Some v \<Rightarrow> Some v | None \<Rightarrow> lookup2 t s f)"
      using merge_layer_values [OF vs(1), of "\<lambda>_ _. n" t i s f] m by simp
    moreover have "dict_get i' (index_key s f) = (case lookup2 vs s f of Some _ \<Rightarrow> Some n | None \<Rightarrow> dict_get i (index_key s f))"
      using merge_layer_index [OF vs assms(2), of "\<lambda>_ _. n" t i s] m by simp
    ultimately show ?case
      using Cons.IH [of t' i'] Cons.prems by (auto simp: l merge_all_Cons m split: option.splits)
  qed (simp add: merge_all_def)
  then show "lookup2 (fst (merge_all ls (t, i))) s f =
      (case winning ls s f of Some (n, v) \<Rightarrow> Some v | None \<Rightarrow> lookup2 t s f)"
    and "dict_get (snd (merge_all ls (t, i))) (index_key s f) =
      (case winning ls s f of Some (n, v) \<Rightarrow> Some n | None \<Rightarrow> dict_get i (index_key s f))"
    by blast+
qed

lemma merge_all_wf:
  assumes "\<forall>(n, vs) \<in> set ls. wf_layer vs \<and> dotless vs" and "wf_layer t" and "dotless t"
  shows "wf_layer (fst (merge_all ls (t, i)))" and "dotless (fst (merge_all ls (t, i)))"
proof -
  have "wf_layer (fst (merge_all ls (t, i))) \<and> dotless (fst (merge_all ls (t, i)))"
    using assms
  proof (induction ls arbitrary: t i)
    case (Cons l ls)
    obtain n vs where l: "l = (n, vs)" by fastforce
    obtain t' i' where m: "merge_layer (\<lambda>_ _. n) vs (t, i) = (t', i')" by fastforce
    have "wf_layer t'" "dotless t'"
      using merge_layer_wf [of t "\<lambda>_ _. n" vs i] merge_layer_dotless [of t vs "\<lambda>_ _. n" i] Cons.prems m l by auto
    then show ?case using Cons.IH [of t' i'] Cons.prems by (simp add: l merge_all_Cons m)
  qed (simp add: merge_all_def)
  then show "wf_layer (fst (merge_all ls (t, i)))" and "dotless (fst (merge_all ls (t, i)))" by blast+
qed

section \<open>Transforms\<close>

definition transformed :: "(nat \<Rightarrow> pyvalue \<Rightarrow> pyvalue result) \<Rightarrow> ConfigField option \<Rightarrow> pyvalue \<Rightarrow> pyvalue option" where
  "transformed apply' fd v =
     (case fd of None \<Rightarrow> Some v
      | Some fd \<Rightarrow> (case fd_transform fd of None \<Rightarrow> Some v
        | Some t \<Rightarrow> (case apply' t v of Inl _ \<Rightarrow> None | Inr v' \<Rightarrow> Some v')))"

lemma transformed_simps:
  "transformed apply' None v = Some v"
  "fd_transform fd = None \<Longrightarrow> transformed apply' (Some fd) v = Some v"
  "fd_transform fd = Some t \<Longrightarrow> apply' t v = Inr v' \<Longrightarrow> transformed apply' (Some fd) v = Some v'"
  by (simp_all add: transformed_def)

lemma transform_fields_get:
  assumes "transform_fields apply' fs vs = Inr m" and "distinct (dict_keys fs)"
  shows "case dict_get vs k of None \<Rightarrow> dict_get m k = None
    | Some v \<Rightarrow> dict_get m k \<noteq> None \<and> dict_get m k = transformed apply' (dict_get fs k) v"
  using assms
proof (induction fs arbitrary: vs)
  case (Cons p fs)
  obtain n fd where p: "p = (n, fd)" by fastforce
  have fresh: "dict_get fs n = None" using Cons.prems p by (simp add: map_of_eq_None_iff)
  have d: "distinct (dict_keys fs)" using Cons.prems by simp
  show ?case
  proof (cases "fd_transform fd = None \<or> dict_get vs n = None")
    case True
    then have "transform_fields apply' fs vs = Inr m" using Cons.prems p by (auto split: option.splits)
    from Cons.IH [OF this d] True fresh show ?thesis
      by (cases "k = n"; cases "dict_get vs k") (auto simp: p transformed_simps simp del: map_of_eq_Some_iff)
  next
    case False
    then obtain t v v' where t: "fd_transform fd = Some t" and v: "dict_get vs n = Some v"
      and v': "apply' t v = Inr v'" and m: "transform_fields apply' fs (dict_set n v' vs) = Inr m"
      using Cons.prems p by (auto split: sum.splits)
    from Cons.IH [OF m d] t v v' fresh show ?thesis
      by (cases "k = n"; cases "dict_get vs k") (auto simp: p transformed_simps simp del: map_of_eq_Some_iff)
  qed
qed (auto simp: transformed_simps split: option.split)

lemma transform_sections_get:
  assumes "transform_sections apply' gs vs = Inr r" and "distinct (dict_keys gs)"
    and "\<forall>g \<in> set (dict_values gs). distinct (dict_keys (gr_field_map g))"
  shows "case lookup2 vs s k of None \<Rightarrow> lookup2 r s k = None
    | Some v \<Rightarrow> lookup2 r s k \<noteq> None \<and> lookup2 r s k = transformed apply' (declared gs s k) v"
  using assms
proof (induction gs arbitrary: vs)
  case (Cons p gs)
  obtain t g where p: "p = (t, g)" by fastforce
  have "dict_get gs t = None" using Cons.prems(2) p by (simp add: map_of_eq_None_iff)
  then have fresh: "declared gs t k = None" by (simp add: declared_def)
  show ?case
  proof (cases "dict_get vs t")
    case None
    then have "transform_sections apply' gs vs = Inr r" using Cons.prems p by simp
    from Cons.IH [OF this] Cons.prems have IH: "case lookup2 vs s k of None \<Rightarrow> lookup2 r s k = None
      | Some v \<Rightarrow> lookup2 r s k \<noteq> None \<and> lookup2 r s k = transformed apply' (declared gs s k) v"
      by simp
    moreover have "lookup2 vs t k = None" by (simp add: lookup2_def section_of_def None)
    ultimately show ?thesis by (cases "s = t"; cases "lookup2 vs s k") (auto simp: p declared_Cons)
  next
    case (Some m)
    then obtain m' where m': "transform_fields apply' (gr_field_map g) m = Inr m'"
      and r: "transform_sections apply' gs (dict_set t m' vs) = Inr r" using Cons.prems p by auto
    have "distinct (dict_keys (gr_field_map g))" using Cons.prems p by simp
    note here = transform_fields_get [OF m' this, of k]
    have here': "lookup2 vs t k = dict_get m k" "lookup2 (dict_set t m' vs) s k = (if s = t then dict_get m' k else lookup2 vs s k)"
      by (simp_all add: lookup2_def section_of_def Some)
    from Cons.IH [OF r] Cons.prems have "case lookup2 (dict_set t m' vs) s k of None \<Rightarrow> lookup2 r s k = None
      | Some v \<Rightarrow> lookup2 r s k \<noteq> None \<and> lookup2 r s k = transformed apply' (declared gs s k) v"
      by simp
    then show ?thesis
      using here here' fresh by (cases "s = t"; cases "dict_get m k"; cases "lookup2 vs s k")
        (auto simp: p declared_Cons transformed_simps simp del: map_of_eq_Some_iff)
  qed
qed (auto simp: transformed_simps declared_def split: option.split)

section \<open>Defaults and environment are layers\<close>

definition plain_group :: "ConfigGroup \<Rightarrow> bool" where
  "plain_group g \<longleftrightarrow> wf_group g \<and> (\<forall>f \<in> set (gr_fields g). CHR ''.'' \<notin> set (fd_name f))"

definition plain_repeated :: "RepeatedConfigSection \<Rightarrow> bool" where
  "plain_repeated r \<longleftrightarrow> plain_group (rs_group r) \<and> (\<forall>f \<in> set (rs_environment_fields r). CHR ''.'' \<notin> set f)"

definition plain_def :: "ConfigDef \<Rightarrow> bool" where
  "plain_def d \<longleftrightarrow> wf_def d \<and> (\<forall>g \<in> set (dict_values (df_sections d)). plain_group g)
     \<and> (\<forall>r \<in> set (dict_values (df_repeated_sections d)). plain_repeated r)"

lemma dict_get_value: "dict_get d k = Some v \<Longrightarrow> v \<in> set (dict_values d)"
  by (force dest: dict_get_in_set)

lemma plain_merge:
  assumes "\<forall>d \<in> set ds. plain_def d" and "merge_config_defs ds = Inr m"
  shows "plain_def m"
proof -
  have wf: "wf_def m" and stems: "stems_from (set ds) m"
    using merge_config_defs_stems [OF _ assms(2)] assms(1) by (auto simp: plain_def_def)
  have "plain_group g" if "(s, g) \<in> set (df_sections m)" for s g
  proof -
    have get: "dict_get (df_sections m) s = Some g" and g: "wf_group g"
      using that wf by (auto simp: wf_def_def wf_sections_def)
    have "CHR ''.'' \<notin> set (fd_name f)" if "f \<in> set (gr_fields g)" for f
    proof -
      have "declared (df_sections m) s (fd_name f) = Some f"
        using that g wf_group_entries(1) [OF g, of "fd_name f" f] by (auto simp: declared_def get wf_group_iff)
      then obtain d where d: "d \<in> set ds" and "declared (df_sections d) s (fd_name f) = Some f"
        using stems unfolding stems_from_def by blast
      then obtain h where h: "dict_get (df_sections d) s = Some h" and "dict_get (gr_field_map h) (fd_name f) = Some f"
        by (cases "dict_get (df_sections d) s") (simp_all add: declared_def)
      moreover have "plain_group h"
        using dict_get_value [OF h] d assms(1) unfolding plain_def_def by blast
      ultimately show ?thesis by (auto simp: plain_group_def wf_group_iff simp del: map_of_eq_Some_iff dest!: dict_get_in_set)
    qed
    then show ?thesis using g by (simp add: plain_group_def)
  qed
  moreover have "plain_repeated r" if "(s, r) \<in> set (df_repeated_sections m)" for s r
  proof -
    have "dict_get (df_repeated_sections m) s = Some r" using that wf by (simp add: wf_def_def)
    then obtain d where "d \<in> set ds" "dict_get (df_repeated_sections d) s = Some r"
      using stems unfolding stems_from_def by blast
    then show ?thesis using dict_get_value [of "df_repeated_sections d" s r] assms(1)
      unfolding plain_def_def by blast
  qed
  ultimately show ?thesis using wf by (auto simp: plain_def_def)
qed

lemma match_repeated_in:
  "match_repeated validate s ps = Inr (Some pr) \<Longrightarrow> pr \<in> set ps"
  by (induction ps) (auto split: if_splits option.splits sum.splits)

lemma resolved_loop_in:
  assumes "resolved_loop validate d ps names resolved = Inr rep"
    and "\<forall>(s, pr) \<in> set resolved. pr \<in> set ps" and "distinct (dict_keys resolved)"
  shows "(\<forall>(s, pr) \<in> set rep. pr \<in> set ps) \<and> distinct (dict_keys rep)"
  using assms
proof (induction names arbitrary: resolved)
  case (Cons n names)
  show ?case
  proof (cases "dict_get (df_sections d) n")
    case None
    then obtain found where found: "match_repeated validate n ps = Inr found"
      and rest: "resolved_loop validate d ps names
        (case found of None \<Rightarrow> resolved | Some pr \<Rightarrow> dict_set n pr resolved) = Inr rep"
      using Cons.prems by auto
    have "\<forall>(s, pr) \<in> set (case found of None \<Rightarrow> resolved | Some pr \<Rightarrow> dict_set n pr resolved). pr \<in> set ps"
    proof (cases found)
      case (Some pr)
      then show ?thesis
        using match_repeated_in found Cons.prems(2) set_dict_set_subset [of n pr resolved] by fastforce
    qed (use Cons.prems in simp)
    then show ?thesis
      by (rule Cons.IH [OF rest]) (use Cons.prems(3) in \<open>auto split: option.splits\<close>)
  qed (use Cons in auto)
qed simp

lemma resolved_in:
  assumes "resolved_repeated_sections validate d vs = Inr rep"
  shows "(s, p, r) \<in> set rep \<Longrightarrow> (p, r) \<in> set (df_repeated_sections d)" and "distinct (dict_keys rep)"
  using resolved_loop_in [OF assms [unfolded resolved_repeated_sections_def]] by auto

definition plain_dict :: "(string, 'v) dict \<Rightarrow> bool" where
  "plain_dict d \<longleftrightarrow> distinct (dict_keys d) \<and> (\<forall>k \<in> set (dict_keys d). CHR ''.'' \<notin> set k)"

lemma plain_dict_set: "plain_dict d \<Longrightarrow> CHR ''.'' \<notin> set k \<Longrightarrow> plain_dict (dict_set k v d)"
proof -
  assume d: "plain_dict d" and k: "CHR ''.'' \<notin> set k"
  have "set (dict_keys (dict_set k v d)) = insert k (set (dict_keys d))" by (simp add: dom_update)
  moreover have "distinct (dict_keys (dict_set k v d))"
    using d by (intro dict_keys_distinct_set) (simp add: plain_dict_def)
  ultimately show "plain_dict (dict_set k v d)" using d k unfolding plain_dict_def by simp
qed

lemma group_defaults_plain:
  assumes "plain_group g"
  shows "plain_dict (group_defaults g)"
proof -
  have "plain_dict (fold (\<lambda>f d. case fd_default f of None \<Rightarrow> d | Some v \<Rightarrow> dict_set (fd_name f) v d) fs d)"
    if "plain_dict d" "\<forall>f \<in> set fs. CHR ''.'' \<notin> set (fd_name f)" for fs and d :: "(string, pyvalue) dict"
    using that by (induction fs arbitrary: d) (auto intro: plain_dict_set split: option.split)
  from this [of "[]" "gr_fields g"] assms show ?thesis
    by (simp add: group_defaults_def plain_group_def plain_dict_def)
qed

lemma group_env_plain:
  assumes "plain_group g"
  shows "plain_dict (group_env g)"
proof -
  have "plain_dict (fold (\<lambda>f d. if fd_env f = [] then d else dict_set (fd_name f) (fd_env f) d) fs d)"
    if "plain_dict d" "\<forall>f \<in> set fs. CHR ''.'' \<notin> set (fd_name f)" for fs and d :: "(string, string list) dict"
    using that by (induction fs arbitrary: d) (auto intro: plain_dict_set)
  from this [of "[]" "gr_fields g"] assms show ?thesis
    by (simp add: group_env_def plain_group_def plain_dict_def)
qed

definition plain_layer :: "sections \<Rightarrow> bool" where
  "plain_layer d \<longleftrightarrow> wf_layer d \<and> dotless d"

lemma plain_layer_iff: "plain_layer d \<longleftrightarrow> distinct (dict_keys d) \<and> (\<forall>m \<in> set (dict_values d). plain_dict m)"
  by (auto simp: plain_layer_def wf_layer_def dotless_def plain_dict_def)

lemma plain_layer_set: "plain_layer d \<Longrightarrow> plain_dict m \<Longrightarrow> plain_layer (dict_set s m d)"
  unfolding plain_layer_iff by (blast dest: dict_values_set)

lemma plain_section_of: "plain_layer d \<Longrightarrow> plain_dict (section_of d s)"
proof (cases "section_of d s = []")
  case False
  then show "plain_layer d \<Longrightarrow> ?thesis" using section_of_in [of d s] unfolding plain_layer_iff by blast
qed (simp add: plain_dict_def)

lemma plain_put_value: "plain_layer d \<Longrightarrow> CHR ''.'' \<notin> set f \<Longrightarrow> plain_layer (put_value s f v d)"
  by (simp add: put_value_def plain_layer_set plain_section_of plain_dict_set)

lemma default_values_plain:
  assumes "plain_def m" and "resolved_repeated_sections validate m vs = Inr rep"
  shows "plain_layer (default_values m rep)"
proof -
  have update: "plain_layer (dict_update d vs)" if "plain_layer d" "\<forall>kvs \<in> set (dict_values vs). plain_dict kvs" for d vs
    using that by (induction vs arbitrary: d) (auto simp: dict_update_def plain_layer_set)
  have groups: "plain_group g" if "(s, g) \<in> set (df_sections m)" for s g
    using assms(1) that by (force simp: plain_def_def)
  have reps: "plain_group (rs_group r)" if "(s, p, r) \<in> set rep" for s p r
    using resolved_in(1) [OF assms(2) that] assms(1) by (force simp: plain_def_def plain_repeated_def)
  have "distinct (dict_keys (df_sections m))"
    using assms(1) by (simp add: plain_def_def wf_def_def wf_sections_def)
  then have "plain_layer (map (\<lambda>(s, g). (s, group_defaults g)) (filter (\<lambda>(_, g). group_defaults g \<noteq> []) (df_sections m)))"
    using groups group_defaults_plain by (auto simp: plain_layer_iff o_def split_beta distinct_map_filter)
  then show ?thesis
    unfolding default_values_def by (rule update) (use reps group_defaults_plain in auto)
qed

lemma fold_keeps:
  "P d \<Longrightarrow> (\<And>x d. x \<in> set xs \<Longrightarrow> P d \<Longrightarrow> P (h x d)) \<Longrightarrow> P (fold h xs d)"
  by (induction xs arbitrary: d) auto

lemma env_values_plain:
  assumes "plain_def m" and "resolved_repeated_sections validate m vs = Inr rep"
  shows "plain_layer (env_values m rep environ)"
  unfolding env_values_def
proof (rule fold_keeps)
  show "plain_layer (fold (\<lambda>(s, g). fold (env_field environ s) (group_env g)) (df_sections m) [])"
  proof (rule fold_keeps)
    show "plain_layer []" by (simp add: plain_layer_iff)
    show "plain_layer ((\<lambda>(s, g). fold (env_field environ s) (group_env g)) sg d)"
      if sg: "sg \<in> set (df_sections m)" and d: "plain_layer d" for sg d
    proof -
      obtain s g where [simp]: "sg = (s, g)" by fastforce
      have env: "plain_dict (group_env g)" using sg assms(1) group_env_plain by (force simp: plain_def_def)
      have "plain_layer (fold (env_field environ s) (group_env g) d)"
      proof (rule fold_keeps [where P = plain_layer, OF d])
        show "plain_layer (env_field environ s fn d)" if "fn \<in> set (group_env g)" "plain_layer d" for fn d
        proof -
          have "CHR ''.'' \<notin> set (fst fn)" using that(1) env by (auto simp: plain_dict_def)
          then show ?thesis using that(2)
            by (auto simp: env_field_def split_beta split: option.split intro: plain_put_value)
        qed
      qed
      then show ?thesis by simp
    qed
  qed
  show "plain_layer (repeated_env_fields environ spr d)" if spr: "spr \<in> set rep" and d: "plain_layer d" for spr d
  proof -
    obtain s p r where [simp]: "spr = (s, p, r)" using prod_cases3 by blast
    have fs: "\<forall>f \<in> set (rs_environment_fields r). CHR ''.'' \<notin> set f"
      using resolved_in(1) [OF assms(2)] spr assms(1) by (force simp: plain_def_def plain_repeated_def)
    show ?thesis
    proof (cases "rs_environment_prefix r")
      case (Some prefix)
      then show ?thesis
        using fs by (auto simp: repeated_env_fields_def Let_def intro!: plain_put_value
            fold_keeps [where P = plain_layer, OF d] split: option.split)
    qed (simp add: repeated_env_fields_def d)
  qed
qed

section \<open>Properties of the service\<close>

lemma snd_merge_layer:
  "snd (merge_layer origin vs (target, index)) =
     fold (\<lambda>(s, kvs). fold (\<lambda>(k, _). dict_set (index_key s k) (origin s k)) kvs) vs index"
  by (induction vs arbitrary: target index) (auto simp: merge_layer_def)

lemma default_index_get:
  assumes "plain_layer vs" and "CHR ''.'' \<notin> set f"
  shows "dict_get (default_index vs) (index_key s f) = (case lookup2 vs s f of Some _ \<Rightarrow> Some ''default'' | None \<Rightarrow> None)"
proof -
  have "default_index vs = snd (merge_layer (\<lambda>_ _. ''default'') vs ([], []))"
    by (simp add: default_index_def snd_merge_layer)
  then show ?thesis
    using merge_layer_index [of vs f "\<lambda>_ _. ''default''" "[]" "[]" s] assms by (simp add: plain_layer_def split: option.split)
qed

lemma all_sections_wf:
  assumes "plain_def m" and "resolved_repeated_sections validate m vs = Inr rep"
  shows "distinct (dict_keys (all_sections m rep))"
    and "\<forall>g \<in> set (dict_values (all_sections m rep)). distinct (dict_keys (gr_field_map g))"
proof -
  have update: "\<forall>g \<in> set (dict_values (dict_update d vs)). P g"
    if "\<forall>g \<in> set (dict_values d). P g" "\<forall>g \<in> set (dict_values vs). P g"
    for P and d vs :: "(string, ConfigGroup) dict"
    using that
  proof (induction vs arbitrary: d)
    case (Cons p vs)
    have "\<forall>g \<in> set (dict_values (dict_set (fst p) (snd p) d)). P g"
    proof
      fix g assume "g \<in> set (dict_values (dict_set (fst p) (snd p) d))"
      then consider "g = snd p" | "g \<in> set (dict_values d)" by (auto dest: dict_values_set simp del: set_map)
      then show "P g"
      proof cases
        case 1
        then show ?thesis using Cons.prems(2) by simp
      next
        case 2
        then show ?thesis by (rule bspec [OF Cons.prems(1)])
      qed
    qed
    moreover have "\<forall>g \<in> set (dict_values vs). P g" using Cons.prems(2) by simp
    ultimately have "\<forall>g \<in> set (dict_values (dict_update (dict_set (fst p) (snd p) d) vs)). P g" by (rule Cons.IH)
    then show ?case using dict_update_Cons [of d "fst p" "snd p" vs] by simp
  qed (simp add: dict_update_def)
  have "\<forall>g \<in> set (dict_values (all_sections m rep)). wf_group g"
    unfolding all_sections_def
  proof (rule update)
    show "\<forall>g \<in> set (dict_values (df_sections m)). wf_group g"
      using assms(1) unfolding plain_def_def plain_group_def by blast
    show "\<forall>g \<in> set (dict_values (map (\<lambda>(s, _, r). (s, rs_group r)) rep)). wf_group g"
      using resolved_in(1) [OF assms(2)] assms(1) by (fastforce simp: plain_def_def plain_repeated_def plain_group_def)
  qed
  then show "\<forall>g \<in> set (dict_values (all_sections m rep)). distinct (dict_keys (gr_field_map g))"
    using wf_group_entries(2) by blast
  show "distinct (dict_keys (all_sections m rep))"
    unfolding all_sections_def by (rule dict_update_distinct)
      (use assms(1) in \<open>simp add: plain_def_def wf_def_def wf_sections_def\<close>)
qed

definition env_layer :: "(string \<Rightarrow> env_answer) option \<Rightarrow> ConfigDef \<Rightarrow> (string, string \<times> RepeatedConfigSection) dict \<Rightarrow> (string \<times> sections) list" where
  "env_layer environ m rep = (case environ of None \<Rightarrow> [] | Some env \<Rightarrow> [(''environment'', env_values m rep env)])"

text \<open>The values before the transforms and their index, for all layers.\<close>

lemma layers_merged:
  fixes environ :: "(string \<Rightarrow> env_answer) option"
  assumes "plain_def m" and "resolved_repeated_sections validate m source_values = Inr rep"
    and "\<forall>(n, vs) \<in> set ls. plain_layer vs" and "merge_all ls ([], []) = (source_values, source_index)"
    and "CHR ''.'' \<notin> set f"
  defines "dvs \<equiv> default_values m rep"
  defines "acc \<equiv> merge_indexed_values source_index source_values (dvs, default_index dvs)"
  defines "vsi \<equiv> (case environ of None \<Rightarrow> acc | Some env \<Rightarrow> merge_values ''environment'' (env_values m rep env) acc)"
  shows "lookup2 (fst vsi) s f = map_option snd (winning ([(''default'', dvs)] @ ls @ env_layer environ m rep) s f)"
    and "dict_get (snd vsi) (index_key s f) = map_option fst (winning ([(''default'', dvs)] @ ls @ env_layer environ m rep) s f)"
proof -
  have dvs: "plain_layer dvs" unfolding dvs_def by (rule default_values_plain [OF assms(1,2)])
  have ls: "\<forall>(n, vs) \<in> set ls. wf_layer vs \<and> dotless vs" using assms(3) by (simp add: plain_layer_def)
  have src: "wf_layer source_values" "dotless source_values"
    using merge_all_wf [OF ls, of "[]" "[]"] assms(4) by (simp_all add: wf_layer_def dotless_def)
  have src_get: "lookup2 source_values s f = map_option snd (winning ls s f)"
    and src_index: "dict_get source_index (index_key s f) = map_option fst (winning ls s f)"
    using merge_all_result [OF ls assms(5), of "[]" "[]" s] assms(4)
    by (auto simp: lookup2_def section_of_def split: option.splits)
  have acc: "lookup2 (fst acc) s f = (case winning ls s f of Some (n, v) \<Rightarrow> Some v | None \<Rightarrow> lookup2 dvs s f)"
    "dict_get (snd acc) (index_key s f) = (case winning ls s f of Some (n, v) \<Rightarrow> Some n
       | None \<Rightarrow> (case lookup2 dvs s f of Some _ \<Rightarrow> Some ''default'' | None \<Rightarrow> None))"
    unfolding acc_def merge_indexed_layer merge_layer_values [OF src(1)] merge_layer_index [OF src assms(5)]
    using src_get src_index default_index_get [OF dvs assms(5), of s] by (auto split: option.splits)
  have env: "wf_layer (env_values m rep env)" "dotless (env_values m rep env)" for env
    using env_values_plain [OF assms(1,2)] by (simp_all add: plain_layer_def)
  obtain a i where ai: "acc = (a, i)" by fastforce
  have "lookup2 (fst vsi) s f = map_option snd (winning ([(''default'', dvs)] @ ls @ env_layer environ m rep) s f)
    \<and> dict_get (snd vsi) (index_key s f) = map_option fst (winning ([(''default'', dvs)] @ ls @ env_layer environ m rep) s f)"
  proof (cases environ)
    case None
    then show ?thesis using acc unfolding vsi_def env_layer_def
      by (auto split: option.splits)
  next
    case (Some e)
    have "lookup2 (fst vsi) s f = (case lookup2 (env_values m rep e) s f of Some v \<Rightarrow> Some v | None \<Rightarrow> lookup2 (fst acc) s f)"
      "dict_get (snd vsi) (index_key s f) = (case lookup2 (env_values m rep e) s f of Some _ \<Rightarrow> Some ''environment''
         | None \<Rightarrow> dict_get (snd acc) (index_key s f))"
      unfolding vsi_def Some merge_values_layer ai by (simp_all add: merge_layer_values env merge_layer_index assms(5) split: option.split)
    then show ?thesis using acc unfolding env_layer_def Some
      by (auto simp: winning_append split: option.splits)
  qed
  then show "lookup2 (fst vsi) s f = map_option snd (winning ([(''default'', dvs)] @ ls @ env_layer environ m rep) s f)"
    and "dict_get (snd vsi) (index_key s f) = map_option fst (winning ([(''default'', dvs)] @ ls @ env_layer environ m rep) s f)"
    by blast+
qed

lemma layered_values:
  assumes "load_sources apply' validate modules environ sources config_defs discover = Inr c"
    and "\<forall>(n, vs) \<in> set (loaded sources). plain_layer vs"
    and "\<forall>defs. resolved_config_defs modules discover config_defs (fst (merge_all (loaded sources) ([], []))) = Inr defs
      \<longrightarrow> (\<forall>d \<in> set defs. plain_def d)"
    and "CHR ''.'' \<notin> set f"
  shows "\<exists>defs m rep. resolved_config_defs modules discover config_defs (fst (merge_all (loaded sources) ([], []))) = Inr defs
    \<and> merge_config_defs defs = Inr m
    \<and> resolved_repeated_sections validate m (fst (merge_all (loaded sources) ([], []))) = Inr rep
    \<and> (let layers = [(''default'', default_values m rep)] @ loaded sources @ env_layer environ m rep
       in case winning layers s f of
            None \<Rightarrow> lookup2 (lc_values c) s f = None \<and> dict_get (lc_sources c) (index_key s f) = None
          | Some (n, v) \<Rightarrow> dict_get (lc_sources c) (index_key s f) = Some n
              \<and> lookup2 (lc_values c) s f \<noteq> None
              \<and> lookup2 (lc_values c) s f = transformed apply' (declared (all_sections m rep) s f) v)"
proof -
  obtain source_values source_index where all: "merge_all (loaded sources) ([], []) = (source_values, source_index)"
    by fastforce
  obtain ds where "load_loop sources ([], []) [] = Inr ((source_values, source_index), ds)"
    using assms(1) load_loop_layers [of sources "([], [])" "[]"] all by (auto simp: load_sources_def)
  then obtain defs vs index where defs: "resolved_config_defs modules discover config_defs source_values = Inr defs"
    and app: "apply_config_defs apply' validate defs source_values source_index environ = Inr (vs, index)"
    and c: "lc_values c = vs" "lc_sources c = index"
    using assms(1) by (auto simp: load_sources_def)
  then obtain m rep where m: "merge_config_defs defs = Inr m"
    and rep: "resolved_repeated_sections validate m source_values = Inr rep"
    by (auto simp: apply_config_defs_def)
  have plain: "plain_def m" using plain_merge [OF _ m] assms(3) defs all by simp
  define acc where "acc = merge_indexed_values source_index source_values (default_values m rep, default_index (default_values m rep))"
  define vsi where "vsi = (case environ of None \<Rightarrow> acc | Some env \<Rightarrow> merge_values ''environment'' (env_values m rep env) acc)"
  have tr: "transform_sections apply' (all_sections m rep) (fst vsi) = Inr vs" and index: "index = snd vsi"
  proof -
    obtain v i where vi: "vsi = (v, i)" by fastforce
    have eq: "apply_config_defs apply' validate defs source_values source_index environ =
        res_bind (transform_values apply' m rep v) (\<lambda>vs'. Inr (vs', i))"
      unfolding apply_config_defs_def m rep res_bind_simps Let_def acc_def [symmetric] vsi_def [symmetric] vi by simp
    show "transform_sections apply' (all_sections m rep) (fst vsi) = Inr vs" and "index = snd vsi"
      using app [unfolded eq] by (simp_all add: vi transform_values_def)
  qed
  note merged = layers_merged [OF plain rep assms(2) all assms(4), of environ s, folded acc_def, folded vsi_def]
  note final = transform_sections_get [OF tr all_sections_wf [OF plain rep], of s f]
  let ?layers = "[(''default'', default_values m rep)] @ loaded sources @ env_layer environ m rep"
  have "case winning ?layers s f of
      None \<Rightarrow> lookup2 vs s f = None \<and> dict_get index (index_key s f) = None
    | Some (n, v) \<Rightarrow> dict_get index (index_key s f) = Some n \<and> lookup2 vs s f \<noteq> None
        \<and> lookup2 vs s f = transformed apply' (declared (all_sections m rep) s f) v"
  proof (cases "winning ?layers s f")
    case None
    then show ?thesis using merged final by (simp add: index)
  next
    case (Some nv)
    obtain n v where nv: "nv = (n, v)" by fastforce
    have v: "lookup2 (fst vsi) s f = Some v" and n: "dict_get index (index_key s f) = Some n"
      using merged Some nv by (simp_all add: index)
    show ?thesis
      unfolding Some nv option.case prod.case using n final [unfolded v option.case] by (intro conjI) blast+
  qed
  then show ?thesis
    unfolding c Let_def using defs m rep all by (intro exI [of _ defs] exI [of _ m] exI [of _ rep]) simp
qed

text \<open>What a module relies on when it reads its section: if its transforms only give normal values, then a
  load that succeeds leaves only normal values in the fields that have a transform.\<close>

locale normalising_transforms =
  fixes apply' :: "nat \<Rightarrow> pyvalue \<Rightarrow> pyvalue result" and normal :: "nat \<Rightarrow> pyvalue \<Rightarrow> bool"
  assumes normalises: "apply' t v = Inr w \<Longrightarrow> normal t w"
begin

lemma transformed_normal:
  "transformed apply' (Some fd) v = Some w \<Longrightarrow> fd_transform fd = Some t \<Longrightarrow> normal t w"
  by (auto simp: transformed_def normalises split: sum.splits)

lemma loaded_normal:
  assumes "load_sources apply' validate modules environ sources config_defs discover = Inr c"
    and "\<forall>(n, vs) \<in> set (loaded sources). plain_layer vs"
    and "\<forall>defs. resolved_config_defs modules discover config_defs (fst (merge_all (loaded sources) ([], []))) = Inr defs
      \<longrightarrow> (\<forall>d \<in> set defs. plain_def d)"
    and "CHR ''.'' \<notin> set f"
    and "\<And>defs m rep. resolved_config_defs modules discover config_defs (fst (merge_all (loaded sources) ([], []))) = Inr defs
      \<Longrightarrow> merge_config_defs defs = Inr m
      \<Longrightarrow> resolved_repeated_sections validate m (fst (merge_all (loaded sources) ([], []))) = Inr rep
      \<Longrightarrow> \<exists>fd. declared (all_sections m rep) s f = Some fd \<and> fd_transform fd = Some t"
    and "lookup2 (lc_values c) s f = Some v"
  shows "normal t v"
proof -
  obtain defs m rep where ok: "resolved_config_defs modules discover config_defs (fst (merge_all (loaded sources) ([], []))) = Inr defs"
      "merge_config_defs defs = Inr m"
      "resolved_repeated_sections validate m (fst (merge_all (loaded sources) ([], []))) = Inr rep"
    and vals: "let layers = [(''default'', default_values m rep)] @ loaded sources @ env_layer environ m rep
       in case winning layers s f of
            None \<Rightarrow> lookup2 (lc_values c) s f = None \<and> dict_get (lc_sources c) (index_key s f) = None
          | Some (n, v) \<Rightarrow> dict_get (lc_sources c) (index_key s f) = Some n \<and> lookup2 (lc_values c) s f \<noteq> None
              \<and> lookup2 (lc_values c) s f = transformed apply' (declared (all_sections m rep) s f) v"
    using layered_values [OF assms(1,2,3,4), of s] by (elim exE conjE) (rule that)
  obtain fd where fd: "declared (all_sections m rep) s f = Some fd" "fd_transform fd = Some t"
    using assms(5) [OF ok] by blast
  show ?thesis
  proof (cases "winning ([(''default'', default_values m rep)] @ loaded sources @ env_layer environ m rep) s f")
    case None
    then show ?thesis using vals assms(6) by (simp add: Let_def)
  next
    case (Some nv)
    obtain n u where "nv = (n, u)" by fastforce
    then have "transformed apply' (Some fd) u = Some v"
      using vals Some assms(6) unfolding Let_def fd(1) by simp
    then show ?thesis by (rule transformed_normal) (rule fd(2))
  qed
qed

end

text \<open>C36: The configuration is layered. After a successful load, the value of a field is the transformed
  value of the last layer that has it: the environment if it sets the field, else the last of the sources
  that loaded, else the default of its definition; a field that no layer has is absent. The index names
  the layer the value came from. (Field names must not contain dots: the index joins section and field
  with one.)\<close>

theorem config_precedence:
  assumes "load_sources apply' validate modules environ sources config_defs discover = Inr c"
    and "\<forall>(n, vs) \<in> set (loaded sources). plain_layer vs"
    and "\<forall>defs. resolved_config_defs modules discover config_defs (fst (merge_all (loaded sources) ([], []))) = Inr defs
      \<longrightarrow> (\<forall>d \<in> set defs. plain_def d)"
    and "CHR ''.'' \<notin> set f"
  shows "\<exists>defs m rep. resolved_config_defs modules discover config_defs (fst (merge_all (loaded sources) ([], []))) = Inr defs
    \<and> merge_config_defs defs = Inr m
    \<and> resolved_repeated_sections validate m (fst (merge_all (loaded sources) ([], []))) = Inr rep
    \<and> (let layers = [(''default'', default_values m rep)] @ loaded sources @ env_layer environ m rep
       in case winning layers s f of
            None \<Rightarrow> lookup2 (lc_values c) s f = None \<and> dict_get (lc_sources c) (index_key s f) = None
          | Some (n, v) \<Rightarrow> dict_get (lc_sources c) (index_key s f) = Some n
              \<and> lookup2 (lc_values c) s f \<noteq> None
              \<and> lookup2 (lc_values c) s f = transformed apply' (declared (all_sections m rep) s f) v)"
  by (rule layered_values [OF assms])

text \<open>A source, a definition with two fields and an environment that sets one of them.\<close>

definition demo_config :: "ConfigDef" where
  "demo_config =
     (let b = \<lparr>fd_name = ''backend'', fd_default = Some (PyAtom (PyStr ''memory'')), fd_env = [''WYBRA_CACHE_BACKEND''],
               fd_transform = Some 0\<rparr>;
          u = \<lparr>fd_name = ''url'', fd_default = Some (PyAtom PyNone), fd_env = [''WYBRA_CACHE_URL''], fd_transform = None\<rparr>
      in \<lparr>df_sections = [(''cache'', \<lparr>gr_fields = [b, u], gr_field_map = [(''backend'', b), (''url'', u)]\<rparr>)],
          df_repeated_sections = []\<rparr>)"

definition demo_source :: ConfigSource where
  "demo_source = \<lparr>so_metadata = \<lparr>sm_source = ''file'', sm_required = True\<rparr>,
     so_load = Inr \<lparr>sr_values = [(''cache'', [(''backend'', PyAtom (PyStr ''redis''))])], sr_diagnostics = []\<rparr>\<rparr>"

definition demo_environ :: "string \<Rightarrow> env_answer" where
  "demo_environ n = (if n = ''WYBRA_CACHE_URL'' then \<lparr>ea_is_set = True, ea_get = Some ''redis://cache''\<rparr>
     else \<lparr>ea_is_set = False, ea_get = None\<rparr>)"

definition demo_load :: "LoadedConfig result" where
  "demo_load = load_sources (\<lambda>_ v. Inr v) (\<lambda>_ _. Inr ()) (\<lambda>_. NoModuleConfig) (Some demo_environ) [demo_source]
     [demo_config] False"

theorem config_precedence_witness:
  "\<exists>c. demo_load = Inr c \<and> lookup2 (lc_values c) ''cache'' ''url'' = Some (PyAtom (PyStr ''redis://cache''))
    \<and> (\<exists>m rep. merge_config_defs [demo_config] = Inr m
        \<and> (let layers = [(''default'', default_values m rep)] @ loaded [demo_source] @ env_layer (Some demo_environ) m rep
           in case winning layers ''cache'' ''url'' of
                None \<Rightarrow> lookup2 (lc_values c) ''cache'' ''url'' = None \<and> dict_get (lc_sources c) (index_key ''cache'' ''url'') = None
              | Some (n, v) \<Rightarrow> dict_get (lc_sources c) (index_key ''cache'' ''url'') = Some n
                  \<and> lookup2 (lc_values c) ''cache'' ''url'' \<noteq> None
                  \<and> lookup2 (lc_values c) ''cache'' ''url'' = transformed (\<lambda>_ v. Inr v) (declared (all_sections m rep) ''cache'' ''url'') v))"
proof -
  have ok: "case demo_load of Inl _ \<Rightarrow> False
      | Inr c \<Rightarrow> lookup2 (lc_values c) ''cache'' ''url'' = Some (PyAtom (PyStr ''redis://cache''))"
    and layers: "\<forall>(n, vs) \<in> set (loaded [demo_source]). plain_layer vs" and plain: "plain_def demo_config"
    by code_simp+
  obtain c where c: "demo_load = Inr c" using ok by (auto split: sum.splits)
  have url: "lookup2 (lc_values c) ''cache'' ''url'' = Some (PyAtom (PyStr ''redis://cache''))"
    using ok unfolding c by simp
  have defs: "\<forall>defs. resolved_config_defs (\<lambda>_. NoModuleConfig) False [demo_config]
      (fst (merge_all (loaded [demo_source]) ([], []))) = Inr defs \<longrightarrow> (\<forall>d \<in> set defs. plain_def d)"
    using plain by (auto simp: resolved_config_defs_def)
  have "CHR ''.'' \<notin> set ''url''" by simp
  from config_precedence [OF c [unfolded demo_load_def] layers defs this, of "''cache''"]
  show ?thesis using c url unfolding resolved_config_defs_def if_True not_False_eq_True sum.inject by blast
qed

end
