(* ===== verification/Config_Transforms.thy ===== *)
theory Config_Transforms
  imports Config_Types Cache_Registry
begin

text \<open>
  Transforms of configured values: \<open>src/src/wybra/config/transforms.py\<close>, the environment parser of
  \<open>config/sources.py\<close> and the cache settings of \<open>src/src/wybra/cache/config.py\<close>.

  Strings are of 8-bit characters, for which \<open>lower\<close>, \<open>strip\<close>, \<open>int\<close> and \<open>float\<close> are written out. Paths
  are left out: they need the file system.

  The lemmas show that the transforms of the cache section normalise: what they accept they leave alone,
  which matters because the service applies them and the settings apply them again.
\<close>

section \<open>Strings\<close>

definition strip_slashes :: "string \<Rightarrow> string" where
  "strip_slashes s = rev (dropWhile (\<lambda>c. c = CHR ''/'') (rev (dropWhile (\<lambda>c. c = CHR ''/'') s)))"

fun split_commas :: "string \<Rightarrow> string list" where
  "split_commas [] = [[]]"
| "split_commas (c # cs) =
     (if c = CHR '','' then [] # split_commas cs
      else case split_commas cs of [] \<Rightarrow> [[c]] | w # ws \<Rightarrow> (c # w) # ws)"

section \<open>General transforms\<close>

definition to_bool :: "pyobj \<Rightarrow> bool result" where
  "to_bool v =
     (case v of
        PyBool b \<Rightarrow> Inr b
      | PyStr s \<Rightarrow>
          let normalised = py_lower (py_strip s)
          in if normalised \<in> {''true'', ''1'', ''yes'', ''on''} then Inr True
             else if normalised \<in> {''false'', ''0'', ''no'', ''off''} then Inr False
             else Inl ValueError
      | _ \<Rightarrow> Inl ValueError)"

definition to_url_path :: "pyobj \<Rightarrow> string result" where
  "to_url_path v =
     (case v of
        PyStr s \<Rightarrow> if py_strip s = [] then Inl ValueError else Inr (CHR ''/'' # strip_slashes s)
      | _ \<Rightarrow> Inl ValueError)"

definition to_non_blank_string :: "pyobj \<Rightarrow> string result" where
  "to_non_blank_string v =
     (case v of PyStr s \<Rightarrow> if py_strip s \<noteq> [] then Inr (py_strip s) else Inl ValueError | _ \<Rightarrow> Inl ValueError)"

definition to_optional_non_blank_string :: "pyobj \<Rightarrow> string option result" where
  "to_optional_non_blank_string v =
     (case v of
        PyNone \<Rightarrow> Inr None
      | PyStr s \<Rightarrow> if py_strip s \<noteq> [] then Inr (Some (py_strip s)) else Inl ValueError
      | _ \<Rightarrow> Inl ValueError)"

text \<open>An integer beyond the range of floats overflows, and \<open>OverflowError\<close> is not caught.\<close>

definition to_positive_float :: "pyobj \<Rightarrow> pyfloat result" where
  "to_positive_float v =
     (case v of
        PyStr s \<Rightarrow> res_bind (parse_float s) (\<lambda>x. if x \<le> 0 \<or> \<not> is_finite x then Inl ValueError else Inr x)
      | PyInt _ \<Rightarrow> res_bind (to_float v) (\<lambda>x. if x \<le> 0 \<or> \<not> is_finite x then Inl ValueError else Inr x)
      | PyFloat _ \<Rightarrow> res_bind (to_float v) (\<lambda>x. if x \<le> 0 \<or> \<not> is_finite x then Inl ValueError else Inr x)
      | _ \<Rightarrow> Inl ValueError)"

definition to_optional_positive_float :: "pyobj \<Rightarrow> pyfloat option result" where
  "to_optional_positive_float v =
     (if v = PyNone then Inr None else res_bind (to_positive_float v) (\<lambda>x. Inr (Some x)))"

definition to_positive_int :: "pyobj \<Rightarrow> int result" where
  "to_positive_int v =
     (case v of
        PyInt n \<Rightarrow> if n \<le> 0 then Inl ValueError else Inr n
      | PyStr s \<Rightarrow> res_bind (parse_int s) (\<lambda>n. if n \<le> 0 then Inl ValueError else Inr n)
      | _ \<Rightarrow> Inl ValueError)"

section \<open>Values of the environment\<close>

datatype env_value = EnvPath string | EnvBool bool | EnvInt int | EnvStr string

definition parse_bool :: "string \<Rightarrow> bool result" where
  "parse_bool s =
     (let normalised = py_lower (py_strip s)
      in if normalised \<in> {''1'', ''true'', ''yes'', ''on''} then Inr True
         else if normalised \<in> {''0'', ''false'', ''no'', ''off''} then Inr False
         else Inl ValueError)"

definition parse_env_value :: "string \<Rightarrow> string \<Rightarrow> env_value result" where
  "parse_env_value v value_type =
     (if py_strip v = [] then Inl ValueError
      else if value_type = ''path'' then Inr (EnvPath v)
      else if value_type = ''bool'' then res_bind (parse_bool v) (\<lambda>b. Inr (EnvBool b))
      else if value_type = ''int'' then res_bind (parse_int v) (\<lambda>n. Inr (EnvInt n))
      else Inr (EnvStr v))"

text \<open>\<open>EnvironmentConfigSource._values\<close>: each setting has an environment name, a field name and a type.\<close>

record EnvironmentSetting =
  es_name :: string
  es_field_name :: string
  es_value_type :: string

fun environment_values ::
    "(string, string) dict \<Rightarrow> EnvironmentSetting list \<Rightarrow> (string, env_value) dict \<Rightarrow> (string, env_value) dict result" where
  "environment_values environ [] vs = Inr vs"
| "environment_values environ (e # es) vs =
     (case dict_get environ (es_name e) of
        None \<Rightarrow> environment_values environ es vs
      | Some v \<Rightarrow> res_bind (parse_env_value v (es_value_type e)) (\<lambda>x.
          environment_values environ es (dict_set (es_field_name e) x vs)))"

definition load_environment_source ::
    "(string, string) dict \<Rightarrow> EnvironmentSetting list \<Rightarrow> (string, env_value) dict result" where
  "load_environment_source environ env_settings =
     (if env_settings = [] then Inr (map (\<lambda>(k, v). (k, EnvStr v)) environ)
      else environment_values environ env_settings [])"

section \<open>The cache section\<close>

definition to_cache_backend :: "pyobj \<Rightarrow> string result" where
  "to_cache_backend v =
     res_bind (to_non_blank_string v) (\<lambda>s.
       let backend = py_lower s
       in if backend \<notin> {''memory'', ''nats-jetstream'', ''redis''} then Inl ValueError else Inr backend)"

fun server_loop :: "pyvalue list \<Rightarrow> string list result" where
  "server_loop [] = Inr []"
| "server_loop (PyAtom (PyStr s) # vs) =
     res_bind (to_non_blank_string (PyStr s)) (\<lambda>server. res_bind (server_loop vs) (\<lambda>ss. Inr (server # ss)))"
| "server_loop (_ # vs) = Inl ValueError"

definition to_cache_servers :: "pyvalue \<Rightarrow> string list option result" where
  "to_cache_servers v =
     (case v of
        PyAtom PyNone \<Rightarrow> Inr None
      | PyAtom (PyStr s) \<Rightarrow> res_bind (server_loop (map (\<lambda>w. PyAtom (PyStr w)) (split_commas s))) (\<lambda>ss. Inr (Some ss))
      | PySeq vs \<Rightarrow> res_bind (server_loop vs) (\<lambda>ss. Inr (Some ss))
      | _ \<Rightarrow> Inl ValueError)"

fun feature_strings :: "pyvalue list \<Rightarrow> string list result" where
  "feature_strings [] = Inr []"
| "feature_strings (PyAtom (PyStr s) # vs) = res_bind (feature_strings vs) (\<lambda>ss. Inr (s # ss))"
| "feature_strings (_ # vs) = Inl ValueError"

definition check_features :: "string list \<Rightarrow> string list option result" where
  "check_features names =
     (if list_ex (\<lambda>n. isl (validate_feature_name (PyStr n))) names then Inl ValueError
      else if list_ex (\<lambda>n. 1 < count_list names n) names then Inl ValueError
      else Inr (Some names))"

definition to_cache_features :: "pyvalue \<Rightarrow> string list option result" where
  "to_cache_features v =
     (case v of
        PyAtom PyNone \<Rightarrow> Inr None
      | PyAtom (PyStr s) \<Rightarrow>
          if py_strip s = [] then Inr None
          else check_features (filter (\<lambda>w. w \<noteq> []) (map py_strip (split_commas s)))
      | PySeq vs \<Rightarrow> res_bind (feature_strings vs) check_features
      | _ \<Rightarrow> Inl ValueError)"

definition to_cache_namespace :: "pyobj \<Rightarrow> string option result" where
  "to_cache_namespace v =
     res_bind (to_optional_non_blank_string v) (\<lambda>ns.
       case ns of None \<Rightarrow> Inr None
       | Some n \<Rightarrow> if 64 < length n \<or> \<not> cache_name_match n then Inl ValueError else Inr (Some n))"

definition SECRET_SOURCES :: "string set" where
  "SECRET_SOURCES = {''environment'', ''kms'', ''keychain'', ''vault''}"

definition to_optional_secret_source :: "pyobj \<Rightarrow> string option result" where
  "to_optional_secret_source v =
     res_bind (to_optional_non_blank_string v) (\<lambda>ns.
       case ns of None \<Rightarrow> Inr None
       | Some n \<Rightarrow> if n \<in> SECRET_SOURCES then Inr (Some n) else Inl ValueError)"

definition validate_named_cache_name :: "string \<Rightarrow> unit result" where
  "validate_named_cache_name s = res_bind (to_cache_name (PyStr s) True) (\<lambda>_. Inr ())"

section \<open>Normal forms\<close>

lemma dropWhile_fixed: "s \<noteq> [] \<Longrightarrow> \<not> P (hd s) \<Longrightarrow> dropWhile P s = s"
  by (cases s) simp_all

lemma last_dropWhile: "dropWhile P s \<noteq> [] \<Longrightarrow> last (dropWhile P s) = last s"
  by (induction s) auto

lemma py_strip_idem [simp]: "py_strip (py_strip s) = py_strip s"
proof (cases "py_strip s = []")
  case False
  let ?t = "dropWhile py_isspace s"
  have t: "?t \<noteq> []"
  proof
    assume "?t = []"
    then show False using False by (simp add: py_strip_empty_iff)
  qed
  have r: "dropWhile py_isspace (rev ?t) \<noteq> []" using False by (simp add: py_strip_def py_lstrip_def)
  have "hd (py_strip s) = hd ?t"
    using last_dropWhile [OF r] t by (simp add: py_strip_def py_lstrip_def hd_rev last_rev)
  then have "\<not> py_isspace (hd (py_strip s))" using hd_dropWhile [OF t] by simp
  then have l: "dropWhile py_isspace (py_strip s) = py_strip s" using False by (simp add: dropWhile_fixed)
  have "\<not> py_isspace (hd (rev (py_strip s)))"
    using hd_dropWhile [OF r] by (simp add: py_strip_def py_lstrip_def)
  then have "dropWhile py_isspace (rev (py_strip s)) = rev (py_strip s)" using False by (simp add: dropWhile_fixed)
  then show ?thesis using l by (simp add: py_strip_def [of "py_strip s"] py_lstrip_def)
next
  case True
  then have "py_strip (py_strip s) = py_strip []" by (rule arg_cong)
  also have "\<dots> = []" by (simp add: py_strip_empty_iff)
  finally show ?thesis using True by simp
qed

lemma server_loop_normal:
  "server_loop vs = Inr ss \<Longrightarrow> (\<forall>s \<in> set ss. s \<noteq> [] \<and> py_strip s = s) \<and> server_loop (map (\<lambda>s. PyAtom (PyStr s)) ss) = Inr ss"
  by (induction vs arbitrary: ss rule: server_loop.induct) (auto simp: to_non_blank_string_def split: if_splits)

lemma count_list_distinct: "\<not> list_ex (\<lambda>n. 1 < count_list ns n) ns \<Longrightarrow> distinct ns"
proof (induction ns)
  case (Cons n ns)
  have all: "\<forall>m \<in> set (n # ns). count_list (n # ns) m \<le> 1" using Cons.prems by (auto simp: list_ex_iff not_less)
  then have "count_list ns n = 0" by simp
  then have "n \<notin> set ns" by (simp add: count_list_0_iff)
  moreover have "\<not> list_ex (\<lambda>m. 1 < count_list ns m) ns"
    using all by (auto simp: list_ex_iff split: if_splits)
  ultimately show ?case using Cons.IH by simp
qed simp

lemma feature_strings_map [simp]: "feature_strings (map (\<lambda>s. PyAtom (PyStr s)) ss) = Inr ss"
  by (induction ss) simp_all

lemma check_features_normal:
  "check_features ns = Inr r \<Longrightarrow> r = Some ns \<and> distinct ns \<and> (\<forall>n \<in> set ns. feature_name_match n)"
proof -
  assume a: "check_features ns = Inr r"
  have "feature_name_match n" if "n \<in> set ns" for n
    using a that by (cases "feature_name_match n") (auto simp: check_features_def list_ex_iff validate_feature_name.simps split: if_splits)
  moreover have "distinct ns" using a count_list_distinct by (auto simp: check_features_def split: if_splits)
  ultimately show ?thesis using a by (auto simp: check_features_def split: if_splits)
qed

lemma to_cache_features_check: "to_cache_features v = Inr (Some fs) \<Longrightarrow> check_features fs = Inr (Some fs)"
proof -
  assume a: "to_cache_features v = Inr (Some fs)"
  have "\<exists>ns. check_features ns = Inr (Some fs)"
    using a by (auto simp: to_cache_features_def split: pyvalue.splits pyobj.splits if_splits)
  then show ?thesis using check_features_normal by fastforce
qed

lemma to_cache_namespace_Inr:
  "to_cache_namespace v = Inr (Some n) \<longleftrightarrow>
     (\<exists>s. v = PyStr s \<and> n = py_strip s \<and> n \<noteq> [] \<and> length n \<le> 64 \<and> cache_name_match n)"
  by (cases v) (auto simp: to_cache_namespace_def to_optional_non_blank_string_def)

text \<open>Applied to its own result, each transform gives that result again, so that settings built from loaded
  configuration are the settings that were loaded.\<close>

lemma cache_transforms_normal:
  "(\<forall>b. to_cache_backend v = Inr b \<longrightarrow> b \<in> {''memory'', ''nats-jetstream'', ''redis''} \<and> to_cache_backend (PyStr b) = Inr b)
   \<and> (\<forall>ss. to_cache_servers x = Inr (Some ss) \<longrightarrow> (\<forall>s \<in> set ss. s \<noteq> [] \<and> py_strip s = s)
        \<and> to_cache_servers (PySeq (map (\<lambda>s. PyAtom (PyStr s)) ss)) = Inr (Some ss))
   \<and> (\<forall>fs. to_cache_features x = Inr (Some fs) \<longrightarrow> distinct fs \<and> (\<forall>f \<in> set fs. feature_name_match f)
        \<and> to_cache_features (PySeq (map (\<lambda>s. PyAtom (PyStr s)) fs)) = Inr (Some fs))
   \<and> (\<forall>n. to_cache_namespace v = Inr (Some n) \<longrightarrow> length n \<le> 64 \<and> cache_name_match n
        \<and> to_cache_namespace (PyStr n) = Inr (Some n))"
proof (intro conjI allI impI)
  show b: "b \<in> {''memory'', ''nats-jetstream'', ''redis''}" if "to_cache_backend v = Inr b" for b
    using that by (auto simp: to_cache_backend_def Let_def split: if_splits)
  have "list_all (\<lambda>b. to_cache_backend (PyStr b) = Inr b) [''memory'', ''nats-jetstream'', ''redis'']" by code_simp
  then show "to_cache_backend (PyStr b) = Inr b" if "to_cache_backend v = Inr b" for b
    using b [OF that] by auto
  have servers: "\<exists>vs. server_loop vs = Inr ss" if "to_cache_servers x = Inr (Some ss)" for ss
    using that by (auto simp: to_cache_servers_def split: pyvalue.splits pyobj.splits)
  show "to_cache_servers (PySeq (map (\<lambda>s. PyAtom (PyStr s)) ss)) = Inr (Some ss)" if "to_cache_servers x = Inr (Some ss)" for ss
    using servers [OF that] server_loop_normal by (auto simp: to_cache_servers_def)
  show "\<forall>s \<in> set ss. s \<noteq> [] \<and> py_strip s = s" if "to_cache_servers x = Inr (Some ss)" for ss
    using servers [OF that] server_loop_normal by blast
  show "distinct fs" "\<forall>f \<in> set fs. feature_name_match f" if "to_cache_features x = Inr (Some fs)" for fs
    using check_features_normal [OF to_cache_features_check [OF that]] by simp_all
  show "to_cache_features (PySeq (map (\<lambda>s. PyAtom (PyStr s)) fs)) = Inr (Some fs)" if "to_cache_features x = Inr (Some fs)" for fs
    using to_cache_features_check [OF that] by (simp add: to_cache_features_def)
  show "length n \<le> 64" "cache_name_match n" "to_cache_namespace (PyStr n) = Inr (Some n)"
    if "to_cache_namespace v = Inr (Some n)" for n
    using that by (auto simp: to_cache_namespace_Inr)
qed

text \<open>An integer that is too large for a float leaves \<open>to_positive_float\<close> as \<open>OverflowError\<close>; the
  settings loader catches only \<open>TypeError\<close> and \<open>ValueError\<close>.\<close>

lemma to_positive_float_overflow:
  "to_positive_float (PyInt n) = Inl OverflowError \<longleftrightarrow> \<not> is_finite (fl (of_int n))"
  by (auto simp: to_positive_float_def)

end
