(* ===== verification/Cache_Config.thy ===== *)
theory Cache_Config
  imports Config_Service Config_Transforms
begin

text \<open>
  The configuration of the caches: the definition that \<open>src/src/wybra/cache/config.py\<close> hands to the
  configuration service (\<open>CACHE_INSTANCE_CONFIG\<close>, \<open>module_config\<close>), with the identities of its transforms.

  The lemmas compose the service with the transforms: whatever the sources and the environment contain,
  a load that succeeds leaves only normal values in the cache sections.
\<close>

section \<open>Definition\<close>

definition text_transform :: "(pyobj \<Rightarrow> 'a result) \<Rightarrow> ('a \<Rightarrow> pyvalue) \<Rightarrow> pyvalue \<Rightarrow> pyvalue result" where
  "text_transform f g v = (case v of PyAtom a \<Rightarrow> res_bind (f a) (\<lambda>r. Inr (g r)) | _ \<Rightarrow> Inl ValueError)"

definition py_text :: "string option \<Rightarrow> pyvalue" where
  "py_text o' = (case o' of None \<Rightarrow> PyAtom PyNone | Some s \<Rightarrow> PyAtom (PyStr s))"

definition py_texts :: "string list option \<Rightarrow> pyvalue" where
  "py_texts o' = (case o' of None \<Rightarrow> PyAtom PyNone | Some ss \<Rightarrow> PySeq (map (\<lambda>s. PyAtom (PyStr s)) ss))"

text \<open>The transforms of the fields by their identity: 0 \<open>to_cache_backend\<close>, 1 \<open>to_cache_servers\<close>,
  2 \<open>to_optional_non_blank_string\<close>, 3 \<open>to_optional_secret_source\<close>, 4 \<open>to_cache_namespace\<close>,
  5 \<open>to_cache_features\<close>.\<close>

definition cache_transform :: "nat \<Rightarrow> pyvalue \<Rightarrow> pyvalue result" where
  "cache_transform t v =
     (if t = 0 then text_transform to_cache_backend (\<lambda>b. PyAtom (PyStr b)) v
      else if t = 1 then res_bind (to_cache_servers v) (\<lambda>r. Inr (py_texts r))
      else if t = 2 then text_transform to_optional_non_blank_string py_text v
      else if t = 3 then text_transform to_optional_secret_source py_text v
      else if t = 4 then text_transform to_cache_namespace py_text v
      else res_bind (to_cache_features v) (\<lambda>r. Inr (py_texts r)))"

definition cache_fields :: "ConfigField result list" where
  "cache_fields =
     [make_ConfigField ''backend'' (Some (PyAtom (PyStr ''memory''))) (EnvName ''WYBRA_CACHE_BACKEND'') (Some 0),
      make_ConfigField ''servers'' None (EnvName ''WYBRA_CACHE_SERVERS'') (Some 1),
      make_ConfigField ''url'' (Some (PyAtom PyNone)) (EnvName ''WYBRA_CACHE_URL'') (Some 2),
      make_ConfigField ''url_source'' None (EnvName ''WYBRA_CACHE_URL_SOURCE'') (Some 3),
      make_ConfigField ''url_key'' None (EnvName ''WYBRA_CACHE_URL_KEY'') (Some 2),
      make_ConfigField ''credentials_source'' None (EnvName ''WYBRA_CACHE_CREDENTIALS_SOURCE'') (Some 3),
      make_ConfigField ''credentials_key'' None (EnvName ''WYBRA_CACHE_CREDENTIALS_KEY'') (Some 2),
      make_ConfigField ''namespace'' (Some (PyAtom PyNone)) (EnvName ''WYBRA_CACHE_NAMESPACE'') (Some 4),
      make_ConfigField ''features'' (Some (PyAtom PyNone)) (EnvName ''WYBRA_CACHE_FEATURES'') (Some 5)]"

definition CACHE_INSTANCE_CONFIG :: "ConfigGroup result" where
  "CACHE_INSTANCE_CONFIG = res_bind (all_results cache_fields) make_ConfigGroup"

definition module_config :: "ConfigDef result" where
  "module_config =
     res_bind CACHE_INSTANCE_CONFIG (\<lambda>g.
     res_bind (make_RepeatedConfigSection g (Some ''WYBRA_CACHE'')
        [''backend'', ''credentials_key'', ''credentials_source'', ''features'', ''namespace'', ''servers'', ''url'',
         ''url_key'', ''url_source''] (Some 0)) (\<lambda>r.
       Inr \<lparr>df_sections = [(''cache'', g)], df_repeated_sections = [(''cache'', r)]\<rparr>))"

section \<open>The definition is well formed\<close>

lemma module_config_ok:
  "case module_config of Inl _ \<Rightarrow> False | Inr d \<Rightarrow> plain_def d \<and> dict_keys (df_sections d) = [''cache'']
     \<and> dict_keys (df_repeated_sections d) = [''cache'']
     \<and> rs_name_validator (snd (hd (df_repeated_sections d))) = Some 0
     \<and> rs_group (snd (hd (df_repeated_sections d))) = snd (hd (df_sections d))"
  by code_simp

lemma module_config_fields:
  "case module_config of Inl _ \<Rightarrow> False | Inr d \<Rightarrow>
     (\<forall>(f, t) \<in> set [(''backend'', 0), (''servers'', 1), (''namespace'', 4), (''features'', 5)].
        map_option fd_transform (dict_get (gr_field_map (snd (hd (df_sections d)))) f) = Some (Some t))"
  by code_simp

lemma module_config_cases:
  assumes "module_config = Inr d"
  obtains g r where "df_sections d = [(''cache'', g)]" and "df_repeated_sections d = [(''cache'', r)]"
    and "rs_group r = g" and "rs_name_validator r = Some 0" and "plain_def d"
    and "\<And>f t. (f, t) \<in> {(''backend'', 0), (''servers'', 1), (''namespace'', 4), (''features'', 5)} \<Longrightarrow>
      \<exists>fd. dict_get (gr_field_map g) f = Some fd \<and> fd_transform fd = Some t"
proof -
  have keys: "dict_keys (df_sections d) = [''cache'']" "dict_keys (df_repeated_sections d) = [''cache'']"
    and rest: "rs_name_validator (snd (hd (df_repeated_sections d))) = Some 0" "plain_def d"
      "rs_group (snd (hd (df_repeated_sections d))) = snd (hd (df_sections d))"
    using module_config_ok unfolding assms by simp_all
  obtain g where g: "df_sections d = [(''cache'', g)]" using keys(1) by (cases "df_sections d") auto
  obtain r where r: "df_repeated_sections d = [(''cache'', r)]" using keys(2) by (cases "df_repeated_sections d") auto
  have "\<exists>fd. dict_get (gr_field_map g) f = Some fd \<and> fd_transform fd = Some t"
    if "(f, t) \<in> {(''backend'', 0), (''servers'', 1), (''namespace'', 4), (''features'', 5)}" for f t
    using that module_config_fields unfolding assms by (auto simp: g)
  then show ?thesis using that g r rest by simp
qed

lemma resolved_loop_keeps:
  "resolved_loop validate d ps names resolved = Inr rep \<Longrightarrow> match_repeated validate s ps = Inr (Some pr) \<Longrightarrow>
    dict_get resolved s = Some pr \<Longrightarrow> dict_get rep s = Some pr"
proof (induction names arbitrary: resolved)
  case (Cons n names)
  show ?case
  proof (cases "dict_get (df_sections d) n")
    case None
    then obtain found where found: "match_repeated validate n ps = Inr found"
      and rest: "resolved_loop validate d ps names
        (case found of None \<Rightarrow> resolved | Some pr \<Rightarrow> dict_set n pr resolved) = Inr rep"
      using Cons.prems by auto
    show ?thesis
      by (rule Cons.IH [OF rest Cons.prems(2)]) (use found Cons.prems(2,3) in \<open>auto split: option.split\<close>)
  qed (use Cons in auto)
qed simp

lemma resolved_loop_get:
  "resolved_loop validate d ps names resolved = Inr rep \<Longrightarrow> s \<in> set names \<Longrightarrow> dict_get (df_sections d) s = None \<Longrightarrow>
    \<exists>found. match_repeated validate s ps = Inr found \<and> (\<forall>pr. found = Some pr \<longrightarrow> dict_get rep s = Some pr)"
proof (induction names arbitrary: resolved)
  case (Cons n names)
  show ?case
  proof (cases "dict_get (df_sections d) n")
    case None
    then obtain found where found: "match_repeated validate n ps = Inr found"
      and rest: "resolved_loop validate d ps names
        (case found of None \<Rightarrow> resolved | Some pr \<Rightarrow> dict_set n pr resolved) = Inr rep"
      using Cons.prems by auto
    show ?thesis
    proof (cases "s = n")
      case True
      have "dict_get rep s = Some pr" if "found = Some pr" for pr
        using resolved_loop_keeps [OF rest, of s pr] found that True by simp
      then show ?thesis using found True by blast
    qed (use Cons.IH [OF rest] Cons.prems in auto)
  qed (use Cons in auto)
qed simp

lemma merge_single:
  assumes "df_sections d = [(s, g)]" and "df_repeated_sections d = [(p, r)]"
  shows "merge_config_defs [d] = Inr d"
  using assms by (cases d) (simp add: merge_config_defs_def)

lemma load_sources_resolved:
  assumes "load_sources apply' validate modules environ sources config_defs False = Inr c"
  shows "\<exists>m rep. merge_config_defs config_defs = Inr m
    \<and> resolved_repeated_sections validate m (fst (merge_all (loaded sources) ([], []))) = Inr rep"
proof -
  obtain acc ds where load: "load_loop sources ([], []) [] = Inr (acc, ds)"
    and app: "\<exists>r. apply_config_defs apply' validate config_defs (fst acc) (snd acc) environ = Inr r"
    using assms by (auto simp: load_sources_def resolved_config_defs_def)
  have "acc = merge_all (loaded sources) ([], [])" by (rule load_loop_layers [OF load])
  then show ?thesis using app by (auto simp: apply_config_defs_def)
qed

lemma all_sections_get:
  assumes "df_sections d = [(''cache'', g)]" and "\<forall>(s, p, r) \<in> set rep. rs_group r = g" and "distinct (dict_keys rep)"
    and "s = ''cache'' \<or> dict_get rep s \<noteq> None"
  shows "declared (all_sections d rep) s f = dict_get (gr_field_map g) f"
proof -
  let ?gs = "map (\<lambda>(s, _, r). (s, rs_group r)) rep"
  have keys: "dict_keys ?gs = dict_keys rep" by (induction rep) auto
  have group: "dict_get ?gs t = (if dict_get rep t = None then None else Some g)" for t
    using assms(2) by (induction rep) auto
  have "distinct (dict_keys ?gs)" unfolding keys by (rule assms(3))
  note get = dict_get_update [OF this, of "df_sections d" s]
  have "dict_get (all_sections d rep) s = Some g"
    unfolding all_sections_def get group using assms(4) by (auto simp: assms(1))
  then show ?thesis by (simp add: declared_def)
qed

text \<open>What the transforms leave behind.\<close>

definition normal_value :: "nat \<Rightarrow> pyvalue \<Rightarrow> bool" where
  "normal_value t v \<longleftrightarrow>
     (if t = 0 then \<exists>b \<in> {''memory'', ''nats-jetstream'', ''redis''}. v = PyAtom (PyStr b)
      else if t = 1 then v = PyAtom PyNone \<or> (\<exists>ss. v = PySeq (map (\<lambda>s. PyAtom (PyStr s)) ss) \<and> (\<forall>s \<in> set ss. s \<noteq> [] \<and> py_strip s = s))
      else if t = 4 then v = PyAtom PyNone \<or> (\<exists>n. v = PyAtom (PyStr n) \<and> length n \<le> 64 \<and> cache_name_match n)
      else t = 5 \<longrightarrow> v = PyAtom PyNone
        \<or> (\<exists>fs. v = PySeq (map (\<lambda>s. PyAtom (PyStr s)) fs) \<and> distinct fs \<and> (\<forall>f \<in> set fs. feature_name_match f)))"

lemma cache_transform_normal:
  assumes "cache_transform t v = Inr w"
  shows "normal_value t w"
proof -
  note [simp] = normal_value_def cache_transform_def text_transform_def py_text_def py_texts_def
  note normal = cache_transforms_normal
  consider "t = 0" | "t = 1" | "t = 4" | "t = 5" | "t \<notin> {0, 1, 4, 5}" by auto
  then show ?thesis
  proof cases
    case 1
    then obtain a b where "to_cache_backend a = Inr b" "w = PyAtom (PyStr b)"
      using assms by (auto split: pyvalue.splits)
    moreover have "b \<in> {''memory'', ''nats-jetstream'', ''redis''}" using normal [of a] calculation(1) by blast
    ultimately show ?thesis using 1 by simp
  next
    case 2
    then obtain r where "to_cache_servers v = Inr r" "w = py_texts r" using assms by auto
    moreover have "\<forall>ss. r = Some ss \<longrightarrow> (\<forall>s \<in> set ss. s \<noteq> [] \<and> py_strip s = s)"
      using normal [of PyNone v] calculation(1) by blast
    ultimately show ?thesis using 2 by (cases r) (simp, simp, blast)
  next
    case 3
    then obtain a r where "to_cache_namespace a = Inr r" "w = py_text r"
      using assms by (auto split: pyvalue.splits)
    moreover have "\<forall>n. r = Some n \<longrightarrow> length n \<le> 64 \<and> cache_name_match n"
      using normal [of a] calculation(1) by blast
    ultimately show ?thesis using 3 by (cases r) simp_all
  next
    case 4
    then obtain r where "to_cache_features v = Inr r" "w = py_texts r" using assms by auto
    moreover have "\<forall>fs. r = Some fs \<longrightarrow> distinct fs \<and> (\<forall>f \<in> set fs. feature_name_match f)"
      using normal [of PyNone v] calculation(1) by blast
    ultimately show ?thesis using 4 by (cases r) (simp, simp, blast)
  qed auto
qed

interpretation cache_values: normalising_transforms cache_transform normal_value
  by unfold_locales (rule cache_transform_normal)

section \<open>Properties of the cache configuration\<close>

text \<open>C38: A configuration that loads has only normal cache sections. Whatever the sources and the
  environment hold, after a successful load of the cache module's configuration the root section and
  every named section \<open>cache.<name>\<close> of the sources have a known backend, stripped servers, a valid
  namespace and valid, distinct feature names; and the name of a named section is a valid cache name other
  than the reserved one.\<close>

theorem loaded_cache_sections_normal:
  assumes "module_config = Inr d"
    and "load_sources cache_transform (\<lambda>_. validate_named_cache_name) modules environ sources [d] False = Inr c"
    and "\<forall>(n, vs) \<in> set (loaded sources). plain_layer vs"
    and "s = ''cache'' \<or> s = ''cache.'' @ name \<and> s \<in> set (dict_keys (fst (merge_all (loaded sources) ([], []))))"
    and "(f, t) \<in> {(''backend'', 0), (''servers'', 1), (''namespace'', 4), (''features'', 5)}"
  shows "(s \<noteq> ''cache'' \<longrightarrow> cache_name_match name \<and> name \<noteq> ''default'')
    \<and> (case lookup2 (lc_values c) s f of None \<Rightarrow> True | Some v \<Rightarrow> normal_value t v)"
proof -
  obtain g r where d: "df_sections d = [(''cache'', g)]" "df_repeated_sections d = [(''cache'', r)]"
    and r: "rs_group r = g" "rs_name_validator r = Some 0" and plain: "plain_def d"
    and trans: "\<And>f t. (f, t) \<in> {(''backend'', 0), (''servers'', 1), (''namespace'', 4), (''features'', 5)} \<Longrightarrow>
      \<exists>fd. dict_get (gr_field_map g) f = Some fd \<and> fd_transform fd = Some t"
    by (rule module_config_cases [OF assms(1)]) (rule that)
  obtain fd where fd: "dict_get (gr_field_map g) f = Some fd" "fd_transform fd = Some t" using trans [OF assms(5)] by blast
  let ?vs = "fst (merge_all (loaded sources) ([], []))"
  let ?validate = "\<lambda>_. validate_named_cache_name"
  note merged = merge_single [OF d]
  have named: "(s \<noteq> ''cache'' \<longrightarrow> cache_name_match name \<and> name \<noteq> ''default'') \<and> declared (all_sections d rep) s f = Some fd"
    if rep: "resolved_repeated_sections ?validate d ?vs = Inr rep" for rep
  proof -
    have in_rep: "\<forall>(s, p, q) \<in> set rep. rs_group q = g" using resolved_in(1) [OF rep] d(2) r(1) by fastforce
    have loop: "resolved_loop ?validate d [(''cache'', r)] (dict_keys ?vs) [] = Inr rep"
      using rep by (simp add: resolved_repeated_sections_def d)
    have valid: "dict_get rep s \<noteq> None \<and> cache_name_match name \<and> name \<noteq> ''default''" if "s \<noteq> ''cache''"
    proof -
      have s: "s = ''cache.'' @ name" "s \<in> set (dict_keys ?vs)" using that assms(4) by blast+
      have "dict_get (df_sections d) s = None" using that by (simp add: d)
      from resolved_loop_get [OF loop s(2) this] obtain found where
        found: "match_repeated ?validate s [(''cache'', r)] = Inr found"
        and got: "\<And>pr. found = Some pr \<Longrightarrow> dict_get rep s = Some pr" by blast
      have "validate_named_cache_name name = Inr () \<and> found = Some (''cache'', r)"
        using found by (auto simp: s(1) py_startswith_def r(2) split: sum.splits if_splits)
      then show ?thesis using got by (auto simp: validate_named_cache_name_def to_cache_name_def split: if_splits)
    qed
    then have "s = ''cache'' \<or> dict_get rep s \<noteq> None" by blast
    from all_sections_get [OF d(1) in_rep resolved_in(2) [OF rep] this, of f]
    have "declared (all_sections d rep) s f = Some fd" unfolding fd(1) .
    then show ?thesis using valid by blast
  qed
  obtain rep where rep: "resolved_repeated_sections ?validate d ?vs = Inr rep"
    using load_sources_resolved [OF assms(2)] merged by auto
  have "normal_value t v" if "lookup2 (lc_values c) s f = Some v" for v
  proof (rule cache_values.loaded_normal [OF assms(2,3) _ _ _ that])
    show "CHR ''.'' \<notin> set f" using assms(5) by auto
    show "\<forall>defs. resolved_config_defs modules False [d] ?vs = Inr defs \<longrightarrow> (\<forall>d \<in> set defs. plain_def d)"
      using plain by (auto simp: resolved_config_defs_def)
    show "\<exists>fd. declared (all_sections m rep) s f = Some fd \<and> fd_transform fd = Some t"
      if "resolved_config_defs modules False [d] ?vs = Inr defs" "merge_config_defs defs = Inr m"
        "resolved_repeated_sections ?validate m ?vs = Inr rep" for defs m rep
    proof -
      have "m = d" using that(1,2) merged by (auto simp: resolved_config_defs_def)
      then show ?thesis using named [of rep] that(3) fd(2) by blast
    qed
  qed
  then show ?thesis using named [OF rep] by (auto split: option.split)
qed

text \<open>A file with a root section and a named one.\<close>

definition demo_cache_source :: ConfigSource where
  "demo_cache_source = \<lparr>so_metadata = \<lparr>sm_source = ''file'', sm_required = True\<rparr>,
     so_load = Inr \<lparr>sr_values = [(''cache'', [(''backend'', PyAtom (PyStr '' Redis ''))]),
         (''cache.users'', [(''features'', PyAtom (PyStr ''lease, atomic''))])], sr_diagnostics = []\<rparr>\<rparr>"

definition demo_cache_load :: "ConfigDef \<Rightarrow> LoadedConfig result" where
  "demo_cache_load d = load_sources cache_transform (\<lambda>_. validate_named_cache_name) (\<lambda>_. NoModuleConfig) None
     [demo_cache_source] [d] False"

theorem loaded_cache_sections_normal_witness:
  "\<exists>d c v. module_config = Inr d \<and> demo_cache_load d = Inr c
    \<and> lookup2 (lc_values c) ''cache.users'' ''features'' = Some v \<and> normal_value 5 v
    \<and> cache_name_match ''users''"
proof -
  have ok: "case module_config of Inl _ \<Rightarrow> False | Inr d \<Rightarrow>
      (case demo_cache_load d of Inl _ \<Rightarrow> False | Inr c \<Rightarrow> lookup2 (lc_values c) ''cache.users'' ''features'' \<noteq> None)"
    and plain: "\<forall>(n, vs) \<in> set (loaded [demo_cache_source]). plain_layer vs"
    and key: "''cache.users'' \<in> set (dict_keys (fst (merge_all (loaded [demo_cache_source]) ([], []))))"
    by code_simp+
  obtain d where d: "module_config = Inr d" using ok by (auto split: sum.splits)
  obtain c v where c: "demo_cache_load d = Inr c" and v: "lookup2 (lc_values c) ''cache.users'' ''features'' = Some v"
    using ok unfolding d by (auto split: sum.splits)
  have s: "''cache.users'' = ''cache'' \<or> ''cache.users'' = ''cache.'' @ ''users''
      \<and> ''cache.users'' \<in> set (dict_keys (fst (merge_all (loaded [demo_cache_source]) ([], []))))"
    using key by simp
  have f: "(''features'', 5) \<in> {(''backend'', 0 :: nat), (''servers'', 1), (''namespace'', 4), (''features'', 5)}" by simp
  have "cache_name_match ''users'' \<and> normal_value 5 v"
    using loaded_cache_sections_normal [OF d c [unfolded demo_cache_load_def] plain s f] v by simp
  then show ?thesis using d c v by blast
qed

end
