(* ===== verification/Task_Lifecycle.thy ===== *)
theory Task_Lifecycle
  imports Safe_Metadata
begin

text \<open>
  The task status projection: \<open>src/src/wybra/tasks/lifecycle.py\<close>.

  Lifecycle events of tasks are applied one after the other; the projection keeps for each task its
  status, a bounded history and a bounded window of the events it has applied, and forgets finished
  tasks after a retention time. The clock reading of a call is an argument. Times are rationals:
  Python compares ints and floats exactly; a difference of times is computed in binary64.

  An event carries its \<open>attempt\<close> and \<open>occurred_at\<close> unchecked, as the constructor leaves them, until
  \<open>apply\<close> looks at them.

  The lemmas show that histories are paths of the transition table, that a status never moves
  backwards, and that an event applied twice counts once.
\<close>

type_synonym UUID = "128 word"

section \<open>Kinds and states\<close>

datatype TaskLifecycleKind =
    K_SUBMITTED | K_SCHEDULED | K_STARTED | K_PROGRESS | K_ATTEMPT_FAILED | K_RETRY_SCHEDULED
  | K_SUCCEEDED | K_FAILED | K_DEAD_LETTERED

datatype TaskState =
    SUBMITTED | SCHEDULED | RUNNING | RETRY_SCHEDULED | SUCCEEDED | FAILED | DEAD_LETTERED

fun KIND_STATE :: "TaskLifecycleKind \<Rightarrow> TaskState" where
  "KIND_STATE K_SUBMITTED = SUBMITTED"
| "KIND_STATE K_SCHEDULED = SCHEDULED"
| "KIND_STATE K_STARTED = RUNNING"
| "KIND_STATE K_PROGRESS = RUNNING"
| "KIND_STATE K_ATTEMPT_FAILED = RUNNING"
| "KIND_STATE K_RETRY_SCHEDULED = RETRY_SCHEDULED"
| "KIND_STATE K_SUCCEEDED = SUCCEEDED"
| "KIND_STATE K_FAILED = FAILED"
| "KIND_STATE K_DEAD_LETTERED = DEAD_LETTERED"

fun ALLOWED_TRANSITIONS :: "TaskState option \<Rightarrow> TaskLifecycleKind list" where
  "ALLOWED_TRANSITIONS None = [K_SUBMITTED]"
| "ALLOWED_TRANSITIONS (Some SUBMITTED) = [K_SCHEDULED, K_STARTED, K_FAILED]"
| "ALLOWED_TRANSITIONS (Some SCHEDULED) = [K_STARTED, K_FAILED]"
| "ALLOWED_TRANSITIONS (Some RUNNING) =
     [K_STARTED, K_PROGRESS, K_ATTEMPT_FAILED, K_RETRY_SCHEDULED, K_SUCCEEDED, K_FAILED]"
| "ALLOWED_TRANSITIONS (Some RETRY_SCHEDULED) = [K_STARTED, K_FAILED]"
| "ALLOWED_TRANSITIONS (Some FAILED) = [K_DEAD_LETTERED]"
| "ALLOWED_TRANSITIONS (Some SUCCEEDED) = []"
| "ALLOWED_TRANSITIONS (Some DEAD_LETTERED) = []"

definition TERMINAL_TASK_STATES :: "TaskState list" where
  "TERMINAL_TASK_STATES = [SUCCEEDED, FAILED, DEAD_LETTERED]"

definition DEFAULT_TASK_REPLAY_LIMIT :: int where
  "DEFAULT_TASK_REPLAY_LIMIT = 1000"

abbreviation terminal :: "TaskState \<Rightarrow> bool" where
  "terminal st \<equiv> st \<in> set TERMINAL_TASK_STATES"

section \<open>Events\<close>

record TaskLifecycleEvent =
  ev_kind :: TaskLifecycleKind
  ev_task_id :: UUID
  ev_task_name :: string
  ev_schema_version :: int
  ev_queue :: string
  ev_correlation_id :: UUID
  ev_causation_id :: "UUID option"
  ev_attempt :: pyobj
  ev_delivery_attempt :: "int option"
  ev_delivery_identity :: "string option"
  ev_worker_id :: "string option"
  ev_progress :: "SafeJsonMetadata option"
  ev_error_type :: "string option"
  ev_occurred_at :: pyobj

text \<open>\<open>isinstance(v, int)\<close> without bool, at least 1.\<close>

fun positive_int :: "pyobj \<Rightarrow> int result" where
  "positive_int (PyInt n) = (if n < 1 then Inl TaskLifecycleError else Inr n)"
| "positive_int _ = Inl TaskLifecycleError"

fun optional_positive_int :: "pyobj \<Rightarrow> int option result" where
  "optional_positive_int PyNone = Inr None"
| "optional_positive_int v = res_bind (positive_int v) (\<lambda>n. Inr (Some n))"

fun optional_identity :: "pyobj \<Rightarrow> string option result" where
  "optional_identity PyNone = Inr None"
| "optional_identity (PyStr s) = (if py_strip s = [] then Inl TaskLifecycleError else Inr (Some s))"
| "optional_identity _ = Inl TaskLifecycleError"

text \<open>The progress of an event or a status. \<open>safe_json_metadata\<close> raises \<open>ValueError\<close> only.\<close>

fun checked_progress :: "metadata_input option \<Rightarrow> SafeJsonMetadata option result" where
  "checked_progress None = Inr None"
| "checked_progress (Some v) =
     (case safe_json_metadata v of Inl _ \<Rightarrow> Inl TaskProgressError | Inr m \<Rightarrow> Inr (Some m))"

text \<open>The constructor: the fields that \<open>__post_init__\<close> inspects are dynamic values.\<close>

definition make_TaskLifecycleEvent ::
    "TaskLifecycleKind \<Rightarrow> UUID \<Rightarrow> string \<Rightarrow> pyobj \<Rightarrow> string \<Rightarrow> UUID \<Rightarrow> UUID option \<Rightarrow> pyobj \<Rightarrow> pyobj \<Rightarrow> pyobj
     \<Rightarrow> string option \<Rightarrow> metadata_input option \<Rightarrow> string option \<Rightarrow> pyobj \<Rightarrow> TaskLifecycleEvent result"
where
  "make_TaskLifecycleEvent kind task_id task_name schema_version queue correlation_id causation_id
     attempt delivery_attempt delivery_identity worker_id progress error_type occurred_at =
     res_bind (positive_int schema_version) (\<lambda>version.
     res_bind (optional_positive_int delivery_attempt) (\<lambda>delivery.
     res_bind (optional_identity delivery_identity) (\<lambda>identity.
     res_bind (checked_progress progress) (\<lambda>prog.
       Inr \<lparr>ev_kind = kind, ev_task_id = task_id, ev_task_name = task_name,
            ev_schema_version = version, ev_queue = queue, ev_correlation_id = correlation_id,
            ev_causation_id = causation_id, ev_attempt = attempt, ev_delivery_attempt = delivery,
            ev_delivery_identity = identity, ev_worker_id = worker_id, ev_progress = prog,
            ev_error_type = error_type, ev_occurred_at = occurred_at\<rparr>))))"

text \<open>\<open>TaskLifecycleEvent.new\<close>: \<open>fresh\<close> is the result of \<open>uuid7()\<close>, \<open>now\<close> that of \<open>time.time()\<close>.\<close>

definition new_TaskLifecycleEvent ::
    "UUID \<Rightarrow> pyfloat \<Rightarrow> TaskLifecycleKind \<Rightarrow> string \<Rightarrow> pyobj \<Rightarrow> string \<Rightarrow> UUID option \<Rightarrow> UUID option \<Rightarrow> UUID option
     \<Rightarrow> pyobj \<Rightarrow> pyobj \<Rightarrow> pyobj \<Rightarrow> string option \<Rightarrow> metadata_input option \<Rightarrow> string option \<Rightarrow> pyobj
     \<Rightarrow> TaskLifecycleEvent result"
where
  "new_TaskLifecycleEvent fresh now kind task_name schema_version queue task_id correlation_id
     causation_id attempt delivery_attempt delivery_identity worker_id progress error_type occurred_at =
     (let resolved_task_id = (case task_id of Some t \<Rightarrow> t | None \<Rightarrow> fresh)
      in make_TaskLifecycleEvent kind resolved_task_id task_name schema_version queue
           (case correlation_id of Some c \<Rightarrow> c | None \<Rightarrow> resolved_task_id) causation_id
           attempt delivery_attempt delivery_identity worker_id progress error_type
           (if occurred_at = PyNone then PyFloat now else occurred_at))"

text \<open>A timestamp that is a finite number. \<open>isfinite\<close> of an int beyond the doubles overflows.\<close>

fun finite_time :: "pyobj \<Rightarrow> rat result" where
  "finite_time (PyInt n) =
     (if is_finite (fl (of_int n)) then Inr (of_int n) else Inl OverflowError)"
| "finite_time (PyFloat (Fin x)) = Inr x"
| "finite_time _ = Inl TaskLifecycleError"

section \<open>Statuses\<close>

record TaskStatus =
  st_task_id :: UUID
  st_task_name :: string
  st_schema_version :: int
  st_state :: TaskState
  st_queue :: string
  st_correlation_id :: UUID
  st_causation_id :: "UUID option"
  st_attempt :: int
  st_submitted_at :: rat
  st_updated_at :: rat
  st_worker_id :: "string option"
  st_progress :: "SafeJsonMetadata option"
  st_error_type :: "string option"
  st_delivery_attempt :: "int option"
  st_delivery_identity :: "string option"
  st_terminal_at :: "rat option"

fun optional_time :: "pyobj \<Rightarrow> rat option result" where
  "optional_time PyNone = Inr None"
| "optional_time v = res_bind (finite_time v) (\<lambda>t. Inr (Some t))"

definition make_TaskStatus ::
    "UUID \<Rightarrow> string \<Rightarrow> int \<Rightarrow> TaskState \<Rightarrow> string \<Rightarrow> UUID \<Rightarrow> UUID option \<Rightarrow> int \<Rightarrow> rat \<Rightarrow> rat \<Rightarrow> string option
     \<Rightarrow> metadata_input option \<Rightarrow> string option \<Rightarrow> pyobj \<Rightarrow> pyobj \<Rightarrow> pyobj \<Rightarrow> TaskStatus result"
where
  "make_TaskStatus task_id task_name schema_version state queue correlation_id causation_id attempt
     submitted_at updated_at worker_id progress error_type delivery_attempt delivery_identity
     terminal_at =
     (if terminal state \<noteq> (terminal_at \<noteq> PyNone) then Inl TaskLifecycleError
      else res_bind (optional_time terminal_at) (\<lambda>term_at.
        res_bind (optional_positive_int delivery_attempt) (\<lambda>delivery.
        res_bind (optional_identity delivery_identity) (\<lambda>identity.
        res_bind (checked_progress progress) (\<lambda>prog.
          Inr \<lparr>st_task_id = task_id, st_task_name = task_name, st_schema_version = schema_version,
               st_state = state, st_queue = queue, st_correlation_id = correlation_id,
               st_causation_id = causation_id, st_attempt = attempt,
               st_submitted_at = submitted_at, st_updated_at = updated_at,
               st_worker_id = worker_id, st_progress = prog, st_error_type = error_type,
               st_delivery_attempt = delivery, st_delivery_identity = identity,
               st_terminal_at = term_at\<rparr>)))))"

section \<open>The projection\<close>

text \<open>Equality of the \<open>attempt\<close> in an event key is that of Python numbers: \<open>True == 1 == 1.0\<close>.\<close>

datatype key_value = KeyNumber rat | KeyObject pyobj

fun key_of :: "pyobj \<Rightarrow> key_value" where
  "key_of (PyBool b) = KeyNumber (if b then 1 else 0)"
| "key_of (PyInt n) = KeyNumber (of_int n)"
| "key_of (PyFloat (Fin x)) = KeyNumber x"
| "key_of v = KeyObject v"

type_synonym TaskEventKey =
  "TaskLifecycleKind \<times> UUID \<times> string \<times> int \<times> string \<times> UUID \<times> UUID option \<times> key_value \<times> int option
   \<times> string option \<times> string option \<times> bytes option \<times> string option \<times> rat"

definition event_key :: "TaskLifecycleEvent \<Rightarrow> rat \<Rightarrow> TaskEventKey" where
  "event_key ev occurred_at =
     (ev_kind ev, ev_task_id ev, ev_task_name ev, ev_schema_version ev, ev_queue ev,
      ev_correlation_id ev, ev_causation_id ev, key_of (ev_attempt ev), ev_delivery_attempt ev,
      ev_delivery_identity ev, ev_worker_id ev, map_option encoded (ev_progress ev),
      ev_error_type ev, occurred_at)"

record TaskStatusProjection =
  tp_retention_seconds :: "rat option"
  tp_history_limit :: int
  tp_replay_limit :: int
  tp_statuses :: "(UUID, TaskStatus) dict"
  tp_history :: "(UUID, TaskLifecycleEvent list) dict"
  tp_applied_event_keys :: "(UUID, TaskEventKey set) dict"
  tp_applied_event_order :: "(UUID, TaskEventKey list) dict"

fun retention_number :: "pyobj \<Rightarrow> rat option result" where
  "retention_number PyNone = Inr None"
| "retention_number (PyInt n) =
     (if \<not> is_finite (fl (of_int n)) then Inl OverflowError
      else if n \<le> 0 then Inl ValueError else Inr (Some (of_int n)))"
| "retention_number (PyFloat (Fin x)) = (if x \<le> 0 then Inl ValueError else Inr (Some x))"
| "retention_number _ = Inl ValueError"

fun history_limit_int :: "pyobj \<Rightarrow> int result" where
  "history_limit_int (PyInt n) = (if n < 1 then Inl ValueError else Inr n)"
| "history_limit_int _ = Inl ValueError"

fun replay_limit_int :: "int \<Rightarrow> pyobj \<Rightarrow> int result" where
  "replay_limit_int history PyNone = Inr (max DEFAULT_TASK_REPLAY_LIMIT history)"
| "replay_limit_int history (PyInt n) = (if n < history then Inl ValueError else Inr n)"
| "replay_limit_int history _ = Inl ValueError"

definition new_projection :: "pyobj \<Rightarrow> pyobj \<Rightarrow> pyobj \<Rightarrow> TaskStatusProjection result" where
  "new_projection retention_seconds history_limit replay_limit =
     res_bind (retention_number retention_seconds) (\<lambda>retention.
     res_bind (history_limit_int history_limit) (\<lambda>history.
     res_bind (replay_limit_int history replay_limit) (\<lambda>replay.
       Inr \<lparr>tp_retention_seconds = retention, tp_history_limit = history, tp_replay_limit = replay,
            tp_statuses = [], tp_history = [], tp_applied_event_keys = [],
            tp_applied_event_order = []\<rparr>)))"

text \<open>\<open>now - t\<close> on floats; an int \<open>t\<close> is converted first.\<close>

definition elapsed :: "pyfloat \<Rightarrow> rat \<Rightarrow> pyfloat" where
  "elapsed now t = now - fl t"

definition expired_status :: "pyfloat \<Rightarrow> rat \<Rightarrow> TaskStatus \<Rightarrow> bool" where
  "expired_status now retention st \<longleftrightarrow>
     terminal (st_state st)
     \<and> Fin retention < elapsed now
         (case st_terminal_at st of Some t \<Rightarrow> t | None \<Rightarrow> st_updated_at st)"

definition prune_expired :: "pyfloat \<Rightarrow> TaskStatusProjection \<Rightarrow> TaskStatusProjection" where
  "prune_expired now p =
     (case tp_retention_seconds p of
        None \<Rightarrow> p
      | Some retention \<Rightarrow>
          let expired = [task_id. (task_id, st) \<leftarrow> tp_statuses p, expired_status now retention st]
          in p\<lparr>tp_statuses := dict_pop_all expired (tp_statuses p),
               tp_history := dict_pop_all expired (tp_history p),
               tp_applied_event_keys := dict_pop_all expired (tp_applied_event_keys p),
               tp_applied_event_order := dict_pop_all expired (tp_applied_event_order p)\<rparr>)"

definition record_applied_event ::
    "UUID \<Rightarrow> TaskEventKey \<Rightarrow> TaskStatusProjection \<Rightarrow> TaskStatusProjection" where
  "record_applied_event task_id key p =
     (let event_keys = (case dict_get (tp_applied_event_keys p) task_id of Some ks \<Rightarrow> ks | None \<Rightarrow> {});
          event_order = queue_of (tp_applied_event_order p) task_id;
          full = tp_replay_limit p \<le> int (length event_order);
          kept_keys = (if full \<and> event_order \<noteq> [] then event_keys - {hd event_order} else event_keys);
          kept_order = (if full then tl event_order else event_order)
      in p\<lparr>tp_applied_event_keys := dict_set task_id (insert key kept_keys) (tp_applied_event_keys p),
           tp_applied_event_order := dict_set task_id (kept_order @ [key]) (tp_applied_event_order p)\<rparr>)"

section \<open>The next status\<close>

text \<open>After \<open>_validate_attempt\<close> the attempt is an int.\<close>

fun attempt_int :: "pyobj \<Rightarrow> int" where
  "attempt_int (PyInt n) = n"
| "attempt_int _ = 0"

definition advances_delivery :: "TaskStatus \<Rightarrow> TaskLifecycleEvent \<Rightarrow> bool" where
  "advances_delivery current ev =
     (if st_attempt current < attempt_int (ev_attempt ev) then True
      else case ev_delivery_attempt ev of
        None \<Rightarrow> False
      | Some delivery \<Rightarrow>
          if attempt_int (ev_attempt ev) \<noteq> st_attempt current then False
          else if st_delivery_identity current \<noteq> None
                  \<and> ev_delivery_identity ev \<noteq> st_delivery_identity current then False
          else (case st_delivery_attempt current of None \<Rightarrow> True | Some d \<Rightarrow> d < delivery))"

definition next_progress :: "TaskStatus option \<Rightarrow> TaskLifecycleEvent \<Rightarrow> SafeJsonMetadata option" where
  "next_progress current ev =
     (case ev_progress ev of
        Some m \<Rightarrow> Some m
      | None \<Rightarrow> (case current of
          None \<Rightarrow> None
        | Some st \<Rightarrow> if ev_kind ev = K_STARTED \<and> advances_delivery st ev then None else st_progress st))"

definition next_worker_id :: "TaskStatus option \<Rightarrow> TaskLifecycleEvent \<Rightarrow> string option" where
  "next_worker_id current ev =
     (case ev_worker_id ev of
        Some w \<Rightarrow> Some w
      | None \<Rightarrow> (case current of
          None \<Rightarrow> None
        | Some st \<Rightarrow> if ev_kind ev = K_STARTED \<and> advances_delivery st ev then None else st_worker_id st))"

definition next_error_type :: "TaskStatus option \<Rightarrow> TaskLifecycleEvent \<Rightarrow> string option" where
  "next_error_type current ev =
     (case ev_error_type ev of
        Some e \<Rightarrow> Some e
      | None \<Rightarrow> if ev_kind ev \<in> {K_STARTED, K_SUCCEEDED} then None
                else (case current of None \<Rightarrow> None | Some st \<Rightarrow> st_error_type st))"

definition next_terminal_at :: "TaskStatus option \<Rightarrow> TaskLifecycleEvent \<Rightarrow> rat \<Rightarrow> rat option" where
  "next_terminal_at current ev occurred_at =
     (case Option.bind current st_terminal_at of
        Some t \<Rightarrow> Some t
      | None \<Rightarrow>
          if ev_kind ev \<in> {K_FAILED, K_SUCCEEDED}
          then Some (max occurred_at (case current of None \<Rightarrow> occurred_at | Some st \<Rightarrow> st_updated_at st))
          else None)"

section \<open>Validation\<close>

definition validate_identity :: "TaskStatus \<Rightarrow> TaskLifecycleEvent \<Rightarrow> unit result" where
  "validate_identity current ev =
     (if ev_task_name ev \<noteq> st_task_name current
         \<or> ev_schema_version ev \<noteq> st_schema_version current
         \<or> ev_queue ev \<noteq> st_queue current
         \<or> ev_correlation_id ev \<noteq> st_correlation_id current
         \<or> ev_causation_id ev \<noteq> st_causation_id current
      then Inl TaskLifecycleError else Inr ())"

definition worker_matches :: "TaskStatus \<Rightarrow> TaskLifecycleEvent \<Rightarrow> bool" where
  "worker_matches current ev \<longleftrightarrow>
     st_worker_id current = None \<or> ev_worker_id ev = None \<or> st_worker_id current = ev_worker_id ev"

definition validate_start :: "TaskStatus \<Rightarrow> TaskLifecycleEvent \<Rightarrow> unit result" where
  "validate_start current ev =
     (if st_attempt current < attempt_int (ev_attempt ev) then Inr ()
      else case st_delivery_attempt current of
        None \<Rightarrow> if worker_matches current ev then Inr () else Inl TaskLifecycleError
      | Some d \<Rightarrow>
          if st_delivery_identity current \<noteq> None
             \<and> ev_delivery_identity ev \<noteq> st_delivery_identity current then Inl TaskLifecycleError
          else case ev_delivery_attempt ev of
            None \<Rightarrow> Inl TaskLifecycleError
          | Some d' \<Rightarrow>
              if d < d' then Inr ()
              else if d' < d then Inl TaskLifecycleError
              else if worker_matches current ev then Inr () else Inl TaskLifecycleError)"

definition validate_worker :: "TaskStatus option \<Rightarrow> TaskLifecycleEvent \<Rightarrow> unit result" where
  "validate_worker current ev =
     (case current of
        None \<Rightarrow> Inr ()
      | Some st \<Rightarrow>
          if ev_kind ev = K_STARTED then validate_start st ev
          else if st_delivery_attempt st \<noteq> None \<and> ev_delivery_attempt ev \<noteq> st_delivery_attempt st
          then Inl TaskLifecycleError
          else if st_delivery_identity st \<noteq> None \<and> ev_delivery_identity ev \<noteq> st_delivery_identity st
          then Inl TaskLifecycleError
          else if worker_matches st ev then Inr () else Inl TaskLifecycleError)"

definition expected_attempt :: "TaskStatus option \<Rightarrow> TaskLifecycleEvent \<Rightarrow> int" where
  "expected_attempt current ev =
     (case current of
        None \<Rightarrow> 1
      | Some st \<Rightarrow>
          if st_state st = RETRY_SCHEDULED \<and> ev_kind ev = K_STARTED
          then st_attempt st + 1 else st_attempt st)"

definition validate_attempt :: "TaskStatus option \<Rightarrow> TaskLifecycleEvent \<Rightarrow> unit result" where
  "validate_attempt current ev =
     res_bind (positive_int (ev_attempt ev)) (\<lambda>n.
       if n \<noteq> expected_attempt current ev then Inl TaskLifecycleError else Inr ())"

section \<open>Operations\<close>

definition or_current :: "'a option \<Rightarrow> TaskStatus option \<Rightarrow> (TaskStatus \<Rightarrow> 'a option) \<Rightarrow> 'a option" where
  "or_current x current field =
     (case x of Some v \<Rightarrow> Some v | None \<Rightarrow> Option.bind current field)"

fun py_opt :: "('a \<Rightarrow> pyobj) \<Rightarrow> 'a option \<Rightarrow> pyobj" where
  "py_opt f None = PyNone"
| "py_opt f (Some x) = f x"

text \<open>The \<open>TaskStatus(...)\<close> call of \<open>apply\<close>.\<close>

definition next_status ::
    "TaskStatus option \<Rightarrow> TaskLifecycleEvent \<Rightarrow> rat \<Rightarrow> TaskStatus result" where
  "next_status current ev occurred_at =
     make_TaskStatus (ev_task_id ev) (ev_task_name ev) (ev_schema_version ev)
       (KIND_STATE (ev_kind ev)) (ev_queue ev) (ev_correlation_id ev) (ev_causation_id ev)
       (attempt_int (ev_attempt ev))
       (case current of None \<Rightarrow> occurred_at | Some st \<Rightarrow> st_submitted_at st)
       (case current of None \<Rightarrow> occurred_at | Some st \<Rightarrow> max occurred_at (st_updated_at st))
       (next_worker_id current ev) (map_option Safe (next_progress current ev))
       (next_error_type current ev)
       (py_opt PyInt (or_current (ev_delivery_attempt ev) current st_delivery_attempt))
       (py_opt PyStr (or_current (ev_delivery_identity ev) current st_delivery_identity))
       (py_opt (\<lambda>t. PyFloat (Fin t)) (next_terminal_at current ev occurred_at))"

definition store_status ::
    "TaskStatus \<Rightarrow> TaskLifecycleEvent \<Rightarrow> TaskEventKey \<Rightarrow> TaskStatusProjection \<Rightarrow> TaskStatusProjection"
where
  "store_status st ev key p =
     record_applied_event (ev_task_id ev) key
       (p\<lparr>tp_statuses := dict_set (ev_task_id ev) st (tp_statuses p),
          tp_history := dict_set (ev_task_id ev)
            (trim_left (tp_history_limit p) (queue_of (tp_history p) (ev_task_id ev) @ [ev]))
            (tp_history p)\<rparr>)"

text \<open>\<open>event_key in applied_event_keys\<close>, when there is a status and a set of keys.\<close>

definition already_applied :: "TaskStatusProjection \<Rightarrow> UUID \<Rightarrow> TaskEventKey \<Rightarrow> bool" where
  "already_applied p task_id key =
     (case dict_get (tp_applied_event_keys p) task_id of None \<Rightarrow> False | Some ks \<Rightarrow> key \<in> ks)"

definition apply_new ::
    "TaskLifecycleEvent \<Rightarrow> rat \<Rightarrow> TaskStatus option \<Rightarrow> (TaskStatusProjection, TaskStatus) pyop" where
  "apply_new ev occurred_at current p =
     (if ev_kind ev \<notin> set (ALLOWED_TRANSITIONS (map_option st_state current))
      then (Inl TaskLifecycleError, p)
      else checked (case current of None \<Rightarrow> Inr () | Some st \<Rightarrow> validate_identity st ev) p (\<lambda>_.
        checked (validate_attempt current ev) p (\<lambda>_.
        checked (validate_worker current ev) p (\<lambda>_.
        checked (next_status current ev occurred_at) p (\<lambda>st.
          (Inr st, store_status st ev (event_key ev occurred_at) p))))))"

definition apply_event :: "pyfloat \<Rightarrow> TaskLifecycleEvent \<Rightarrow> (TaskStatusProjection, TaskStatus) pyop" where
  "apply_event now ev p =
     checked (finite_time (ev_occurred_at ev)) p (\<lambda>occurred_at.
       let q = prune_expired now p;
           current = dict_get (tp_statuses q) (ev_task_id ev)
       in case current of
            Some st \<Rightarrow>
              if already_applied q (ev_task_id ev) (event_key ev occurred_at) then (Inr st, q)
              else apply_new ev occurred_at current q
          | None \<Rightarrow> apply_new ev occurred_at current q)"

definition status :: "pyfloat \<Rightarrow> UUID \<Rightarrow> (TaskStatusProjection, TaskStatus option) pyop" where
  "status now task_id p =
     (let q = prune_expired now p in (Inr (dict_get (tp_statuses q) task_id), q))"

definition lifecycle :: "pyfloat \<Rightarrow> UUID \<Rightarrow> (TaskStatusProjection, TaskLifecycleEvent list) pyop" where
  "lifecycle now task_id p =
     (let q = prune_expired now p in (Inr (queue_of (tp_history q) task_id), q))"

definition restore :: "pyfloat \<Rightarrow> TaskStatus \<Rightarrow> (TaskStatusProjection, unit) pyop" where
  "restore now st p =
     (let q = prune_expired now p
      in (Inr (), case dict_get (tp_statuses q) (st_task_id st) of
            Some current \<Rightarrow>
              if st_updated_at current \<le> st_updated_at st
              then q\<lparr>tp_statuses := dict_set (st_task_id st) st (tp_statuses q)\<rparr> else q
          | None \<Rightarrow> q\<lparr>tp_statuses := dict_set (st_task_id st) st (tp_statuses q)\<rparr>))"

section \<open>How calls change the projection\<close>

datatype task_call =
    Apply pyfloat TaskLifecycleEvent
  | Status pyfloat UUID
  | Lifecycle pyfloat UUID
  | Restore pyfloat TaskStatus

fun task_step :: "task_call \<Rightarrow> TaskStatusProjection \<Rightarrow> TaskStatusProjection" where
  "task_step (Apply now ev) p = snd (apply_event now ev p)"
| "task_step (Status now task_id) p = snd (status now task_id p)"
| "task_step (Lifecycle now task_id) p = snd (lifecycle now task_id p)"
| "task_step (Restore now st) p = snd (restore now st p)"

text \<open>\<open>pruned now p t\<close>: pruning at \<open>now\<close> forgets the task.\<close>

definition pruned :: "pyfloat \<Rightarrow> TaskStatusProjection \<Rightarrow> UUID \<Rightarrow> bool" where
  "pruned now p t \<longleftrightarrow>
     (\<exists>r st. tp_retention_seconds p = Some r \<and> (t, st) \<in> set (tp_statuses p) \<and> expired_status now r st)"

lemma prune_expired_get:
  "dict_get (tp_statuses (prune_expired now p)) t = (if pruned now p t then None else dict_get (tp_statuses p) t)"
  "dict_get (tp_history (prune_expired now p)) t = (if pruned now p t then None else dict_get (tp_history p) t)"
  "dict_get (tp_applied_event_keys (prune_expired now p)) t =
     (if pruned now p t then None else dict_get (tp_applied_event_keys p) t)"
  "dict_get (tp_applied_event_order (prune_expired now p)) t =
     (if pruned now p t then None else dict_get (tp_applied_event_order p) t)"
  by (auto simp: prune_expired_def pruned_def Let_def split: option.splits)

lemma prune_expired_limits [simp]:
  "tp_retention_seconds (prune_expired now p) = tp_retention_seconds p"
  "tp_history_limit (prune_expired now p) = tp_history_limit p"
  "tp_replay_limit (prune_expired now p) = tp_replay_limit p"
  by (simp_all add: prune_expired_def Let_def split: option.splits)

lemma prune_expired_never [simp]: "tp_retention_seconds p = None \<Longrightarrow> prune_expired now p = p"
  by (simp add: prune_expired_def)

lemma store_status_limits [simp]:
  "tp_retention_seconds (store_status st ev key p) = tp_retention_seconds p"
  "tp_history_limit (store_status st ev key p) = tp_history_limit p"
  "tp_replay_limit (store_status st ev key p) = tp_replay_limit p"
  by (simp_all add: store_status_def record_applied_event_def Let_def)

lemma store_status_get:
  "dict_get (tp_statuses (store_status st ev key p)) t =
     (if t = ev_task_id ev then Some st else dict_get (tp_statuses p) t)"
  "dict_get (tp_history (store_status st ev key p)) t =
     (if t = ev_task_id ev
      then Some (trim_left (tp_history_limit p) (queue_of (tp_history p) t @ [ev]))
      else dict_get (tp_history p) t)"
  by (simp_all add: store_status_def record_applied_event_def Let_def)

text \<open>The window of applied keys after one more key.\<close>

definition window_add :: "int \<Rightarrow> TaskEventKey \<Rightarrow> TaskEventKey list \<Rightarrow> TaskEventKey list" where
  "window_add limit key ks = (if limit \<le> int (length ks) then tl ks else ks) @ [key]"

lemma store_status_order:
  "dict_get (tp_applied_event_order (store_status st ev key p)) t =
     (if t = ev_task_id ev
      then Some (window_add (tp_replay_limit p) key (queue_of (tp_applied_event_order p) t))
      else dict_get (tp_applied_event_order p) t)"
  by (simp add: store_status_def record_applied_event_def Let_def window_add_def)

text \<open>What an accepted event has passed.\<close>

definition accepted :: "TaskStatus option \<Rightarrow> TaskLifecycleEvent \<Rightarrow> rat \<Rightarrow> TaskStatus \<Rightarrow> bool" where
  "accepted current ev occurred_at st \<longleftrightarrow>
     ev_kind ev \<in> set (ALLOWED_TRANSITIONS (map_option st_state current))
     \<and> (\<forall>c. current = Some c \<longrightarrow> validate_identity c ev = Inr ())
     \<and> validate_attempt current ev = Inr () \<and> validate_worker current ev = Inr ()
     \<and> next_status current ev occurred_at = Inr st"

lemma apply_event_cases:
  obtains (rejected) e where "apply_event now ev p = (Inl e, p)" "finite_time (ev_occurred_at ev) = Inl e"
  | (refused) e where "apply_event now ev p = (Inl e, prune_expired now p)"
  | (replayed) st occurred_at where
      "apply_event now ev p = (Inr st, prune_expired now p)"
      "finite_time (ev_occurred_at ev) = Inr occurred_at"
      "dict_get (tp_statuses (prune_expired now p)) (ev_task_id ev) = Some st"
      "already_applied (prune_expired now p) (ev_task_id ev) (event_key ev occurred_at)"
  | (accepted) st occurred_at where
      "apply_event now ev p = (Inr st, store_status st ev (event_key ev occurred_at) (prune_expired now p))"
      "finite_time (ev_occurred_at ev) = Inr occurred_at"
      "accepted (dict_get (tp_statuses (prune_expired now p)) (ev_task_id ev)) ev occurred_at st"
      "dict_get (tp_statuses (prune_expired now p)) (ev_task_id ev) = None
       \<or> \<not> already_applied (prune_expired now p) (ev_task_id ev) (event_key ev occurred_at)"
proof (cases "finite_time (ev_occurred_at ev)")
  case (Inl e)
  then show ?thesis by (intro rejected [of e]) (simp_all add: apply_event_def)
next
  case (Inr tm)
  define q where "q = prune_expired now p"
  define cur where "cur = dict_get (tp_statuses q) (ev_task_id ev)"
  have new: "(\<exists>e. apply_new ev tm cur q = (Inl e, q))
    \<or> (\<exists>st. accepted cur ev tm st \<and> apply_new ev tm cur q = (Inr st, store_status st ev (event_key ev tm) q))"
    unfolding apply_new_def accepted_def
    by (auto split: checked_splits option.splits)
  show ?thesis
  proof (cases "cur \<noteq> None \<and> already_applied q (ev_task_id ev) (event_key ev tm)")
    case True
    then obtain st where "cur = Some st" by auto
    with True Inr show ?thesis
      by (intro replayed [of st tm]) (simp_all add: apply_event_def Let_def q_def cur_def)
  next
    case False
    then have eq: "apply_event now ev p = apply_new ev tm cur q"
      using Inr by (auto simp: apply_event_def Let_def q_def [symmetric] cur_def split: option.split)
    from new show ?thesis
    proof (elim disjE exE conjE)
      fix e assume "apply_new ev tm cur q = (Inl e, q)"
      then show ?thesis using eq by (intro refused) (simp add: q_def)
    next
      fix st assume "accepted cur ev tm st"
        and "apply_new ev tm cur q = (Inr st, store_status st ev (event_key ev tm) q)"
      then show ?thesis using eq Inr False
        by (intro accepted) (auto simp: q_def cur_def)
    qed
  qed
qed

section \<open>The statuses an accepted event leads to\<close>

lemma validate_attempt_Inr [simp]:
  "validate_attempt current ev = Inr () \<longleftrightarrow>
     ev_attempt ev = PyInt (expected_attempt current ev) \<and> 1 \<le> expected_attempt current ev"
  by (cases "ev_attempt ev") (auto simp: validate_attempt_def)

lemma optional_positive_int_Inr:
  "optional_positive_int (py_opt PyInt x) = Inr y \<Longrightarrow> y = x"
  by (cases x) (auto split: if_splits)

lemma optional_identity_Inr:
  "optional_identity (py_opt PyStr x) = Inr y \<Longrightarrow> y = x"
  by (cases x) (auto split: if_splits)

lemma optional_time_Inr: "optional_time (py_opt (\<lambda>t. PyFloat (Fin t)) x) = Inr y \<Longrightarrow> y = x"
  by (cases x) auto

lemma checked_progress_Safe: "checked_progress (map_option Safe x) = Inr y \<Longrightarrow> y = x"
  by (cases x) auto

lemma next_status_fields:
  assumes "next_status current ev tm = Inr st"
  shows "st_task_id st = ev_task_id ev" "st_task_name st = ev_task_name ev"
    "st_schema_version st = ev_schema_version ev" "st_state st = KIND_STATE (ev_kind ev)"
    "st_queue st = ev_queue ev" "st_correlation_id st = ev_correlation_id ev"
    "st_causation_id st = ev_causation_id ev" "st_attempt st = attempt_int (ev_attempt ev)"
    "st_submitted_at st = (case current of None \<Rightarrow> tm | Some c \<Rightarrow> st_submitted_at c)"
    "st_updated_at st = (case current of None \<Rightarrow> tm | Some c \<Rightarrow> max tm (st_updated_at c))"
    "st_delivery_attempt st = or_current (ev_delivery_attempt ev) current st_delivery_attempt"
    "st_terminal_at st = next_terminal_at current ev tm"
    "terminal (st_state st) \<longleftrightarrow> st_terminal_at st \<noteq> None"
proof -
  have *: "next_terminal_at current ev tm = None \<longleftrightarrow>
      py_opt (\<lambda>t. PyFloat (Fin t)) (next_terminal_at current ev tm) = PyNone"
    by (cases "next_terminal_at current ev tm") auto
  show "st_task_id st = ev_task_id ev" "st_task_name st = ev_task_name ev"
    "st_schema_version st = ev_schema_version ev" "st_state st = KIND_STATE (ev_kind ev)"
    "st_queue st = ev_queue ev" "st_correlation_id st = ev_correlation_id ev"
    "st_causation_id st = ev_causation_id ev" "st_attempt st = attempt_int (ev_attempt ev)"
    "st_submitted_at st = (case current of None \<Rightarrow> tm | Some c \<Rightarrow> st_submitted_at c)"
    "st_updated_at st = (case current of None \<Rightarrow> tm | Some c \<Rightarrow> max tm (st_updated_at c))"
    "st_delivery_attempt st = or_current (ev_delivery_attempt ev) current st_delivery_attempt"
    "st_terminal_at st = next_terminal_at current ev tm"
    "terminal (st_state st) \<longleftrightarrow> st_terminal_at st \<noteq> None"
    using assms *
    by (auto simp: next_status_def make_TaskStatus_def split: if_splits
        dest!: optional_positive_int_Inr optional_time_Inr simp del: optional_time.simps)
qed

text \<open>A status evolves: who it is about stays, the attempt and the delivery within it never go back,
  the update time never goes back, and a finished task stays as it finished, but for a failed one that
  is dead-lettered.\<close>

fun delivery_le :: "int option \<Rightarrow> int option \<Rightarrow> bool" where
  "delivery_le None _ = True"
| "delivery_le (Some d) None = False"
| "delivery_le (Some d) (Some d') = (d \<le> d')"

definition evolves :: "TaskStatus \<Rightarrow> TaskStatus \<Rightarrow> bool" where
  "evolves st st' \<longleftrightarrow>
     st_task_name st' = st_task_name st \<and> st_schema_version st' = st_schema_version st
     \<and> st_queue st' = st_queue st \<and> st_correlation_id st' = st_correlation_id st
     \<and> st_causation_id st' = st_causation_id st \<and> st_submitted_at st' = st_submitted_at st
     \<and> st_updated_at st \<le> st_updated_at st'
     \<and> (st_attempt st < st_attempt st'
        \<or> st_attempt st = st_attempt st' \<and> delivery_le (st_delivery_attempt st) (st_delivery_attempt st'))
     \<and> (st_terminal_at st \<noteq> None \<longrightarrow> st_terminal_at st' = st_terminal_at st)
     \<and> (terminal (st_state st) \<longrightarrow>
          st_state st' = st_state st \<or> st_state st = FAILED \<and> st_state st' = DEAD_LETTERED)"

lemma delivery_le_refl [simp]: "delivery_le d d"
  by (cases d) auto

lemma delivery_le_trans: "delivery_le a b \<Longrightarrow> delivery_le b c \<Longrightarrow> delivery_le a c"
  by (cases a; cases b; cases c) auto

lemma evolves_refl [simp]: "evolves st st"
  by (simp add: evolves_def)

lemma evolves_trans: "evolves a b \<Longrightarrow> evolves b c \<Longrightarrow> evolves a c"
proof -
  assume ab: "evolves a b" and bc: "evolves b c"
  have "st_attempt a < st_attempt c
      \<or> st_attempt a = st_attempt c \<and> delivery_le (st_delivery_attempt a) (st_delivery_attempt c)"
    using ab bc unfolding evolves_def by (metis delivery_le_trans less_trans)
  moreover have "st_terminal_at a \<noteq> None \<Longrightarrow> st_terminal_at c = st_terminal_at a"
    using ab bc unfolding evolves_def by metis
  moreover have "terminal (st_state a) \<Longrightarrow>
      st_state c = st_state a \<or> st_state a = FAILED \<and> st_state c = DEAD_LETTERED"
    using ab bc by (cases "st_state b") (auto simp: evolves_def TERMINAL_TASK_STATES_def)
  moreover have "st_updated_at a \<le> st_updated_at c"
    using ab bc by (simp add: evolves_def)
  ultimately show ?thesis using ab bc unfolding evolves_def by metis
qed

lemma validate_worker_delivery:
  assumes "validate_worker (Some c) ev = Inr ()" and "attempt_int (ev_attempt ev) = st_attempt c"
  shows "delivery_le (st_delivery_attempt c) (or_current (ev_delivery_attempt ev) (Some c) st_delivery_attempt)"
  using assms
  by (auto simp: validate_worker_def validate_start_def or_current_def split: if_splits option.splits)

lemma terminal_transition:
  "k \<in> set (ALLOWED_TRANSITIONS (Some st)) \<Longrightarrow> terminal st \<Longrightarrow> st = FAILED \<and> k = K_DEAD_LETTERED"
  by (cases st) (auto simp: TERMINAL_TASK_STATES_def)

lemma accepted_evolves:
  assumes "accepted (Some c) ev tm st"
  shows "evolves c st"
proof -
  have next_st: "next_status (Some c) ev tm = Inr st" and w: "validate_worker (Some c) ev = Inr ()"
    and n: "ev_attempt ev = PyInt (expected_attempt (Some c) ev)"
    and i: "validate_identity c ev = Inr ()"
    and k: "ev_kind ev \<in> set (ALLOWED_TRANSITIONS (Some (st_state c)))"
    using assms by (auto simp: accepted_def)
  note f = next_status_fields [OF next_st]
  have "st_attempt c < st_attempt st
      \<or> st_attempt c = st_attempt st \<and> delivery_le (st_delivery_attempt c) (st_delivery_attempt st)"
  proof (cases "attempt_int (ev_attempt ev) = st_attempt c")
    case True
    then show ?thesis using validate_worker_delivery [OF w] f by simp
  next
    case False
    then have "attempt_int (ev_attempt ev) = st_attempt c + 1"
      using n by (auto simp: expected_attempt_def split: if_splits)
    then show ?thesis using f by simp
  qed
  moreover have "st_terminal_at c \<noteq> None \<Longrightarrow> st_terminal_at st = st_terminal_at c"
    using f by (auto simp: next_terminal_at_def)
  moreover have "terminal (st_state c) \<Longrightarrow> st_state c = FAILED \<and> st_state st = DEAD_LETTERED"
    using terminal_transition [OF k] f by auto
  ultimately show ?thesis
    using f i by (auto simp: evolves_def validate_identity_def split: if_splits)
qed

section \<open>The invariant of the projection\<close>

text \<open>The set of applied keys is the set of the window, which has no duplicates and is bounded.\<close>

definition window_ok :: "int \<Rightarrow> TaskEventKey set option \<Rightarrow> TaskEventKey list option \<Rightarrow> bool" where
  "window_ok limit ks order \<longleftrightarrow>
     (case order of
        None \<Rightarrow> ks = None
      | Some xs \<Rightarrow> ks = Some (set xs) \<and> distinct xs \<and> int (length xs) \<le> limit)"

definition task_ok :: "TaskStatusProjection \<Rightarrow> UUID \<Rightarrow> bool" where
  "task_ok p t \<longleftrightarrow>
     int (length (queue_of (tp_history p) t)) \<le> tp_history_limit p
     \<and> window_ok (tp_replay_limit p) (dict_get (tp_applied_event_keys p) t)
         (dict_get (tp_applied_event_order p) t)
     \<and> (dict_get (tp_statuses p) t = None \<longrightarrow>
          dict_get (tp_history p) t = None \<and> dict_get (tp_applied_event_order p) t = None)"

definition projection_inv :: "TaskStatusProjection \<Rightarrow> bool" where
  "projection_inv p \<longleftrightarrow>
     1 \<le> tp_history_limit p \<and> tp_history_limit p \<le> tp_replay_limit p \<and> (\<forall>t. task_ok p t)"

lemma new_projection_inv: "new_projection retention history replay = Inr p \<Longrightarrow> projection_inv p"
  by (cases history; cases replay)
     (auto simp: new_projection_def projection_inv_def task_ok_def queue_of_def window_ok_def
       split: if_splits)

lemma prune_expired_inv: "projection_inv p \<Longrightarrow> projection_inv (prune_expired now p)"
  by (auto simp: projection_inv_def task_ok_def prune_expired_get queue_of_def window_ok_def)

lemma window_add_ok:
  assumes "window_ok limit (dict_get (tp_applied_event_keys p) t) (dict_get (tp_applied_event_order p) t)"
    and "limit = tp_replay_limit p" and "1 \<le> limit"
    and "key \<notin> set (queue_of (tp_applied_event_order p) t)" and "t = ev_task_id ev"
  shows "window_ok limit (dict_get (tp_applied_event_keys (store_status st ev key p)) t)
           (dict_get (tp_applied_event_order (store_status st ev key p)) t)"
proof -
  define xs where "xs = queue_of (tp_applied_event_order p) t"
  define ks where "ks = (case dict_get (tp_applied_event_keys p) t of Some ks \<Rightarrow> ks | None \<Rightarrow> {})"
  have xs: "ks = set xs" "distinct xs" "int (length xs) \<le> limit"
    using assms(1,3) by (auto simp: window_ok_def xs_def ks_def queue_of_def split: option.splits)
  have keys: "dict_get (tp_applied_event_keys (store_status st ev key p)) t =
      Some (insert key (if limit \<le> int (length xs) \<and> xs \<noteq> [] then ks - {hd xs} else ks))"
    using assms(2,5) by (simp add: store_status_def record_applied_event_def Let_def xs_def ks_def)
  have order: "dict_get (tp_applied_event_order (store_status st ev key p)) t = Some (window_add limit key xs)"
    using assms(2,5) by (simp add: store_status_order xs_def)
  have key: "key \<notin> set xs" using assms(4) by (simp add: xs_def)
  show ?thesis
  proof (cases xs)
    case Nil
    then show ?thesis using xs keys order assms(3) by (simp add: window_ok_def window_add_def)
  next
    case (Cons x ys)
    then show ?thesis
      using xs keys order assms(3) key by (auto simp: window_ok_def window_add_def)
  qed
qed

lemma store_status_other:
  assumes "t \<noteq> ev_task_id ev"
  shows "dict_get (tp_applied_event_keys (store_status st ev key p)) t = dict_get (tp_applied_event_keys p) t"
  using assms by (simp add: store_status_def record_applied_event_def Let_def)

lemma store_status_inv:
  assumes inv: "projection_inv p" and new: "key \<notin> set (queue_of (tp_applied_event_order p) (ev_task_id ev))"
  shows "projection_inv (store_status st ev key p)"
proof -
  have "task_ok (store_status st ev key p) t" for t
  proof (cases "t = ev_task_id ev")
    case True
    have "window_ok (tp_replay_limit p) (dict_get (tp_applied_event_keys (store_status st ev key p)) t)
           (dict_get (tp_applied_event_order (store_status st ev key p)) t)"
      using inv new True by (intro window_add_ok) (auto simp: projection_inv_def task_ok_def)
    then show ?thesis
      using inv True
      by (auto simp: task_ok_def store_status_get queue_of_def projection_inv_def
          trim_left_keep_last length_keep_last)
  next
    case False
    then show ?thesis
      using inv by (simp add: task_ok_def store_status_get store_status_order store_status_other
          projection_inv_def queue_of_def)
  qed
  then show ?thesis using inv by (simp add: projection_inv_def)
qed

text \<open>In a good projection an event counts as applied exactly if its key is in the window.\<close>

lemma already_applied_iff:
  "projection_inv p \<Longrightarrow> already_applied p t key \<longleftrightarrow> key \<in> set (queue_of (tp_applied_event_order p) t)"
proof -
  assume "projection_inv p"
  then have "window_ok (tp_replay_limit p) (dict_get (tp_applied_event_keys p) t)
      (dict_get (tp_applied_event_order p) t)"
    by (simp add: projection_inv_def task_ok_def)
  then show ?thesis
    by (auto simp: window_ok_def already_applied_def queue_of_def split: option.splits)
qed

lemma fresh_key:
  assumes "projection_inv p" and "dict_get (tp_statuses p) t = None \<or> \<not> already_applied p t key"
  shows "key \<notin> set (queue_of (tp_applied_event_order p) t)"
  using assms already_applied_iff [OF assms(1)]
  by (auto simp: projection_inv_def task_ok_def queue_of_def)

lemma apply_event_inv:
  assumes "projection_inv p"
  shows "projection_inv (snd (apply_event now ev p))"
proof (cases rule: apply_event_cases [of now ev p])
  case (accepted st tm)
  then show ?thesis
    using prune_expired_inv [OF assms, of now]
    by (simp add: store_status_inv [OF _ fresh_key [OF _ accepted(4)]])
qed (use assms prune_expired_inv [OF assms] in auto)

lemma restore_inv: "projection_inv p \<Longrightarrow> projection_inv (snd (restore now st p))"
  using prune_expired_inv [of p now]
  by (auto simp: restore_def Let_def projection_inv_def task_ok_def split: option.splits)

interpretation tasks: guarded_machine task_step projection_inv
proof
  fix s c
  assume "projection_inv s"
  then show "projection_inv (task_step c s)"
    by (cases c) (simp_all add: apply_event_inv restore_inv status_def lifecycle_def Let_def
        prune_expired_inv)
qed

section \<open>Properties\<close>

fun is_Restore :: "task_call \<Rightarrow> bool" where
  "is_Restore (Restore _ _) = True"
| "is_Restore _ = False"

text \<open>A history that the transition table allows, which leads to the status.\<close>

definition lawful_path :: "TaskLifecycleEvent list \<Rightarrow> bool" where
  "lawful_path h \<longleftrightarrow>
     successively (\<lambda>e e'. ev_kind e' \<in> set (ALLOWED_TRANSITIONS (Some (KIND_STATE (ev_kind e))))) h"

definition lawful_history :: "int \<Rightarrow> UUID \<Rightarrow> TaskStatus \<Rightarrow> TaskLifecycleEvent list \<Rightarrow> bool" where
  "lawful_history limit t st h \<longleftrightarrow>
     h \<noteq> [] \<and> int (length h) \<le> limit \<and> (\<forall>e \<in> set h. ev_task_id e = t)
     \<and> lawful_path h \<and> st_state st = KIND_STATE (ev_kind (last h))
     \<and> (int (length h) < limit \<longrightarrow> ev_kind (hd h) = K_SUBMITTED)
     \<and> (terminal (st_state st) \<longleftrightarrow> st_terminal_at st \<noteq> None)"

fun lawful_task :: "int \<Rightarrow> UUID \<Rightarrow> TaskStatus option \<Rightarrow> TaskLifecycleEvent list option \<Rightarrow> bool" where
  "lawful_task limit t None h \<longleftrightarrow> h = None"
| "lawful_task limit t (Some st) None \<longleftrightarrow> False"
| "lawful_task limit t (Some st) (Some h) \<longleftrightarrow> lawful_history limit t st h"

definition lawful :: "TaskStatusProjection \<Rightarrow> bool" where
  "lawful p \<longleftrightarrow> 1 \<le> tp_history_limit p
     \<and> (\<forall>t. lawful_task (tp_history_limit p) t (dict_get (tp_statuses p) t) (dict_get (tp_history p) t))"

lemma lawful_prune: "lawful p \<Longrightarrow> lawful (prune_expired now p)"
  by (simp add: lawful_def prune_expired_get)

lemma lawful_task_Some:
  "lawful_task limit t (Some st) h \<longleftrightarrow> (\<exists>h'. h = Some h' \<and> lawful_history limit t st h')"
  by (cases h) auto

lemma lawful_path_tl: "lawful_path (e # h) \<Longrightarrow> lawful_path h"
  by (cases h) (auto simp: lawful_path_def)

lemma lawful_history_append:
  assumes "lawful_history limit t c h" and "accepted (Some c) ev tm st" and "ev_task_id ev = t"
    and "1 \<le> limit"
  shows "lawful_history limit t st (trim_left limit (h @ [ev]))"
proof -
  note f = next_status_fields [of "Some c" ev tm st]
  have n: "next_status (Some c) ev tm = Inr st"
    and k: "ev_kind ev \<in> set (ALLOWED_TRANSITIONS (Some (st_state c)))"
    using assms(2) by (auto simp: accepted_def)
  obtain e h' where h: "h = e # h'" using assms(1) by (cases h) (auto simp: lawful_history_def)
  have path: "lawful_path (h @ [ev])"
    using assms(1) k by (auto simp: lawful_path_def lawful_history_def successively_append_iff)
  show ?thesis
  proof (cases "int (length h) < limit")
    case True
    then have "trim_left limit (h @ [ev]) = h @ [ev]"
      using assms(4) by (simp add: trim_left_keep_last keep_last_short)
    then show ?thesis
      using assms(1,3) f(4,13) [OF n] path True by (auto simp: lawful_history_def)
  next
    case False
    then have "trim_left limit (h @ [ev]) = h' @ [ev]"
      using assms(1,4)
      by (simp add: lawful_history_def h trim_left_keep_last keep_last_short [of "h' @ [ev]"])
    moreover have "lawful_path (h' @ [ev])" using path lawful_path_tl by (simp add: h)
    moreover have "int (length (h' @ [ev])) = limit"
      using False assms(1) by (simp add: lawful_history_def h)
    ultimately show ?thesis
      using assms(1,3) f(4,13) [OF n] by (auto simp: lawful_history_def h)
  qed
qed

lemma lawful_history_first:
  assumes "accepted None ev tm st" and "1 \<le> limit"
  shows "lawful_history limit (ev_task_id ev) st (trim_left limit [ev])"
proof -
  have n: "next_status None ev tm = Inr st" and k: "ev_kind ev = K_SUBMITTED"
    using assms(1) by (auto simp: accepted_def)
  then show ?thesis
    using next_status_fields(4,13) [OF n] assms(2) by (auto simp: lawful_history_def lawful_path_def)
qed

lemma lawful_apply:
  assumes "lawful p"
  shows "lawful (snd (apply_event now ev p))"
proof (cases rule: apply_event_cases [of now ev p])
  case (accepted st tm)
  define q where "q = prune_expired now p"
  have q: "lawful q" unfolding q_def by (rule lawful_prune [OF assms])
  then have limit: "1 \<le> tp_history_limit q" by (simp add: lawful_def)
  have "lawful_history (tp_history_limit q) (ev_task_id ev) st
      (trim_left (tp_history_limit q) (queue_of (tp_history q) (ev_task_id ev) @ [ev]))"
  proof (cases "dict_get (tp_statuses q) (ev_task_id ev)")
    case None
    then have "queue_of (tp_history q) (ev_task_id ev) = []"
      using q by (metis lawful_def lawful_task.simps(1) option.simps(4) queue_of_def)
    then show ?thesis
      using accepted(3) None lawful_history_first [OF _ limit] by (simp add: q_def)
  next
    case (Some c)
    then have "lawful_history (tp_history_limit q) (ev_task_id ev) c (queue_of (tp_history q) (ev_task_id ev))"
      using q by (metis lawful_def lawful_task_Some option.simps(5) queue_of_def)
    then show ?thesis
      using accepted(3) Some by (intro lawful_history_append [OF _ _ refl limit]) (auto simp: q_def)
  qed
  then have "lawful (store_status st ev (event_key ev tm) q)"
    using q by (simp add: lawful_def store_status_get)
  then show ?thesis using accepted(1) by (simp add: q_def)
qed (use assms lawful_prune [OF assms] in auto)

lemma lawful_step: "lawful p \<Longrightarrow> \<not> is_Restore c \<Longrightarrow> lawful (task_step c p)"
  by (cases c) (simp_all add: lawful_apply lawful_prune status_def lifecycle_def Let_def)

lemma new_projection_lawful: "new_projection retention history replay = Inr p \<Longrightarrow> lawful p"
  by (cases history) (auto simp: new_projection_def lawful_def split: if_splits)

lemma task_step_limits [simp]:
  "tp_retention_seconds (task_step c p) = tp_retention_seconds p"
  "tp_replay_limit (task_step c p) = tp_replay_limit p"
  "tp_history_limit (task_step c p) = tp_history_limit p"
proof -
  have "tp_retention_seconds (snd (apply_event now ev p)) = tp_retention_seconds p
      \<and> tp_history_limit (snd (apply_event now ev p)) = tp_history_limit p
      \<and> tp_replay_limit (snd (apply_event now ev p)) = tp_replay_limit p" for now ev
    by (cases rule: apply_event_cases [of now ev p]) simp_all
  then show "tp_retention_seconds (task_step c p) = tp_retention_seconds p"
    and "tp_replay_limit (task_step c p) = tp_replay_limit p"
    and "tp_history_limit (task_step c p) = tp_history_limit p"
    by (cases c; simp add: status_def lifecycle_def restore_def Let_def split: option.splits)+
qed

text \<open>The reading of the clock with which a call prunes.\<close>

fun call_time :: "task_call \<Rightarrow> pyfloat" where
  "call_time (Apply now _) = now"
| "call_time (Status now _) = now"
| "call_time (Lifecycle now _) = now"
| "call_time (Restore now _) = now"

fun restores :: "UUID \<Rightarrow> task_call \<Rightarrow> bool" where
  "restores t (Restore _ st) \<longleftrightarrow> st_task_id st = t"
| "restores t _ \<longleftrightarrow> False"

text \<open>At one of the calls the task was finished, with this status, and its retention time was over.\<close>

definition retention_over :: "UUID \<Rightarrow> task_call list \<Rightarrow> TaskStatusProjection \<Rightarrow> TaskStatus \<Rightarrow> bool" where
  "retention_over t cs p st \<longleftrightarrow>
     (\<exists>bs c ds r. cs = bs @ c # ds \<and> tp_retention_seconds p = Some r
       \<and> dict_get (tp_statuses (run task_step bs p)) t = Some st \<and> expired_status (call_time c) r st)"

lemma retention_over_Cons: "retention_over t cs (task_step c p) st \<Longrightarrow> retention_over t (c # cs) p st"
  unfolding retention_over_def by (metis append_Cons run_simps(2) task_step_limits(1))

lemma retention_over_run: "retention_over t cs (run task_step bs p) st \<Longrightarrow> retention_over t (bs @ cs) p st"
  by (induction bs arbitrary: p) (simp_all add: retention_over_Cons del: task_step.simps)

lemma prune_expired_distinct: "distinct (dict_keys (tp_statuses p)) \<Longrightarrow> distinct (dict_keys (tp_statuses (prune_expired now p)))"
  by (simp add: prune_expired_def Let_def distinct_dict_pop_all split: option.splits)

lemma task_step_distinct: "distinct (dict_keys (tp_statuses p)) \<Longrightarrow> distinct (dict_keys (tp_statuses (task_step c p)))"
proof -
  assume p: "distinct (dict_keys (tp_statuses p))"
  note q = prune_expired_distinct [OF p]
  have "distinct (dict_keys (tp_statuses (snd (apply_event now ev p))))" for now ev
    by (cases rule: apply_event_cases [of now ev p])
       (use p q in \<open>simp_all add: store_status_def record_applied_event_def Let_def distinct_update\<close>)
  then show ?thesis
    using q by (cases c) (simp_all add: status_def lifecycle_def restore_def Let_def distinct_update split: option.splits)
qed

lemma pruned_retention_over:
  assumes "pruned (call_time c) p t" and "distinct (dict_keys (tp_statuses p))"
  shows "\<exists>st. dict_get (tp_statuses p) t = Some st \<and> retention_over t (c # cs) p st"
proof -
  obtain r st where "tp_retention_seconds p = Some r" "(t, st) \<in> set (tp_statuses p)" "expired_status (call_time c) r st"
    using assms(1) by (auto simp: pruned_def)
  then show ?thesis using assms(2) unfolding retention_over_def by (intro exI [of _ st] conjI exI [of _ "[]"]) auto
qed

lemma task_step_evolve:
  assumes "\<not> restores t c" and "\<not> pruned (call_time c) p t" and "dict_get (tp_statuses p) t = Some st"
  shows "\<exists>st'. dict_get (tp_statuses (task_step c p)) t = Some st' \<and> evolves st st'"
proof -
  have q: "dict_get (tp_statuses (prune_expired (call_time c) p)) t = Some st"
    using assms(2,3) by (simp add: prune_expired_get)
  show ?thesis
  proof (cases c)
    case (Apply now ev)
    show ?thesis
    proof (cases rule: apply_event_cases [of now ev p])
      case (accepted st' tm)
      then show ?thesis
        using q accepted_evolves [of st ev tm st'] Apply by (auto simp: store_status_get)
    qed (use q assms(3) Apply in auto)
  next
    case (Restore now st0)
    then show ?thesis using q assms(1) by (auto simp: restore_def Let_def split: option.splits)
  qed (use q in \<open>auto simp: status_def lifecycle_def Let_def\<close>)
qed

lemma run_evolve:
  assumes "\<forall>c \<in> set cs. \<not> restores t c" and "dict_get (tp_statuses p) t = Some st" and "distinct (dict_keys (tp_statuses p))"
  shows "(\<exists>st'. dict_get (tp_statuses (run task_step cs p)) t = Some st' \<and> evolves st st')
    \<or> (\<exists>st'. evolves st st' \<and> retention_over t cs p st')"
  using assms
proof (induction cs arbitrary: p st)
  case (Cons c cs)
  show ?case
  proof (cases "pruned (call_time c) p t")
    case True
    then show ?thesis using pruned_retention_over [OF True Cons.prems(3)] Cons.prems(2) by (metis evolves_refl option.inject)
  next
    case False
    obtain st1 where st1: "dict_get (tp_statuses (task_step c p)) t = Some st1" "evolves st st1"
      using task_step_evolve [OF _ False Cons.prems(2)] Cons.prems(1) by auto
    have "\<forall>c \<in> set cs. \<not> restores t c" using Cons.prems(1) by simp
    from Cons.IH [OF this st1(1) task_step_distinct [OF Cons.prems(3)]] show ?thesis
      using st1(2) evolves_trans retention_over_Cons unfolding run_simps(2) by blast
  qed
qed simp

text \<open>A key stays in the window for as long as fewer than \<open>limit\<close> keys have come after it.\<close>

definition in_window :: "TaskEventKey \<Rightarrow> nat \<Rightarrow> TaskEventKey list \<Rightarrow> bool" where
  "in_window key n ks \<longleftrightarrow> (\<exists>xs ys. ks = xs @ key # ys \<and> length ys \<le> n)"

lemma in_window_add:
  assumes "in_window key n ks" and "int (Suc n) < limit"
  shows "in_window key (Suc n) (window_add limit k ks)"
proof -
  obtain xs ys where ks: "ks = xs @ key # ys" "length ys \<le> n"
    using assms(1) by (auto simp: in_window_def)
  show ?thesis
  proof (cases "limit \<le> int (length ks)")
    case True
    then have "xs \<noteq> []" using ks assms(2) by auto
    then have "window_add limit k ks = tl xs @ key # (ys @ [k])"
      using True ks by (simp add: window_add_def)
    then show ?thesis using ks(2) unfolding in_window_def by force
  next
    case False
    then have "window_add limit k ks = xs @ key # (ys @ [k])"
      using ks by (simp add: window_add_def)
    then show ?thesis using ks(2) unfolding in_window_def by force
  qed
qed

lemma in_window_mono: "in_window key n ks \<Longrightarrow> in_window key (Suc n) ks"
  unfolding in_window_def by (metis le_Suc_eq)

lemma in_window_in: "in_window key n ks \<Longrightarrow> key \<in> set ks"
  by (auto simp: in_window_def)

lemma task_step_window:
  assumes kept: "\<not> pruned (call_time c) p t"
    and w: "in_window key n (queue_of (tp_applied_event_order p) t)"
    and less: "int (Suc n) < tp_replay_limit p"
  shows "in_window key (Suc n) (queue_of (tp_applied_event_order (task_step c p)) t)"
proof -
  let ?q = "prune_expired (call_time c) p"
  have q: "queue_of (tp_applied_event_order ?q) t = queue_of (tp_applied_event_order p) t"
    using kept by (simp add: queue_of_def prune_expired_get)
  show ?thesis
  proof (cases c)
    case (Apply now ev)
    show ?thesis
    proof (cases rule: apply_event_cases [of now ev p])
      case (accepted st tm)
      show ?thesis
      proof (cases "t = ev_task_id ev")
        case True
        then show ?thesis
          using accepted(1) in_window_add [OF w less] q Apply by (simp add: queue_of_def store_status_order)
      next
        case False
        then show ?thesis
          using accepted(1) in_window_mono [OF w] q Apply by (simp add: queue_of_def store_status_order)
      qed
    qed (use in_window_mono [OF w] q Apply in simp_all)
  next
    case (Restore now st)
    then have "queue_of (tp_applied_event_order (task_step c p)) t = queue_of (tp_applied_event_order ?q) t"
      by (simp add: restore_def Let_def split: option.splits)
    then show ?thesis using in_window_mono [OF w] q by simp
  qed (use in_window_mono [OF w] q in \<open>simp_all add: status_def lifecycle_def Let_def\<close>)
qed

lemma run_window:
  assumes "in_window key n (queue_of (tp_applied_event_order p) t)" and "int (n + length cs) < tp_replay_limit p"
    and "distinct (dict_keys (tp_statuses p))"
  shows "in_window key (n + length cs) (queue_of (tp_applied_event_order (run task_step cs p)) t)
    \<or> (\<exists>st. retention_over t cs p st)"
  using assms
proof (induction cs arbitrary: p n)
  case (Cons c cs)
  show ?case
  proof (cases "pruned (call_time c) p t")
    case True
    then show ?thesis using pruned_retention_over [OF True Cons.prems(3)] by blast
  next
    case False
    have "in_window key (Suc n) (queue_of (tp_applied_event_order (task_step c p)) t)"
      by (rule task_step_window [OF False]) (use Cons.prems in simp_all)
    from Cons.IH [OF this _ task_step_distinct [OF Cons.prems(3)]] show ?thesis
      using Cons.prems(2) retention_over_Cons [of t cs c p] by (auto simp del: task_step.simps)
  qed
qed simp

text \<open>A task that has a window keeps its status.\<close>

lemma window_status:
  assumes "projection_inv p" and "key \<in> set (queue_of (tp_applied_event_order p) t)"
  obtains st where "dict_get (tp_statuses p) t = Some st"
  using assms by (cases "dict_get (tp_statuses p) t")
    (auto simp: projection_inv_def task_ok_def queue_of_def)

lemma apply_event_again:
  assumes "projection_inv p" and "\<not> pruned now p (ev_task_id ev)"
    and "finite_time (ev_occurred_at ev) = Inr tm"
    and "event_key ev tm \<in> set (queue_of (tp_applied_event_order p) (ev_task_id ev))"
  shows "\<exists>st. dict_get (tp_statuses p) (ev_task_id ev) = Some st \<and> apply_event now ev p = (Inr st, prune_expired now p)"
proof -
  obtain st where st: "dict_get (tp_statuses p) (ev_task_id ev) = Some st"
    using window_status [OF assms(1,4)] .
  have "event_key ev tm \<in> set (queue_of (tp_applied_event_order (prune_expired now p)) (ev_task_id ev))"
    using assms(2,4) by (simp add: queue_of_def prune_expired_get)
  then show ?thesis
    using assms(2,3) st already_applied_iff [OF prune_expired_inv [OF assms(1)]]
    by (simp add: apply_event_def Let_def prune_expired_get)
qed

text \<open>Events for concrete runs.\<close>

definition sample_event :: "TaskLifecycleKind \<Rightarrow> int \<Rightarrow> rat \<Rightarrow> TaskLifecycleEvent" where
  "sample_event kind attempt occurred_at =
     \<lparr>ev_kind = kind, ev_task_id = 7, ev_task_name = ''mail.send'', ev_schema_version = 1,
      ev_queue = ''default'', ev_correlation_id = 7, ev_causation_id = None,
      ev_attempt = PyInt attempt, ev_delivery_attempt = Some 1, ev_delivery_identity = None,
      ev_worker_id = Some ''w1'', ev_progress = None, ev_error_type = None,
      ev_occurred_at = PyFloat (Fin occurred_at)\<rparr>"

text \<open>C23: However events, reads and prunings follow each other, the history that the projection keeps
  for a task is a path of the transition table, within its limit, that begins with the submission
  unless it has been trimmed, and ends in the state of the task's status; a status has a terminal time
  exactly if its state is terminal.\<close>

theorem task_history_lawful:
  assumes "new_projection retention history replay = Inr p" and "\<forall>c \<in> set cs. \<not> is_Restore c"
    and "dict_get (tp_statuses (run task_step cs p)) t = Some st"
  shows "lawful_history (tp_history_limit p) t st (queue_of (tp_history (run task_step cs p)) t)"
proof -
  have "lawful (run task_step cs p) \<and> tp_history_limit (run task_step cs p) = tp_history_limit p"
    by (rule run_invariant_on) (use assms(1,2) in \<open>simp_all add: new_projection_lawful lawful_step\<close>)
  then show ?thesis
    using assms(3) by (metis lawful_def lawful_task_Some option.simps(5) queue_of_def)
qed

theorem task_history_lawful_witness:
  "\<exists>p st. new_projection PyNone (PyInt 2) PyNone = Inr p
    \<and> dict_get (tp_statuses (run task_step
        [Apply (Fin 1) (sample_event K_SUBMITTED 1 1), Apply (Fin 2) (sample_event K_STARTED 1 2),
         Apply (Fin 3) (sample_event K_SUCCEEDED 1 3)] p)) 7 = Some st
    \<and> lawful_history 2 7 st (queue_of (tp_history (run task_step
        [Apply (Fin 1) (sample_event K_SUBMITTED 1 1), Apply (Fin 2) (sample_event K_STARTED 1 2),
         Apply (Fin 3) (sample_event K_SUCCEEDED 1 3)] p)) 7)"
proof -
  let ?cs = "[Apply (Fin 1) (sample_event K_SUBMITTED 1 1), Apply (Fin 2) (sample_event K_STARTED 1 2),
         Apply (Fin 3) (sample_event K_SUCCEEDED 1 3)]"
  obtain p where p: "new_projection PyNone (PyInt 2) PyNone = Inr p" and l: "tp_history_limit p = 2"
    by (simp add: new_projection_def)
  have "case new_projection PyNone (PyInt 2) PyNone of Inl _ \<Rightarrow> False
      | Inr p \<Rightarrow> dict_get (tp_statuses (run task_step ?cs p)) 7 \<noteq> None" by code_simp
  then obtain st where st: "dict_get (tp_statuses (run task_step ?cs p)) 7 = Some st" using p by auto
  show ?thesis using task_history_lawful [OF p _ st] p st l by auto
qed

text \<open>C24: Whatever events arrive in whatever order, the status of a task only ever moves forward: its
  identity and submission time stay, its attempt and within the attempt its delivery never go back, nor
  does its update time, and once it has finished it stays as it finished, but for a failed task that is
  dead-lettered. This holds for every retention time, until the task is forgotten, which can only happen at a
  call at which the task, having moved forward until then, is finished and its retention time is over. The
  calls may be of any kind, as long as none restores a status of this very task from elsewhere.\<close>

theorem task_status_never_regresses:
  assumes "new_projection retention history replay = Inr p0" and "p = run task_step bs p0"
    and "\<forall>c \<in> set cs. \<not> restores t c" and "dict_get (tp_statuses p) t = Some st"
  shows "(\<exists>st'. dict_get (tp_statuses (run task_step cs p)) t = Some st' \<and> evolves st st')
    \<or> (\<exists>st'. evolves st st' \<and> retention_over t cs p st')"
proof -
  have "distinct (dict_keys (tp_statuses p))"
    unfolding assms(2) by (rule run_invariant) (use assms(1) in \<open>auto simp: new_projection_def intro: task_step_distinct\<close>)
  from run_evolve [OF assms(3,4) this] show ?thesis .
qed

theorem task_status_never_regresses_witness:
  "\<exists>p st. new_projection (PyInt 60) (PyInt 5) PyNone = Inr p
    \<and> dict_get (tp_statuses (run task_step [Apply (Fin 1) (sample_event K_SUBMITTED 1 1)] p)) 7 = Some st
    \<and> (\<exists>st'. dict_get (tp_statuses (run task_step [Apply (Fin 2) (sample_event K_FAILED 1 2), Apply (Fin 3) (sample_event K_STARTED 1 9)]
           (run task_step [Apply (Fin 1) (sample_event K_SUBMITTED 1 1)] p))) 7 = Some st' \<and> evolves st st')"
proof -
  let ?bs = "[Apply (Fin 1) (sample_event K_SUBMITTED 1 1)]"
  let ?cs = "[Apply (Fin 2) (sample_event K_FAILED 1 2), Apply (Fin 3) (sample_event K_STARTED 1 9)]"
  have "case new_projection (PyInt 60) (PyInt 5) PyNone of Inl _ \<Rightarrow> False
      | Inr p \<Rightarrow> dict_get (tp_statuses (run task_step ?bs p)) 7 \<noteq> None
          \<and> dict_get (tp_statuses (run task_step ?cs (run task_step ?bs p))) 7 \<noteq> None
          \<and> tp_retention_seconds p = Some 60
          \<and> (case dict_get (tp_statuses (run task_step ?bs p)) 7 of None \<Rightarrow> False | Some s0 \<Rightarrow> \<not> expired_status (Fin 2) 60 s0)
          \<and> (case dict_get (tp_statuses (run task_step (take 1 ?cs) (run task_step ?bs p))) 7 of None \<Rightarrow> False
              | Some s1 \<Rightarrow> \<not> expired_status (Fin 3) 60 s1)"
    by code_simp
  then obtain p st where p: "new_projection (PyInt 60) (PyInt 5) PyNone = Inr p" "tp_retention_seconds p = Some 60"
    and st: "dict_get (tp_statuses (run task_step ?bs p)) 7 = Some st" "\<not> expired_status (Fin 2) 60 st"
    and s1: "\<forall>s1. dict_get (tp_statuses (run task_step (take 1 ?cs) (run task_step ?bs p))) 7 = Some s1 \<longrightarrow> \<not> expired_status (Fin 3) 60 s1"
    by (fastforce simp del: task_step.simps run_simps split: sum.splits option.splits)
  have "\<not> retention_over 7 ?cs (run task_step ?bs p) st'" for st'
  proof
    assume "retention_over 7 ?cs (run task_step ?bs p) st'"
    then obtain ds c es where split: "?cs = ds @ c # es"
      and over: "dict_get (tp_statuses (run task_step ds (run task_step ?bs p))) 7 = Some st'" "expired_status (call_time c) 60 st'"
      using p(2) by (auto simp: retention_over_def simp del: task_step.simps)
    from split have "ds = [] \<and> call_time c = Fin 2 \<or> ds = take 1 ?cs \<and> call_time c = Fin 3"
      by (auto simp: Cons_eq_append_conv)
    then show False using over st s1 by (auto simp del: task_step.simps)
  qed
  then show ?thesis
    using task_status_never_regresses [OF p(1) refl _ st(1), of ?cs] p(1) st(1) by (auto simp del: task_step.simps run_simps)
qed

text \<open>C25: Delivering an event again is harmless: after an event has been accepted, and fewer than
  \<open>replay_limit\<close> further calls of any kind, applying it again returns the task's current status and changes
  nothing, but that finished tasks whose retention time is over are forgotten, as with every call. The only
  exception is a task that is itself forgotten: then it was finished and its retention time was over at one of
  the calls since, or is over at this one.\<close>

theorem task_event_replay_idempotent:
  assumes "new_projection retention history replay = Inr p0" and "p = run task_step bs p0"
    and "apply_event now ev p = (Inr st, p')" and "p' \<noteq> prune_expired now p" and "q = run task_step cs p'"
    and "int (length cs) < tp_replay_limit p"
  shows "(\<exists>st'. dict_get (tp_statuses q) (ev_task_id ev) = Some st' \<and> apply_event later ev q = (Inr st', prune_expired later q))
    \<or> (\<exists>st'. retention_over (ev_task_id ev) (cs @ [Apply later ev]) p' st')"
proof -
  let ?t = "ev_task_id ev"
  have inv: "projection_inv p"
    using tasks.run_inv [OF new_projection_inv [OF assms(1)]] assms(2) by simp
  have dist: "distinct (dict_keys (tp_statuses p))"
    unfolding assms(2) by (rule run_invariant) (use assms(1) in \<open>auto simp: new_projection_def intro: task_step_distinct\<close>)
  have p': "p' = task_step (Apply now ev) p" using assms(3) by simp
  have q: "projection_inv q" unfolding assms(5) p' by (rule tasks.run_inv [OF tasks.step_inv [OF inv]])
  have q_dist: "distinct (dict_keys (tp_statuses q))"
    unfolding assms(5) p' by (rule run_invariant) (intro task_step_distinct dist, erule task_step_distinct)
  show ?thesis
  proof (cases rule: apply_event_cases [of now ev p])
    case (accepted st2 tm)
    have "p' = store_status st2 ev (event_key ev tm) (prune_expired now p)" using accepted(1) assms(3) by simp
    then have window: "in_window (event_key ev tm) 0 (queue_of (tp_applied_event_order p') ?t)" "tp_replay_limit p' = tp_replay_limit p"
      by (simp_all add: queue_of_def store_status_order window_add_def in_window_def)
    from run_window [OF window(1), of cs] consider (kept) "event_key ev tm \<in> set (queue_of (tp_applied_event_order q) ?t)"
      | (over) st' where "retention_over ?t cs p' st'"
      using assms(5,6) window(2) task_step_distinct [OF dist, of "Apply now ev"] p' by (auto dest: in_window_in simp del: task_step.simps)
    then show ?thesis
    proof cases
      case kept
      show ?thesis
      proof (cases "pruned later q ?t")
        case True
        then obtain st' where "dict_get (tp_statuses q) ?t = Some st'" "retention_over ?t [Apply later ev] q st'"
          using pruned_retention_over [of "Apply later ev" q ?t "[]"] q_dist by auto
        then have "retention_over ?t (cs @ [Apply later ev]) p' st'"
          using retention_over_run [of ?t "[Apply later ev]" cs p'] assms(5) by simp
        then show ?thesis by blast
      next
        case False
        then show ?thesis using apply_event_again [OF q False accepted(2) kept] by blast
      qed
    next
      case over
      then have "retention_over ?t (cs @ [Apply later ev]) p' st'" unfolding retention_over_def by (metis append_Cons append_assoc)
      then show ?thesis by blast
    qed
  qed (use assms(3,4) in auto)
qed

theorem task_event_replay_idempotent_witness:
  "\<exists>p0 q st'. new_projection PyNone (PyInt 2) (PyInt 2) = Inr p0
    \<and> q = run task_step [Apply (Fin 1) (sample_event K_SUBMITTED 1 1), Apply (Fin 2) (sample_event K_STARTED 1 2)] p0
    \<and> dict_get (tp_statuses q) 7 = Some st'
    \<and> apply_event (Fin 3) (sample_event K_SUBMITTED 1 1) q = (Inr st', q)"
proof -
  let ?e = "sample_event K_SUBMITTED 1 1" and ?cs = "[Apply (Fin 2) (sample_event K_STARTED 1 2)]"
  obtain p0 where p0: "new_projection PyNone (PyInt 2) (PyInt 2) = Inr p0" "tp_statuses p0 = []"
      "tp_replay_limit p0 = 2" "tp_retention_seconds p0 = None"
    by (simp add: new_projection_def)
  have "case new_projection PyNone (PyInt 2) (PyInt 2) of Inl _ \<Rightarrow> False
      | Inr p \<Rightarrow> \<not> isl (fst (apply_event (Fin 1) ?e p))
          \<and> dict_get (tp_statuses (snd (apply_event (Fin 1) ?e p))) 7 \<noteq> None"
    by code_simp
  then obtain st where st: "apply_event (Fin 1) ?e p0 = (Inr st, task_step (Apply (Fin 1) ?e) p0)"
    "task_step (Apply (Fin 1) ?e) p0 \<noteq> prune_expired (Fin 1) p0"
    using p0 by (cases "fst (apply_event (Fin 1) ?e p0)") (fastforce simp: prod_eq_iff)+
  let ?p' = "task_step (Apply (Fin 1) ?e) p0"
  have none: "tp_retention_seconds ?p' = None" "tp_retention_seconds (run task_step ?cs ?p') = None"
    using p0(4) by (simp_all del: task_step.simps)
  have "\<not> retention_over t cs ?p' st'" for t cs st' using none(1) by (simp add: retention_over_def del: task_step.simps)
  moreover have "ev_task_id ?e = 7" by (simp add: sample_event_def)
  ultimately show ?thesis
    using task_event_replay_idempotent [OF p0(1) _ st refl, of "[]" ?cs "Fin 3"] p0 none(2)
    by (auto simp del: task_step.simps)
qed

end
