(* ===== verification/Json_Roundtrip.thy ===== *)
theory Json_Roundtrip
  imports Json_Text
begin

text \<open>
  Reading back what was written: \<open>json.loads\<close> of the text that \<open>json.dumps\<close> makes of a value gives that
  value, with the members of objects in the order of their keys. Numbers, strings and nested values are
  treated in turn; \<open>json_escape\<close> is what the reader relies on of the two ways to write a character.
\<close>

section \<open>Reading back what was written\<close>

subsection \<open>Numbers\<close>

text \<open>What may follow a value.\<close>

definition delimited :: "string \<Rightarrow> bool" where
  "delimited r \<longleftrightarrow> r = [] \<or> hd r \<in> {CHR 0x2C, CHR 0x5D, CHR 0x7D}"

definition not_digit_led :: "string \<Rightarrow> bool" where
  "not_digit_led r \<longleftrightarrow> r = [] \<or> \<not> is_digit (hd r)"

lemma not_digits [simp]:
  "\<not> is_digit (CHR 0x2C)" "\<not> is_digit (CHR 0x5D)" "\<not> is_digit (CHR 0x7D)" "\<not> is_digit (CHR ''.'')"
  "\<not> is_digit (CHR ''e'')" "\<not> is_digit (CHR ''-'')" "\<not> is_digit (CHR ''+'')" "is_digit (CHR ''0'')"
  by code_simp+

lemma delimited_not_digit_led: "delimited r \<Longrightarrow> not_digit_led r"
  by (auto simp: delimited_def not_digit_led_def)

lemma not_digit_led_simps [simp]: "not_digit_led []" "not_digit_led (c # r) \<longleftrightarrow> \<not> is_digit c"
  by (simp_all add: not_digit_led_def)

lemma scan_digits_append:
  assumes "list_all is_digit ds" and "not_digit_led r"
  shows "scan_digits (ds @ r) = (ds, r)"
proof -
  have "takeWhile is_digit r = [] \<and> dropWhile is_digit r = r" using assms(2) by (cases r) auto
  then show ?thesis using assms(1)
    by (simp add: scan_digits_def list_all_iff takeWhile_append2 dropWhile_append2)
qed

definition whole_part :: "string \<Rightarrow> bool" where
  "whole_part ip \<longleftrightarrow> ip \<noteq> [] \<and> list_all is_digit ip \<and> (hd ip = CHR ''0'' \<longrightarrow> ip = ''0'')"

lemma scan_integer_append:
  "whole_part ip \<Longrightarrow> not_digit_led r \<Longrightarrow> scan_integer (ip @ r) = Some (ip, r)"
  by (cases ip) (auto simp: whole_part_def scan_digits_append)

lemma scan_fraction_append:
  assumes "list_all is_digit fp" and "not_digit_led r" and "fp = [] \<Longrightarrow> r = [] \<or> hd r \<noteq> CHR ''.''"
  shows "scan_fraction ((if fp = [] then [] else CHR ''.'' # fp) @ r) = (fp, r)"
  using assms scan_digits_append [OF assms(1,2)] by (cases "fp = []"; cases r) auto

text \<open>An exponent as it is written: a sign and its digits.\<close>

fun exponent_text :: "(bool \<times> string) option \<Rightarrow> string" where
  "exponent_text None = []"
| "exponent_text (Some (negative, es)) = CHR ''e'' # (if negative then CHR ''-'' else CHR ''+'') # es"

fun exponent_value :: "(bool \<times> string) option \<Rightarrow> int" where
  "exponent_value None = 0"
| "exponent_value (Some (negative, es)) = (if negative then - digits_value es else digits_value es)"

lemma scan_exponent_append:
  assumes "\<And>b es. ep = Some (b, es) \<Longrightarrow> es \<noteq> [] \<and> list_all is_digit es" and "delimited r"
  shows "scan_exponent (exponent_text ep @ r) = (map_option (\<lambda>p. exponent_value (Some p)) ep, r)"
proof (cases ep)
  case None
  then show ?thesis using assms(2) by (cases r) (auto simp: delimited_def)
next
  case (Some p)
  then show ?thesis using assms delimited_not_digit_led [OF assms(2)]
    by (cases p) (auto simp: split_sign_def scan_digits_append)
qed

definition number_text :: "string \<Rightarrow> string \<Rightarrow> (bool \<times> string) option \<Rightarrow> string" where
  "number_text ip fp ep = ip @ (if fp = [] then [] else CHR ''.'' # fp) @ exponent_text ep"

lemma exponent_text_led: "delimited r \<Longrightarrow> not_digit_led (exponent_text ep @ r) \<and> (exponent_text ep @ r = [] \<or> hd (exponent_text ep @ r) \<noteq> CHR ''.'')"
  by (cases ep rule: exponent_text.cases) (auto simp: delimited_def not_digit_led_def)

lemma scan_number_text:
  assumes "whole_part ip" and "list_all is_digit fp"
    and "\<And>b es. ep = Some (b, es) \<Longrightarrow> es \<noteq> [] \<and> list_all is_digit es" and "delimited r"
    and "number_value negative ip fp (map_option (\<lambda>p. exponent_value (Some p)) ep) = Some v"
  shows "scan_number ((if negative then ''-'' else []) @ number_text ip fp ep @ r) = Scanned (PyAtom v) r"
proof -
  have "hd ip \<noteq> CHR ''-''" using assms(1) by (cases ip) (auto simp: whole_part_def)
  moreover have "not_digit_led ((if fp = [] then [] else CHR ''.'' # fp) @ exponent_text ep @ r)"
    using exponent_text_led [OF assms(4)] by simp
  then have "scan_integer (number_text ip fp ep @ r) = Some (ip, (if fp = [] then [] else CHR ''.'' # fp) @ exponent_text ep @ r)"
    unfolding number_text_def append_assoc by (rule scan_integer_append [OF assms(1)])
  moreover have "scan_fraction ((if fp = [] then [] else CHR ''.'' # fp) @ exponent_text ep @ r) = (fp, exponent_text ep @ r)"
    using exponent_text_led [OF assms(4)] by (intro scan_fraction_append assms(2)) auto
  ultimately show ?thesis
    using assms(1,5) scan_exponent_append [OF assms(3,4)]
    by (cases ip) (auto simp: scan_number_def number_text_def whole_part_def)
qed

lemma digit_not_word_led:
  assumes "is_digit c"
  shows "c \<noteq> CHR ''n'' \<and> c \<noteq> CHR ''t'' \<and> c \<noteq> CHR ''f'' \<and> c \<noteq> CHR ''N'' \<and> c \<noteq> CHR ''I'' \<and> c \<noteq> CHR ''-''
    \<and> c \<noteq> CHR 0x22 \<and> c \<noteq> CHR 0x7B \<and> c \<noteq> CHR 0x5B"
proof -
  have "list_all (\<lambda>c. \<not> is_digit c) (''ntfNI-'' @ [CHR 0x22, CHR 0x7B, CHR 0x5B])" by code_simp
  then show ?thesis using assms by auto
qed

lemma scan_word_number:
  assumes "is_digit c"
  shows "scan_word ((if negative then ''-'' else []) @ c # cs) = scan_number ((if negative then ''-'' else []) @ c # cs)"
  using digit_not_word_led [OF assms] by (simp add: scan_word_def py_startswith_def)


lemma scan_value_number:
  assumes "whole_part ip" and "list_all is_digit fp"
    and "\<And>b es. ep = Some (b, es) \<Longrightarrow> es \<noteq> [] \<and> list_all is_digit es" and "delimited r"
    and "number_value negative ip fp (map_option (\<lambda>p. exponent_value (Some p)) ep) = Some v"
  shows "scan_value (Suc n) ((if negative then ''-'' else []) @ number_text ip fp ep @ r) = Scanned (PyAtom v) r"
proof -
  obtain c cs where c: "ip = c # cs" "is_digit c" using assms(1) by (cases ip) (auto simp: whole_part_def)
  have "scan_value (Suc n) ((if negative then ''-'' else []) @ number_text ip fp ep @ r)
      = scan_word ((if negative then ''-'' else []) @ number_text ip fp ep @ r)"
    using digit_not_word_led [OF c(2)] c(1) by (simp add: number_text_def)
  also have "\<dots> = scan_number ((if negative then ''-'' else []) @ number_text ip fp ep @ r)"
    using scan_word_number [OF c(2)] c(1) by (simp add: number_text_def)
  also have "\<dots> = Scanned (PyAtom v) r" by (rule scan_number_text [OF assms])
  finally show ?thesis .
qed

lemma scan_value_int:
  assumes "length (digits_str \<bar>k\<bar>) \<le> 4300" and "delimited r"
  shows "scan_value (Suc n) (int_str k @ r) = Scanned (PyAtom (PyInt k)) r"
proof -
  have ds: "whole_part (digits_str \<bar>k\<bar>)"
    using digits_str_value [of "\<bar>k\<bar>"] digits_str_hd [of "\<bar>k\<bar>"]
    by (cases "k = 0") (auto simp: whole_part_def digits_str.simps [of 0])
  have "int_str k = (if k < 0 then ''-'' else []) @ number_text (digits_str \<bar>k\<bar>) [] None"
    by (simp add: int_str_def number_text_def)
  moreover have "number_value (k < 0) (digits_str \<bar>k\<bar>) [] None = Some (PyInt k)"
    using assms(1) digits_str_value [of "\<bar>k\<bar>"] by (auto simp: number_value_def Let_def)
  ultimately show ?thesis using scan_value_number [OF ds, of "[]" None r "k < 0" "PyInt k" n] assms(2) by simp
qed

text \<open>The text of a float is that of a number with a fraction or an exponent and the value of its digits.\<close>

lemma zeros_digits [simp]: "list_all is_digit (replicate n (CHR ''0''))"
  by (simp add: list_all_iff)

definition float_parts :: "string \<Rightarrow> string \<Rightarrow> (bool \<times> string) option \<Rightarrow> rat \<Rightarrow> bool" where
  "float_parts ip fp ep v \<longleftrightarrow> whole_part ip \<and> list_all is_digit fp
     \<and> (\<forall>b es. ep = Some (b, es) \<longrightarrow> es \<noteq> [] \<and> list_all is_digit es) \<and> (fp \<noteq> [] \<or> ep \<noteq> None)
     \<and> of_int (digits_value (ip @ fp)) * 10 powi (exponent_value ep - int (length fp)) = v"

lemma format_repr_parts:
  assumes "ds \<noteq> []" and "list_all is_digit ds" and "hd ds \<noteq> CHR ''0''"
  obtains ip fp ep where "format_repr ds decpt = number_text ip fp ep"
    and "float_parts ip fp ep (of_int (digits_value ds) * 10 powi (decpt - int (length ds)))"
proof -
  have d0: "digits_value ''0'' = 0" by code_simp
  consider "-4 < decpt" "decpt \<le> 0" | "0 < decpt" "decpt \<le> 16" "int (length ds) \<le> decpt"
    | "0 < decpt" "decpt \<le> 16" "decpt < int (length ds)" | "\<not> (-4 < decpt \<and> decpt \<le> 16)" by linarith
  then show thesis
  proof cases
    case 1
    let ?fp = "replicate (nat (- decpt)) (CHR ''0'') @ ds"
    show ?thesis
    proof (rule that [of "''0''" ?fp None])
      show "format_repr ds decpt = number_text ''0'' ?fp None"
        using 1 assms(1) by (simp add: format_repr_def number_text_def)
      show "float_parts ''0'' ?fp None (of_int (digits_value ds) * 10 powi (decpt - int (length ds)))"
        using 1 assms digits_value_append [of "''0''" ?fp] digits_value_append [of "replicate (nat (- decpt)) (CHR ''0'')" ds] d0
        by (simp add: float_parts_def whole_part_def list_all_append)
    qed
  next
    case 2
    let ?ip = "ds @ replicate (nat decpt - length ds) (CHR ''0'')"
    have "digits_value (?ip @ ''0'') = digits_value ds * 10 ^ Suc (nat decpt - length ds)"
      using digits_value_append [of ?ip "''0''"] digits_value_append [of ds "replicate (nat decpt - length ds) (CHR ''0'')"] d0 by simp
    then have "(of_int (digits_value (?ip @ ''0'')) :: rat) * 10 powi (- 1) = of_int (digits_value ds) * 10 ^ (nat decpt - length ds)"
      by (simp add: power_int_def)
    also have "(10::rat) ^ (nat decpt - length ds) = 10 powi (decpt - int (length ds))"
      using 2 by (simp add: power_int_def nat_diff_distrib)
    finally have v: "(of_int (digits_value (?ip @ ''0'')) :: rat) * 10 powi (- 1) = of_int (digits_value ds) * 10 powi (decpt - int (length ds))" .
    show ?thesis
    proof (rule that [of ?ip "''0''" None])
      show "format_repr ds decpt = number_text ?ip ''0'' None"
        using 2 by (simp add: format_repr_def number_text_def)
      show "float_parts ?ip ''0'' None (of_int (digits_value ds) * 10 powi (decpt - int (length ds)))"
        using v assms by (auto simp: float_parts_def whole_part_def)
    qed
  next
    case 3
    show ?thesis
    proof (rule that [of "take (nat decpt) ds" "drop (nat decpt) ds" None])
      show "format_repr ds decpt = number_text (take (nat decpt) ds) (drop (nat decpt) ds) None"
        using 3 by (simp add: format_repr_def number_text_def)
      have "hd (take (nat decpt) ds) = hd ds" "take (nat decpt) ds \<noteq> []" using 3 assms(1) by simp_all
      moreover have "list_all is_digit (take (nat decpt) ds)" "list_all is_digit (drop (nat decpt) ds)"
        using assms(2) by (auto simp: list_all_iff dest: in_set_takeD in_set_dropD)
      moreover have "- int (length ds - nat decpt) = decpt - int (length ds)" using 3 by linarith
      ultimately show "float_parts (take (nat decpt) ds) (drop (nat decpt) ds) None (of_int (digits_value ds) * 10 powi (decpt - int (length ds)))"
        using 3 assms(3) by (simp add: float_parts_def whole_part_def)
    qed
  next
    case 4
    define es where "es = (let e = digits_str \<bar>decpt - 1\<bar> in if length e < 2 then CHR ''0'' # e else e)"
    have es: "es \<noteq> [] \<and> list_all is_digit es \<and> digits_value es = \<bar>decpt - 1\<bar>"
      using digits_str_value [of "\<bar>decpt - 1\<bar>"] digits_value_append [of "''0''" "digits_str \<bar>decpt - 1\<bar>"] d0
      by (auto simp: es_def Let_def)
    obtain c cs where ds: "ds = c # cs" using assms(1) by (cases ds) auto
    show ?thesis
    proof (rule that [of "[c]" cs "Some (decpt - 1 < 0, es)"])
      show "format_repr ds decpt = number_text [c] cs (Some (decpt - 1 < 0, es))"
        unfolding format_repr_def number_text_def es_def if_not_P [OF 4] by (simp add: ds)
      have "exponent_value (Some (decpt - 1 < 0, es)) - int (length cs) = decpt - int (length ds)"
        using es ds by simp
      then show "float_parts [c] cs (Some (decpt - 1 < 0, es)) (of_int (digits_value ds) * 10 powi (decpt - int (length ds)))"
        using es ds assms by (simp add: float_parts_def whole_part_def diff_diff_eq del: exponent_value.simps)
    qed
  qed
qed


lemma scan_value_float_parts:
  assumes "float_parts ip fp ep y" and "fl y = Fin x" and "delimited r"
  shows "scan_value (Suc n) ((if negative then ''-'' else []) @ number_text ip fp ep @ r)
    = Scanned (PyAtom (PyFloat (Fin (if negative then - x else x)))) r"
proof (rule scan_value_number)
  have y: "of_int (digits_value (ip @ fp)) * 10 powi (exponent_value ep - int (length fp)) = y"
    using assms(1) by (simp add: float_parts_def)
  have "(case map_option (\<lambda>p. exponent_value (Some p)) ep of None \<Rightarrow> 0 | Some e \<Rightarrow> e) = exponent_value ep"
    by (cases ep) auto
  then have "number_value negative ip fp (map_option (\<lambda>p. exponent_value (Some p)) ep)
      = Some (PyFloat (fl (if negative then - y else y)))"
    using assms(1) y [symmetric] by (auto simp: number_value_def float_parts_def)
  then show "number_value negative ip fp (map_option (\<lambda>p. exponent_value (Some p)) ep)
      = Some (PyFloat (Fin (if negative then - x else x)))"
    using assms(2) fl_minus [OF assms(2)] by (cases negative) simp_all
qed (use assms in \<open>auto simp: float_parts_def\<close>)

lemma scan_value_positive_float:
  assumes "fl x = Fin x" and "0 < x" and "delimited r"
  shows "scan_value (Suc n) ((if negative then ''-'' else []) @ positive_float_repr x @ r)
    = Scanned (PyAtom (PyFloat (Fin (if negative then - x else x)))) r"
proof -
  obtain ds decpt where ds: "positive_float_repr x = format_repr ds decpt"
    "ds \<noteq> []" "list_all is_digit ds" "hd ds \<noteq> CHR ''0''"
    "fl (of_int (digits_value ds) * 10 powi (decpt - int (length ds))) = Fin x"
    by (rule positive_float_repr_form [OF assms(1,2)])
  obtain ip fp ep where "format_repr ds decpt = number_text ip fp ep"
    "float_parts ip fp ep (of_int (digits_value ds) * 10 powi (decpt - int (length ds)))"
    by (rule format_repr_parts [OF ds(2-4)])
  then show ?thesis using scan_value_float_parts [OF _ ds(5) assms(3)] ds(1) by simp
qed

lemma scan_value_float:
  assumes "fl x = Fin x" and "delimited r"
  shows "scan_value (Suc n) (float_repr x @ r) = Scanned (PyAtom (PyFloat (Fin x))) r"
proof (rule linorder_cases [of x 0])
  assume "x = 0"
  have "float_parts ''0'' ''0'' None 0" by (simp add: float_parts_def whole_part_def digits_value_def)
  then have "scan_value (Suc n) ((if False then ''-'' else []) @ number_text ''0'' ''0'' None @ r)
      = Scanned (PyAtom (PyFloat (Fin (if False then - 0 else 0)))) r"
    by (rule scan_value_float_parts) (simp_all add: assms(2))
  then show ?thesis using \<open>x = 0\<close> by (simp add: float_repr_def number_text_def)
next
  assume "x < 0"
  then show ?thesis
    using scan_value_positive_float [OF fl_minus [OF assms(1)], of r n True] assms(2) by (simp add: float_repr_def)
next
  assume "0 < x"
  then show ?thesis using scan_value_positive_float [OF assms(1) _ assms(2), of n False] by (simp add: float_repr_def)
qed


subsection \<open>Strings\<close>

text \<open>What reading relies on: an escaped character reads as that character.\<close>

locale json_escape =
  fixes esc :: "char \<Rightarrow> string"
  assumes scan_esc: "scan_string (esc c @ t) = scan_bind (scan_string t) (\<lambda>s. Scanned (c # s))"
    and esc_no_null: "CHR 0x00 \<notin> set (esc c)"
begin

lemma scan_escaped: "scan_string (concat (map esc s) @ CHR 0x22 # t) = Scanned s t"
proof (induction s)
  case Nil
  show ?case by (cases t) simp_all
qed (simp add: scan_esc)

end

lemma hex_value_digit: "d < 16 \<Longrightarrow> hex_value (hex_digit d) = Some d"
  by (auto simp: hex_value_def hex_digit_def)

lemma scan_unicode_escape:
  "scan_string ((CHR 0x5C # ''u00'' @ [hex_digit (of_char c div 16), hex_digit (of_char c mod 16)]) @ t)
    = scan_bind (scan_string t) (\<lambda>s. Scanned (c # s))"
proof -
  have n: "of_char c < (256 :: nat)" by simp
  then have "hex_value (hex_digit (of_char c div 16)) = Some (of_char c div 16)"
    by (intro hex_value_digit less_mult_imp_div_less) simp
  moreover have "hex_value (CHR ''0'') = Some 0" by code_simp
  ultimately have "hex4 (''00'' @ [hex_digit (of_char c div 16), hex_digit (of_char c mod 16)] @ t) = Some (of_char c)"
    by (simp add: hex_value_digit)
  moreover have "(256 \<le> (of_char c :: nat)) = False" using leD [of 256] n by blast
  ultimately show ?thesis by (simp del: hex4.simps)
qed

lemma scan_plain:
  "c \<noteq> CHR 0x22 \<Longrightarrow> c \<noteq> CHR 0x5C \<Longrightarrow> 32 \<le> (of_char c :: nat) \<Longrightarrow>
    scan_string (c # t) = scan_bind (scan_string t) (\<lambda>s. Scanned (c # s))"
  by (cases t) simp_all

lemma char_codes:
  "(of_char c :: nat) = 34 \<Longrightarrow> c = CHR 0x22" "(of_char c :: nat) = 92 \<Longrightarrow> c = CHR 0x5C"
  "(of_char c :: nat) = 8 \<Longrightarrow> c = CHR 0x08" "(of_char c :: nat) = 9 \<Longrightarrow> c = CHR 0x09"
  "(of_char c :: nat) = 10 \<Longrightarrow> c = CHR 0x0A" "(of_char c :: nat) = 12 \<Longrightarrow> c = CHR 0x0C"
  "(of_char c :: nat) = 13 \<Longrightarrow> c = CHR 0x0D"
  by (rule iffD1 [OF of_char_eq_iff [where 'a = nat]], simp)+

lemma scan_json_char: "scan_string (json_char c @ t) = scan_bind (scan_string t) (\<lambda>s. Scanned (c # s))"
proof -
  consider "(of_char c :: nat) \<in> {34, 92, 8, 9, 10, 12, 13}"
    | "(of_char c :: nat) < 32" "(of_char c :: nat) \<notin> {8, 9, 10, 12, 13}"
    | "32 \<le> (of_char c :: nat)" "(of_char c :: nat) \<notin> {34, 92}" by force
  then show ?thesis
  proof cases
    case 1
    then show ?thesis by (auto dest!: char_codes simp: json_char_def simple_escape_def)
  next
    case 2
    then have "json_char c = CHR 0x5C # ''u00'' @ [hex_digit (of_char c div 16), hex_digit (of_char c mod 16)]"
      by (simp add: json_char_def Let_def)
    then show ?thesis using scan_unicode_escape by simp
  next
    case 3
    then have "json_char c = [c]" "c \<noteq> CHR 0x22" "c \<noteq> CHR 0x5C" by (auto simp: json_char_def Let_def)
    then show ?thesis using scan_plain [of c t] 3(1) by simp
  qed
qed

lemma scan_ascii_char: "scan_string (ascii_char c @ t) = scan_bind (scan_string t) (\<lambda>s. Scanned (c # s))"
proof (cases "of_char c < (127 :: nat)")
  case True
  then show ?thesis using scan_json_char by (simp only: ascii_char_def Let_def if_True)
next
  case False
  then show ?thesis using scan_unicode_escape by (simp only: ascii_char_def Let_def if_False)
qed

lemma hex_value_null: "hex_value (CHR 0x00) = None"
  by (simp add: hex_value_def)

lemma hex_digit_not_null: "d < 16 \<Longrightarrow> hex_digit d \<noteq> CHR 0x00"
  by (metis hex_value_digit option.distinct(1) hex_value_null)

lemma json_char_no_null: "CHR 0x00 \<notin> set (json_char c)"
proof (cases "of_char c < (32 :: nat)")
  case True
  then have "hex_digit (of_char c div 16) \<noteq> CHR 0x00" "hex_digit (of_char c mod 16) \<noteq> CHR 0x00"
    by (auto intro!: hex_digit_not_null less_mult_imp_div_less)
  then show ?thesis by (auto simp: json_char_def Let_def)
next
  case False
  then have "c \<noteq> CHR 0x00" by auto
  then show ?thesis using False by (auto simp: json_char_def Let_def)
qed

lemma ascii_char_no_null: "CHR 0x00 \<notin> set (ascii_char c)"
  using json_char_no_null [of c] hex_digit_not_null [of "of_char c div 16"] hex_digit_not_null [of "of_char c mod 16"]
  by (auto simp: ascii_char_def Let_def less_mult_imp_div_less)

interpretation json_chars: json_escape json_char
  by unfold_locales (rule scan_json_char json_char_no_null)+

interpretation ascii_chars: json_escape ascii_char
  by unfold_locales (rule scan_ascii_char ascii_char_no_null)+


subsection \<open>Values\<close>

text \<open>The Python value that a written tree reads as.\<close>

fun loaded :: "json \<Rightarrow> pyvalue" where
  "loaded JNull = PyAtom PyNone"
| "loaded (JBool b) = PyAtom (PyBool b)"
| "loaded (JInt n) = PyAtom (PyInt n)"
| "loaded (JFloat x) = PyAtom (PyFloat (Fin x))"
| "loaded (JNonFinite f) = PyAtom (PyFloat f)"
| "loaded (JStr s) = PyAtom (PyStr s)"
| "loaded (JList js) = PySeq (map loaded js)"
| "loaded (JDict d) = PyDict (map (\<lambda>(k, j). (PyStr k, loaded j)) (sort_key fst d))"

text \<open>Trees that stand for Python values: keys are distinct and floats are doubles.\<close>

fun writable :: "json \<Rightarrow> bool" where
  "writable (JFloat x) \<longleftrightarrow> fl x = Fin x"
| "writable (JNonFinite f) \<longleftrightarrow> \<not> is_finite f"
| "writable (JList js) \<longleftrightarrow> (\<forall>j \<in> set js. writable j)"
| "writable (JDict d) \<longleftrightarrow> distinct (dict_keys d) \<and> (\<forall>(k, j) \<in> set d. writable j)"
| "writable _ \<longleftrightarrow> True"

lemma fold_dict_set_distinct:
  "distinct (map fst kvs) \<Longrightarrow> (\<forall>k \<in> set (map fst kvs). dict_get acc (PyStr k) = None) \<Longrightarrow>
    fold (\<lambda>(k, v). dict_set (PyStr k) v) kvs acc = acc @ map (\<lambda>(k, v). (PyStr k, v)) kvs"
proof (induction kvs arbitrary: acc)
  case (Cons p kvs)
  obtain k v where p: "p = (k, v)" by fastforce
  have "fold (\<lambda>(k, v). dict_set (PyStr k) v) kvs (acc @ [(PyStr k, v)]) = (acc @ [(PyStr k, v)]) @ map (\<lambda>(k, v). (PyStr k, v)) kvs"
    using Cons.prems p by (intro Cons.IH) (auto simp: map_of_append map_add_def)
  then show ?case using Cons.prems p by (simp add: dict_set_new)
qed simp

text \<open>The first character of a value is no white space and closes nothing.\<close>

definition value_led :: "string \<Rightarrow> bool" where
  "value_led s \<longleftrightarrow> s \<noteq> [] \<and> hd s \<notin> {CHR '' '', CHR 0x09, CHR 0x0A, CHR 0x0D, CHR 0x5D, CHR 0x7D}"

lemma skip_ws_value_led: "value_led s \<Longrightarrow> skip_ws (s @ r) = s @ r"
  by (cases s) (auto simp: value_led_def skip_ws_def)

lemma value_led_digit: "is_digit c \<Longrightarrow> value_led (c # s)"
proof -
  have "list_all (\<lambda>c. \<not> is_digit c) [CHR '' '', CHR 0x09, CHR 0x0A, CHR 0x0D, CHR 0x5D, CHR 0x7D]" by code_simp
  then show "is_digit c \<Longrightarrow> value_led (c # s)" by (auto simp: value_led_def)
qed

lemma value_led_number: "whole_part ip \<Longrightarrow> value_led ((if negative then ''-'' else []) @ number_text ip fp ep)"
  using value_led_digit by (cases ip) (auto simp: whole_part_def number_text_def value_led_def)

lemma value_led_int: "value_led (int_str n)"
proof -
  obtain c cs where "digits_str \<bar>n\<bar> = c # cs" "is_digit c"
    using digits_str_value [of "\<bar>n\<bar>"] by (cases "digits_str \<bar>n\<bar>") auto
  then show ?thesis using value_led_digit by (auto simp: int_str_def value_led_def)
qed

lemma value_led_positive_float:
  assumes "fl x = Fin x" and "0 < x"
  shows "value_led ((if negative then ''-'' else []) @ positive_float_repr x)"
proof -
  obtain ds decpt where ds: "positive_float_repr x = format_repr ds decpt"
    "ds \<noteq> []" "list_all is_digit ds" "hd ds \<noteq> CHR ''0''"
    by (rule positive_float_repr_form [OF assms])
  obtain ip fp ep v where "format_repr ds decpt = number_text ip fp ep" "float_parts ip fp ep v"
    using format_repr_parts [OF ds(2-4)] by metis
  then show ?thesis using ds(1) value_led_number by (simp add: float_parts_def)
qed

lemma value_led_float: "fl x = Fin x \<Longrightarrow> value_led (float_repr x)"
  using value_led_positive_float [of x False] value_led_positive_float [of "- x" True] fl_minus [of x x]
  by (cases x "0 :: rat" rule: linorder_cases) (simp_all add: float_repr_def value_led_def)

lemma value_led_text:
  assumes "json_text a esc j = Inr s" and "writable j"
  shows "value_led s"
proof (cases j)
  case (JInt n)
  then show ?thesis using assms(1) value_led_int by (auto simp: json_int_def split: if_splits)
next
  case (JFloat x)
  then show ?thesis using assms value_led_float by auto
next
  case (JNonFinite f)
  then show ?thesis using assms by (cases f) (auto simp: value_led_def split: if_splits)
qed (use assms in \<open>auto simp: value_led_def json_string_def split: if_splits\<close>)

subsection \<open>Round trip\<close>

lemma unat_byte: "m < 256 \<Longrightarrow> unat (of_nat m :: 8 word) = m"
  by (simp add: unat_of_nat take_bit_eq_mod)

lemma utf8_char_high:
  assumes "128 \<le> (of_char c :: nat)"
  shows "\<exists>a b. utf8_char c = [a, b] \<and> unat a = 192 + of_char c div 64 \<and> unat b = 128 + of_char c mod 64"
proof -
  have "192 + of_char c div 64 < (256 :: nat)" using nat_of_char_less_256 [of c] by linarith
  moreover have "128 + of_char c mod 64 < (256 :: nat)" by (simp add: add_less_le_mono)
  ultimately show ?thesis using assms unat_byte by (auto simp: utf8_char_def Let_def simp del: of_nat_add)
qed

lemma utf8_decode_char:
  "utf8_decode (utf8_char c @ bs) = map_option (\<lambda>s. c # s) (utf8_decode bs)"
proof (cases "of_char c < (128 :: nat)")
  case True
  then have "utf8_char c = [of_nat (of_char c)]" "of_nat (of_char c) < (128 :: 8 word)"
    "unat (of_nat (of_char c) :: 8 word) = of_char c"
    by (simp_all add: utf8_char_def Let_def word_less_nat_alt unat_of_nat take_bit_eq_mod)
  then show ?thesis by (cases bs) (simp_all)
next
  case False
  then obtain a b where ab: "utf8_char c = [a, b]" "unat a = 192 + of_char c div 64" "unat b = 128 + of_char c mod 64"
    using utf8_char_high [of c] by auto
  have d: "of_char c div 64 = (2 :: nat) \<or> of_char c div 64 = (3 :: nat)"
    using False nat_of_char_less_256 [of c] by linarith
  have "\<not> a < 128" "a = 194 \<or> a = 195" "128 \<le> b" "b < 192"
    using d ab(2,3) by (auto simp: word_less_nat_alt word_le_nat_alt word_unat_eq_iff)
  moreover have "char_of (64 * (unat a - 192) + (unat b - 128)) = c" unfolding ab(2,3) by simp
  ultimately show ?thesis using ab(1) by simp
qed

lemma utf8_decode_encode: "utf8_decode (utf8_encode s) = Some s"
  by (induction s) (simp_all add: utf8_encode_def utf8_decode_char)

lemma utf8_char_no_null:
  assumes "c \<noteq> CHR 0x00"
  shows "0 \<notin> set (utf8_char c)"
proof (cases "of_char c < (128 :: nat)")
  case True
  have "of_char c \<noteq> (0 :: nat)" using assms of_char_eq_iff [of c "CHR 0x00", where 'a = nat] by simp
  then have "unat (of_nat (of_char c) :: 8 word) \<noteq> 0" using True by (simp add: unat_byte)
  then show ?thesis using True by (auto simp: utf8_char_def Let_def)
next
  case False
  then show ?thesis using utf8_char_high [of c] by auto
qed

lemma null_led_utf8:
  assumes "CHR 0x00 \<notin> set s"
  shows "\<not> null_led (utf8_encode s)"
proof -
  have "\<forall>c \<in> set s. 0 \<notin> set (utf8_char c)" using assms utf8_char_no_null by metis
  then have "0 \<notin> set (utf8_encode s)" by (simp add: utf8_encode_def)
  then show ?thesis by (cases "utf8_encode s" rule: null_led.cases) auto
qed

lemma digits_no_null: "list_all is_digit ds \<Longrightarrow> CHR 0x00 \<notin> set ds"
proof -
  have "\<not> is_digit (CHR 0x00)" by code_simp
  then show "list_all is_digit ds \<Longrightarrow> CHR 0x00 \<notin> set ds" by (auto simp: list_all_iff)
qed

lemma int_str_no_null: "CHR 0x00 \<notin> set (int_str n)"
  using digits_no_null digits_str_value [of n] digits_str_value [of "- n"] by (auto simp: int_str_def)

lemma positive_float_no_null:
  assumes "fl x = Fin x" and "0 < x"
  shows "CHR 0x00 \<notin> set (positive_float_repr x)"
proof -
  obtain ds decpt where ds: "positive_float_repr x = format_repr ds decpt"
    "ds \<noteq> []" "list_all is_digit ds" "hd ds \<noteq> CHR ''0''"
    by (rule positive_float_repr_form [OF assms])
  obtain ip fp ep v where p: "format_repr ds decpt = number_text ip fp ep" "float_parts ip fp ep v"
    using format_repr_parts [OF ds(2-4)] by metis
  have "CHR 0x00 \<notin> set (exponent_text ep)"
    using p(2) digits_no_null by (cases ep rule: exponent_text.cases) (auto simp: float_parts_def)
  then show ?thesis using p ds(1) digits_no_null by (auto simp: float_parts_def number_text_def whole_part_def)
qed

lemma float_repr_no_null: "fl x = Fin x \<Longrightarrow> CHR 0x00 \<notin> set (float_repr x)"
  using positive_float_no_null [of x] positive_float_no_null [of "- x"] fl_minus [of x x]
  by (cases x "0 :: rat" rule: linorder_cases) (simp_all add: float_repr_def)

context json_escape
begin

lemma scan_items_text:
  assumes "\<forall>j \<in> set (j0 # js). \<forall>r n. delimited r \<longrightarrow> length (T j) < n \<longrightarrow> scan_value n (T j @ r) = Scanned (loaded j) r"
    and "\<forall>j \<in> set (j0 # js). value_led (T j)" and "length (joined (map T (j0 # js))) + 1 < n"
  shows "scan_items n (joined (map T (j0 # js)) @ CHR 0x5D # r) = Scanned (map loaded (j0 # js)) r"
  using assms
proof (induction js arbitrary: j0 n)
  case Nil
  obtain m where m: "n = Suc m" using Nil.prems(3) by (cases n) auto
  then have "scan_value m (T j0 @ CHR 0x5D # r) = Scanned (loaded j0) (CHR 0x5D # r)"
    using Nil.prems(1,3) by (simp add: delimited_def)
  then show ?case using m by (simp add: skip_ws_def)
next
  case (Cons j1 js)
  obtain m where m: "n = Suc m" using Cons.prems(3) by (cases n) auto
  let ?rest = "joined (map T (j1 # js)) @ CHR 0x5D # r"
  have "scan_value m (T j0 @ CHR 0x2C # ?rest) = Scanned (loaded j0) (CHR 0x2C # ?rest)"
    using Cons.prems(1,3) m by (simp add: delimited_def)
  moreover have "scan_items m ?rest = Scanned (map loaded (j1 # js)) r"
    using Cons.prems m by (intro Cons.IH) auto
  moreover have "skip_ws ?rest = ?rest"
  proof -
    have "value_led (joined (map T (j1 # js)))"
      using Cons.prems(2) by (cases js) (auto simp: value_led_def)
    then show ?thesis by (rule skip_ws_value_led)
  qed
  ultimately show ?case using m by (simp add: skip_ws_def)
qed

lemma scan_members_text:
  assumes "\<forall>(k, j) \<in> set (p0 # ps). \<forall>r n. delimited r \<longrightarrow> length (T j) < n \<longrightarrow> scan_value n (T j @ r) = Scanned (loaded j) r"
    and "\<forall>(k, j) \<in> set (p0 # ps). value_led (T j)"
    and "length (joined (map (\<lambda>(k, j). json_string esc k @ CHR '':'' # T j) (p0 # ps))) < n"
  shows "scan_members n (joined (map (\<lambda>(k, j). json_string esc k @ CHR '':'' # T j) (p0 # ps)) @ CHR 0x7D # r)
    = Scanned (map (\<lambda>(k, j). (k, loaded j)) (p0 # ps)) r"
  using assms
proof (induction ps arbitrary: p0 n)
  case Nil
  obtain k j where p: "p0 = (k, j)" by fastforce
  obtain m where m: "n = Suc m" using Nil.prems(3) by (cases n) auto
  have "scan_value m (T j @ CHR 0x7D # r) = Scanned (loaded j) (CHR 0x7D # r)"
    using Nil.prems(1,3) m p by (simp add: delimited_def json_string_def)
  moreover have "skip_ws (T j @ CHR 0x7D # r) = T j @ CHR 0x7D # r"
    using Nil.prems(2) p by (auto intro: skip_ws_value_led)
  ultimately show ?case using m p by (simp add: json_string_def scan_escaped skip_ws_def)
next
  case (Cons p1 ps)
  obtain k j where p: "p0 = (k, j)" by fastforce
  obtain m where m: "n = Suc m" using Cons.prems(3) by (cases n) auto
  let ?rest = "joined (map (\<lambda>(k, j). json_string esc k @ CHR '':'' # T j) (p1 # ps)) @ CHR 0x7D # r"
  have "scan_value m (T j @ CHR 0x2C # ?rest) = Scanned (loaded j) (CHR 0x2C # ?rest)"
    using Cons.prems(1,3) m p by (simp add: delimited_def json_string_def)
  moreover have "skip_ws (T j @ CHR 0x2C # ?rest) = T j @ CHR 0x2C # ?rest"
    using Cons.prems(2) p by (auto intro: skip_ws_value_led)
  moreover have "scan_members m ?rest = Scanned (map (\<lambda>(k, j). (k, loaded j)) (p1 # ps)) r"
    using Cons.prems m p by (intro Cons.IH) auto
  moreover have "skip_ws ?rest = ?rest"
    by (cases p1; cases ps) (simp_all add: json_string_def skip_ws_def)
  ultimately show ?case using m p by (simp add: json_string_def scan_escaped skip_ws_def)
qed


lemma scan_list_text:
  assumes "\<forall>j \<in> set js. \<forall>r n. delimited r \<longrightarrow> length (T j) < n \<longrightarrow> scan_value n (T j @ r) = Scanned (loaded j) r"
    and "\<forall>j \<in> set js. value_led (T j)" and "length (joined (map T js)) + 2 < n"
  shows "scan_value n (CHR 0x5B # joined (map T js) @ CHR 0x5D # r) = Scanned (PySeq (map loaded js)) r"
proof (cases js)
  case Nil
  then show ?thesis using assms(3) by (cases n) (simp_all add: skip_ws_def)
next
  case (Cons j0 js')
  obtain m where m: "n = Suc m" using assms(3) by (cases n) auto
  let ?t = "joined (map T (j0 # js'))"
  have led: "value_led ?t" using assms(2) Cons by (cases js') (auto simp: value_led_def)
  then obtain c cs where c: "?t = c # cs" "c \<noteq> CHR 0x5D" by (cases ?t) (auto simp: value_led_def)
  have "scan_items m (?t @ CHR 0x5D # r) = Scanned (map loaded (j0 # js')) r"
    using assms Cons m by (intro scan_items_text) auto
  then show ?thesis using skip_ws_value_led [OF led, of "CHR 0x5D # r"] c m Cons by (simp del: joined.simps list.map)
qed

lemma scan_dict_text:
  assumes "\<forall>(k, j) \<in> set d. \<forall>r n. delimited r \<longrightarrow> length (T j) < n \<longrightarrow> scan_value n (T j @ r) = Scanned (loaded j) r"
    and "\<forall>(k, j) \<in> set d. value_led (T j)" and "distinct (dict_keys d)"
    and "length (joined (map (\<lambda>(k, j). json_string esc k @ CHR '':'' # T j) d)) + 1 < n"
  shows "scan_value n (CHR 0x7B # joined (map (\<lambda>(k, j). json_string esc k @ CHR '':'' # T j) d) @ CHR 0x7D # r)
    = Scanned (PyDict (map (\<lambda>(k, j). (PyStr k, loaded j)) d)) r"
proof (cases d)
  case Nil
  then show ?thesis using assms(4) by (cases n) (simp_all add: skip_ws_def)
next
  case (Cons p0 ps)
  obtain m where m: "n = Suc m" using assms(4) by (cases n) auto
  let ?t = "joined (map (\<lambda>(k, j). json_string esc k @ CHR '':'' # T j) (p0 # ps))"
  obtain cs where c: "?t = CHR 0x22 # cs" by (cases p0; cases ps) (auto simp: json_string_def)
  have mem: "scan_members m (?t @ CHR 0x7D # r) = Scanned (map (\<lambda>(k, j). (k, loaded j)) (p0 # ps)) r"
    using assms Cons m by (intro scan_members_text) auto
  have "fold (\<lambda>(k, v). dict_set (PyStr k) v) (map (\<lambda>(k, j). (k, loaded j)) d) []
      = map (\<lambda>(k, v). (PyStr k, v)) (map (\<lambda>(k, j). (k, loaded j)) d)"
    using assms(3) by (subst fold_dict_set_distinct) (auto simp: case_prod_beta comp_def)
  then have fold: "fold (\<lambda>(k, v). dict_set (PyStr k) v) (map (\<lambda>(k, j). (k, loaded j)) d) [] = map (\<lambda>(k, j). (PyStr k, loaded j)) d"
    by (simp add: case_prod_beta comp_def)
  have "skip_ws (?t @ CHR 0x7D # r) = ?t @ CHR 0x7D # r" using c by (simp add: skip_ws_def)
  then have "scan_value n (CHR 0x7B # ?t @ CHR 0x7D # r) = scan_bind (scan_members m (?t @ CHR 0x7D # r)) (\<lambda>kvs.
      Scanned (PyDict (fold (\<lambda>(k, v). dict_set (PyStr k) v) kvs [])))"
    using c m by (simp del: joined.simps list.map)
  then show ?thesis using mem fold Cons by (simp del: joined.simps list.map fold_simps)
qed

lemma scan_json_text:
  "json_text a esc j = Inr s \<Longrightarrow> writable j \<Longrightarrow> delimited r \<Longrightarrow> length s < n \<Longrightarrow>
    scan_value n (s @ r) = Scanned (loaded j) r"
proof (induction j arbitrary: s r n)
  case (JInt k)
  then show ?case using scan_value_int [of k r "n - 1"] by (cases n) (auto simp: json_int_def split: if_splits)
next
  case (JFloat x)
  then show ?case using scan_value_float [of x r "n - 1"] by (cases n) auto
next
  case (JNonFinite f)
  then show ?case by (cases n; cases f) (auto simp: scan_word_def py_startswith_def split: if_splits)
next
  case (JStr t)
  then show ?case by (cases n) (auto simp: json_string_def scan_escaped)
next
  case (JList js)
  define T where "T j = projr (json_text a esc j)" for j
  obtain ss where ss: "map (json_text a esc) js = map Inr ss" "s = ''['' @ joined ss @ '']''"
    using JList.prems(1) by (auto simp: all_results_Inr)
  have "map projr (map (json_text a esc) js) = ss" unfolding ss(1) by (simp add: comp_def)
  then have "ss = map T js" by (auto simp: T_def)
  have T: "json_text a esc j = Inr (T j)" if "j \<in> set js" for j
  proof -
    have "json_text a esc j \<in> set (map Inr ss)" using that ss(1) by (metis image_eqI set_map)
    then show ?thesis by (auto simp: T_def)
  qed
  have "value_led (T j)" if "j \<in> set js" for j
    using value_led_text [OF T [OF that]] JList.prems(2) that by simp
  then have "scan_value n (CHR 0x5B # joined (map T js) @ CHR 0x5D # r) = Scanned (PySeq (map loaded js)) r"
    using JList.IH [OF _ T] JList.prems ss(2) \<open>ss = map T js\<close> by (intro scan_list_text) auto
  then show ?case using ss(2) \<open>ss = map T js\<close> by simp
next
  case (JDict d)
  define T where "T j = projr (json_text a esc j)" for j
  define h where "h = (\<lambda>(k :: string, j). (k, T j))"
  obtain kss where kss: "map (\<lambda>(k, j). res_bind (json_text a esc j) (\<lambda>s. Inr (k, s))) d = map Inr kss"
    "s = ''{'' @ joined (map (\<lambda>(k, s). json_string esc k @ CHR '':'' # s) (sort_key fst kss)) @ ''}''"
    using JDict.prems(1) by (auto simp: all_results_Inr)
  have T: "json_text a esc j = Inr (T j)" if "(k, j) \<in> set d" for k j
  proof -
    have "res_bind (json_text a esc j) (\<lambda>s. Inr (k, s)) \<in> set (map Inr kss)"
      unfolding kss(1) [symmetric] set_map using that by (rule rev_image_eqI) simp
    then show ?thesis by (auto simp: T_def)
  qed
  have "map (\<lambda>(k, j). res_bind (json_text a esc j) (\<lambda>s. Inr (k, s))) d = map Inr (map h d)"
    by (auto simp: h_def T)
  then have "map Inr kss = (map Inr (map h d) :: (string \<times> string) result list)" by (rule trans [OF kss(1) [symmetric]])
  then have "kss = map h d" by (rule map_injective) auto
  then have sorted: "sort_key fst kss = map h (sort_key fst d)"
    using sort_key_map [of fst h fst d] by (simp add: h_def case_prod_beta)
  have doc: "s = CHR 0x7B # joined (map (\<lambda>(k, j). json_string esc k @ CHR '':'' # T j) (sort_key fst d)) @ [CHR 0x7D]"
    using kss(2) unfolding sorted by (simp add: h_def comp_def case_prod_unfold)
  have led: "value_led (T j)" if "(k, j) \<in> set d" for k j
    using value_led_text [OF T [OF that]] JDict.prems(2) that by auto
  have IH: "scan_value n (T j @ r) = Scanned (loaded j) r"
    if "(k, j) \<in> set d" "delimited r" "length (T j) < n" for k j r n
    using JDict.IH [OF that(1) _ T [OF that(1)] _ that(2,3)] JDict.prems(2) that(1) by auto
  have "distinct (dict_keys (sort_key fst d))"
    using JDict.prems(2) by (simp add: distinct_map)
  then have "scan_value n (CHR 0x7B # joined (map (\<lambda>(k, j). json_string esc k @ CHR '':'' # T j) (sort_key fst d)) @ CHR 0x7D # r)
    = Scanned (PyDict (map (\<lambda>(k, j). (PyStr k, loaded j)) (sort_key fst d))) r"
    using led IH JDict.prems(4) doc by (intro scan_dict_text) auto
  then show ?case using doc by simp
next
  case JNull
  then have "s = ''null''" by simp
  then show ?case using JNull.prems(4) by (cases n) (simp_all add: scan_word_def py_startswith_def)
next
  case (JBool b)
  then have "s = (if b then ''true'' else ''false'')" by simp
  then show ?case using JBool.prems(4) by (cases n; cases b) (simp_all add: scan_word_def py_startswith_def)
qed


lemma joined_no_null: "\<forall>s \<in> set ss. CHR 0x00 \<notin> set s \<Longrightarrow> CHR 0x00 \<notin> set (joined ss)"
  by (induction ss rule: joined.induct) auto

lemma json_string_no_null: "CHR 0x00 \<notin> set (json_string esc s)"
  using esc_no_null by (auto simp: json_string_def)

lemma text_no_null: "json_text a esc j = Inr s \<Longrightarrow> writable j \<Longrightarrow> CHR 0x00 \<notin> set s"
proof (induction j arbitrary: s)
  case (JInt n)
  then show ?case using int_str_no_null by (auto simp: json_int_def split: if_splits)
next
  case (JFloat x)
  then show ?case using float_repr_no_null by auto
next
  case (JNonFinite f)
  then show ?case by (cases f) (auto split: if_splits)
next
  case (JStr t)
  then show ?case using json_string_no_null [of t] by simp
next
  case (JList js)
  obtain ss where ss: "map (json_text a esc) js = map Inr ss" "s = ''['' @ joined ss @ '']''"
    using JList.prems(1) by (auto simp: all_results_Inr)
  have "CHR 0x00 \<notin> set t" if "t \<in> set ss" for t
  proof -
    have "Inr t \<in> set (map (json_text a esc) js)" unfolding ss(1) using that by simp
    then show ?thesis using JList.IH JList.prems(2) by fastforce
  qed
  then show ?case using ss(2) joined_no_null by simp
next
  case (JDict d)
  obtain kss where kss: "map (\<lambda>(k, j). res_bind (json_text a esc j) (\<lambda>s. Inr (k, s))) d = map Inr kss"
    "s = ''{'' @ joined (map (\<lambda>(k, s). json_string esc k @ CHR '':'' # s) (sort_key fst kss)) @ ''}''"
    using JDict.prems(1) by (auto simp: all_results_Inr)
  have "CHR 0x00 \<notin> set t" if "(k, t) \<in> set kss" for k t
  proof -
    have "Inr (k, t) \<in> set (map (\<lambda>(k, j). res_bind (json_text a esc j) (\<lambda>s. Inr (k, s))) d)"
      unfolding kss(1) using that by simp
    then obtain j where "(k, j) \<in> set d" "json_text a esc j = Inr t"
      by (auto simp: eq_commute [of "Inr (k, t)"])
    then show ?thesis using JDict.IH [of "(k, j)" j t] JDict.prems(2) by auto
  qed
  then have "CHR 0x00 \<notin> set (joined (map (\<lambda>(k, s). json_string esc k @ CHR '':'' # s) (sort_key fst kss)))"
    using json_string_no_null by (intro joined_no_null) auto
  then show ?case using kss(2) by simp
next
  case (JBool b)
  then show ?case by (cases b) auto
qed simp

text \<open>Reading what was written gives the value that was written.\<close>

lemma json_loads_text:
  assumes "json_text a esc j = Inr s" and "writable j"
  shows "json_loads wide (utf8_encode s) = Inr (loaded j)"
proof -
  have "\<not> null_led (utf8_encode s)" using text_no_null [OF assms] by (rule null_led_utf8)
  moreover have "skip_ws s = s" using skip_ws_value_led [OF value_led_text [OF assms], of "[]"] by simp
  moreover have "scan_value (2 * length s) (s @ []) = Scanned (loaded j) []"
    using value_led_text [OF assms] by (intro scan_json_text [OF assms]) (simp_all add: delimited_def value_led_def)
  ultimately show ?thesis by (simp add: json_loads_def utf8_decode_encode skip_ws_def)
qed

end

end
