(* ===== verification/Metadata_Mapping.thy ===== *)
theory Metadata_Mapping
  imports Safe_Metadata Json_Roundtrip
begin

text \<open>
  The mapping interface of \<open>SafeJsonMetadata\<close> (\<open>src/src/wybra/utils/safety.py\<close>): each access parses
  the encoding. As in \<open>json_loads\<close>, \<open>wide\<close> stands for what the parser makes of bytes that need
  characters beyond U+00FF; the encodings of the model never do.

  The lemmas show that the mapping has exactly the canonical entries, and that making metadata from it
  again gives the same bytes.
\<close>

section \<open>Access\<close>

definition decoded ::
    "(bytes \<Rightarrow> pyvalue result) \<Rightarrow> SafeJsonMetadata \<Rightarrow> (pyobj, pyvalue) dict result" where
  "decoded wide m =
     res_bind (json_loads wide (encoded m)) (\<lambda>v. case v of PyDict d \<Rightarrow> Inr d | _ \<Rightarrow> Inl ValueError)"

definition metadata_getitem ::
    "(bytes \<Rightarrow> pyvalue result) \<Rightarrow> SafeJsonMetadata \<Rightarrow> string \<Rightarrow> pyvalue result" where
  "metadata_getitem wide m key =
     res_bind (decoded wide m) (\<lambda>d.
       case dict_get d (PyStr key) of Some v \<Rightarrow> Inr v | None \<Rightarrow> Inl KeyError)"

definition metadata_iter :: "(bytes \<Rightarrow> pyvalue result) \<Rightarrow> SafeJsonMetadata \<Rightarrow> pyobj list result" where
  "metadata_iter wide m = res_bind (decoded wide m) (\<lambda>d. Inr (dict_keys d))"

definition metadata_len :: "(bytes \<Rightarrow> pyvalue result) \<Rightarrow> SafeJsonMetadata \<Rightarrow> nat result" where
  "metadata_len wide m = res_bind (decoded wide m) (\<lambda>d. Inr (length d))"

definition to_json :: "SafeJsonMetadata \<Rightarrow> bytes" where
  "to_json m = encoded m"

section \<open>Canonical trees\<close>

text \<open>A value of Python has doubles for floats.\<close>

fun doubles :: "pyvalue \<Rightarrow> bool" where
  "doubles (PyAtom (PyFloat f)) \<longleftrightarrow> is_double f"
| "doubles (PyAtom _) \<longleftrightarrow> True"
| "doubles (PyDict kvs) \<longleftrightarrow> (\<forall>(k, v) \<in> set kvs. doubles v)"
| "doubles (PySeq vs) \<longleftrightarrow> (\<forall>v \<in> set vs. doubles v)"

text \<open>A tree that metadata is made of, and the tree with the members of every mapping sorted.\<close>

fun finite_tree :: "json \<Rightarrow> bool" where
  "finite_tree (JNonFinite _) \<longleftrightarrow> False"
| "finite_tree (JList js) \<longleftrightarrow> (\<forall>j \<in> set js. finite_tree j)"
| "finite_tree (JDict d) \<longleftrightarrow> (\<forall>(k, j) \<in> set d. finite_tree j)"
| "finite_tree _ \<longleftrightarrow> True"

definition clean_tree :: "json \<Rightarrow> bool" where
  "clean_tree j \<longleftrightarrow> writable j \<and> finite_tree j"

fun canon :: "json \<Rightarrow> json" where
  "canon (JList js) = JList (map canon js)"
| "canon (JDict d) = JDict (map (\<lambda>(k, j). (k, canon j)) (sort_key fst d))"
| "canon j = j"

lemma clean_tree_simps [simp]:
  "clean_tree (JStr s)" "clean_tree (JList js) \<longleftrightarrow> (\<forall>j \<in> set js. clean_tree j)"
  "clean_tree (JDict d) \<longleftrightarrow> distinct (dict_keys d) \<and> (\<forall>(k, j) \<in> set d. clean_tree j)"
  by (auto simp: clean_tree_def)

lemma safe_atom_clean: "safe_atom a = Inr j \<Longrightarrow> doubles (PyAtom a) \<Longrightarrow> clean_tree j"
  by (cases a) (auto simp: clean_tree_def split: pyfloat.splits if_splits)

lemma clean_member_set:
  "clean_tree (JDict acc) \<Longrightarrow> clean_tree j \<Longrightarrow> clean_tree (JDict (dict_set k j acc))"
  using set_dict_set_subset [of k j acc] by (auto simp: distinct_update)

lemma safe_value_clean:
  "safe_value v d n = Inr (j, m) \<Longrightarrow> doubles v \<Longrightarrow> clean_tree j"
  "safe_mapping kvs d n = Inr (r, m) \<Longrightarrow> \<forall>(k, v) \<in> set kvs. doubles v \<Longrightarrow> clean_tree (JDict r)"
  "safe_entries kvs d n acc = Inr (r, m) \<Longrightarrow> \<forall>(k, v) \<in> set kvs. doubles v \<Longrightarrow> clean_tree (JDict acc) \<Longrightarrow>
     clean_tree (JDict r)"
  "safe_items vs d n = Inr (js, m) \<Longrightarrow> \<forall>v \<in> set vs. doubles v \<Longrightarrow> clean_tree (JList js)"
proof (induction v d n and kvs d n and kvs d n acc and vs d n
       arbitrary: j m and r m and r m and js m
       rule: safe_value_safe_mapping_safe_entries_safe_items.induct)
  case (1 a depth n)
  then show ?case using safe_atom_clean by (auto simp del: doubles.simps)
next
  case (6 k v kvs depth n safe)
  let ?key = "case k of PyStr s \<Rightarrow> s | _ \<Rightarrow> []"
  have n: "count_item n = Inr (Suc n)" using 6(4) by (cases "count_item n") auto
  show ?case
  proof (cases "is_sensitive_attribute_name ?key")
    case True
    have rest: "safe_entries kvs depth (Suc n) (dict_set ?key (JStr ''[redacted]'') safe) = Inr (r, m)"
      using 6(4) True by (simp add: n Let_def)
    have "clean_tree (JDict (dict_set ?key (JStr ''[redacted]'') safe))"
      by (rule clean_member_set [OF 6(6)]) simp
    then show ?thesis by (rule 6(1) [OF refl True rest, rotated]) (use 6(5) in auto)
  next
    case False
    obtain j m' where j: "safe_value v depth (Suc n) = Inr (j, m')"
      and rest: "safe_entries kvs depth m' (dict_set ?key j safe) = Inr (r, m)"
      using 6(4) False by (auto simp: n Let_def)
    have "clean_tree j" using 6(2) [OF refl False j] 6(5) by simp
    then have "clean_tree (JDict (dict_set ?key j safe))"
      by (rule clean_member_set [OF 6(6)])
    then show ?thesis by (rule 6(3) [OF refl False rest, rotated]) (use 6(5) in auto)
  qed
qed (auto split: if_splits)


section \<open>Reading back\<close>

lemma sum_list_sort_key: "sum_list (map f (sort_key g xs)) = (sum_list (map f xs) :: nat)"
  by (metis mset_map mset_sort sum_mset_sum_list)

text \<open>The text does not depend on the order of members.\<close>

lemma json_text_canon: "json_text a esc j = Inr s \<Longrightarrow> json_text a esc (canon j) = Inr s"
proof (induction j arbitrary: s)
  case (JList js)
  then obtain ss where ss: "map (json_text a esc) js = map Inr ss" "s = ''['' @ joined ss @ '']''"
    by (auto simp: all_results_Inr)
  have "json_text a esc (canon j) = json_text a esc j" if j: "j \<in> set js" for j
  proof -
    have "json_text a esc j \<in> set (map Inr ss)" unfolding ss(1) [symmetric] using j by simp
    then show ?thesis using JList.IH [OF j] by auto
  qed
  then have "map (json_text a esc) (map canon js) = map Inr ss" using ss(1) [symmetric] by simp
  then show ?case using ss(2) by (simp add: all_results_Inr)
next
  case (JDict d)
  define f where "f = (\<lambda>(k :: string, j). res_bind (json_text a esc j) (\<lambda>s. Inr (k, s)))"
  obtain kss where kss: "map f d = map Inr kss"
    "s = ''{'' @ joined (map (\<lambda>(k, s). json_string esc k @ CHR '':'' # s) (sort_key fst kss)) @ ''}''"
    using JDict.prems by (auto simp: all_results_Inr f_def)
  define h where "h p = projr (f p)" for p
  have f: "f p = Inr (h p)" if "p \<in> set d" for p
  proof -
    have "f p \<in> set (map Inr kss)" unfolding kss(1) [symmetric] using that by simp
    then show ?thesis by (auto simp: h_def)
  qed
  have key: "fst (h p) = fst p" if "p \<in> set d" for p
    using f [OF that] by (cases p; cases "h p") (auto simp: f_def)
  have "map Inr kss = (map Inr (map h d) :: (string \<times> string) result list)"
    unfolding kss(1) [symmetric] using f by simp
  then have "kss = map h d" by (rule map_injective) auto
  then have sorted: "sort_key fst kss = map h (sort_key fst d)"
    using sort_key_map_on [of d fst h fst] key by simp
  have "f (case p of (k, j) \<Rightarrow> (k, canon j)) = Inr (h p)" if "p \<in> set d" for p
    using f [OF that] JDict.IH that by (cases p) (auto simp: f_def)
  then have "map f (map (\<lambda>(k, j). (k, canon j)) (sort_key fst d)) = map Inr (map h (sort_key fst d))" by auto
  then have "all_results (map f (map (\<lambda>(k, j). (k, canon j)) (sort_key fst d))) = Inr (map h (sort_key fst d))"
    by (simp only: all_results_Inr)
  moreover have "sort_key fst (map h (sort_key fst d)) = map h (sort_key fst d)"
    unfolding sorted [symmetric] by (rule sort_key_id_if_sorted) simp
  ultimately show ?case using kss(2) sorted by (simp add: f_def)
qed auto


text \<open>What metadata keeps is kept again: the canonical form of a loaded tree is that tree, its members
  sorted, and it counts the same number of items.\<close>

lemma safe_items_loaded:
  "\<forall>j \<in> set js. \<forall>n. n + json_items j \<le> MAX_SAFE_METADATA_ITEMS \<longrightarrow>
      safe_value (loaded j) d n = Inr (canon j, n + json_items j) \<Longrightarrow>
    n + json_items (JList js) \<le> MAX_SAFE_METADATA_ITEMS \<Longrightarrow>
    safe_items (map loaded js) d n = Inr (map canon js, n + json_items (JList js))"
proof (induction js arbitrary: n)
  case (Cons j js)
  have "safe_value (loaded j) d (Suc n) = Inr (canon j, Suc n + json_items j)" using Cons.prems by simp
  moreover have "safe_items (map loaded js) d (Suc n + json_items j) = Inr (map canon js, Suc n + json_items j + json_items (JList js))"
    using Cons.prems by (intro Cons.IH) auto
  moreover have "count_item n = Inr (Suc n)" using Cons.prems(2) by simp
  ultimately show ?case by simp
qed simp

lemma safe_entries_loaded:
  "\<forall>(k, j) \<in> set ps. \<not> is_sensitive_attribute_name k \<longrightarrow> (\<forall>n. n + json_items j \<le> MAX_SAFE_METADATA_ITEMS \<longrightarrow>
      safe_value (loaded j) d n = Inr (canon j, n + json_items j)) \<Longrightarrow>
    \<forall>(k, j) \<in> set ps. is_sensitive_attribute_name k \<longrightarrow> j = JStr ''[redacted]'' \<Longrightarrow>
    n + json_items (JDict ps) \<le> MAX_SAFE_METADATA_ITEMS \<Longrightarrow> distinct (dict_keys (acc @ ps)) \<Longrightarrow>
    safe_entries (map (\<lambda>(k, j). (PyStr k, loaded j)) ps) d n acc
      = Inr (acc @ map (\<lambda>(k, j). (k, canon j)) ps, n + json_items (JDict ps))"
proof (induction ps arbitrary: n acc)
  case (Cons p ps)
  obtain k j where p: "p = (k, j)" by fastforce
  have n: "count_item n = Inr (Suc n)" using Cons.prems(3) by (auto simp: p)
  have new: "dict_set k v acc = acc @ [(k, v)]" for v
    using Cons.prems(4) by (intro dict_set_new) (auto simp: p map_of_eq_None_iff)
  have rest: "safe_entries (map (\<lambda>(k, j). (PyStr k, loaded j)) ps) d (Suc n + json_items j) (acc @ [(k, canon j)])
      = Inr ((acc @ [(k, canon j)]) @ map (\<lambda>(k, j). (k, canon j)) ps, Suc n + json_items j + json_items (JDict ps))"
    using Cons.prems by (intro Cons.IH) (auto simp: p)
  show ?case
  proof (cases "is_sensitive_attribute_name k")
    case True
    then have "j = JStr ''[redacted]''" using Cons.prems(2) p by simp
    then show ?thesis using rest n new True p by simp
  next
    case False
    then have "safe_value (loaded j) d (Suc n) = Inr (canon j, Suc n + json_items j)"
      using Cons.prems(1,3) p by simp
    then show ?thesis using rest n new False p by simp
  qed
qed simp

lemma safe_value_loaded:
  "clean_tree j \<Longrightarrow> redacted j \<Longrightarrow> short_strings j \<Longrightarrow> d + json_height j \<le> MAX_SAFE_METADATA_DEPTH \<Longrightarrow>
    n + json_items j \<le> MAX_SAFE_METADATA_ITEMS \<Longrightarrow> safe_value (loaded j) d n = Inr (canon j, n + json_items j)"
proof (induction j arbitrary: d n)
  case (JList js)
  have "Suc d + json_height j \<le> MAX_SAFE_METADATA_DEPTH" if "j \<in> set js" for j
    using JList.prems(4) that foldr_max_le [of "map (\<lambda>j. Suc (json_height j)) js" "MAX_SAFE_METADATA_DEPTH - d"] by force
  then have "safe_items (map loaded js) (Suc d) n = Inr (map canon js, n + json_items (JList js))"
    using JList by (intro safe_items_loaded) auto
  then show ?case using JList.prems(4) by simp
next
  case (JDict ms)
  let ?ps = "sort_key fst ms"
  have items: "json_items (JDict ?ps) = json_items (JDict ms)" by (simp add: sum_list_sort_key)
  have height: "Suc d + json_height j \<le> MAX_SAFE_METADATA_DEPTH" if "(k, j) \<in> set ms" "\<not> is_sensitive_attribute_name k" for k j
  proof -
    define ns where "ns = map (\<lambda>(k, j). if is_sensitive_attribute_name k then 0 else Suc (json_height j)) ms"
    have "Suc (json_height j) \<in> set ns" unfolding ns_def set_map using that by (intro rev_image_eqI) auto
    moreover have "\<forall>i \<in> set ns. i \<le> foldr max ns 0" using foldr_max_le [of ns "foldr max ns 0"] by simp
    ultimately have "Suc (json_height j) \<le> foldr max ns 0" by blast
    then have "Suc (json_height j) \<le> json_height (JDict ms)" by (simp add: ns_def)
    then show ?thesis using JDict.prems(4) by simp
  qed
  have "safe_value (loaded j) (Suc d) n = Inr (canon j, n + json_items j)"
    if "(k, j) \<in> set ms" "\<not> is_sensitive_attribute_name k" "n + json_items j \<le> MAX_SAFE_METADATA_ITEMS" for k j n
    using JDict.IH [OF that(1)] JDict.prems(1-3) height that by fastforce
  then have "safe_entries (map (\<lambda>(k, j). (PyStr k, loaded j)) ?ps) (Suc d) n []
      = Inr ([] @ map (\<lambda>(k, j). (k, canon j)) ?ps, n + json_items (JDict ?ps))"
    using JDict.prems items by (intro safe_entries_loaded) (auto simp: distinct_map)
  moreover have "\<not> list_ex (\<lambda>(k, _). \<not> is_str k) (map (\<lambda>(k, j). (PyStr k, loaded j)) ?ps)"
    by (auto simp: list_ex_iff)
  ultimately show ?case using JDict.prems(4) items by simp
qed (auto simp: clean_tree_def)


text \<open>The parts of an input that was accepted.\<close>

lemma safe_json_metadata_Raw:
  assumes "safe_json_metadata (Raw v) = Inr m"
  obtains kvs safe n doc where "v = PyDict kvs" "safe_mapping kvs 0 0 = Inr (safe, n)"
    "json_dumps (JDict safe) = Inr doc" "m = SafeJsonMetadata (utf8_encode doc)"
    "length (utf8_encode doc) \<le> MAX_SAFE_METADATA_BYTES" "good_value 0 (JDict safe)"
    "json_items (JDict safe) \<le> MAX_SAFE_METADATA_ITEMS"
proof -
  obtain kvs safe n doc where *: "v = PyDict kvs" "safe_mapping kvs 0 0 = Inr (safe, n)"
    "json_dumps (JDict safe) = Inr doc" "m = SafeJsonMetadata (utf8_encode doc)"
    "length (utf8_encode doc) \<le> MAX_SAFE_METADATA_BYTES"
    using assms
    by (auto simp: make_SafeJsonMetadata_def Let_def split: pyvalue.splits if_splits simp del: safe_mapping.simps)
  have "good_value 0 (JDict safe)" "json_items (JDict safe) \<le> n"
    using safe_value_good(2) [OF *(2)] by (auto intro: good_dict)
  moreover have "n \<le> MAX_SAFE_METADATA_ITEMS" by (rule safe_mapping_count [OF *(2)])
  ultimately show thesis using that * by simp
qed

lemma dict_get_loaded:
  assumes "distinct (dict_keys d)"
  shows "dict_get (map (\<lambda>(k, j). (PyStr k, loaded j)) (sort_key fst d)) (PyStr k) = map_option loaded (dict_get d k)"
proof -
  have "dict_get (map (\<lambda>(k, j). (PyStr k, loaded j)) ps) (PyStr k) = map_option loaded (dict_get ps k)" for ps
    by (induction ps) auto
  moreover have "map_of (sort_key fst d) = map_of d"
    using assms by (subst map_of_inject_set) (auto simp: distinct_map)
  ultimately show ?thesis by simp
qed

lemma decoded_metadata:
  assumes "safe_json_metadata (Raw (PyDict kvs)) = Inr m" and "doubles (PyDict kvs)"
    and "safe_mapping kvs 0 0 = Inr (safe, n)"
  shows "decoded wide m = Inr (map (\<lambda>(k, j). (PyStr k, loaded j)) (sort_key fst safe))"
    and "safe_json_metadata (Raw (PyDict (map (\<lambda>(k, j). (PyStr k, loaded j)) (sort_key fst safe)))) = Inr m"
proof -
  obtain doc where doc: "json_dumps (JDict safe) = Inr doc" "m = SafeJsonMetadata (utf8_encode doc)"
    "length (utf8_encode doc) \<le> MAX_SAFE_METADATA_BYTES" and good: "good_value 0 (JDict safe)"
    "json_items (JDict safe) \<le> MAX_SAFE_METADATA_ITEMS"
    by (rule safe_json_metadata_Raw [OF assms(1)]) (use assms(3) in auto)
  have clean: "clean_tree (JDict safe)" using safe_value_clean(2) [OF assms(3)] assms(2) by simp
  then have "json_loads wide (utf8_encode doc) = Inr (loaded (JDict safe))"
    using json_chars.json_loads_text [of False "JDict safe" doc wide] doc(1) unfolding json_dumps_def clean_tree_def by blast
  then show "decoded wide m = Inr (map (\<lambda>(k, j). (PyStr k, loaded j)) (sort_key fst safe))"
    by (simp add: decoded_def doc(2))
  let ?kvs = "map (\<lambda>(k, j). (PyStr k, loaded j)) (sort_key fst safe)"
  have "safe_value (loaded (JDict safe)) 0 0 = Inr (canon (JDict safe), 0 + json_items (JDict safe))"
    using good clean by (intro safe_value_loaded) (auto simp: good_value_def)
  then obtain safe' where s': "safe_mapping ?kvs 0 0 = Inr (safe', json_items (JDict safe))" "JDict safe' = canon (JDict safe)"
    by (auto split: if_splits simp del: safe_mapping.simps json_items.simps)
  have "json_dumps (JDict safe') = Inr doc" using json_text_canon doc(1) by (simp add: s'(2) json_dumps_def del: canon.simps)
  then show "safe_json_metadata (Raw (PyDict ?kvs)) = Inr m"
    using s'(1) doc(2,3) by (simp add: make_SafeJsonMetadata_def list_ex_iff case_prod_beta del: safe_mapping.simps)
qed

section \<open>Properties\<close>

text \<open>C22: Metadata reads back. The mapping has exactly the canonical entries of its input: its keys in
  sorted order, as many as there are, and under each key the canonical value; another key raises
  \<open>KeyError\<close>. Making metadata of what was read gives the same bytes, so that storing and loading metadata
  any number of times changes nothing.\<close>

theorem metadata_reads_back:
  assumes "safe_json_metadata (Raw (PyDict kvs)) = Inr m" and "doubles (PyDict kvs)"
  shows "\<exists>safe n d. safe_mapping kvs 0 0 = Inr (safe, n)
    \<and> metadata_iter wide m = Inr (map PyStr (sort (dict_keys safe))) \<and> metadata_len wide m = Inr (length safe)
    \<and> (\<forall>k. metadata_getitem wide m k
          = (case dict_get safe k of None \<Rightarrow> Inl KeyError | Some j \<Rightarrow> Inr (loaded j)))
    \<and> decoded wide m = Inr d \<and> safe_json_metadata (Raw (PyDict d)) = Inr m"
proof -
  obtain safe n where safe: "safe_mapping kvs 0 0 = Inr (safe, n)"
    by (rule safe_json_metadata_Raw [OF assms(1)]) auto
  note dec = decoded_metadata [OF assms safe]
  have "distinct (dict_keys safe)" using safe_value_clean(2) [OF safe] assms(2) by simp
  then have "dict_get (map (\<lambda>(k, j). (PyStr k, loaded j)) (sort_key fst safe)) (PyStr k) = map_option loaded (dict_get safe k)" for k
    by (rule dict_get_loaded)
  then have items: "\<forall>k. metadata_getitem wide m k = (case dict_get safe k of None \<Rightarrow> Inl KeyError | Some j \<Rightarrow> Inr (loaded j))"
    by (auto simp: metadata_getitem_def dec(1) split: option.splits)
  have "dict_keys (map (\<lambda>(k, j). (PyStr k, loaded j)) (sort_key fst safe)) = map PyStr (map fst (sort_key fst safe))"
    by auto
  also have "map fst (sort_key fst safe) = sort (dict_keys safe)"
    using sort_key_map [of "\<lambda>k. k" fst fst safe] by simp
  finally have "metadata_iter wide m = Inr (map PyStr (sort (dict_keys safe)))"
    by (simp only: metadata_iter_def dec(1) res_bind_simps)
  then show ?thesis using safe dec items by (auto simp: metadata_len_def)
qed

theorem metadata_reads_back_witness:
  "\<exists>m. safe_json_metadata (Raw (PyDict [(PyStr ''b'', PyAtom (PyInt 3)), (PyStr ''apiKey'', PyAtom (PyStr ''s3cr3t''))])) = Inr m
    \<and> metadata_iter (\<lambda>_. Inl ValueError) m = Inr [PyStr ''apiKey'', PyStr ''b'']
    \<and> metadata_getitem (\<lambda>_. Inl ValueError) m ''apiKey'' = Inr (PyAtom (PyStr ''[redacted]''))"
proof -
  let ?kvs = "[(PyStr ''b'', PyAtom (PyInt 3)), (PyStr ''apiKey'', PyAtom (PyStr ''s3cr3t''))]"
  have "\<not> isl (safe_json_metadata (Raw (PyDict ?kvs)))" by code_simp
  then obtain m where m: "safe_json_metadata (Raw (PyDict ?kvs)) = Inr m"
    by (cases "safe_json_metadata (Raw (PyDict ?kvs))") auto
  have "safe_mapping ?kvs 0 0 = Inr ([(''b'', JInt 3), (''apiKey'', JStr ''[redacted]'')], 2)" by code_simp
  moreover have "sort [''b'', ''apiKey''] = [''apiKey'', ''b'']" by code_simp
  ultimately show ?thesis using metadata_reads_back [OF m, of "\<lambda>_. Inl ValueError"] m by auto
qed

end
