(* ===== verification/Task_Envelope.thy ===== *)
theory Task_Envelope
  imports Task_Lifecycle Metadata_Mapping
begin

text \<open>
  The envelopes of lifecycle events: \<open>_encode_event\<close>, \<open>_decode_event\<close> and what they use in
  \<open>src/src/wybra/tasks/taskiq_lifecycle.py\<close>.

  An event is written as JSON into a record of a stream and read back when the stream is replayed.
  \<open>wide\<close> is the answer of \<open>json.loads\<close> for bytes that need characters beyond U+00FF, see \<open>json_loads\<close>.
  The recursion limit of the parser is not modelled.

  The lemmas show what the reader makes of a record of the writer: the very event, or an error, which
  happens exactly for the blank names, attempts and times that the constructor lets pass.
\<close>

section \<open>UUIDs\<close>

fun hex_str :: "nat \<Rightarrow> int \<Rightarrow> string" where
  "hex_str 0 n = []"
| "hex_str (Suc k) n = hex_str k (n div 16) @ [hex_digit (nat (n mod 16))]"

text \<open>\<open>str(uuid)\<close>\<close>

definition uuid_str :: "UUID \<Rightarrow> string" where
  "uuid_str u =
     (let h = hex_str 32 (uint u)
      in take 8 h @ ''-'' @ take 4 (drop 8 h) @ ''-'' @ take 4 (drop 12 h) @ ''-'' @ take 4 (drop 16 h)
         @ ''-'' @ drop 20 h)"

text \<open>\<open>s.replace(p, "")\<close>: the count is of characters still to be left out.\<close>

fun remove_all :: "string \<Rightarrow> nat \<Rightarrow> string \<Rightarrow> string" where
  "remove_all p k [] = []"
| "remove_all p (Suc k) (c # cs) = remove_all p k cs"
| "remove_all p 0 (c # cs) =
     (if py_startswith (c # cs) p then remove_all p (length p - 1) cs else c # remove_all p 0 cs)"

text \<open>Hexadecimal digits with single underscores between them: their values.\<close>

fun hex_run :: "string \<Rightarrow> nat list option" where
  "hex_run [] = None"
| "hex_run [c] = map_option (\<lambda>d. [d]) (hex_value c)"
| "hex_run (c # e # cs) =
     (case hex_value c of
        None \<Rightarrow> None
      | Some d \<Rightarrow> map_option (\<lambda>ds. d # ds) (if e = CHR ''_'' then hex_run cs else hex_run (e # cs)))"

definition hex_number :: "nat list \<Rightarrow> int" where
  "hex_number ds = fold (\<lambda>d n. 16 * n + int d) ds 0"

text \<open>\<open>int(s, 16)\<close>\<close>

definition parse_hex :: "string \<Rightarrow> int result" where
  "parse_hex s =
     (case split_sign (number_strip s) of (negative, body) \<Rightarrow>
        let digits = (case body of
            z # x # r \<Rightarrow>
              if z = CHR ''0'' \<and> (x = CHR ''x'' \<or> x = CHR ''X'')
              then (case r of u # q \<Rightarrow> if u = CHR ''_'' then q else r | [] \<Rightarrow> [])
              else body
          | _ \<Rightarrow> body)
        in case hex_run digits of
             None \<Rightarrow> Inl ValueError
           | Some ds \<Rightarrow> Inr (if negative then - hex_number ds else hex_number ds))"

definition is_brace :: "char \<Rightarrow> bool" where
  "is_brace c \<longleftrightarrow> c = CHR 0x7B \<or> c = CHR 0x7D"

text \<open>\<open>UUID(s)\<close>\<close>

definition parse_uuid :: "string \<Rightarrow> UUID result" where
  "parse_uuid s =
     (let t = remove_all ''uuid:'' 0 (remove_all ''urn:'' 0 s);
          hex = filter (\<lambda>c. c \<noteq> CHR ''-'') (rev (dropWhile is_brace (rev (dropWhile is_brace t))))
      in if length hex \<noteq> 32 then Inl ValueError
         else res_bind (parse_hex hex) (\<lambda>n.
           if 0 \<le> n \<and> n < 2 ^ 128 then Inr (of_int n) else Inl ValueError))"

section \<open>Writing\<close>

fun kind_value :: "TaskLifecycleKind \<Rightarrow> string" where
  "kind_value K_SUBMITTED = ''submitted''"
| "kind_value K_SCHEDULED = ''scheduled''"
| "kind_value K_STARTED = ''started''"
| "kind_value K_PROGRESS = ''progress''"
| "kind_value K_ATTEMPT_FAILED = ''attempt_failed''"
| "kind_value K_RETRY_SCHEDULED = ''retry_scheduled''"
| "kind_value K_SUCCEEDED = ''succeeded''"
| "kind_value K_FAILED = ''failed''"
| "kind_value K_DEAD_LETTERED = ''dead_lettered''"

definition all_kinds :: "TaskLifecycleKind list" where
  "all_kinds =
     [K_SUBMITTED, K_SCHEDULED, K_STARTED, K_PROGRESS, K_ATTEMPT_FAILED, K_RETRY_SCHEDULED, K_SUCCEEDED,
      K_FAILED, K_DEAD_LETTERED]"

text \<open>How \<open>json.dumps\<close> takes a value: bytes are not serialisable. The keys of the mappings that occur
  here come from a parsed object and are strings.\<close>

fun atom_json :: "pyobj \<Rightarrow> json result" where
  "atom_json PyNone = Inr JNull"
| "atom_json (PyBool b) = Inr (JBool b)"
| "atom_json (PyInt n) = Inr (JInt n)"
| "atom_json (PyFloat f) = Inr (case f of Fin x \<Rightarrow> JFloat x | _ \<Rightarrow> JNonFinite f)"
| "atom_json (PyStr s) = Inr (JStr s)"
| "atom_json (PyBytes _) = Inl TypeError"

fun key_string :: "pyobj \<Rightarrow> string result" where
  "key_string (PyStr s) = Inr s"
| "key_string _ = Inl TypeError"

fun py_json :: "pyvalue \<Rightarrow> json result" where
  "py_json (PyAtom a) = atom_json a"
| "py_json (PySeq vs) = res_bind (all_results (map py_json vs)) (\<lambda>js. Inr (JList js))"
| "py_json (PyDict kvs) =
     res_bind (all_results (map (\<lambda>(k, v). res_bind (key_string k) (\<lambda>s. res_bind (py_json v) (\<lambda>j. Inr (s, j)))) kvs))
       (\<lambda>d. Inr (JDict d))"

definition option_json :: "('a \<Rightarrow> json) \<Rightarrow> 'a option \<Rightarrow> json" where
  "option_json f v = (case v of None \<Rightarrow> JNull | Some x \<Rightarrow> f x)"

definition progress_json :: "(bytes \<Rightarrow> pyvalue result) \<Rightarrow> SafeJsonMetadata option \<Rightarrow> json result" where
  "progress_json wide p =
     (case p of
        None \<Rightarrow> Inr JNull
      | Some m \<Rightarrow> res_bind (decoded wide m) (\<lambda>d. py_json (PyDict d)))"

definition event_items :: "TaskLifecycleEvent \<Rightarrow> json \<Rightarrow> json \<Rightarrow> json \<Rightarrow> (string, json) dict" where
  "event_items ev attempt progress occurred_at =
     [(''kind'', JStr (kind_value (ev_kind ev))),
      (''task_id'', JStr (uuid_str (ev_task_id ev))),
      (''task_name'', JStr (ev_task_name ev)),
      (''schema_version'', JInt (ev_schema_version ev)),
      (''queue'', JStr (ev_queue ev)),
      (''correlation_id'', JStr (uuid_str (ev_correlation_id ev))),
      (''causation_id'', option_json (\<lambda>u. JStr (uuid_str u)) (ev_causation_id ev)),
      (''attempt'', attempt),
      (''delivery_attempt'', option_json JInt (ev_delivery_attempt ev)),
      (''delivery_identity'', option_json JStr (ev_delivery_identity ev)),
      (''worker_id'', option_json JStr (ev_worker_id ev)),
      (''progress'', progress),
      (''error_type'', option_json JStr (ev_error_type ev)),
      (''occurred_at'', occurred_at)]"

definition event_data :: "(bytes \<Rightarrow> pyvalue result) \<Rightarrow> TaskLifecycleEvent \<Rightarrow> (string, json) dict result" where
  "event_data wide ev =
     res_bind (atom_json (ev_attempt ev)) (\<lambda>attempt.
     res_bind (progress_json wide (ev_progress ev)) (\<lambda>progress.
     res_bind (atom_json (ev_occurred_at ev)) (\<lambda>occurred_at.
       Inr (event_items ev attempt progress occurred_at))))"

definition encode :: "(string, json) dict \<Rightarrow> bytes result" where
  "encode d = res_bind (json_dumps_ascii (JDict d)) (\<lambda>s. Inr (utf8_encode s))"

definition ENVELOPE_VERSION :: int where
  "ENVELOPE_VERSION = 1"

definition encode_event :: "(bytes \<Rightarrow> pyvalue result) \<Rightarrow> TaskLifecycleEvent \<Rightarrow> bytes result" where
  "encode_event wide ev =
     res_bind (event_data wide ev) (\<lambda>d.
       encode [(''version'', JInt ENVELOPE_VERSION), (''event'', JDict d)])"

section \<open>Reading\<close>

definition ENVELOPE_FIELDS :: "string list" where
  "ENVELOPE_FIELDS = [''version'', ''event'']"

definition EVENT_FIELDS :: "string list" where
  "EVENT_FIELDS =
     [''attempt'', ''causation_id'', ''correlation_id'', ''delivery_attempt'', ''delivery_identity'',
      ''error_type'', ''kind'', ''occurred_at'', ''progress'', ''queue'', ''schema_version'', ''task_id'',
      ''task_name'', ''worker_id'']"

definition has_fields :: "string list \<Rightarrow> (pyobj, pyvalue) dict \<Rightarrow> bool" where
  "has_fields fs d \<longleftrightarrow> set (dict_keys d) = set (map PyStr fs)"

text \<open>\<open>value == 1\<close> of Python.\<close>

fun is_one :: "pyvalue option \<Rightarrow> bool" where
  "is_one (Some (PyAtom (PyInt n))) \<longleftrightarrow> n = 1"
| "is_one (Some (PyAtom (PyBool b))) \<longleftrightarrow> b"
| "is_one (Some (PyAtom (PyFloat f))) \<longleftrightarrow> f = Fin 1"
| "is_one _ \<longleftrightarrow> False"

definition decode :: "(bytes \<Rightarrow> pyvalue result) \<Rightarrow> string list \<Rightarrow> bytes \<Rightarrow> (pyobj, pyvalue) dict result" where
  "decode wide fs payload =
     (case json_loads wide payload of
        Inl e \<Rightarrow> Inl (if e = TypeError then ValueError else e)
      | Inr (PyDict d) \<Rightarrow>
          if has_fields fs d \<and> is_one (dict_get d (PyStr ''version'')) then Inr d else Inl ValueError
      | Inr _ \<Rightarrow> Inl ValueError)"

fun non_blank :: "pyvalue option \<Rightarrow> bool" where
  "non_blank (Some (PyAtom (PyStr s))) \<longleftrightarrow> py_strip s \<noteq> []"
| "non_blank _ \<longleftrightarrow> False"

fun positive :: "pyvalue option \<Rightarrow> bool" where
  "positive (Some (PyAtom (PyInt n))) \<longleftrightarrow> 1 \<le> n"
| "positive _ \<longleftrightarrow> False"

fun none_value :: "pyvalue option \<Rightarrow> bool" where
  "none_value None \<longleftrightarrow> True"
| "none_value (Some (PyAtom PyNone)) \<longleftrightarrow> True"
| "none_value _ \<longleftrightarrow> False"

definition validate_identity_data :: "(pyobj, pyvalue) dict \<Rightarrow> bool" where
  "validate_identity_data data \<longleftrightarrow>
     non_blank (dict_get data (PyStr ''task_name'')) \<and> non_blank (dict_get data (PyStr ''queue''))
     \<and> positive (dict_get data (PyStr ''schema_version''))"

definition validate_attempt_data :: "(pyobj, pyvalue) dict \<Rightarrow> bool" where
  "validate_attempt_data data \<longleftrightarrow> positive (dict_get data (PyStr ''attempt''))"

definition validate_optional_string :: "pyvalue option \<Rightarrow> bool" where
  "validate_optional_string v \<longleftrightarrow> none_value v \<or> non_blank v"

definition validate_optional_delivery_attempt :: "pyvalue option \<Rightarrow> bool" where
  "validate_optional_delivery_attempt v \<longleftrightarrow> none_value v \<or> positive v"

fun mapping_value :: "pyvalue option \<Rightarrow> bool" where
  "mapping_value (Some (PyDict _)) \<longleftrightarrow> True"
| "mapping_value _ \<longleftrightarrow> False"

text \<open>\<open>isfinite\<close> of an int beyond the doubles raises.\<close>

fun validate_time :: "pyvalue option \<Rightarrow> unit result" where
  "validate_time (Some (PyAtom (PyInt n))) = (if is_finite (fl (of_int n)) then Inr () else Inl OverflowError)"
| "validate_time (Some (PyAtom (PyFloat f))) = (if is_finite f then Inr () else Inl ValueError)"
| "validate_time _ = Inl ValueError"

definition validate_event_data :: "(pyobj, pyvalue) dict \<Rightarrow> unit result" where
  "validate_event_data data =
     (let get = (\<lambda>k. dict_get data (PyStr k)) in
      if \<not> has_fields EVENT_FIELDS data then Inl ValueError
      else if \<not> validate_identity_data data then Inl ValueError
      else if \<not> validate_attempt_data data then Inl ValueError
      else if \<not> validate_optional_delivery_attempt (get ''delivery_attempt'') then Inl ValueError
      else if \<not> validate_optional_string (get ''delivery_identity'') then Inl ValueError
      else if \<not> validate_optional_string (get ''worker_id'') then Inl ValueError
      else if \<not> validate_optional_string (get ''error_type'') then Inl ValueError
      else if \<not> none_value (get ''progress'') \<and> \<not> mapping_value (get ''progress'') then Inl ValueError
      else validate_time (get ''occurred_at''))"

text \<open>\<open>TaskLifecycleKind(value)\<close> and \<open>UUID(value)\<close>, which calls a method of strings on any object but
  \<open>None\<close>.\<close>

fun kind_of :: "pyvalue \<Rightarrow> TaskLifecycleKind result" where
  "kind_of (PyAtom (PyStr s)) =
     (case find (\<lambda>k. kind_value k = s) all_kinds of Some k \<Rightarrow> Inr k | None \<Rightarrow> Inl ValueError)"
| "kind_of _ = Inl ValueError"

fun uuid_of :: "pyvalue \<Rightarrow> UUID result" where
  "uuid_of (PyAtom (PyStr s)) = parse_uuid s"
| "uuid_of (PyAtom PyNone) = Inl TypeError"
| "uuid_of (PyAtom (PyBytes _)) = Inl TypeError"
| "uuid_of _ = Inl AttributeError"

fun truthy :: "pyvalue \<Rightarrow> bool" where
  "truthy (PyAtom PyNone) \<longleftrightarrow> False"
| "truthy (PyAtom (PyBool b)) \<longleftrightarrow> b"
| "truthy (PyAtom (PyInt n)) \<longleftrightarrow> n \<noteq> 0"
| "truthy (PyAtom (PyFloat f)) \<longleftrightarrow> f \<noteq> Fin 0"
| "truthy (PyAtom (PyStr s)) \<longleftrightarrow> s \<noteq> []"
| "truthy (PyAtom (PyBytes b)) \<longleftrightarrow> b \<noteq> []"
| "truthy (PyDict d) \<longleftrightarrow> d \<noteq> []"
| "truthy (PySeq vs) \<longleftrightarrow> vs \<noteq> []"

definition optional_uuid_of :: "pyvalue \<Rightarrow> UUID option result" where
  "optional_uuid_of v = (if truthy v then res_bind (uuid_of v) (\<lambda>u. Inr (Some u)) else Inr None)"

text \<open>\<open>data[key]\<close> at the type that the validation has established.\<close>

definition item :: "(pyobj, pyvalue) dict \<Rightarrow> string \<Rightarrow> pyvalue result" where
  "item data k = (case dict_get data (PyStr k) of Some v \<Rightarrow> Inr v | None \<Rightarrow> Inl KeyError)"

fun atom_of :: "pyvalue \<Rightarrow> pyobj" where
  "atom_of (PyAtom a) = a"
| "atom_of _ = PyNone"

fun string_of :: "pyvalue \<Rightarrow> string" where
  "string_of (PyAtom (PyStr s)) = s"
| "string_of _ = []"

fun optional_string_of :: "pyvalue \<Rightarrow> string option" where
  "optional_string_of (PyAtom (PyStr s)) = Some s"
| "optional_string_of _ = None"

fun progress_of :: "pyvalue \<Rightarrow> metadata_input option" where
  "progress_of (PyAtom PyNone) = None"
| "progress_of v = Some (Raw v)"

definition envelope_error :: "exn \<Rightarrow> exn" where
  "envelope_error e = (if e = KeyError \<or> e = TypeError \<or> e = ValueError then ValueError else e)"

definition event_of_data :: "(pyobj, pyvalue) dict \<Rightarrow> TaskLifecycleEvent result" where
  "event_of_data data =
     res_bind (validate_event_data data) (\<lambda>_.
     res_bind (res_bind (item data ''kind'') kind_of) (\<lambda>kind.
     res_bind (res_bind (item data ''task_id'') uuid_of) (\<lambda>task_id.
     res_bind (item data ''task_name'') (\<lambda>task_name.
     res_bind (item data ''schema_version'') (\<lambda>schema_version.
     res_bind (item data ''queue'') (\<lambda>queue.
     res_bind (res_bind (item data ''correlation_id'') uuid_of) (\<lambda>correlation_id.
     res_bind (res_bind (item data ''causation_id'') optional_uuid_of) (\<lambda>causation_id.
     res_bind (item data ''attempt'') (\<lambda>attempt.
     res_bind (item data ''delivery_attempt'') (\<lambda>delivery_attempt.
     res_bind (item data ''delivery_identity'') (\<lambda>delivery_identity.
     res_bind (item data ''worker_id'') (\<lambda>worker_id.
     res_bind (item data ''progress'') (\<lambda>progress.
     res_bind (item data ''error_type'') (\<lambda>error_type.
     res_bind (item data ''occurred_at'') (\<lambda>occurred_at.
       make_TaskLifecycleEvent kind task_id (string_of task_name) (atom_of schema_version) (string_of queue)
         correlation_id causation_id (atom_of attempt) (atom_of delivery_attempt) (atom_of delivery_identity)
         (optional_string_of worker_id) (progress_of progress) (optional_string_of error_type)
         (atom_of occurred_at))))))))))))))))"

definition decode_event :: "(bytes \<Rightarrow> pyvalue result) \<Rightarrow> bytes \<Rightarrow> TaskLifecycleEvent result" where
  "decode_event wide payload =
     res_bind (decode wide ENVELOPE_FIELDS payload) (\<lambda>d.
       case dict_get d (PyStr ''event'') of
         Some (PyDict data) \<Rightarrow>
           (case event_of_data data of Inl e \<Rightarrow> Inl (envelope_error e) | Inr ev \<Rightarrow> Inr ev)
       | _ \<Rightarrow> Inl ValueError)"

section \<open>UUIDs read back\<close>

lemma hex_str_length [simp]: "length (hex_str k n) = k"
  by (induction k n rule: hex_str.induct) simp_all

lemma hex_str_chars: "c \<in> set (hex_str k n) \<Longrightarrow> hex_value c \<noteq> None"
  by (induction k n rule: hex_str.induct) (auto simp: hex_value_digit nat_less_iff)

lemma hex_run_digits:
  assumes "cs \<noteq> []" and "\<forall>c \<in> set cs. hex_value c \<noteq> None"
  shows "hex_run cs = Some (map (\<lambda>c. the (hex_value c)) cs)"
  using assms
proof (induction cs rule: hex_run.induct)
  case (3 c e cs)
  moreover have "hex_value (CHR ''_'') = None" by (simp add: hex_value_def)
  then have "e \<noteq> CHR ''_''" using 3(4) by auto
  ultimately show ?case by (auto simp del: hex_run.simps(1,2))
qed auto

lemma hex_number_str: "hex_number (map (\<lambda>c. the (hex_value c)) (hex_str k n)) = n mod 16 ^ k"
proof (induction k n rule: hex_str.induct)
  case (2 k n)
  have "hex_number (map (\<lambda>c. the (hex_value c)) (hex_str (Suc k) n)) = 16 * (n div 16 mod 16 ^ k) + n mod 16"
    using 2 by (simp add: hex_number_def hex_value_digit nat_less_iff)
  also have "\<dots> = n mod (16 * 16 ^ k)" by (rule zmod_zmult2_eq [symmetric, THEN trans [rotated]]) simp_all
  finally show ?case by simp
qed (simp add: hex_number_def)

lemma remove_all_absent: "hd p \<notin> set s \<Longrightarrow> p \<noteq> [] \<Longrightarrow> remove_all p 0 s = s"
  by (induction s) (cases p; auto simp: py_startswith_def)+

lemma not_hex:
  "hex_value (CHR ''u'') = None" "hex_value (CHR ''-'') = None" "hex_value (CHR ''+'') = None"
  "hex_value (CHR ''x'') = None" "hex_value (CHR ''X'') = None" "hex_value (CHR 0x7B) = None" "hex_value (CHR 0x7D) = None"
  by (simp_all add: hex_value_def)

lemma hex_not_space: "hex_value c \<noteq> None \<Longrightarrow> \<not> number_space c"
  by (auto simp: hex_value_def number_space_def Let_def split: if_splits)

lemma dropWhile_none: "\<forall>c \<in> set s. \<not> P c \<Longrightarrow> dropWhile P s = s"
  by (cases s) auto

lemma parse_hex_str: "0 \<le> n \<Longrightarrow> n < 16 ^ 32 \<Longrightarrow> parse_hex (hex_str 32 n) = Inr n"
proof -
  assume n: "0 \<le> n" "n < 16 ^ 32"
  let ?h = "hex_str 32 n"
  have chars: "\<forall>c \<in> set ?h. hex_value c \<noteq> None" using hex_str_chars by blast
  obtain a b h where h: "?h = a # b # h"
    using hex_str_length [of 32 n] by (cases ?h; cases "tl ?h") auto
  have led: "a \<noteq> CHR ''-''" "a \<noteq> CHR ''+''" "b \<noteq> CHR ''x''" "b \<noteq> CHR ''X''" using chars h not_hex by auto
  have "number_strip ?h = ?h" using chars hex_not_space by (simp add: number_strip_def dropWhile_none)
  moreover have "split_sign ?h = (False, ?h)" using led unfolding h by (simp add: split_sign_def)
  moreover have "(case ?h of
            z # x # r \<Rightarrow>
              if z = CHR ''0'' \<and> (x = CHR ''x'' \<or> x = CHR ''X'')
              then (case r of u # q \<Rightarrow> if u = CHR ''_'' then q else r | [] \<Rightarrow> [])
              else ?h
          | _ \<Rightarrow> ?h) = ?h"
    using led unfolding h by simp
  moreover have "hex_run ?h = Some (map (\<lambda>c. the (hex_value c)) ?h)" using chars h by (intro hex_run_digits) auto
  moreover have "hex_number (map (\<lambda>c. the (hex_value c)) ?h) = n" using n hex_number_str [of 32 n] by simp
  ultimately show "parse_hex ?h = Inr n" by (simp only: parse_hex_def Let_def prod.case option.case if_False)
qed

lemma uuid_roundtrip: "parse_uuid (uuid_str u) = Inr u"
proof -
  let ?h = "hex_str 32 (uint u)"
  have chars: "\<forall>c \<in> set ?h. hex_value c \<noteq> None" using hex_str_chars by blast
  have sub: "set (uuid_str u) \<subseteq> insert (CHR ''-'') (set ?h)"
    by (auto simp: uuid_str_def Let_def dest: in_set_takeD in_set_dropD)
  then have "hex_value c \<noteq> None \<or> c = CHR ''-''" if "c \<in> set (uuid_str u)" for c using chars that by blast
  then have s: "CHR ''u'' \<notin> set (uuid_str u)" "\<forall>c \<in> set (uuid_str u). \<not> is_brace c"
    using not_hex by (fastforce simp: is_brace_def)+
  have "filter (\<lambda>c. c \<noteq> CHR ''-'') (uuid_str u) = filter (\<lambda>c. c \<noteq> CHR ''-'') ?h"
  proof -
    have split: "take m (drop k h) @ drop (m + k) h = drop k h" for m k and h :: string
      by (metis append_take_drop_id drop_drop add.commute)
    have "take 8 ?h @ take 4 (drop 8 ?h) @ take 4 (drop 12 ?h) @ take 4 (drop 16 ?h) @ drop 20 ?h = ?h"
      using split [of 4 16 ?h] split [of 4 12 ?h] split [of 4 8 ?h] by simp
    then have "filter P (take 8 ?h) @ filter P (take 4 (drop 8 ?h)) @ filter P (take 4 (drop 12 ?h))
        @ filter P (take 4 (drop 16 ?h)) @ filter P (drop 20 ?h) = filter P ?h" for P
      by (metis filter_append)
    then show ?thesis by (simp add: uuid_str_def Let_def)
  qed
  also have "\<dots> = ?h" using chars not_hex by (intro filter_True) auto
  finally have hex: "filter (\<lambda>c. c \<noteq> CHR ''-'') (uuid_str u) = ?h" .
  have "uint u < 2 ^ 128" "0 \<le> uint u" using uint_lt2p [of u] by simp_all
  then show ?thesis
    using s hex parse_hex_str [of "uint u"]
    by (simp add: parse_uuid_def remove_all_absent dropWhile_none)
qed

section \<open>Events read back\<close>

lemma loaded_canon: "loaded (canon j) = loaded j"
proof (induction j)
  case (JDict d)
  have "sort_key fst (map (\<lambda>(k, j). (k, canon j)) (sort_key fst d)) = map (\<lambda>(k, j). (k, canon j)) (sort_key fst (sort_key fst d))"
    by (rule sort_key_map) (simp add: case_prod_beta)
  also have "sort_key fst (sort_key fst d) = sort_key fst d" by (rule sort_key_id_if_sorted) simp
  finally show ?case using JDict by auto
qed auto

lemma writable_canon: "writable j \<Longrightarrow> writable (canon j)"
proof (induction j)
  case (JDict d)
  have keys: "dict_keys (map (\<lambda>(k, j). (k, canon j)) (sort_key fst d)) = dict_keys (sort_key fst d)" by auto
  have "distinct (dict_keys (map (\<lambda>(k, j). (k, canon j)) (sort_key fst d)))"
    unfolding keys using JDict.prems by (simp add: distinct_map)
  then show ?case using JDict by (auto simp del: map_map)
qed auto

lemma py_json_loaded: "writable j \<Longrightarrow> py_json (loaded j) = Inr (canon j)"
proof (induction j)
  case (JNonFinite f)
  then show ?case by (cases f) auto
next
  case (JList js)
  then have "map py_json (map loaded js) = map Inr (map canon js)" by auto
  then show ?case by (simp add: all_results_Inr del: map_map)
next
  case (JDict d)
  then have "map (\<lambda>(k, v). res_bind (key_string k) (\<lambda>s. res_bind (py_json v) (\<lambda>j. Inr (s, j))))
      (map (\<lambda>(k, j). (PyStr k, loaded j)) (sort_key fst d)) = map Inr (map (\<lambda>(k, j). (k, canon j)) (sort_key fst d))"
    by fastforce
  then show ?case by (simp add: all_results_Inr del: map_map)
qed auto

text \<open>Progress that the code has made itself.\<close>

definition proper_progress :: "SafeJsonMetadata option \<Rightarrow> bool" where
  "proper_progress p \<longleftrightarrow>
     (\<forall>m. p = Some m \<longrightarrow> (\<exists>kvs. safe_json_metadata (Raw (PyDict kvs)) = Inr m \<and> doubles (PyDict kvs)))"

lemma progress_roundtrip:
  assumes "proper_progress p"
  shows "\<exists>j. progress_json wide p = Inr j \<and> writable j \<and> checked_progress (progress_of (loaded j)) = Inr p
    \<and> (none_value (Some (loaded j)) \<or> mapping_value (Some (loaded j)))"
proof (cases p)
  case None
  then show ?thesis by (simp add: progress_json_def)
next
  case (Some m)
  then obtain kvs where m: "safe_json_metadata (Raw (PyDict kvs)) = Inr m" "doubles (PyDict kvs)"
    using assms by (auto simp: proper_progress_def)
  obtain safe n where safe: "safe_mapping kvs 0 0 = Inr (safe, n)"
    by (rule safe_json_metadata_Raw [OF m(1)]) auto
  note dec = decoded_metadata [OF m safe]
  have clean: "writable (JDict safe)" using safe_value_clean(2) [OF safe] m(2) by (simp add: clean_tree_def)
  have "progress_json wide p = Inr (canon (JDict safe))"
    using Some dec(1) py_json_loaded [OF clean] by (simp add: progress_json_def del: canon.simps)
  moreover have "checked_progress (progress_of (loaded (canon (JDict safe)))) = Inr p"
    unfolding loaded_canon using dec(2) Some by simp
  moreover have "mapping_value (Some (loaded (canon (JDict safe))))" unfolding loaded_canon by simp
  ultimately show ?thesis using writable_canon [OF clean] by blast
qed

definition filled :: "string option \<Rightarrow> bool" where
  "filled v \<longleftrightarrow> (\<forall>s. v = Some s \<longrightarrow> py_strip s \<noteq> [])"

text \<open>What the constructor of events has checked, for arguments that are values of Python.\<close>

definition made_event :: "TaskLifecycleEvent \<Rightarrow> bool" where
  "made_event ev \<longleftrightarrow>
     1 \<le> ev_schema_version ev \<and> (\<forall>n. ev_delivery_attempt ev = Some n \<longrightarrow> 1 \<le> n)
     \<and> filled (ev_delivery_identity ev) \<and> proper_progress (ev_progress ev)
     \<and> doubles (PyAtom (ev_attempt ev)) \<and> doubles (PyAtom (ev_occurred_at ev))"

lemma made_progress:
  assumes "checked_progress progress = Inr p" and "\<forall>v. progress = Some (Raw v) \<longrightarrow> doubles v"
    and "\<forall>m. progress = Some (Safe m) \<longrightarrow> (\<exists>v. safe_json_metadata (Raw v) = Inr m \<and> doubles v)"
  shows "proper_progress p"
proof -
  have raw: "\<exists>kvs. safe_json_metadata (Raw (PyDict kvs)) = Inr m \<and> doubles (PyDict kvs)"
    if "safe_json_metadata (Raw v) = Inr m" "doubles v" for v m
    using safe_json_metadata_Raw [OF that(1)] that by metis
  show ?thesis
  proof (cases progress)
    case (Some i)
    then show ?thesis
      using assms raw
      by (cases i) (auto simp: proper_progress_def simp del: doubles.simps split: sum.splits)
  qed (use assms(1) in \<open>simp add: proper_progress_def\<close>)
qed

lemma made_delivery_attempt: "optional_positive_int v = Inr (Some n) \<Longrightarrow> 1 \<le> n"
  by (cases v) (auto split: if_splits)

lemma made_identity: "optional_identity v = Inr i \<Longrightarrow> filled i"
  by (cases v) (auto simp: filled_def split: if_splits)

lemma made_event_made:
  assumes "make_TaskLifecycleEvent kind task_id task_name schema_version queue correlation_id causation_id
      attempt delivery_attempt delivery_identity worker_id progress error_type occurred_at = Inr ev"
    and "\<forall>v. progress = Some (Raw v) \<longrightarrow> doubles v"
    and "\<forall>m. progress = Some (Safe m) \<longrightarrow> (\<exists>v. safe_json_metadata (Raw v) = Inr m \<and> doubles v)"
    and "doubles (PyAtom attempt)" and "doubles (PyAtom occurred_at)"
  shows "made_event ev"
proof -
  have "positive_int schema_version = Inr n \<Longrightarrow> 1 \<le> n" for n
    by (cases schema_version) (auto split: if_splits)
  then show ?thesis
    using assms(1,4,5) made_progress [OF _ assms(2,3)] made_delivery_attempt made_identity
    by (auto simp: make_TaskLifecycleEvent_def made_event_def simp del: doubles.simps)
qed

lemma atom_json_read:
  assumes "atom_json v = Inr j" and "doubles (PyAtom v)"
  shows "writable j" and "loaded j = PyAtom v"
  using assms by (cases v; auto split: pyfloat.splits)+

lemma loaded_option_json:
  "loaded (option_json JStr v) = PyAtom (case v of None \<Rightarrow> PyNone | Some s \<Rightarrow> PyStr s)"
  "loaded (option_json JInt n) = PyAtom (case n of None \<Rightarrow> PyNone | Some i \<Rightarrow> PyInt i)"
  "loaded (option_json (\<lambda>u. JStr (uuid_str u)) w) = PyAtom (case w of None \<Rightarrow> PyNone | Some u \<Rightarrow> PyStr (uuid_str u))"
  "writable (option_json JStr v)" "writable (option_json JInt n)" "writable (option_json (\<lambda>u. JStr (uuid_str u)) w)"
  by (auto simp: option_json_def split: option.splits)

lemma kind_roundtrip: "kind_of (PyAtom (PyStr (kind_value k))) = Inr k"
  by (cases k) (simp_all add: all_kinds_def)

lemma uuid_str_not_Nil: "uuid_str u \<noteq> []"
  by (simp add: uuid_str_def Let_def)

text \<open>The data of an event as it is found after reading.\<close>

definition read_data :: "(string, json) dict \<Rightarrow> (pyobj, pyvalue) dict" where
  "read_data d = map (\<lambda>(k, j). (PyStr k, loaded j)) (sort_key fst d)"

lemma read_data_get: "distinct (dict_keys d) \<Longrightarrow> dict_get (read_data d) (PyStr k) = map_option loaded (dict_get d k)"
  unfolding read_data_def by (rule dict_get_loaded)

lemma read_data_fields: "set (dict_keys d) = set fs \<Longrightarrow> has_fields fs (read_data d)"
  by (auto simp: has_fields_def read_data_def image_iff) force+

lemma decode_encode:
  assumes "encode d = Inr b" and "writable (JDict d)" and "set (dict_keys d) = set fs"
    and "dict_get d ''version'' = Some (JInt 1)"
  shows "decode wide fs b = Inr (read_data d)"
proof -
  obtain s where s: "json_text True ascii_char (JDict d) = Inr s" "b = utf8_encode s"
    using assms(1) by (auto simp: encode_def json_dumps_ascii_def simp del: json_text.simps)
  have "json_loads wide b = Inr (PyDict (read_data d))"
    using ascii_chars.json_loads_text [OF s(1) assms(2), of wide] by (simp add: s(2) read_data_def)
  moreover have "distinct (dict_keys d)" using assms(2) by simp
  ultimately show ?thesis
    using read_data_fields [OF assms(3)] read_data_get [of d "''version''"] assms(4) by (simp add: decode_def)
qed


text \<open>Reading the data of an event that was made by the constructor.\<close>

lemma writable_event_items:
  "writable a \<Longrightarrow> writable p \<Longrightarrow> writable t \<Longrightarrow> writable (JDict (event_items ev a p t))"
  using loaded_option_json(4-6) by (simp add: event_items_def)

lemma read_event_items:
  fixes ev a p t
  defines "data \<equiv> read_data (event_items ev a p t)"
  shows "has_fields EVENT_FIELDS data"
    and "dict_get data (PyStr ''kind'') = Some (PyAtom (PyStr (kind_value (ev_kind ev))))"
    and "dict_get data (PyStr ''task_id'') = Some (PyAtom (PyStr (uuid_str (ev_task_id ev))))"
    and "dict_get data (PyStr ''task_name'') = Some (PyAtom (PyStr (ev_task_name ev)))"
    and "dict_get data (PyStr ''schema_version'') = Some (PyAtom (PyInt (ev_schema_version ev)))"
    and "dict_get data (PyStr ''queue'') = Some (PyAtom (PyStr (ev_queue ev)))"
    and "dict_get data (PyStr ''correlation_id'') = Some (PyAtom (PyStr (uuid_str (ev_correlation_id ev))))"
    and "dict_get data (PyStr ''causation_id'') = Some (loaded (option_json (\<lambda>u. JStr (uuid_str u)) (ev_causation_id ev)))"
    and "dict_get data (PyStr ''attempt'') = Some (loaded a)"
    and "dict_get data (PyStr ''delivery_attempt'') = Some (loaded (option_json JInt (ev_delivery_attempt ev)))"
    and "dict_get data (PyStr ''delivery_identity'') = Some (loaded (option_json JStr (ev_delivery_identity ev)))"
    and "dict_get data (PyStr ''worker_id'') = Some (loaded (option_json JStr (ev_worker_id ev)))"
    and "dict_get data (PyStr ''progress'') = Some (loaded p)"
    and "dict_get data (PyStr ''error_type'') = Some (loaded (option_json JStr (ev_error_type ev)))"
    and "dict_get data (PyStr ''occurred_at'') = Some (loaded t)"
proof -
  have "distinct (dict_keys (event_items ev a p t))" by (simp add: event_items_def)
  note get = read_data_get [OF this]
  show "has_fields EVENT_FIELDS data"
    unfolding data_def by (rule read_data_fields) (unfold event_items_def EVENT_FIELDS_def, auto)
qed (simp_all add: data_def read_data_get event_items_def)

lemma optional_string_read:
  "validate_optional_string (Some (loaded (option_json JStr v))) \<longleftrightarrow> filled v"
  "optional_string_of (loaded (option_json JStr v)) = v"
  "filled v \<Longrightarrow> optional_identity (atom_of (loaded (option_json JStr v))) = Inr v"
  by (auto simp: loaded_option_json validate_optional_string_def filled_def split: option.splits)

lemma optional_int_read:
  assumes "\<forall>n. v = Some n \<longrightarrow> 1 \<le> n"
  shows "validate_optional_delivery_attempt (Some (loaded (option_json JInt v)))"
    and "optional_positive_int (atom_of (loaded (option_json JInt v))) = Inr v"
  using assms by (auto simp: loaded_option_json validate_optional_delivery_attempt_def split: option.splits)

lemma optional_uuid_read:
  "optional_uuid_of (loaded (option_json (\<lambda>u. JStr (uuid_str u)) v)) = Inr v"
  by (auto simp: loaded_option_json(3) optional_uuid_of_def uuid_roundtrip uuid_str_not_Nil split: option.splits)

lemma validate_read_data:
  assumes "made_event ev" and "event_data wide ev = Inr d"
  shows "writable (JDict d)"
    and "validate_event_data (read_data d) =
      (if py_strip (ev_task_name ev) = [] \<or> py_strip (ev_queue ev) = [] \<or> \<not> positive (Some (PyAtom (ev_attempt ev)))
         \<or> \<not> filled (ev_worker_id ev) \<or> \<not> filled (ev_error_type ev)
       then Inl ValueError else validate_time (Some (PyAtom (ev_occurred_at ev))))"
    and "event_of_data (read_data d) = (case validate_event_data (read_data d) of Inl e \<Rightarrow> Inl e | Inr _ \<Rightarrow> Inr ev)"
proof -
  note ev = assms(1) [unfolded made_event_def]
  obtain p where p: "progress_json wide (ev_progress ev) = Inr p" "writable p"
    "checked_progress (progress_of (loaded p)) = Inr (ev_progress ev)"
    "none_value (Some (loaded p)) \<or> mapping_value (Some (loaded p))"
    using progress_roundtrip [of "ev_progress ev" wide] ev by auto
  obtain a t where at: "atom_json (ev_attempt ev) = Inr a" "atom_json (ev_occurred_at ev) = Inr t"
    and d: "d = event_items ev a p t"
    using assms(2) p(1) by (auto simp: event_data_def)
  have a: "writable a" "loaded a = PyAtom (ev_attempt ev)" and t: "writable t" "loaded t = PyAtom (ev_occurred_at ev)"
    using at atom_json_read ev by blast+
  show "writable (JDict d)" unfolding d using a(1) p(2) t(1) by (rule writable_event_items)
  note gets = read_event_items [of ev a p t, folded d, unfolded a(2) t(2)]
  show "validate_event_data (read_data d) =
      (if py_strip (ev_task_name ev) = [] \<or> py_strip (ev_queue ev) = [] \<or> \<not> positive (Some (PyAtom (ev_attempt ev)))
         \<or> \<not> filled (ev_worker_id ev) \<or> \<not> filled (ev_error_type ev)
       then Inl ValueError else validate_time (Some (PyAtom (ev_occurred_at ev))))"
    using gets optional_string_read(1) optional_int_read(1) [of "ev_delivery_attempt ev"] ev
    by (cases rule: disjE [OF p(4)])
      (simp_all add: validate_event_data_def validate_identity_data_def validate_attempt_data_def)
  have "make_TaskLifecycleEvent (ev_kind ev) (ev_task_id ev) (ev_task_name ev) (PyInt (ev_schema_version ev)) (ev_queue ev)
      (ev_correlation_id ev) (ev_causation_id ev) (ev_attempt ev) (atom_of (loaded (option_json JInt (ev_delivery_attempt ev))))
      (atom_of (loaded (option_json JStr (ev_delivery_identity ev)))) (ev_worker_id ev) (progress_of (loaded p))
      (ev_error_type ev) (ev_occurred_at ev) = Inr ev"
    using ev p(3) optional_int_read(2) optional_string_read(3) by (simp add: make_TaskLifecycleEvent_def)
  then show "event_of_data (read_data d) = (case validate_event_data (read_data d) of Inl e \<Rightarrow> Inl e | Inr _ \<Rightarrow> Inr ev)"
    using gets optional_string_read(2)
    by (cases "validate_event_data (read_data d)")
      (simp_all add: event_of_data_def item_def kind_roundtrip uuid_roundtrip optional_uuid_read del: kind_of.simps)
qed

text \<open>The reader of a whole envelope around given data.\<close>

lemma decode_event_data:
  assumes "encode [(''version'', JInt ENVELOPE_VERSION), (''event'', JDict d)] = Inr b" and "writable (JDict d)"
  shows "decode_event wide b = (case event_of_data (read_data d) of Inl e \<Rightarrow> Inl (envelope_error e) | Inr ev \<Rightarrow> Inr ev)"
proof -
  let ?e = "[(''version'', JInt ENVELOPE_VERSION), (''event'', JDict d)]"
  have "decode wide ENVELOPE_FIELDS b = Inr (read_data ?e)"
    using assms by (intro decode_encode) (auto simp: ENVELOPE_FIELDS_def ENVELOPE_VERSION_def)
  moreover have "dict_get (read_data ?e) (PyStr ''event'') = Some (PyDict (read_data d))"
    using read_data_get [of ?e "''event''"] by (simp add: read_data_def)
  ultimately show ?thesis by (simp add: decode_event_def)
qed

lemma decode_encode_event:
  assumes "made_event ev" and "encode_event wide ev = Inr b"
  shows "decode_event wide b =
    (if py_strip (ev_task_name ev) = [] \<or> py_strip (ev_queue ev) = [] \<or> \<not> positive (Some (PyAtom (ev_attempt ev)))
       \<or> \<not> filled (ev_worker_id ev) \<or> \<not> filled (ev_error_type ev)
     then Inl ValueError
     else case validate_time (Some (PyAtom (ev_occurred_at ev))) of Inl e \<Rightarrow> Inl e | Inr _ \<Rightarrow> Inr ev)"
proof -
  obtain d where d: "event_data wide ev = Inr d" "encode [(''version'', JInt ENVELOPE_VERSION), (''event'', JDict d)] = Inr b"
    using assms(2) by (auto simp: encode_event_def)
  note read = validate_read_data [OF assms(1) d(1)]
  have "envelope_error e = e" if "validate_time v = Inl e" for v e
    using that by (cases v rule: validate_time.cases) (auto simp: envelope_error_def split: if_splits)
  then show ?thesis
    using decode_event_data [OF d(2) read(1), of wide] read(2,3)
    by (auto simp: envelope_error_def split: sum.splits)
qed

lemma sample_event_made: "made_event (sample_event kind 1 3)"
  by (auto simp: made_event_def sample_event_def filled_def proper_progress_def)

lemma sample_event_reads:
  "encode_event wide (sample_event kind 1 3) = Inr b \<Longrightarrow> decode_event wide b = Inr (sample_event kind 1 3)"
  using decode_encode_event [OF sample_event_made]
  by (simp add: sample_event_def filled_def py_strip_def py_lstrip_def py_isspace_def)

section \<open>Properties\<close>

text \<open>C29: Whatever event the constructor makes and the writer stores, its record reads back as the very
  event, with all its fields, whatever characters its strings have and however long its floats are,
  unless the reader rejects it; and it rejects it exactly if the name of the task, the queue, the worker
  or the type of the error is blank, the attempt is not a positive integer, or the time is not a finite
  number. (The constructor looks at none of these.) Floats are binary64, and progress that is given as
  metadata was made by \<open>safe_json_metadata\<close>.\<close>

theorem event_envelope_roundtrip:
  assumes "make_TaskLifecycleEvent kind task_id task_name schema_version queue correlation_id causation_id
      attempt delivery_attempt delivery_identity worker_id progress error_type occurred_at = Inr ev"
    and "\<forall>v. progress = Some (Raw v) \<longrightarrow> doubles v"
    and "\<forall>m. progress = Some (Safe m) \<longrightarrow> (\<exists>v. safe_json_metadata (Raw v) = Inr m \<and> doubles v)"
    and "doubles (PyAtom attempt)" and "doubles (PyAtom occurred_at)"
    and "encode_event wide ev = Inr b"
  shows "decode_event wide b =
    (if py_strip task_name = [] \<or> py_strip queue = [] \<or> (\<nexists>n. attempt = PyInt n \<and> 1 \<le> n)
       \<or> (\<exists>s. worker_id = Some s \<and> py_strip s = []) \<or> (\<exists>s. error_type = Some s \<and> py_strip s = [])
     then Inl ValueError
     else case occurred_at of
            PyInt n \<Rightarrow> if is_finite (fl (of_int n)) then Inr ev else Inl OverflowError
          | PyFloat f \<Rightarrow> if is_finite f then Inr ev else Inl ValueError
          | _ \<Rightarrow> Inl ValueError)"
proof -
  have args: "ev_task_name ev = task_name" "ev_queue ev = queue" "ev_attempt ev = attempt"
    "ev_worker_id ev = worker_id" "ev_error_type ev = error_type" "ev_occurred_at ev = occurred_at"
    using assms(1) by (auto simp: make_TaskLifecycleEvent_def)
  have "positive (Some (PyAtom attempt)) \<longleftrightarrow> (\<exists>n. attempt = PyInt n \<and> 1 \<le> n)" by (cases attempt) auto
  moreover have "filled v \<longleftrightarrow> (\<nexists>s. v = Some s \<and> py_strip s = [])" for v by (auto simp: filled_def)
  ultimately show ?thesis
    unfolding decode_encode_event [OF made_event_made [OF assms(1-5)] assms(6), unfolded args]
    by (cases occurred_at) (simp_all split: if_splits)
qed

text \<open>The submission of a task, and the same record with a worker without a name.\<close>

theorem event_envelope_roundtrip_witness:
  "(\<exists>ev b. make_TaskLifecycleEvent K_STARTED 7 ''mail.send'' (PyInt 1) ''default'' 7 None (PyInt 1) (PyInt 1) PyNone
      (Some ''w1'') (Some (Raw (PyDict [(PyStr ''done'', PyAtom (PyInt 3))]))) None (PyFloat (Fin 3)) = Inr ev
    \<and> encode_event (\<lambda>_. Inl ValueError) ev = Inr b \<and> decode_event (\<lambda>_. Inl ValueError) b = Inr ev)
   \<and> (\<exists>ev b. make_TaskLifecycleEvent K_STARTED 7 ''mail.send'' (PyInt 1) ''default'' 7 None (PyInt 1) (PyInt 1) PyNone
      (Some '' '') None None (PyFloat (Fin 3)) = Inr ev
    \<and> encode_event (\<lambda>_. Inl ValueError) ev = Inr b \<and> decode_event (\<lambda>_. Inl ValueError) b = Inl ValueError)"
proof (intro conjI)
  let ?wide = "\<lambda>_ :: bytes. Inl ValueError :: pyvalue result"
  let ?make = "\<lambda>worker progress. make_TaskLifecycleEvent K_STARTED 7 ''mail.send'' (PyInt 1) ''default'' 7 None (PyInt 1)
    (PyInt 1) PyNone (Some worker) progress None (PyFloat (Fin 3))"
  let ?progress = "Some (Raw (PyDict [(PyStr ''done'', PyAtom (PyInt 3))]))"
  have "case ?make ''w1'' ?progress of Inl _ \<Rightarrow> False | Inr ev \<Rightarrow> \<not> isl (encode_event ?wide ev)" by code_simp
  then obtain ev b where ev: "?make ''w1'' ?progress = Inr ev" "encode_event ?wide ev = Inr b"
    by (auto simp: isl_def split: sum.splits) (metis sum.exhaust)
  show "\<exists>ev b. ?make ''w1'' ?progress = Inr ev \<and> encode_event ?wide ev = Inr b \<and> decode_event ?wide b = Inr ev"
    using event_envelope_roundtrip [OF ev(1) _ _ _ _ ev(2)] ev
    by (auto simp: py_strip_def py_lstrip_def py_isspace_def)
  have "case ?make '' '' None of Inl _ \<Rightarrow> False | Inr ev \<Rightarrow> \<not> isl (encode_event ?wide ev)" by code_simp
  then obtain ev b where ev: "?make '' '' None = Inr ev" "encode_event ?wide ev = Inr b"
    by (auto simp: isl_def split: sum.splits) (metis sum.exhaust)
  show "\<exists>ev b. ?make '' '' None = Inr ev \<and> encode_event ?wide ev = Inr b \<and> decode_event ?wide b = Inl ValueError"
    using event_envelope_roundtrip [OF ev(1) _ _ _ _ ev(2)] ev
    by (auto simp: py_strip_def py_lstrip_def py_isspace_def)
qed

text \<open>A record whose task identifier is not a string is not reported as an invalid envelope: the
  constructor of \<open>UUID\<close> raises \<open>AttributeError\<close>, which leaves the decoder and the replay that runs it.\<close>

lemma numeric_task_id_escapes:
  assumes "made_event ev" and "event_data wide ev = Inr d" and "validate_event_data (read_data d) = Inr ()"
    and "encode [(''version'', JInt ENVELOPE_VERSION), (''event'', JDict (dict_set ''task_id'' (JInt n) d))] = Inr b"
  shows "decode_event wide b = Inl AttributeError"
proof -
  let ?d = "dict_set ''task_id'' (JInt n) d"
  note writable = validate_read_data(1) [OF assms(1,2)]
  have dist: "distinct (dict_keys d)" "distinct (dict_keys ?d)" using writable by (simp_all add: distinct_update)
  have same: "dict_get (read_data ?d) (PyStr k) = (if k = ''task_id'' then Some (PyAtom (PyInt n)) else dict_get (read_data d) (PyStr k))" for k
    using read_data_get [OF dist(1)] read_data_get [OF dist(2)] by (simp add: update_conv)
  obtain a p t where d: "d = event_items ev a p t" using assms(2) by (auto simp: event_data_def)
  have "has_fields EVENT_FIELDS (read_data ?d)"
    by (rule read_data_fields) (unfold d event_items_def EVENT_FIELDS_def, auto)
  moreover have "has_fields EVENT_FIELDS (read_data d)" unfolding d by (rule read_event_items(1))
  ultimately have "validate_event_data (read_data ?d) = validate_event_data (read_data d)"
    by (simp add: validate_event_data_def validate_identity_data_def validate_attempt_data_def same)
  with assms(3) have "event_of_data (read_data ?d) = Inl AttributeError"
    using read_event_items(2) [of ev a p t, folded d]
    by (simp add: event_of_data_def item_def same kind_roundtrip del: kind_of.simps)
  moreover have "writable (JDict ?d)" using writable dist(2) by (auto simp: d event_items_def)
  ultimately show ?thesis using decode_event_data [OF assms(4), of wide] by (simp add: envelope_error_def)
qed

end
