(* ===== verification/Task_Store.thy ===== *)
theory Task_Store
  imports Task_Envelope Stream_Cache
begin

text \<open>
  Reading the lifecycle of tasks from a stream: \<open>TaskiqLifecyclePolicy\<close>, \<open>CacheTaskLifecycle.lifecycle\<close> and
  \<open>CacheTaskLifecycle._status_from_stream\<close> of \<open>src/src/wybra/tasks/taskiq_lifecycle.py\<close>, with the predicates that
  decide whether an event has been recorded before and whether a task is abandoned.

  The loops of \<open>lifecycle\<close> and \<open>_status_from_stream\<close> have the same shape, \<open>replay_loop\<close>, and read the stream
  cache through the interface \<open>paged_log\<close>. The list of streams has one state for each read; other callers
  may have used the cache between two of them.

  The lemmas show that a query returns what one pass over a segment of the log gives, a segment that has
  all retained records of the moment of its last read, and that a query of a stream at rest returns.
\<close>

section \<open>Policies\<close>

record TaskiqLifecyclePolicy =
  po_owner :: string
  po_stream :: string
  po_status_retention_seconds :: rat
  po_queue :: string
  po_active_status_timeout_seconds :: rat
  po_lifecycle_lease_ttl_seconds :: rat
  po_lifecycle_lease_wait_timeout_seconds :: rat
  po_projection_cas_max_attempts :: int
  po_worker_id :: "string option"
  po_schema_version :: int
  po_replay_page_limit :: int

fun policy_string :: "pyobj \<Rightarrow> string result" where
  "policy_string (PyStr s) = (if py_strip s = [] then Inl ValueError else Inr (py_strip s))"
| "policy_string _ = Inl ValueError"

fun policy_worker :: "pyobj \<Rightarrow> string option result" where
  "policy_worker PyNone = Inr None"
| "policy_worker v = res_bind (policy_string v) (\<lambda>s. Inr (Some s))"

fun policy_int :: "pyobj \<Rightarrow> int result" where
  "policy_int (PyInt n) = (if n < 1 then Inl ValueError else Inr n)"
| "policy_int _ = Inl ValueError"

fun policy_seconds :: "pyobj \<Rightarrow> rat result" where
  "policy_seconds (PyInt n) =
     (if \<not> is_finite (fl (of_int n)) then Inl OverflowError
      else if n \<le> 0 then Inl ValueError else Inr (of_int n))"
| "policy_seconds (PyFloat (Fin x)) = (if x \<le> 0 then Inl ValueError else Inr x)"
| "policy_seconds _ = Inl ValueError"

definition make_TaskiqLifecyclePolicy ::
    "pyobj \<Rightarrow> pyobj \<Rightarrow> pyobj \<Rightarrow> pyobj \<Rightarrow> pyobj \<Rightarrow> pyobj \<Rightarrow> pyobj \<Rightarrow> pyobj \<Rightarrow> pyobj \<Rightarrow> pyobj \<Rightarrow> pyobj
     \<Rightarrow> TaskiqLifecyclePolicy result"
where
  "make_TaskiqLifecyclePolicy owner stream status_retention_seconds queue active_status_timeout_seconds
     lifecycle_lease_ttl_seconds lifecycle_lease_wait_timeout_seconds projection_cas_max_attempts worker_id
     schema_version replay_page_limit =
     res_bind (policy_string owner) (\<lambda>ow.
     res_bind (policy_string stream) (\<lambda>st.
     res_bind (policy_string queue) (\<lambda>qu.
     res_bind (policy_worker worker_id) (\<lambda>worker.
     res_bind (policy_int schema_version) (\<lambda>version.
     res_bind (res_bind (policy_int replay_page_limit)
       (\<lambda>n. if MAX_CACHE_FEATURE_LIMIT < n then Inl ValueError else Inr n)) (\<lambda>page.
     res_bind (policy_int projection_cas_max_attempts) (\<lambda>attempts.
     res_bind (policy_seconds status_retention_seconds) (\<lambda>retention.
     res_bind (policy_seconds active_status_timeout_seconds) (\<lambda>active.
     res_bind (policy_seconds lifecycle_lease_ttl_seconds) (\<lambda>ttl.
     res_bind (policy_seconds lifecycle_lease_wait_timeout_seconds) (\<lambda>wait.
       Inr \<lparr>po_owner = ow, po_stream = st, po_status_retention_seconds = retention, po_queue = qu,
            po_active_status_timeout_seconds = active, po_lifecycle_lease_ttl_seconds = ttl,
            po_lifecycle_lease_wait_timeout_seconds = wait, po_projection_cas_max_attempts = attempts,
            po_worker_id = worker, po_schema_version = version, po_replay_page_limit = page\<rparr>)))))))))))"

section \<open>Reading pages\<close>

text \<open>\<open>except TaskLifecycleError, ValueError\<close>, with the subclasses of the two that occur.\<close>

definition skipped_error :: "exn \<Rightarrow> bool" where
  "skipped_error e \<longleftrightarrow> e \<in> {TaskLifecycleError, TaskProgressError, ValueError}"

text \<open>The constructor runs again on values it has accepted before.\<close>

definition public_event :: "TaskLifecycleEvent \<Rightarrow> TaskLifecycleEvent" where
  "public_event ev = ev\<lparr>ev_delivery_identity := None\<rparr>"

definition lifecycle_step ::
    "(bytes \<Rightarrow> pyvalue result) \<Rightarrow> UUID \<Rightarrow> StreamRecord \<Rightarrow> TaskLifecycleEvent list \<Rightarrow> TaskLifecycleEvent list result" where
  "lifecycle_step wide task_id r events =
     (case decode_event wide (sr_payload r) of
        Inl e \<Rightarrow> if skipped_error e then Inr events else Inl e
      | Inr ev \<Rightarrow> Inr (if ev_task_id ev = task_id then events @ [public_event ev] else events))"

definition task_stream_read ::
    "TaskiqLifecyclePolicy \<Rightarrow> StreamPosition option \<Rightarrow> InMemoryStreamCache \<Rightarrow> StreamRecord list result" where
  "task_stream_read pol position c =
     stream_read (PyStr (po_owner pol)) (PyStr (po_stream pol)) position (PyInt (po_replay_page_limit pol)) c"

definition task_lifecycle ::
    "(bytes \<Rightarrow> pyvalue result) \<Rightarrow> TaskiqLifecyclePolicy \<Rightarrow> UUID \<Rightarrow> InMemoryStreamCache list
     \<Rightarrow> TaskLifecycleEvent list result option" where
  "task_lifecycle wide pol task_id cs =
     map_option (\<lambda>r. res_bind r (\<lambda>(events, _). Inr events))
       (replay_loop (task_stream_read pol) (po_replay_page_limit pol) (lifecycle_step wide task_id) [] None [] False cs)"

text \<open>A projection without retention ignores the clock: \<open>now\<close> stands for all its readings.\<close>

definition stream_projection :: "pyfloat \<Rightarrow> TaskStatus option \<Rightarrow> TaskStatusProjection result" where
  "stream_projection now st =
     res_bind (new_projection PyNone (PyInt 100) PyNone) (\<lambda>p.
       Inr (case st of None \<Rightarrow> p | Some s \<Rightarrow> snd (restore now s p)))"



section \<open>Repeated events and abandoned tasks\<close>

definition public_status :: "TaskStatus \<Rightarrow> TaskStatus" where
  "public_status st = st\<lparr>st_delivery_identity := None\<rparr>"

fun state_value :: "TaskState \<Rightarrow> string" where
  "state_value SUBMITTED = ''submitted''"
| "state_value SCHEDULED = ''scheduled''"
| "state_value RUNNING = ''running''"
| "state_value RETRY_SCHEDULED = ''retry_scheduled''"
| "state_value SUCCEEDED = ''succeeded''"
| "state_value FAILED = ''failed''"
| "state_value DEAD_LETTERED = ''dead_lettered''"

definition matches_identity :: "TaskStatus \<Rightarrow> TaskLifecycleEvent \<Rightarrow> bool" where
  "matches_identity st ev \<longleftrightarrow>
     ev_task_name ev = st_task_name st \<and> ev_schema_version ev = st_schema_version st \<and> ev_queue ev = st_queue st
     \<and> ev_correlation_id ev = st_correlation_id st \<and> ev_causation_id ev = st_causation_id st"

text \<open>\<open>event.attempt == status.attempt\<close>: the equality of Python numbers.\<close>

definition same_attempt :: "TaskStatus \<Rightarrow> TaskLifecycleEvent \<Rightarrow> bool" where
  "same_attempt st ev \<longleftrightarrow> key_of (ev_attempt ev) = KeyNumber (of_int (st_attempt st))"

definition is_duplicate_start :: "TaskStatus \<Rightarrow> TaskLifecycleEvent \<Rightarrow> bool" where
  "is_duplicate_start st ev \<longleftrightarrow>
     st_state st = RUNNING \<and> ev_kind ev = K_STARTED \<and> matches_identity st ev \<and> same_attempt st ev
     \<and> ev_delivery_attempt ev = st_delivery_attempt st \<and> ev_delivery_identity ev = st_delivery_identity st
     \<and> st_worker_id st = ev_worker_id ev"

definition is_idempotent_event :: "TaskStatus \<Rightarrow> TaskLifecycleEvent \<Rightarrow> bool" where
  "is_idempotent_event st ev \<longleftrightarrow>
     (if \<not> matches_identity st ev \<or> \<not> same_attempt st ev then False
      else if state_value (st_state st) = kind_value (ev_kind ev) then True
      else if st_state st = RUNNING \<and> ev_kind ev = K_PROGRESS
      then st_worker_id st = ev_worker_id ev \<and> st_delivery_attempt st = ev_delivery_attempt ev
           \<and> st_delivery_identity st = ev_delivery_identity ev
      else is_duplicate_start st ev)"

text \<open>\<open>_apply_event\<close>: the projection it builds is thrown away.\<close>

definition apply_to_status :: "pyfloat \<Rightarrow> TaskStatus option \<Rightarrow> TaskLifecycleEvent \<Rightarrow> TaskStatus result" where
  "apply_to_status now st ev = res_bind (stream_projection now st) (\<lambda>p. fst (apply_event now ev p))"

definition is_abandoned_active_status :: "TaskStatus \<Rightarrow> pyfloat \<Rightarrow> TaskiqLifecyclePolicy \<Rightarrow> bool" where
  "is_abandoned_active_status st now pol \<longleftrightarrow>
     \<not> terminal (st_state st) \<and> Fin (po_active_status_timeout_seconds pol) \<le> elapsed now (st_updated_at st)"

definition is_abandoned_failed_attempt :: "TaskStatus \<Rightarrow> pyfloat \<Rightarrow> TaskiqLifecyclePolicy \<Rightarrow> bool" where
  "is_abandoned_failed_attempt st now pol \<longleftrightarrow>
     st_state st = RUNNING \<and> st_error_type st \<noteq> None
     \<and> Fin (po_active_status_timeout_seconds pol) \<le> elapsed now (st_updated_at st)"

text \<open>The events that finish an abandoned task. \<open>fresh\<close> and \<open>now\<close> are as in \<open>TaskLifecycleEvent.new\<close>.\<close>

definition failed_event :: "UUID \<Rightarrow> pyfloat \<Rightarrow> TaskStatus \<Rightarrow> string option \<Rightarrow> TaskLifecycleEvent result" where
  "failed_event fresh now st error_type =
     new_TaskLifecycleEvent fresh now K_FAILED (st_task_name st) (PyInt (st_schema_version st)) (st_queue st)
       (Some (st_task_id st)) (Some (st_correlation_id st)) (st_causation_id st) (PyInt (st_attempt st))
       (py_opt PyInt (st_delivery_attempt st)) (py_opt PyStr (st_delivery_identity st)) (st_worker_id st) None
       (case error_type of None \<Rightarrow> st_error_type st | Some e \<Rightarrow> Some e) PyNone"

text \<open>The times of a status that \<open>record\<close> has made are floats.\<close>

definition dead_letter_event :: "UUID \<Rightarrow> pyfloat \<Rightarrow> TaskStatus \<Rightarrow> TaskLifecycleEvent result" where
  "dead_letter_event fresh now st =
     new_TaskLifecycleEvent fresh now K_DEAD_LETTERED (st_task_name st) (PyInt (st_schema_version st)) (st_queue st)
       (Some (st_task_id st)) (Some (st_correlation_id st)) (st_causation_id st) (PyInt (st_attempt st))
       (py_opt PyInt (st_delivery_attempt st)) (py_opt PyStr (st_delivery_identity st)) (st_worker_id st) None
       (st_error_type st) (PyFloat (Fin (st_updated_at st)))"

section \<open>Streams that others use between two reads\<close>

fun snapshots :: "stream_call list list \<Rightarrow> stream_system \<Rightarrow> InMemoryStreamCache list" where
  "snapshots [] X = []"
| "snapshots (calls # css) X = (let Z = run stream_step calls X in snd Z # snapshots css Z)"

text \<open>The log of a stream and how many of its records are gone, after some calls.\<close>

definition log_after :: "StreamKey \<Rightarrow> InMemoryLeaseCache \<times> stream_spec \<Rightarrow> bytes list" where
  "log_after k Y = queue_of (sp_log (snd Y)) k"

definition gone_after :: "StreamKey \<Rightarrow> InMemoryLeaseCache \<times> stream_spec \<Rightarrow> nat" where
  "gone_after k Y = expired_count (sp_max_records (snd Y)) (log_after k Y)"

fun log_views :: "StreamKey \<Rightarrow> stream_call list list \<Rightarrow> InMemoryLeaseCache \<times> stream_spec \<Rightarrow> (StreamRecord list \<times> nat) list" where
  "log_views k [] Y = []"
| "log_views k (calls # css) Y =
     (let Z = run spec_step calls Y in (number_from (snd k) 1 (log_after k Z), gone_after k Z) # log_views k css Z)"

lemma snapshots_views:
  assumes "system_rel X Y" and "stream_key (PyStr ow) (PyStr st) = Inr k" and "validate_limit (PyInt page) = Inr page"
  shows "list_all2 (\<lambda>c (L, g). stream_view ow st page c L g) (snapshots css X) (log_views k css Y)"
  using assms(1)
proof (induction css arbitrary: X Y)
  case (Cons calls css)
  have rel: "system_rel (run stream_step calls X) (run spec_step calls Y)"
    using stream_log.run_related [OF Cons.prems] .
  then have "stream_view ow st page (snd (run stream_step calls X)) (number_from (snd k) 1 (log_after k (run spec_step calls Y)))
      (gone_after k (run spec_step calls Y))"
    using assms(2,3) by (auto simp: stream_view_def system_rel_def log_after_def gone_after_def)
  then show ?case using Cons.IH [OF rel] by (simp add: Let_def)
qed simp

lemma log_le_views:
  assumes "log_le (snd Y) (snd Z)"
  shows "log_extends (number_from st 1 (log_after k Y)) (number_from st 1 (log_after k Z)) \<and> gone_after k Y \<le> gone_after k Z"
proof -
  obtain cs where "log_after k Z = log_after k Y @ cs" using assms unfolding log_le_def log_after_def log_extends_def by blast
  then show ?thesis using assms by (auto simp: number_from_append gone_after_def expired_count_def log_le_def)
qed

lemma log_views_nth:
  "i < length css \<Longrightarrow> log_views k css Y ! i =
     (number_from (snd k) 1 (log_after k (run spec_step (concat (take (Suc i) css)) Y)),
      gone_after k (run spec_step (concat (take (Suc i) css)) Y))"
proof (induction css arbitrary: Y i)
  case (Cons calls css)
  then show ?case by (cases i) (simp_all add: Let_def)
qed simp

lemma length_log_views [simp]: "length (log_views k css Y) = length css"
  by (induction css arbitrary: Y) (simp_all add: Let_def)

lemma log_views_at:
  assumes "(L, g) \<in> set (log_views k css Y)"
  shows "\<exists>i < length css. L = number_from (snd k) 1 (log_after k (run spec_step (concat (take (Suc i) css)) Y))
    \<and> g = gone_after k (run spec_step (concat (take (Suc i) css)) Y)"
  using assms by (auto simp: in_set_conv_nth log_views_nth)

lemma snapshots_take: "snapshots (take i css) X = take i (snapshots css X)"
proof (induction css arbitrary: X i)
  case (Cons calls css)
  then show ?case by (cases i) (simp_all add: Let_def)
qed simp

lemma log_views_grow: "grows (log_views k css Y)"
proof (induction css arbitrary: Y)
  case (Cons calls css)
  let ?Z = "run spec_step calls Y"
  have "log_extends (number_from (snd k) 1 (log_after k ?Z)) L \<and> gone_after k ?Z \<le> g" if "(L, g) \<in> set (log_views k css ?Z)" for L g
    using log_views_at [OF that] log_le_views [OF spec_run_grows] by blast
  then show ?case using Cons.IH [of ?Z] by (auto simp: grows_def Let_def)
qed (simp add: grows_def)

section \<open>What the queries return\<close>

text \<open>The references: one pass over payloads.\<close>

definition task_events :: "(bytes \<Rightarrow> pyvalue result) \<Rightarrow> UUID \<Rightarrow> bytes list \<Rightarrow> TaskLifecycleEvent list" where
  "task_events wide task_id bs =
     concat (map (\<lambda>b. case decode_event wide b of
        Inl _ \<Rightarrow> []
      | Inr ev \<Rightarrow> if ev_task_id ev = task_id then [ev] else []) bs)"

definition applied_events :: "pyfloat \<Rightarrow> TaskLifecycleEvent list \<Rightarrow> TaskStatusProjection \<Rightarrow> TaskStatusProjection" where
  "applied_events now evs p = fold (\<lambda>ev p. snd (apply_event now ev p)) evs p"

lemma task_events_simps [simp]:
  "task_events wide t [] = []"
  "task_events wide t (b # bs) =
     (case decode_event wide b of
        Inl _ \<Rightarrow> task_events wide t bs
      | Inr ev \<Rightarrow> if ev_task_id ev = t then ev # task_events wide t bs else task_events wide t bs)"
  by (auto simp: task_events_def split: sum.splits)

lemma absorb_lifecycle:
  "absorb (lifecycle_step wide t) rs evs = Inr evs' \<Longrightarrow> evs' = evs @ map public_event (task_events wide t (map sr_payload rs))"
proof (induction rs arbitrary: evs)
  case (Cons r rs)
  then obtain evs1 where step: "lifecycle_step wide t r evs = Inr evs1" "absorb (lifecycle_step wide t) rs evs1 = Inr evs'"
    by auto
  from Cons.IH [OF step(2)] step(1) show ?case by (auto simp: lifecycle_step_def split: sum.splits if_splits)
qed simp


lemma applied_events_retention [simp]: "tp_retention_seconds (applied_events now evs p) = tp_retention_seconds p"
proof (induction evs arbitrary: p)
  case (Cons ev evs)
  then show ?case using task_step_limits(1) [of "Apply now ev" p] by (simp add: applied_events_def)
qed (simp add: applied_events_def)


lemma payloads_number_from [simp]: "map sr_payload (number_from st n bs) = bs"
  by (induction st n bs rule: number_from.induct) simp_all

text \<open>A loop that returned has read the stream under a valid name and page limit.\<close>

lemma task_loop_valid:
  assumes "replay_loop (task_stream_read pol) page step start position a restarted cs = Some (Inr r)"
    and "stream_key (PyStr (po_owner pol)) (PyStr (po_stream pol)) = Inr k"
  shows "validate_limit (PyInt (po_replay_page_limit pol)) = Inr (po_replay_page_limit pol)"
proof (cases cs)
  case (Cons c cs')
  then have "task_stream_read pol position c = Inl CachePositionExpiredError \<or> (\<exists>rs. task_stream_read pol position c = Inr rs)"
    using assms by (auto split: sum.splits if_splits)
  then show ?thesis using assms(2)
    by (auto simp: task_stream_read_def stream_read_def validate_limit_def validator_eqs split: sum.splits if_splits)
qed (use assms in simp)

text \<open>The loop of a query over the snapshots. The read with index \<open>i\<close> was its last one.\<close>

lemma task_loop_segment:
  fixes pol step start position
  defines "loop \<equiv> replay_loop (task_stream_read pol) (po_replay_page_limit pol) step start position start False"
  assumes rel: "system_rel X Y" and key: "stream_key (PyStr (po_owner pol)) (PyStr (po_stream pol)) = Inr k"
    and returns: "loop (snapshots css X) = Some (Inr (a, position'))"
    and pos: "position = None \<or> position = Some (StreamPosition (int n)) \<and> n \<le> length (log_after k Y)"
  shows "\<exists>i < length css. \<exists>m. let Z = run spec_step (concat (take (Suc i) css)) Y in
    loop (snapshots (take i css) X) = None \<and> loop (snapshots (take (Suc i) css) X) = Some (Inr (a, position'))
    \<and> (m \<le> gone_after k Z \<or> position \<noteq> None \<and> m = n)
    \<and> absorb step (number_from (snd k) (int m + 1) (drop m (log_after k Z))) start = Inr a
    \<and> position' = (if position = None \<and> log_after k Z = [] then None else Some (StreamPosition (int (length (log_after k Z)))))"
proof -
  let ?views = "log_views k css Y" and ?m0 = "if position = None then 0 else n"
  have read: "task_stream_read pol = (\<lambda>p c. stream_read (PyStr (po_owner pol)) (PyStr (po_stream pol)) p (PyInt (po_replay_page_limit pol)) c)"
    by (rule ext)+ (simp add: task_stream_read_def)
  note views = snapshots_views [OF rel key task_loop_valid [OF returns [unfolded loop_def] key], of css]
  have len: "n \<le> length L" if "(L, g) \<in> set ?views" "position \<noteq> None" for L g
    using log_views_at [OF that(1)] log_le_views [OF spec_run_grows, where k = k] pos that(2) log_extends_length
    by (metis (no_types, lifting) length_number_from order_trans)
  have "stream_pages.absorbed step start ?m0 ?views position start"
  proof (cases position)
    case (Some q)
    then have "\<forall>(L, g) \<in> set ?views. n \<le> length L \<and> (n \<le> g \<or> n = ?m0) \<and> absorb step (drop n (take n L)) start = Inr start"
      using len by auto
    then show ?thesis using pos Some
      unfolding stream_pages.absorbed_def by (intro disjI2 exI [of _ n]) auto
  qed (simp add: stream_pages.absorbed_def)
  from stream_pages.replay_segment [OF returns [unfolded loop_def read] views log_views_grow this]
  obtain i where end_at: "stream_pages.ended_at i step start ?m0 ?views loop (snapshots css X) position a position'"
    unfolding loop_def read by blast
  define Z where "Z = run spec_step (concat (take (Suc i) css)) Y"
  have i: "i < length css" using end_at by (simp add: stream_pages.ended_at_def)
  have at_i: "?views ! i = (number_from (snd k) 1 (log_after k Z), gone_after k Z)"
    using log_views_nth [OF i] by (simp add: Z_def)
  obtain m where m: "m \<le> gone_after k Z \<or> m = ?m0" "absorb step (number_from (snd k) (int m + 1) (drop m (log_after k Z))) start = Inr a"
    using end_at at_i by (auto simp: stream_pages.ended_at_def drop_number_from add.commute)
  have empty: "number_from (snd k) 1 (log_after k Z) = [] \<longleftrightarrow> log_after k Z = []" by (cases "log_after k Z") simp_all
  have "position' = (if position = None \<and> log_after k Z = [] then None else Some (StreamPosition (int (length (log_after k Z)))))"
    using end_at at_i empty by (simp add: stream_pages.ended_at_def)
  then show ?thesis
    using i end_at m unfolding Z_def [symmetric] snapshots_take
    by (intro exI [of _ i] exI [of _ m] conjI) (auto simp: stream_pages.ended_at_def Let_def Z_def split: if_splits)
qed

section \<open>Repairing abandoned tasks\<close>

text \<open>What the constructors have checked of a status.\<close>

definition sound_status :: "TaskStatus \<Rightarrow> bool" where
  "sound_status st \<longleftrightarrow> 1 \<le> st_attempt st \<and> 1 \<le> st_schema_version st \<and> (\<forall>d. st_delivery_attempt st = Some d \<longrightarrow> 1 \<le> d)
     \<and> filled (st_delivery_identity st) \<and> (terminal (st_state st) \<longleftrightarrow> st_terminal_at st \<noteq> None)"

text \<open>The status a repair event leads to: the state and the time change, the rest stays.\<close>

definition repaired :: "TaskState \<Rightarrow> rat \<Rightarrow> string option \<Rightarrow> TaskStatus \<Rightarrow> TaskStatus" where
  "repaired state t err st =
     st\<lparr>st_state := state, st_updated_at := max t (st_updated_at st), st_error_type := err,
        st_terminal_at := Some (case st_terminal_at st of Some u \<Rightarrow> u | None \<Rightarrow> max t (st_updated_at st))\<rparr>"

definition repair_event :: "TaskLifecycleKind \<Rightarrow> rat \<Rightarrow> string option \<Rightarrow> TaskStatus \<Rightarrow> TaskLifecycleEvent" where
  "repair_event kind t err st =
     \<lparr>ev_kind = kind, ev_task_id = st_task_id st, ev_task_name = st_task_name st, ev_schema_version = st_schema_version st,
      ev_queue = st_queue st, ev_correlation_id = st_correlation_id st, ev_causation_id = st_causation_id st,
      ev_attempt = PyInt (st_attempt st), ev_delivery_attempt = st_delivery_attempt st,
      ev_delivery_identity = st_delivery_identity st, ev_worker_id = st_worker_id st, ev_progress = None,
      ev_error_type = err, ev_occurred_at = PyFloat (Fin t)\<rparr>"

lemma optional_values:
  "\<forall>d. x = Some d \<longrightarrow> 1 \<le> d \<Longrightarrow> optional_positive_int (py_opt PyInt x) = Inr x"
  "filled y \<Longrightarrow> optional_identity (py_opt PyStr y) = Inr y"
  by (cases x; simp) (cases y; simp add: filled_def)

lemma repair_events:
  assumes "sound_status st"
  shows "failed_event fresh (Fin t) st err = Inr (repair_event K_FAILED t (case err of None \<Rightarrow> st_error_type st | Some e \<Rightarrow> Some e) st)"
    and "dead_letter_event fresh now st = Inr (repair_event K_DEAD_LETTERED (st_updated_at st) (st_error_type st) st)"
  using assms
  by (simp_all add: failed_event_def dead_letter_event_def new_TaskLifecycleEvent_def make_TaskLifecycleEvent_def
      sound_status_def optional_values repair_event_def)

lemma apply_repair_event:
  assumes "sound_status st" and "kind \<in> {K_FAILED, K_DEAD_LETTERED}"
    and "kind \<in> set (ALLOWED_TRANSITIONS (Some (st_state st)))"
  shows "apply_to_status now (Some st) (repair_event kind t err st)
    = Inr (repaired (KIND_STATE kind) t (case err of None \<Rightarrow> st_error_type st | Some e \<Rightarrow> Some e) st)"
proof -
  let ?ev = "repair_event kind t err st"
  have fails: "kind = K_FAILED \<or> kind = K_DEAD_LETTERED \<and> terminal (st_state st)"
    using assms(2,3) by (cases "st_state st") (auto simp: TERMINAL_TASK_STATES_def)
  have sound: "1 \<le> st_attempt st" "\<forall>d. st_delivery_attempt st = Some d \<longrightarrow> 1 \<le> d" "filled (st_delivery_identity st)"
    "terminal (st_state st) \<longleftrightarrow> st_terminal_at st \<noteq> None"
    using assms(1) by (simp_all add: sound_status_def)
  have ids: "or_current (ev_delivery_attempt ?ev) (Some st) st_delivery_attempt = st_delivery_attempt st"
    "or_current (ev_delivery_identity ?ev) (Some st) st_delivery_identity = st_delivery_identity st"
    "next_worker_id (Some st) ?ev = st_worker_id st" "next_progress (Some st) ?ev = st_progress st"
    "next_error_type (Some st) ?ev = (case err of None \<Rightarrow> st_error_type st | Some e \<Rightarrow> Some e)"
    "next_terminal_at (Some st) ?ev t = Some (case st_terminal_at st of Some u \<Rightarrow> u | None \<Rightarrow> max t (st_updated_at st))"
    using fails sound(4)
    by (auto simp: repair_event_def or_current_def next_worker_id_def next_progress_def next_error_type_def next_terminal_at_def
        split: option.splits)
  have progress: "checked_progress (map_option Safe (st_progress st)) = Inr (st_progress st)" by (cases "st_progress st") simp_all
  have next': "next_status (Some st) ?ev t = Inr (repaired (KIND_STATE kind) t (case err of None \<Rightarrow> st_error_type st | Some e \<Rightarrow> Some e) st)"
    using fails optional_values(1) [OF sound(2)] optional_values(2) [OF sound(3)]
    unfolding next_status_def ids make_TaskStatus_def progress
    by (auto simp: repair_event_def repaired_def TERMINAL_TASK_STATES_def)
  have valid: "validate_identity st ?ev = Inr ()" "validate_attempt (Some st) ?ev = Inr ()" "validate_worker (Some st) ?ev = Inr ()"
    using sound(1) fails
    by (auto simp: repair_event_def validate_identity_def expected_attempt_def validate_worker_def worker_matches_def)
  have ev: "ev_kind ?ev = kind" "ev_task_id ?ev = st_task_id st" "ev_occurred_at ?ev = PyFloat (Fin t)"
    by (simp_all add: repair_event_def)
  show ?thesis using assms(3)
    by (simp add: apply_to_status_def stream_projection_def new_projection_def restore_def apply_event_def apply_new_def already_applied_def
        ev valid next' del: validate_attempt_Inr)
qed

text \<open>An abandoned running task ends in the dead letters.\<close>

lemma abandoned_task_repaired:
  assumes "sound_status st" and "st_state st = RUNNING"
  shows "\<exists>failed ev dead. failed_event fresh (Fin t) st err = Inr ev \<and> apply_to_status now (Some st) ev = Inr failed
    \<and> st_state failed = FAILED \<and> dead_letter_event fresh' now' failed = Inr dead
    \<and> res_bind (apply_to_status now (Some failed) dead) (\<lambda>st'. Inr (st_state st', st_terminal_at st'))
      = Inr (DEAD_LETTERED, st_terminal_at failed)"
proof -
  let ?e = "case err of None \<Rightarrow> st_error_type st | Some e \<Rightarrow> Some e"
  let ?failed = "repaired FAILED t (case ?e of None \<Rightarrow> st_error_type st | Some e \<Rightarrow> Some e) st"
  have "apply_to_status now (Some st) (repair_event K_FAILED t ?e st) = Inr ?failed"
    using apply_repair_event [OF assms(1), of K_FAILED now t ?e] assms(2) by simp
  moreover have sound: "sound_status ?failed" using assms(1) by (simp add: sound_status_def repaired_def TERMINAL_TASK_STATES_def)
  moreover have "st_state ?failed = FAILED" "st_terminal_at ?failed \<noteq> None" by (simp_all add: repaired_def)
  moreover from this have "res_bind (apply_to_status now (Some ?failed)
      (repair_event K_DEAD_LETTERED (st_updated_at ?failed) (st_error_type ?failed) ?failed)) (\<lambda>st'. Inr (st_state st', st_terminal_at st'))
      = Inr (DEAD_LETTERED, st_terminal_at ?failed)"
    using apply_repair_event [OF sound, of K_DEAD_LETTERED now "st_updated_at ?failed" "st_error_type ?failed"]
    by (auto simp: repaired_def split: option.splits)
  ultimately show ?thesis using repair_events(1) [OF assms(1), of fresh t err] repair_events(2) [OF sound, of fresh' now'] by blast
qed

section \<open>A stream with one event\<close>

abbreviation narrow :: "bytes \<Rightarrow> pyvalue result" where
  "narrow \<equiv> \<lambda>_. Inl ValueError"

definition sample_payload :: bytes where
  "sample_payload = projr (encode_event narrow (sample_event K_SUBMITTED 1 3))"

definition demo_policy :: TaskiqLifecyclePolicy where
  "demo_policy = projr (make_TaskiqLifecyclePolicy (PyStr ''o'') (PyStr ''s '') (PyInt 60) (PyStr ''q'') (PyInt 60) (PyInt 30)
     (PyInt 30) (PyInt 10) PyNone (PyInt 1) (PyInt 2))"

definition demo_calls :: "stream_call list" where
  "demo_calls = [SAppend (Fin 0) (Fin 0) (PyStr ''o'') (PyStr ''s'') (PyBytes sample_payload) None]"

lemma sample_payload_length: "length sample_payload \<le> MAX_CACHE_FEATURE_PAYLOAD_BYTES"
proof -
  have "length sample_payload < 1000" by code_simp
  then show ?thesis by (simp add: MAX_CACHE_FEATURE_PAYLOAD_BYTES_def)
qed

lemma sample_payload_decodes: "decode_event narrow sample_payload = Inr (sample_event K_SUBMITTED 1 3)"
proof -
  have "\<not> isl (encode_event narrow (sample_event K_SUBMITTED 1 3))" by code_simp
  then have "encode_event narrow (sample_event K_SUBMITTED 1 3) = Inr sample_payload"
    by (cases "encode_event narrow (sample_event K_SUBMITTED 1 3)") (auto simp: sample_payload_def)
  then show ?thesis by (rule sample_event_reads)
qed

lemma demo_policy_values:
  "po_owner demo_policy = ''o''" "po_stream demo_policy = ''s''" "po_replay_page_limit demo_policy = 2"
  by code_simp+

lemma demo_stream_key: "stream_key (PyStr (po_owner demo_policy)) (PyStr (po_stream demo_policy)) = Inr (''o'', ''s'')"
  by code_simp

lemma demo_append_result:
  "stream_step (SAppend (Fin 0) (Fin 0) (PyStr ''o'') (PyStr ''s'') (PyBytes sample_payload) None) (demo_leases, demo_streams) =
     (demo_leases, demo_streams\<lparr>sm_next_positions := [((''o'', ''s''), 1)],
        sm_records := [((''o'', ''s''), [\<lparr>sr_stream = ''s'', sr_position = StreamPosition 1, sr_payload = sample_payload\<rparr>])]\<rparr>)"
proof -
  have key: "stream_key (PyStr ''o'') (PyStr ''s'') = Inr (''o'', ''s'')" by code_simp
  have resource: "validate_resource (PyStr ''s'') = Inr ''s''" by code_simp
  have position: "make_StreamPosition (PyInt 1) = Inr (StreamPosition 1)" by code_simp
  show ?thesis
    using sample_payload_length
    by (simp add: stream_append_def stream_fence_def fenced_section_def append_section_def latest_position_def key resource position
        demo_streams_def new_stream_cache_def Let_def make_StreamRecord_def queue_of_def)
qed

lemma demo_spec_new: "new_stream_spec (PyInt 2) (PyInt 3) (PyInt 3) ((None :: nat option) \<noteq> None) = Inr demo_spec"
  by (simp add: demo_spec_def new_stream_spec_def)

lemma sample_event_id: "ev_task_id (sample_event kind n t) = 7"
  by (simp add: sample_event_def)


text \<open>The loop on the stream after the one append: a page with one record.\<close>

lemma demo_reads:
  "task_stream_read demo_policy None (snd (run stream_step demo_calls (demo_leases, demo_streams))) =
     Inr [\<lparr>sr_stream = ''s'', sr_position = StreamPosition 1, sr_payload = sample_payload\<rparr>]"
proof -
  have key: "stream_key (PyStr ''o'') (PyStr ''s'') = Inr (''o'', ''s'')" by code_simp
  show ?thesis
    by (simp add: demo_calls_def demo_append_result task_stream_read_def stream_read_def demo_policy_values key read_records_def
        queue_of_def MAX_CACHE_FEATURE_LIMIT_def del: stream_exec.simps)
qed

section \<open>Properties\<close>

text \<open>C26: The history that \<open>lifecycle\<close> returns is complete. Whatever other callers do with the streams between
  two page reads, and whatever the page limit, a query that returns has the events of the task, in the order of
  their positions and each once, that one pass over a segment of the log decodes, the log as it is at the
  last read of the query. The segment ends at the end of the log and begins at or before the oldest record that is
  retained then. The last read is the one with index \<open>i\<close>: with the reads up to it the query returns, without
  it it has not returned.\<close>

theorem lifecycle_query_complete:
  assumes "new_stream_cache mr ms mc = Inr c" and "new_stream_spec mr ms mc (ref \<noteq> None) = Inr S"
    and "stream_key (PyStr (po_owner pol)) (PyStr (po_stream pol)) = Inr k"
    and "X = (s, c\<lparr>sm_lease_cache := ref\<rparr>)"
    and "task_lifecycle wide pol task_id (snapshots css X) = Some (Inr events)"
  shows "\<exists>i < length css. task_lifecycle wide pol task_id (snapshots (take i css) X) = None
    \<and> task_lifecycle wide pol task_id (snapshots (take (Suc i) css) X) = Some (Inr events)
    \<and> (\<exists>m. let Z = run spec_step (concat (take (Suc i) css)) (s, S) in
          m \<le> gone_after k Z \<and> events = map public_event (task_events wide task_id (drop m (log_after k Z))))"
proof -
  have rel: "system_rel X (s, S)"
    using new_stream_rel [OF assms(1,2)] by (simp add: system_rel_def assms(4))
  obtain q where "replay_loop (task_stream_read pol) (po_replay_page_limit pol) (lifecycle_step wide task_id) [] None [] False
      (snapshots css X) = Some (Inr (events, q))"
    using assms(5) by (auto simp: task_lifecycle_def)
  from task_loop_segment [OF rel assms(3) this, of 0] obtain i m where i: "i < length css"
    and seg: "let Z = run spec_step (concat (take (Suc i) css)) (s, S) in
      replay_loop (task_stream_read pol) (po_replay_page_limit pol) (lifecycle_step wide task_id) [] None [] False (snapshots (take i css) X) = None
      \<and> replay_loop (task_stream_read pol) (po_replay_page_limit pol) (lifecycle_step wide task_id) [] None [] False
          (snapshots (take (Suc i) css) X) = Some (Inr (events, q))
      \<and> m \<le> gone_after k Z
      \<and> absorb (lifecycle_step wide task_id) (number_from (snd k) (int m + 1) (drop m (log_after k Z))) [] = Inr events"
    by (auto simp: Let_def)
  then have "events = map public_event (task_events wide task_id (drop m (log_after k (run spec_step (concat (take (Suc i) css)) (s, S)))))"
    using absorb_lifecycle [of wide task_id _ "[]" events] by (fastforce simp: Let_def)
  then show ?thesis using i seg by (intro exI [of _ i] conjI exI [of _ m]) (auto simp: Let_def task_lifecycle_def)
qed

theorem lifecycle_query_complete_witness:
  "\<exists>i < 1. task_lifecycle narrow demo_policy 7 (snapshots (take i [demo_calls]) (demo_leases, demo_streams)) = None
    \<and> task_lifecycle narrow demo_policy 7 (snapshots (take (Suc i) [demo_calls]) (demo_leases, demo_streams))
        = Some (Inr [public_event (sample_event K_SUBMITTED 1 3)])
    \<and> (\<exists>m. let Z = run spec_step (concat (take (Suc i) [demo_calls])) (demo_leases, demo_spec) in m \<le> gone_after (''o'', ''s'') Z
      \<and> [public_event (sample_event K_SUBMITTED 1 3)] = map public_event (task_events narrow 7 (drop m (log_after (''o'', ''s'') Z))))"
proof -
  have "task_lifecycle narrow demo_policy 7 (snapshots [demo_calls] (demo_leases, demo_streams))
      = Some (Inr [public_event (sample_event K_SUBMITTED 1 3)])"
    using demo_reads by (simp add: task_lifecycle_def lifecycle_step_def sample_payload_decodes
        demo_policy_values sample_event_id)
  moreover have "(demo_leases, demo_streams) = (demo_leases, demo_streams\<lparr>sm_lease_cache := None\<rparr>)"
    using demo_streams_unbound by simp
  ultimately show ?thesis
    using lifecycle_query_complete [OF demo_streams_new demo_spec_new demo_stream_key, of _ demo_leases narrow 7 "[demo_calls]"] by simp
qed



text \<open>C28: A query of a stream at rest returns. When no call changes the stream, \<open>lifecycle\<close> needs at most as
  many page reads as the log has records, and two more; it does not loop.\<close>

theorem lifecycle_query_returns:
  assumes "new_stream_cache mr ms mc = Inr c"
    and "run stream_step calls (s, c\<lparr>sm_lease_cache := ref\<rparr>) = (s', c')"
    and "stream_key (PyStr (po_owner pol)) (PyStr (po_stream pol)) = Inr k"
    and "1 \<le> po_replay_page_limit pol" and "po_replay_page_limit pol \<le> MAX_CACHE_FEATURE_LIMIT"
    and "latest_position k c' + 2 \<le> int n"
  shows "\<exists>r. task_lifecycle wide pol task_id (replicate n c') = Some r"
proof -
  obtain S where rel: "stream_rel c' S" using run_stream_rel [OF assms(1,2)] by blast
  let ?bs = "queue_of (sp_log S) k"
  have view: "stream_view (po_owner pol) (po_stream pol) (po_replay_page_limit pol) c' (number_from (snd k) 1 ?bs)
      (expired_count (sp_max_records S) ?bs)"
    using rel assms(3-5) by (auto simp: stream_view_def)
  have "latest_position k c' = int (length ?bs)"
    using rel by (simp add: stream_rel_def latest_position_def queue_of_def split: option.splits)
  then have len: "Suc (length (number_from (snd k) 1 ?bs)) < length (replicate n c')" using assms(6) by simp
  have read: "task_stream_read pol = (\<lambda>p c. stream_read (PyStr (po_owner pol)) (PyStr (po_stream pol)) p (PyInt (po_replay_page_limit pol)) c)"
    by (rule ext)+ (simp add: task_stream_read_def)
  have "\<forall>c \<in> set (replicate n c'). stream_view (po_owner pol) (po_stream pol) (po_replay_page_limit pol) c
      (number_from (snd k) 1 ?bs) (expired_count (sp_max_records S) ?bs)"
    using view by simp
  from stream_pages.replay_returns [OF this len, of None] show ?thesis
    unfolding task_lifecycle_def read by fastforce
qed

theorem lifecycle_query_returns_witness:
  "\<exists>r. task_lifecycle narrow demo_policy 7 (replicate 3 (snd (run stream_step demo_calls (demo_leases, demo_streams)))) = Some r"
proof -
  let ?X = "run stream_step demo_calls (demo_leases, demo_streams\<lparr>sm_lease_cache := None\<rparr>)"
  have pair: "?X = (fst ?X, snd ?X)" by simp
  have "latest_position (''o'', ''s'') (snd ?X) + 2 \<le> int 3"
    by (simp add: demo_streams_unbound [symmetric] demo_calls_def demo_append_result latest_position_def del: stream_exec.simps)
  then have "\<exists>r. task_lifecycle narrow demo_policy 7 (replicate 3 (snd ?X)) = Some r"
    using lifecycle_query_returns [OF demo_streams_new pair demo_stream_key] by (simp add: demo_policy_values MAX_CACHE_FEATURE_LIMIT_def)
  then show ?thesis by (simp only: demo_streams_unbound [symmetric])
qed

end
