(* ===== verification/Spec2Isabelle.thy ===== *)
theory Spec2Isabelle
  imports Atomic_Cache Work_Queue PubSub_Cache Schedule_Cache Scopes Byte_Cache Cache_Backends Cache_Config Task_Store
begin

text \<open>
  A verification library for \<^verbatim>\<open>wybra\<close>, an asynchronous web framework in Python. The sources are under
  \<open>src/src/wybra/\<close>.

  \<^bold>\<open>The program.\<close> A site is put together from modules. The \<^emph>\<open>configuration service\<close> merges the definitions of
  the modules and layers defaults, sources and the environment into values with a provenance. From these the
  \<^emph>\<open>cache registry\<close> builds named caches; a backend offers a byte cache and up to seven features: atomic values,
  leases, work queues, streams, pub/sub, schedules and a clock. The in-memory backend implements all of them; leases
  give out fencing tokens, and atomic values and streams accept writes fenced by a lease. \<^emph>\<open>Tasks\<close> are
  recorded as lifecycle events in a stream; a projection of the events gives the status of a task, and the metadata
  that events carry is redacted by the \<^emph>\<open>secret-safe metadata\<close>. \<^emph>\<open>Content types\<close> are derived from database
  models; \<^emph>\<open>scopes\<close> name what a request requires of them and decide access.

  \<^bold>\<open>Conventions.\<close> A fallible call is a value of \<open>exn + 'a\<close>; an operation on mutable state also returns the state,
  since what the code changed before it raised stays changed. Messages of exceptions are left out. What a
  call takes from outside is an argument: every reading of a clock in the order of the code, fresh UUIDs,
  the results of third-party code. Arguments that the code inspects with \<open>isinstance\<close> are values of \<open>pyobj\<close>. Floats
  are binary64 with rounding (\<open>Py_Float\<close>), ints are unbounded, strings have 8-bit characters, dictionaries are
  association lists in insertion order. A coroutine that can be interleaved with others at its suspension points
  is a step relation or is cut at these points; a call that runs without suspension is one function.

  \<^bold>\<open>Shared theories.\<close>
  \<^item> \<open>Wybra_Prelude\<close>: exceptions, results, dictionaries, strings, runs of calls.
  \<^item> \<open>Py_Float\<close>, \<open>Py_Text\<close>, \<open>Json_Text\<close>, \<open>Json_Roundtrip\<close>: binary64 arithmetic; \<open>repr\<close>, \<open>int\<close> and \<open>float\<close>, UTF-8; the writer
    and the parser of the \<open>json\<close> module. A printed float is read back as the same double, and a written JSON text as
    the same value, with either form of escaping (locale \<open>json_escape\<close>).
  \<^item> \<open>Contracts\<close>: the interfaces as locales: machines with an invariant, bags of work, refinement, stores that stamp
    their writes, lease fences. Each is interpreted in the theory of the component that provides it.
  \<^item> \<open>Paged_Log\<close>: reading a log in pages while it grows and expires (locale \<open>paged_log\<close>, interpreted on the streams).

  \<^bold>\<open>Components.\<close>
  \<^item> \<open>Feature_Models\<close> (\<open>cache/feature_models.py\<close>): value types and validators.
  \<^item> \<open>Lease_Cache\<close> (\<open>cache/memory_leases.py\<close>): fencing tokens increase, a superseded lease is refused ever after, and the
    per-resource lock excludes every interleaving of tasks that would share it.
  \<^item> \<open>Atomic_Cache\<close> (\<open>cache/memory_atomic.py\<close>): one winner per revision, no write by a stale lease.
  \<^item> \<open>Work_Queue\<close> (\<open>cache/memory_queues.py\<close>): work is conserved by every call, held by one consumer at a time, settled once,
    delivered in order; the reserve loop does not spin.
  \<^item> \<open>Stream_Cache\<close>, \<open>PubSub_Cache\<close> (\<open>cache/memory_streams.py\<close>): the streams refine complete logs; consumers skip nothing;
    open subscribers miss nothing.
  \<^item> \<open>Schedule_Cache\<close> (\<open>cache/memory_schedules.py\<close>): claims are exclusive and completed once; due times are in the future and
    in phase, in binary64.
  \<^item> \<open>Byte_Cache\<close> (\<open>cache/capabilities.py\<close>): at most one factory per key in every interleaving of \<open>get_or_set\<close>, and no
    waiter is left behind.
  \<^item> \<open>Cache_Registry\<close>, \<open>Cache_Backends\<close> (\<open>cache/registry.py\<close>, \<open>lifecycle.py\<close>, \<open>settings.py\<close>, \<open>memory_features.py\<close>, \<open>memory_time.py\<close>,
    \<open>feature_contracts.py\<close>): a cache offers exactly its configured features; shutdown calls a closer until it has
    succeeded and not again.
  \<^item> \<open>Config_Types\<close>, \<open>Config_Service\<close>, \<open>Config_Transforms\<close>, \<open>Cache_Config\<close> (\<open>config/types.py\<close>, \<open>service.py\<close>, \<open>sources.py\<close>,
    \<open>transforms.py\<close>, \<open>cache/config.py\<close>, and the parts of \<open>core\<close> and \<open>services\<close> they read): merging is the union of all
    fields and repeated sections or a conflict, a value is that of the last layer that has it, and a loaded cache section is normal (locale
    \<open>normalising_transforms\<close>).
  \<^item> \<open>Safe_Metadata\<close>, \<open>Metadata_Mapping\<close> (\<open>utils/safety.py\<close>): metadata is redacted and bounded, does not depend on secrets,
    and reads back as the canonical values.
  \<^item> \<open>Task_Lifecycle\<close> (\<open>tasks/lifecycle.py\<close>): histories are paths of the transition table; until a task is forgotten,
    finished and with its retention time over, its status never moves backwards and a repeated event counts once.
  \<^item> \<open>Task_Envelope\<close>, \<open>Task_Store\<close> (\<open>tasks/taskiq_lifecycle.py\<close>): events read back from the stream as themselves, but for
    blank names and impossible attempts and times, which only the reader rejects; a query that reads the stream in pages, while others write to it, returns what one pass over the log gives, and it returns
    when the stream is at rest; an abandoned task can be finished by the two repair events.
  \<^item> \<open>Content_Types\<close>, \<open>Scopes\<close> (\<open>content_types.py\<close>, \<open>scopes.py\<close>): lookups are inverse to each other; access is let through
    exactly if every requirement is granted and the object check does not refuse; a validated catalogue has every scope that a decision can require.

  \<^bold>\<open>Bounds and fuel.\<close> The decimal exponent of a double is found in at most 400 steps, since a double lies between
  \<open>1e-324\<close> and \<open>1e309\<close> (lemma on \<open>decimal_exponent\<close> in \<open>Py_Text\<close>). The JSON scanner has fuel for twice the length of its
  text; more fuel makes no difference (\<open>scan_value_fuel\<close>). A loop over pages has one state of the streams for
  each read and answers \<open>None\<close> when the list is too short; \<open>lifecycle_query_returns\<close> gives a length that is enough.

  \<^bold>\<open>Arguments for what is outside.\<close> \<open>wide\<close> is what \<open>json.loads\<close> makes of bytes that need characters beyond U+00FF. The
  plural of a name, the grants of a user, the persisted catalogue, the answers of Redis and NATS runtimes to the
  registry and the values of sources are arguments of the definitions that use them.

  \<^bold>\<open>Not modelled.\<close>
  \<^item> The Redis and NATS features: each operation is a script or a request that a server executes.
  \<^item> Of the event store: the writer of the status projection, its envelopes of statuses, whose times are ints or floats
    as they come, the task that renews the lease, and the middleware on the taskiq package.
  \<^item> Task declarations and workers, which need the signatures of Python functions and the taskiq package.
  \<^item> Accounts, providers, database, forms, templates, views, sessions: code over Tortoise ORM, FastAPI, pydantic, Jinja,
    HTTP and cryptography packages.
  \<^item> The settings base class, which works by reflection on dataclasses, the TOML file source, the path transforms, the
    validation of cache URLs and the fingerprints of partitions.
  \<^item> The recursion limit of Python, the signs of zeros, and characters beyond U+00FF in strings.
\<close>

end
